(* ===== verification/Prelude.thy ===== *)
theory Prelude
  imports Main "HOL-Library.Word"
begin

text \<open>
  Shared vocabulary of the development: the machine integer types of the Rust sources, the
  two shapes of failure (a panic, an \<open>Err\<close>), the integer operations of the core library that
  the sources call, and the lemmas on words and on powers of two that the components use.

  The default build of the kernel and of the bootloader is the release profile, in which the
  arithmetic operators wrap around; \<open>+\<close>, \<open>-\<close> and \<open>*\<close> on words are exactly that.
\<close>

unbundle bit_operations_syntax

named_theorems word_nat \<open>equations that read a word expression as a natural number\<close>
named_theorems rust_defs \<open>definitions of the core library operations\<close>

subsection \<open>Types\<close>

type_synonym u8 = "8 word"
type_synonym u16 = "16 word"
type_synonym u32 = "32 word"
type_synonym u64 = "64 word"
type_synonym u128 = "128 word"
type_synonym usize = "64 word"
type_synonym i32 = "32 word"
type_synonym i64 = "64 word"

text \<open>A panic carries the message of the \<open>panic!\<close>, \<open>expect\<close>, \<open>unwrap\<close> or \<open>assert!\<close>.\<close>

datatype panic = Panic string

text \<open>\<open>Inl\<close> is the failure of a computation: a panic, or the \<open>Err\<close> of a \<open>Result\<close>.\<close>

type_synonym 'a outcome = "panic + 'a"

definition and_then :: "'e + 'a \<Rightarrow> ('a \<Rightarrow> 'e + 'b) \<Rightarrow> 'e + 'b" where
  "and_then r f = (case r of Inl e \<Rightarrow> Inl e | Inr x \<Rightarrow> f x)"

lemma and_then_Inl [simp]: "and_then (Inl e) f = Inl e"
  by (simp add: and_then_def)

lemma and_then_Inr [simp]: "and_then (Inr x) f = f x"
  by (simp add: and_then_def)

lemma and_then_eq_Inr_iff: "and_then r f = Inr y \<longleftrightarrow> (\<exists>x. r = Inr x \<and> f x = Inr y)"
  by (cases r) auto

definition expect :: "string \<Rightarrow> 'a option \<Rightarrow> 'a outcome" where
  "expect msg x = (case x of None \<Rightarrow> Inl (Panic msg) | Some v \<Rightarrow> Inr v)"

lemma expect_Some [simp]: "expect msg (Some v) = Inr v"
  by (simp add: expect_def)

lemma expect_None [simp]: "expect msg None = Inl (Panic msg)"
  by (simp add: expect_def)

subsection \<open>Powers of two\<close>

text \<open>The least power of two that is at least \<open>n\<close>.\<close>

fun npot :: "nat \<Rightarrow> nat" where
  "npot n = (if n \<le> 1 then 1 else 2 * npot ((n + 1) div 2))"

declare npot.simps [simp del]

lemma npot_le_one [simp]: "n \<le> 1 \<Longrightarrow> npot n = 1"
  by (simp add: npot.simps)

lemma npot_exp: "\<exists>k. npot n = 2 ^ k"
proof (induction n rule: npot.induct)
  case (1 n)
  show ?case
  proof (cases "n \<le> 1")
    case True
    then have "npot n = 2 ^ 0" by simp
    then show ?thesis by blast
  next
    case False
    with 1 obtain k where "npot ((n + 1) div 2) = 2 ^ k" by auto
    with False have "npot n = 2 ^ Suc k" by (simp add: npot.simps [of n])
    then show ?thesis by blast
  qed
qed

lemma npot_ge: "n \<le> npot n"
proof (induction n rule: npot.induct)
  case (1 n)
  show ?case
  proof (cases "n \<le> 1")
    case False
    with 1 have "(n + 1) div 2 \<le> npot ((n + 1) div 2)" by simp
    with False show ?thesis by (simp add: npot.simps [of n])
  qed simp
qed

lemma npot_less_double: "0 < n \<Longrightarrow> npot n < 2 * n"
proof (induction n rule: npot.induct)
  case (1 n)
  show ?case
  proof (cases "n \<le> 1")
    case False
    with 1 have "npot ((n + 1) div 2) < 2 * ((n + 1) div 2)" by simp
    moreover obtain k where "npot ((n + 1) div 2) = 2 ^ k" using npot_exp by blast
    moreover have "2 * ((n + 1) div 2) \<le> n + 1" by simp
    ultimately have "2 ^ k \<le> n" by linarith
    show ?thesis
    proof (cases "2 ^ k = n")
      case True
      then have "even n" using False by (cases k) auto
      then have "2 * ((n + 1) div 2) = n" by presburger
      with \<open>npot ((n + 1) div 2) < 2 * ((n + 1) div 2)\<close> \<open>npot ((n + 1) div 2) = 2 ^ k\<close> True
      show ?thesis by simp
    next
      case False
      with \<open>2 ^ k \<le> n\<close> \<open>npot ((n + 1) div 2) = 2 ^ k\<close> \<open>\<not> n \<le> 1\<close> show ?thesis
        by (simp add: npot.simps [of n])
    qed
  qed (use 1 in simp)
qed

lemma npot_pow2 [simp]: "npot (2 ^ k) = 2 ^ k"
proof -
  obtain j where j: "npot (2 ^ k) = 2 ^ j" using npot_exp by blast
  have "(2::nat) ^ k \<le> 2 ^ j" using npot_ge [of "2 ^ k"] j by simp
  moreover have "(2::nat) ^ j < 2 ^ Suc k" using npot_less_double [of "2 ^ k"] j by simp
  ultimately have "k \<le> j" "j < Suc k"
    by (simp_all only: power_increasing_iff power_strict_increasing_iff one_less_numeral_iff
        semiring_norm(76))
  then have "j = k" by simp
  with j show ?thesis by simp
qed

lemma npot_least: "n \<le> 2 ^ k \<Longrightarrow> npot n \<le> 2 ^ k"
proof (cases "n = 0")
  case False
  assume "n \<le> 2 ^ k"
  obtain j where j: "npot n = 2 ^ j" using npot_exp by blast
  have "(2::nat) ^ j < 2 ^ Suc k" using npot_less_double [of n] j False \<open>n \<le> 2 ^ k\<close> by simp
  then have "j \<le> k"
    by (simp only: power_strict_increasing_iff one_less_numeral_iff semiring_norm(76) less_Suc_eq_le)
  with j show ?thesis by simp
qed simp

definition is_pow2 :: "nat \<Rightarrow> bool" where
  "is_pow2 n \<longleftrightarrow> npot n = n"

lemma is_pow2_iff: "is_pow2 n \<longleftrightarrow> (\<exists>k. n = 2 ^ k)"
  unfolding is_pow2_def using npot_exp [of n] by (metis npot_pow2)

lemma is_pow2_pos: "is_pow2 n \<Longrightarrow> 0 < n"
  by (auto simp: is_pow2_iff)

lemma is_pow2_npot [simp]: "is_pow2 (npot n)"
  using npot_exp [of n] by (auto simp: is_pow2_iff)

lemma pow2_dvd_iff_le: "is_pow2 a \<Longrightarrow> is_pow2 b \<Longrightarrow> a dvd b \<longleftrightarrow> a \<le> b"
  by (auto simp: is_pow2_iff le_imp_power_dvd dvd_imp_le dest: power_le_imp_le_exp)

subsection \<open>Integer operations of the core library\<close>

definition is_power_of_two :: "'a::len word \<Rightarrow> bool" where
  [rust_defs]: "is_power_of_two n \<longleftrightarrow> is_pow2 (unat n)"

definition checked_next_power_of_two :: "'a::len word \<Rightarrow> 'a word option" where
  [rust_defs]: "checked_next_power_of_two n =
     (if npot (unat n) < 2 ^ LENGTH('a) then Some (of_nat (npot (unat n))) else None)"

definition saturating_add :: "'a::len word \<Rightarrow> 'a word \<Rightarrow> 'a word" where
  [rust_defs]: "saturating_add a b = (if unat a + unat b < 2 ^ LENGTH('a) then a + b else - 1)"

definition saturating_sub :: "'a::len word \<Rightarrow> 'a word \<Rightarrow> 'a word" where
  [rust_defs]: "saturating_sub a b = (if b \<le> a then a - b else 0)"

definition checked_add :: "'a::len word \<Rightarrow> 'a word \<Rightarrow> 'a word option" where
  [rust_defs]: "checked_add a b = (if unat a + unat b < 2 ^ LENGTH('a) then Some (a + b) else None)"

lemma unat_minus_one_word: "unat (- 1 :: 'a::len word) = 2 ^ LENGTH('a) - 1"
  by (simp add: unsigned_minus_1_eq_mask mask_eq_exp_minus_1)

lemma unat_lt_len [simp]: "unat (x::'a::len word) < 2 ^ LENGTH('a)"
  by (rule unsigned_less)

lemma unat_saturating_add [word_nat]:
  "unat (saturating_add a b) = min (unat a + unat b) (2 ^ LENGTH('a) - 1)"
  for a b :: "'a::len word"
  by (auto simp: saturating_add_def unat_plus_if' unat_minus_one_word min_def)

lemma unat_saturating_sub [word_nat]: "unat (saturating_sub a b) = unat a - unat b"
  by (auto simp: saturating_sub_def unat_sub word_le_nat_alt)

lemma is_power_of_two_iff: "is_power_of_two n \<longleftrightarrow> (\<exists>k<LENGTH('a). unat n = 2 ^ k)"
  for n :: "'a::len word"
proof
  assume "is_power_of_two n"
  then obtain k where k: "unat n = 2 ^ k" by (auto simp: is_power_of_two_def is_pow2_iff)
  have "(2::nat) ^ k < 2 ^ LENGTH('a)" using unat_lt_len [of n] k by simp
  then have "k < LENGTH('a)" by (auto dest: power_less_imp_less_exp)
  with k show "\<exists>k<LENGTH('a). unat n = 2 ^ k" by blast
qed (auto simp: is_power_of_two_def is_pow2_iff)

subsection \<open>Text\<close>

text \<open>
  Rust strings are byte sequences; \<open>str::from_utf8\<close> accepts exactly the well-formed UTF-8 sequences.
  \<open>utf8_seq\<close> is the length of the well-formed sequence at the front, \<open>0\<close> when there is none.
\<close>

definition utf8_cont :: "u8 \<Rightarrow> bool" where
  "utf8_cont b \<longleftrightarrow> 0x80 \<le> b \<and> b \<le> 0xBF"

definition utf8_seq :: "u8 list \<Rightarrow> nat" where
  "utf8_seq bs =
     (case bs of
        [] \<Rightarrow> 0
      | a # r \<Rightarrow>
          if a < 0x80 then 1
          else if 0xC2 \<le> a \<and> a \<le> 0xDF
          then (case r of b # _ \<Rightarrow> if utf8_cont b then 2 else 0 | _ \<Rightarrow> 0)
          else if 0xE0 \<le> a \<and> a \<le> 0xEF
          then (case r of
                  b # c # _ \<Rightarrow>
                    if utf8_cont b \<and> utf8_cont c \<and> (a = 0xE0 \<longrightarrow> 0xA0 \<le> b) \<and> (a = 0xED \<longrightarrow> b \<le> 0x9F)
                    then 3 else 0
                | _ \<Rightarrow> 0)
          else if 0xF0 \<le> a \<and> a \<le> 0xF4
          then (case r of
                  b # c # d # _ \<Rightarrow>
                    if utf8_cont b \<and> utf8_cont c \<and> utf8_cont d \<and> (a = 0xF0 \<longrightarrow> 0x90 \<le> b) \<and>
                       (a = 0xF4 \<longrightarrow> b \<le> 0x8F)
                    then 4 else 0
                | _ \<Rightarrow> 0)
          else 0)"

function utf8_valid :: "u8 list \<Rightarrow> bool" where
  "utf8_valid bs =
     (if bs = [] then True
      else if utf8_seq bs = 0 then False
      else utf8_valid (drop (utf8_seq bs) bs))"
  by pat_completeness auto

termination
  by (relation "measure length") simp_all

declare utf8_valid.simps [simp del]

definition from_utf8 :: "u8 list \<Rightarrow> (u8 list) option" where
  "from_utf8 bs = (if utf8_valid bs then Some bs else None)"

lemma utf8_valid_Nil [simp]: "utf8_valid []"
  by (simp add: utf8_valid.simps)

lemma utf8_valid_ascii: "\<forall>b \<in> set bs. b < 0x80 \<Longrightarrow> utf8_valid bs"
proof (induction bs)
  case (Cons b bs)
  then have "utf8_seq (b # bs) = 1" by (simp add: utf8_seq_def)
  with Cons show ?case by (simp add: utf8_valid.simps [of "b # bs"])
qed simp

text \<open>
  \<open>Utf8Lossy\<close> shows bytes as text: well-formed sequences stay, and each ill-formed part becomes the
  replacement character. \<open>utf8_broken\<close> is the length of the ill-formed part at the front.
\<close>

definition utf8_second :: "u8 \<Rightarrow> u8 \<Rightarrow> bool" where
  "utf8_second a b \<longleftrightarrow>
     utf8_cont b \<and> (a = 0xE0 \<longrightarrow> 0xA0 \<le> b) \<and> (a = 0xED \<longrightarrow> b \<le> 0x9F) \<and> (a = 0xF0 \<longrightarrow> 0x90 \<le> b) \<and> (a = 0xF4 \<longrightarrow> b \<le> 0x8F)"

definition utf8_broken :: "u8 list \<Rightarrow> nat" where
  "utf8_broken bs =
     (case bs of
        a # b # r \<Rightarrow>
          if 0xE0 \<le> a \<and> a \<le> 0xEF \<and> utf8_second a b then 2
          else if 0xF0 \<le> a \<and> a \<le> 0xF4 \<and> utf8_second a b
          then (case r of c # _ \<Rightarrow> if utf8_cont c then 3 else 2 | [] \<Rightarrow> 2)
          else 1
      | _ \<Rightarrow> 1)"

lemma utf8_broken_pos [simp]: "0 < utf8_broken bs"
  by (simp add: utf8_broken_def split: list.splits)

function utf8_lossy :: "u8 list \<Rightarrow> u8 list" where
  "utf8_lossy bs =
     (if bs = [] then []
      else if 0 < utf8_seq bs then take (utf8_seq bs) bs @ utf8_lossy (drop (utf8_seq bs) bs)
      else [0xEF, 0xBF, 0xBD] @ utf8_lossy (drop (utf8_broken bs) bs))"
  by pat_completeness auto

termination
  by (relation "measure length") simp_all

declare utf8_lossy.simps [simp del]

lemma utf8_lossy_valid: "utf8_valid bs \<Longrightarrow> utf8_lossy bs = bs"
proof (induction bs rule: utf8_valid.induct)
  case (1 bs)
  show ?case
  proof (cases "bs = []")
    case False
    then have "utf8_seq bs \<noteq> 0" "utf8_valid (drop (utf8_seq bs) bs)"
      using 1(2) by (auto simp: utf8_valid.simps [of bs] split: if_splits)
    then show ?thesis using 1(1)[OF False] False by (simp add: utf8_lossy.simps [of bs])
  qed (simp add: utf8_lossy.simps)
qed

subsection \<open>Text\<close>

definition bytes_of :: "string \<Rightarrow> u8 list" where
  "bytes_of s = map of_char s"

fun show_nat :: "nat \<Rightarrow> string" where
  "show_nat n = (if n < 10 then [char_of (48 + n)] else show_nat (n div 10) @ [char_of (48 + n mod 10)])"

declare show_nat.simps [simp del]

definition show_i32 :: "i32 \<Rightarrow> string" where
  "show_i32 x = (if sint x < 0 then ''-'' @ show_nat (nat (- sint x)) else show_nat (nat (sint x)))"

subsection \<open>Positions in lists\<close>

text \<open>\<open>iter().position\<close> and \<open>rposition\<close> of the core library.\<close>

primrec position :: "('a \<Rightarrow> bool) \<Rightarrow> 'a list \<Rightarrow> nat option" where
  "position p [] = None"
| "position p (x # xs) = (if p x then Some 0 else map_option Suc (position p xs))"

definition rposition :: "('a \<Rightarrow> bool) \<Rightarrow> 'a list \<Rightarrow> nat option" where
  "rposition p xs = map_option (\<lambda>i. length xs - 1 - i) (position p (rev xs))"

lemma position_None_iff: "position p xs = None \<longleftrightarrow> (\<forall>x\<in>set xs. \<not> p x)"
  by (induction xs) auto

lemma position_SomeD:
  "position p xs = Some i \<Longrightarrow> i < length xs \<and> p (xs ! i) \<and> (\<forall>x\<in>set (take i xs). \<not> p x)"
  by (induction xs arbitrary: i) (auto split: if_splits)

lemma rposition_None_iff: "rposition p xs = None \<longleftrightarrow> (\<forall>x\<in>set xs. \<not> p x)"
  by (simp add: rposition_def position_None_iff)

lemma rposition_SomeD:
  assumes "rposition p xs = Some i"
  shows "i < length xs \<and> p (xs ! i) \<and> (\<forall>x\<in>set (drop (Suc i) xs). \<not> p x)"
proof -
  obtain j where j: "position p (rev xs) = Some j" and i: "i = length xs - 1 - j"
    using assms by (auto simp: rposition_def)
  have at: "j < length xs" "p (rev xs ! j)" "\<forall>x\<in>set (take j (rev xs)). \<not> p x"
    using position_SomeD [OF j] by simp_all
  have d: "set (drop (Suc i) xs) = set (take j (rev xs))"
    using at(1) by (simp add: take_rev i Suc_diff_Suc)
  have "i < length xs" "p (xs ! i)" using at by (simp_all add: i rev_nth)
  with at(3) show ?thesis unfolding d by blast
qed

lemma position_append: "\<forall>x\<in>set xs. \<not> p x \<Longrightarrow> p y \<Longrightarrow> position p (xs @ y # ys) = Some (length xs)"
  by (induction xs) auto

lemma rposition_append: "\<forall>x\<in>set ys. \<not> p x \<Longrightarrow> p y \<Longrightarrow> rposition p (xs @ y # ys) = Some (length xs)"
  by (simp add: rposition_def position_append)

end
