(* ===== verification/AlignUtil.thy ===== *)
theory AlignUtil
  imports Prelude
begin

text \<open>
  Address alignment, \<open>kernel/src/allocator/util.rs\<close>: the two functions as written (a mask and
  two saturating operations), and what they compute as natural numbers.
\<close>

definition align_down :: "usize \<Rightarrow> usize \<Rightarrow> usize outcome" where
  "align_down addr align =
     (if \<not> is_power_of_two align then Inl (Panic ''aligment must be a power of two'')
      else Inr (addr AND NOT (saturating_sub align 1)))"

definition align_up :: "usize \<Rightarrow> usize \<Rightarrow> usize outcome" where
  "align_up addr align = align_down (saturating_sub (saturating_add addr align) 1) align"

subsection \<open>Reading the mask as arithmetic\<close>

lemma unat_and_not_mask: "unat (x AND NOT (mask k) :: 'a::len word) = unat x div 2 ^ k * 2 ^ k"
proof -
  have "x AND NOT (mask k) = push_bit k (drop_bit k x)"
    by (rule bit_word_eqI) (auto simp: bit_simps)
  also have "\<dots> = x - take_bit k x"
    by (metis bits_ident add_diff_cancel_right')
  finally have "x AND NOT (mask k) = x - take_bit k x" .
  moreover have mod: "unat (take_bit k x) = unat x mod 2 ^ k"
    by (subst unsigned_take_bit_eq) (rule take_bit_eq_mod)
  moreover have "take_bit k x \<le> x"
    unfolding word_le_nat_alt mod by simp
  ultimately show ?thesis
    by (simp add: unat_sub minus_mod_eq_div_mult)
qed

lemma word_pow2_minus_one:
  assumes "unat (a::usize) = 2 ^ k"
  shows "saturating_sub a 1 = mask k"
proof -
  have "of_nat (unat a) = (2 ^ k :: usize)"
    unfolding assms by simp
  then have a: "a = 2 ^ k" by simp
  have "1 \<le> a"
    using assms by (simp add: word_le_nat_alt)
  then show ?thesis
    by (simp add: saturating_sub_def a mask_eq_exp_minus_1)
qed

text \<open>The panic is exactly the documented one.\<close>

lemma align_down_panics: "align_down addr align = Inl e \<longleftrightarrow>
    \<not> is_power_of_two align \<and> e = Panic ''aligment must be a power of two''"
  by (auto simp: align_down_def)

lemma align_down_Inr:
  assumes "is_power_of_two align"
  shows "\<exists>r. align_down addr align = Inr r \<and> unat r = unat addr div unat align * unat align"
proof -
  from assms obtain k where k: "unat align = 2 ^ k"
    by (auto simp: is_power_of_two_iff)
  show ?thesis
    using assms by (simp add: align_down_def word_pow2_minus_one [OF k] unat_and_not_mask k)
qed

lemma align_up_Inr:
  assumes "is_power_of_two align" and "unat addr + unat align < 2 ^ 64"
  shows "\<exists>r. align_up addr align = Inr r \<and>
             unat r = (unat addr + unat align - 1) div unat align * unat align"
proof -
  have "unat (saturating_sub (saturating_add addr align) 1) = unat addr + unat align - 1"
    using assms(2) by (simp add: word_nat min_def)
  with align_down_Inr [OF assms(1), of "saturating_sub (saturating_add addr align) 1"]
  show ?thesis by (simp add: align_up_def)
qed

lemma least_multiple:
  fixes n d :: nat
  assumes "0 < d"
  shows "n \<le> (n + d - 1) div d * d" and "(n + d - 1) div d * d < n + d"
    and "n \<le> m \<Longrightarrow> d dvd m \<Longrightarrow> (n + d - 1) div d * d \<le> m"
proof -
  let ?q = "(n + d - 1) div d"
  have split: "?q * d + (n + d - 1) mod d = n + d - 1"
    by (rule div_mult_mod_eq)
  have small: "(n + d - 1) mod d < d"
    using assms by simp
  from split small show "n \<le> ?q * d" by linarith
  from split assms show up: "?q * d < n + d" by linarith
  assume "n \<le> m" and "d dvd m"
  then obtain c where c: "m = c * d" by (auto simp: dvd_def mult.commute)
  show "?q * d \<le> m"
  proof (rule ccontr)
    assume "\<not> ?q * d \<le> m"
    then have "Suc c \<le> ?q" using c by (simp add: not_le)
    then have "Suc c * d \<le> ?q * d" by (rule mult_le_mono1)
    with c \<open>n \<le> m\<close> up show False by simp
  qed
qed

lemma align_up_ok:
  assumes "is_power_of_two align" and "unat addr + unat align < 2 ^ 64"
  obtains r where "align_up addr align = Inr r" and "addr \<le> r" and "unat r < unat addr + unat align"
    and "unat align dvd unat r"
    and "unat r = (unat addr + unat align - 1) div unat align * unat align"
proof -
  have pos: "0 < unat align"
    using assms(1) by (auto simp: is_power_of_two_def dest: is_pow2_pos)
  from align_up_Inr [OF assms] obtain r where r: "align_up addr align = Inr r"
    "unat r = (unat addr + unat align - 1) div unat align * unat align" by blast
  with least_multiple(1,2) [OF pos, of "unat addr"] show thesis
    by (intro that [of r]) (auto simp: word_le_nat_alt)
qed

subsection \<open>Correctness\<close>

text \<open>On a power-of-two alignment, \<open>align_down\<close> returns the greatest multiple of the alignment
  that is at most the address; on any other alignment it panics with its message.\<close>

theorem align_down_greatest_multiple:
  "(case align_down addr align of
      Inl e \<Rightarrow> \<not> is_power_of_two align \<and> e = Panic ''aligment must be a power of two''
    | Inr r \<Rightarrow> is_power_of_two align \<and> r \<le> addr \<and> unat align dvd unat r \<and> unat addr < unat r + unat align)"
proof (cases "is_power_of_two align")
  case True
  then have pos: "0 < unat align"
    by (auto simp: is_power_of_two_def dest: is_pow2_pos)
  from align_down_Inr [OF True] obtain r where "align_down addr align = Inr r"
    and "unat r = unat addr div unat align * unat align" by blast
  moreover have "unat addr < unat addr div unat align * unat align + unat align"
    using pos by (metis add_less_cancel_left div_mult_mod_eq mod_less_divisor)
  ultimately show ?thesis
    using True by (simp add: word_le_nat_alt)
qed (simp add: align_down_def)

text \<open>when the address plus the alignment does not overflow, \<open>align_up\<close> returns the least
  multiple of a power-of-two alignment that is at least the address.\<close>

theorem align_up_least_multiple:
  assumes "is_power_of_two align" and "unat addr + unat align < 2 ^ 64"
  shows "\<exists>r. align_up addr align = Inr r \<and> addr \<le> r \<and> unat align dvd unat r \<and>
             (\<forall>m. unat addr \<le> m \<and> unat align dvd m \<longrightarrow> unat r \<le> m)"
proof -
  have pos: "0 < unat align"
    using assms(1) by (auto simp: is_power_of_two_def dest: is_pow2_pos)
  obtain r where r: "align_up addr align = Inr r" "addr \<le> r" "unat align dvd unat r"
    "unat r = (unat addr + unat align - 1) div unat align * unat align"
    using align_up_ok [OF assms] by blast
  then show ?thesis
    using least_multiple(3) [OF pos, of "unat addr"] by auto
qed

theorem align_up_least_multiple_witness:
  "\<exists>r. align_up 0xABCDAB 0x100 = Inr r \<and> 0xABCDAB \<le> r \<and> unat (0x100::usize) dvd unat r \<and>
       (\<forall>m. unat (0xABCDAB::usize) \<le> m \<and> unat (0x100::usize) dvd m \<longrightarrow> unat r \<le> m)"
proof (rule align_up_least_multiple)
  show "is_power_of_two (0x100::usize)"
    by (simp add: is_power_of_two_iff exI [of _ 8])
qed simp

text \<open>The saturating addition makes \<open>align_up\<close> round \<^emph>\<open>down\<close> at the top of the address space,
  against the comment of the function (the result is documented to be at least the address).\<close>

lemma align_up_below_addr: "align_up (- 1) 16 = Inr 0xFFFFFFFFFFFFFFF0 \<and> (0xFFFFFFFFFFFFFFF0::usize) < - 1"
proof -
  have "is_power_of_two (16::usize)"
    by (simp add: is_power_of_two_iff exI [of _ 4])
  then show ?thesis
    by (simp add: align_up_def align_down_def saturating_add_def saturating_sub_def unat_minus_one_word)
qed

end
