(* ===== verification/HeapApi.thy ===== *)
theory HeapApi
  imports Prelude
begin

text \<open>
  The allocation interface of the \<open>alloc\<close> crate that the kernel's allocators implement
  (\<open>Layout\<close>, \<open>AllocErr\<close>), and the contract that every allocator of \<open>kernel/src/allocator\<close> keeps,
  as the locale \<open>heap_allocator\<close>: what its clients may rely on whatever sequence of allocations,
  deallocations and writes to their own blocks they perform.
\<close>

record layout =
  lay_size :: usize
  lay_align :: usize

datatype alloc_err =
    Exhausted layout
  | Unsupported string

definition from_size_align_unchecked :: "usize \<Rightarrow> usize \<Rightarrow> layout" where
  "from_size_align_unchecked sz align = \<lparr>lay_size = sz, lay_align = align\<rparr>"

text \<open>\<open>Layout::from_size_align\<close>: the alignment is a power of two of at most \<open>2 ^ 31\<close>, and rounding the
  size up to the alignment does not overflow.\<close>

definition from_size_align :: "usize \<Rightarrow> usize \<Rightarrow> layout option" where
  "from_size_align sz align =
     (if \<not> is_power_of_two align then None
      else if align > 0x80000000 then None
      else if sz > - 1 - (align - 1) then None
      else Some (from_size_align_unchecked sz align))"

definition layout_ok :: "layout \<Rightarrow> bool" where
  "layout_ok l \<longleftrightarrow> from_size_align (lay_size l) (lay_align l) = Some l"

lemma layout_okD:
  assumes "layout_ok l"
  shows "is_power_of_two (lay_align l)" and "unat (lay_align l) \<le> 2 ^ 31" and "0 < unat (lay_align l)"
proof -
  from assms show *: "is_power_of_two (lay_align l)" and "unat (lay_align l) \<le> 2 ^ 31"
    by (auto simp: layout_ok_def from_size_align_def word_less_nat_alt split: if_splits)
  from * show "0 < unat (lay_align l)"
    by (auto simp: is_power_of_two_def dest: is_pow2_pos)
qed

text \<open>The bytes of a block.\<close>

definition block :: "nat \<Rightarrow> nat \<Rightarrow> nat set" where
  "block a n = {a ..< a + n}"

lemma block_mono: "n \<le> k \<Longrightarrow> block a n \<subseteq> block a k"
  by (auto simp: block_def)

lemma mem_block: "x \<in> block a n \<longleftrightarrow> a \<le> x \<and> x < a + n"
  by (simp add: block_def)

subsection \<open>Histories of a heap\<close>

text \<open>
  A heap and its live allocations, after any sequence of successful allocations, deallocations of
  live blocks with their original layout, and changes \<open>env\<close> that the owners of live blocks make.
\<close>

inductive heap_reach ::
  "(layout \<Rightarrow> bool) \<Rightarrow> (layout \<Rightarrow> 's \<Rightarrow> (usize \<times> 's) option) \<Rightarrow>
   (usize \<Rightarrow> layout \<Rightarrow> 's \<Rightarrow> 's option) \<Rightarrow> ('s \<Rightarrow> (usize \<times> layout) list \<Rightarrow> 's \<Rightarrow> bool) \<Rightarrow> 's \<Rightarrow>
   's \<Rightarrow> (usize \<times> layout) list \<Rightarrow> bool"
  for ok allocf freef env s0
where
  hr_init: "heap_reach ok allocf freef env s0 s0 []"
| hr_alloc: "heap_reach ok allocf freef env s0 s live \<Longrightarrow> ok l \<Longrightarrow> allocf l s = Some (p, s') \<Longrightarrow>
     heap_reach ok allocf freef env s0 s' ((p, l) # live)"
| hr_free: "heap_reach ok allocf freef env s0 s (xs @ (p, l) # ys) \<Longrightarrow> freef p l s = Some s' \<Longrightarrow>
     heap_reach ok allocf freef env s0 s' (xs @ ys)"
| hr_env: "heap_reach ok allocf freef env s0 s live \<Longrightarrow> env s live s' \<Longrightarrow>
     heap_reach ok allocf freef env s0 s' live"

text \<open>
  The live blocks lie in the region and are aligned, and are disjoint from each other and from the
  bytes that are still free.
\<close>

definition blocks_disjoint :: "(layout \<Rightarrow> nat) \<Rightarrow> (usize \<times> layout) list \<Rightarrow> bool" where
  "blocks_disjoint extent live \<longleftrightarrow>
     sorted_wrt (\<lambda>(p, l) (q, k). block (unat p) (extent l) \<inter> block (unat q) (extent k) = {}) live"

definition live_ok ::
  "('s \<Rightarrow> bool) \<Rightarrow> ('s \<Rightarrow> nat set) \<Rightarrow> (layout \<Rightarrow> bool) \<Rightarrow> (layout \<Rightarrow> nat) \<Rightarrow> nat set \<Rightarrow> 's \<Rightarrow>
   (usize \<times> layout) list \<Rightarrow> bool"
where
  "live_ok invar free ok extent region s live \<longleftrightarrow>
     invar s \<and> free s \<subseteq> region \<and>
     (\<forall>(p, l) \<in> set live. ok l \<and> block (unat p) (extent l) \<subseteq> region \<and>
        block (unat p) (extent l) \<inter> free s = {} \<and> unat (lay_align l) dvd unat p) \<and>
     blocks_disjoint extent live"

lemma live_okI:
  assumes "invar s" and "free s \<subseteq> region"
    and "\<And>p l. (p, l) \<in> set live \<Longrightarrow> ok l \<and> block (unat p) (extent l) \<subseteq> region \<and>
           block (unat p) (extent l) \<inter> free s = {} \<and> unat (lay_align l) dvd unat p"
    and "blocks_disjoint extent live"
  shows "live_ok invar free ok extent region s live"
  unfolding live_ok_def
proof (intro conjI ballI)
  fix x
  assume "x \<in> set live"
  then show "case x of (p, l) \<Rightarrow> ok l \<and> block (unat p) (extent l) \<subseteq> region \<and>
    block (unat p) (extent l) \<inter> free s = {} \<and> unat (lay_align l) dvd unat p"
    using assms(3) [of "fst x" "snd x"] by (simp add: split_beta)
qed (rule assms)+

lemma live_okD:
  assumes "live_ok invar free ok extent region s live"
  shows "invar s" and "free s \<subseteq> region" and "blocks_disjoint extent live"
    and "\<And>p l. (p, l) \<in> set live \<Longrightarrow> ok l \<and> block (unat p) (extent l) \<subseteq> region \<and>
           block (unat p) (extent l) \<inter> free s = {} \<and> unat (lay_align l) dvd unat p"
  using assms unfolding live_ok_def by auto

lemma blocks_disjoint_Cons: "blocks_disjoint extent ((p, l) # live) \<longleftrightarrow>
    (\<forall>(q, k) \<in> set live. block (unat p) (extent l) \<inter> block (unat q) (extent k) = {}) \<and>
    blocks_disjoint extent live"
  by (auto simp: blocks_disjoint_def)

lemma blocks_disjoint_remove:
  assumes "blocks_disjoint extent (xs @ (p, l) # ys)"
  shows "blocks_disjoint extent (xs @ ys)"
    and "(q, k) \<in> set (xs @ ys) \<Longrightarrow> block (unat q) (extent k) \<inter> block (unat p) (extent l) = {}"
proof -
  show "blocks_disjoint extent (xs @ ys)"
    using assms by (simp add: blocks_disjoint_def sorted_wrt_append)
  assume "(q, k) \<in> set (xs @ ys)"
  with assms show "block (unat q) (extent k) \<inter> block (unat p) (extent l) = {}"
    unfolding blocks_disjoint_def sorted_wrt_append by (auto simp: Int_commute)
qed

subsection \<open>The allocator contract\<close>

text \<open>
  \<open>free s\<close> is the set of bytes the allocator may still hand out and \<open>extent l\<close> the number of bytes
  it sets aside for a layout, at least its size.
\<close>

locale heap_allocator =
  fixes invar :: "'s \<Rightarrow> bool"
    and free :: "'s \<Rightarrow> nat set"
    and ok :: "layout \<Rightarrow> bool"
    and extent :: "layout \<Rightarrow> nat"
    and allocf :: "layout \<Rightarrow> 's \<Rightarrow> (usize \<times> 's) option"
    and freef :: "usize \<Rightarrow> layout \<Rightarrow> 's \<Rightarrow> 's option"
    and env :: "'s \<Rightarrow> (usize \<times> layout) list \<Rightarrow> 's \<Rightarrow> bool"
  assumes extent_ge: "ok l \<Longrightarrow> unat (lay_size l) \<le> extent l"
    and alloc_inv: "invar s \<Longrightarrow> ok l \<Longrightarrow> allocf l s = Some (p, s') \<Longrightarrow> invar s'"
    and alloc_fresh: "invar s \<Longrightarrow> ok l \<Longrightarrow> allocf l s = Some (p, s') \<Longrightarrow>
          block (unat p) (extent l) \<subseteq> free s \<and> free s' \<subseteq> free s - block (unat p) (extent l)"
    and alloc_aligned: "invar s \<Longrightarrow> ok l \<Longrightarrow> allocf l s = Some (p, s') \<Longrightarrow> unat (lay_align l) dvd unat p"
    and free_inv: "invar s \<Longrightarrow> ok l \<Longrightarrow> freef p l s = Some s' \<Longrightarrow>
          block (unat p) (extent l) \<inter> free s = {} \<Longrightarrow> invar s'"
    and free_frees: "invar s \<Longrightarrow> ok l \<Longrightarrow> freef p l s = Some s' \<Longrightarrow>
          block (unat p) (extent l) \<inter> free s = {} \<Longrightarrow> free s' \<subseteq> free s \<union> block (unat p) (extent l)"
    and env_inv: "invar s \<Longrightarrow> env s live s' \<Longrightarrow>
          (\<forall>(p, l) \<in> set live. ok l \<and> block (unat p) (extent l) \<inter> free s = {}) \<Longrightarrow> invar s' \<and> free s' = free s"
begin

lemma live_ok_init: "invar s \<Longrightarrow> free s \<subseteq> region \<Longrightarrow> live_ok invar free ok extent region s []"
  by (simp add: live_ok_def blocks_disjoint_def)

lemma live_ok_alloc:
  assumes live: "live_ok invar free ok extent region s live" and "ok l" and "allocf l s = Some (p, s')"
  shows "live_ok invar free ok extent region s' ((p, l) # live)"
proof (rule live_okI)
  note inv = live_okD(1) [OF live] and old = live_okD(4) [OF live]
  note fresh = alloc_fresh [OF inv assms(2,3)]
  show "invar s'" by (rule alloc_inv [OF inv assms(2,3)])
  show "free s' \<subseteq> region" using fresh live_okD(2) [OF live] by blast
  show "ok k \<and> block (unat q) (extent k) \<subseteq> region \<and> block (unat q) (extent k) \<inter> free s' = {} \<and>
        unat (lay_align k) dvd unat q" if "(q, k) \<in> set ((p, l) # live)" for q k
  proof (cases "(q, k) = (p, l)")
    case True
    with fresh live_okD(2) [OF live] assms(2) alloc_aligned [OF inv assms(2,3)] show ?thesis by blast
  next
    case False
    with that have "(q, k) \<in> set live" by auto
    from old [OF this] fresh show ?thesis by blast
  qed
  have "block (unat p) (extent l) \<inter> block (unat q) (extent k) = {}" if "(q, k) \<in> set live" for q k
    using old [OF that] fresh by blast
  then show "blocks_disjoint extent ((p, l) # live)"
    using live_okD(3) [OF live] by (auto simp: blocks_disjoint_Cons)
qed

lemma live_ok_free:
  assumes live: "live_ok invar free ok extent region s (xs @ (p, l) # ys)" and "freef p l s = Some s'"
  shows "live_ok invar free ok extent region s' (xs @ ys)"
proof (rule live_okI)
  note inv = live_okD(1) [OF live] and old = live_okD(4) [OF live]
    and disj = blocks_disjoint_remove [OF live_okD(3) [OF live]]
  have "(p, l) \<in> set (xs @ (p, l) # ys)" by simp
  from old [OF this] have pl: "ok l" "block (unat p) (extent l) \<inter> free s = {}"
    "block (unat p) (extent l) \<subseteq> region" by blast+
  note freed = free_frees [OF inv pl(1) assms(2) pl(2)]
  show "invar s'" by (rule free_inv [OF inv pl(1) assms(2) pl(2)])
  show "free s' \<subseteq> region" using freed pl(3) live_okD(2) [OF live] by blast
  show "ok k \<and> block (unat q) (extent k) \<subseteq> region \<and> block (unat q) (extent k) \<inter> free s' = {} \<and>
        unat (lay_align k) dvd unat q" if "(q, k) \<in> set (xs @ ys)" for q k
  proof -
    from that have "(q, k) \<in> set (xs @ (p, l) # ys)" by auto
    from old [OF this] disj(2) [OF that] freed show ?thesis by blast
  qed
  show "blocks_disjoint extent (xs @ ys)" by (rule disj(1))
qed

lemma live_ok_env:
  assumes "live_ok invar free ok extent region s live" and "env s live s'"
  shows "live_ok invar free ok extent region s' live"
proof -
  have "invar s' \<and> free s' = free s"
  proof (rule env_inv [OF live_okD(1) [OF assms(1)] assms(2)], rule ballI)
    fix x
    assume "x \<in> set live"
    then show "case x of (p, l) \<Rightarrow> ok l \<and> block (unat p) (extent l) \<inter> free s = {}"
      using live_okD(4) [OF assms(1), of "fst x" "snd x"] by (simp add: split_beta)
  qed
  with assms(1) show ?thesis by (simp add: live_ok_def)
qed

theorem live_blocks_ok:
  assumes "heap_reach ok allocf freef env s0 s live" and "invar s0" and "free s0 \<subseteq> region"
  shows "live_ok invar free ok extent region s live"
  using assms
proof (induction rule: heap_reach.induct)
  case hr_init
  then show ?case by (rule live_ok_init)
next
  case (hr_alloc s live l p s')
  from hr_alloc.IH [OF hr_alloc.prems] hr_alloc.hyps(2,3) show ?case by (rule live_ok_alloc)
next
  case (hr_free s xs p l ys s')
  from hr_free.IH [OF hr_free.prems] hr_free.hyps(2) show ?case by (rule live_ok_free)
next
  case (hr_env s live s')
  from hr_env.IH [OF hr_env.prems] hr_env.hyps(2) show ?case by (rule live_ok_env)
qed

end

end
