(* ===== verification/BumpAlloc.thy ===== *)
theory BumpAlloc
  imports AlignUtil HeapApi
begin

text \<open>
  The bump allocator, \<open>kernel/src/allocator/bump.rs\<close>: allocation moves a pointer up, deallocation
  does nothing.
\<close>

record bump_allocator =
  bump_current :: usize
  bump_end :: usize

definition bump_new :: "usize \<Rightarrow> usize \<Rightarrow> bump_allocator" where
  "bump_new start end' = \<lparr>bump_current = start, bump_end = end'\<rparr>"

definition bump_alloc :: "layout \<Rightarrow> bump_allocator \<Rightarrow> ((alloc_err + usize) \<times> bump_allocator) outcome" where
  "bump_alloc l s =
     and_then (align_up (bump_current s) (lay_align l)) (\<lambda>aligned.
       let nxt = saturating_add aligned (lay_size l)
       in if nxt > bump_end s then Inr (Inl (Exhausted l), s)
          else Inr (Inr aligned, s\<lparr>bump_current := nxt\<rparr>))"

definition bump_dealloc :: "usize \<Rightarrow> layout \<Rightarrow> bump_allocator \<Rightarrow> bump_allocator" where
  "bump_dealloc ptr l s = s"

subsection \<open>Behaviour of an allocation\<close>

text \<open>At the top of the address space rounding up saturates, and the allocation is refused.\<close>

lemma bump_alloc_saturated:
  assumes "layout_ok l" and "unat (bump_end s) \<le> 2 ^ 63"
    and "\<not> unat (bump_current s) + unat (lay_align l) < 2 ^ 64"
  shows "bump_alloc l s = Inr (Inl (Exhausted l), s)"
proof -
  let ?x = "saturating_sub (saturating_add (bump_current s) (lay_align l)) 1"
  note al = layout_okD [OF assms(1)]
  have x: "unat ?x = 2 ^ 64 - 2"
    using assms(3) by (simp add: word_nat min_def)
  obtain r where r: "align_up (bump_current s) (lay_align l) = Inr r"
    and "unat r = unat ?x div unat (lay_align l) * unat (lay_align l)"
    using align_down_Inr [OF al(1), of ?x] by (auto simp: align_up_def)
  moreover have "unat ?x < unat ?x div unat (lay_align l) * unat (lay_align l) + unat (lay_align l)"
    using al(3) by (metis add_less_cancel_left div_mult_mod_eq mod_less_divisor)
  ultimately have "2 ^ 64 - 2 < unat r + 2 ^ 31" using x al(2) by linarith
  then have "unat (bump_end s) < unat (saturating_add r (lay_size l))"
    using assms(2) by (simp add: word_nat min_def)
  then show ?thesis
    by (simp add: bump_alloc_def r word_less_nat_alt)
qed

lemma bump_alloc_cases:
  assumes "layout_ok l" and "unat (bump_end s) \<le> 2 ^ 63"
  shows "bump_alloc l s = Inr (Inl (Exhausted l), s) \<or>
    (\<exists>r. bump_alloc l s = Inr (Inr r, s\<lparr>bump_current := r + lay_size l\<rparr>) \<and>
         unat (r + lay_size l) = unat r + unat (lay_size l) \<and> bump_current s \<le> r \<and>
         unat (lay_align l) dvd unat r \<and> unat r + unat (lay_size l) \<le> unat (bump_end s))"
proof (cases "unat (bump_current s) + unat (lay_align l) < 2 ^ 64")
  case False
  with assms bump_alloc_saturated show ?thesis by blast
next
  case True
  obtain r where r: "align_up (bump_current s) (lay_align l) = Inr r" "bump_current s \<le> r"
    "unat (lay_align l) dvd unat r"
    using align_up_ok [OF layout_okD(1) [OF assms(1)] True] by blast
  show ?thesis
  proof (cases "unat r + unat (lay_size l) \<le> unat (bump_end s)")
    case True
    with assms(2) have fit: "unat r + unat (lay_size l) < 2 ^ 64" by simp
    then have "unat (r + lay_size l) = unat r + unat (lay_size l)"
      by (simp add: unat_plus_if')
    with r True fit show ?thesis
      by (simp add: bump_alloc_def saturating_add_def word_less_nat_alt)
  next
    case False
    with assms(2) have "unat (bump_end s) < unat (saturating_add r (lay_size l))"
      by (simp add: word_nat min_def)
    with r show ?thesis
      by (simp add: bump_alloc_def word_less_nat_alt)
  qed
qed

subsection \<open>The allocator contract\<close>

definition bump_allocf :: "layout \<Rightarrow> bump_allocator \<Rightarrow> (usize \<times> bump_allocator) option" where
  "bump_allocf l s = (case bump_alloc l s of Inr (Inr p, s') \<Rightarrow> Some (p, s') | _ \<Rightarrow> None)"

definition bump_freef :: "usize \<Rightarrow> layout \<Rightarrow> bump_allocator \<Rightarrow> bump_allocator option" where
  "bump_freef p l s = Some (bump_dealloc p l s)"

definition bump_invar :: "bump_allocator \<Rightarrow> bool" where
  "bump_invar s \<longleftrightarrow> unat (bump_end s) \<le> 2 ^ 63"

definition bump_free :: "bump_allocator \<Rightarrow> nat set" where
  "bump_free s = {unat (bump_current s) ..< unat (bump_end s)}"

definition bump_env :: "bump_allocator \<Rightarrow> (usize \<times> layout) list \<Rightarrow> bump_allocator \<Rightarrow> bool" where
  "bump_env s live s' \<longleftrightarrow> s' = s"

definition bump_extent :: "layout \<Rightarrow> nat" where
  "bump_extent l = unat (lay_size l)"

lemma bump_allocf_Some:
  assumes "bump_invar s" and "layout_ok l" and "bump_allocf l s = Some (p, s')"
  shows "s' = s\<lparr>bump_current := p + lay_size l\<rparr>" and "unat (p + lay_size l) = unat p + unat (lay_size l)"
    and "bump_current s \<le> p" and "unat (lay_align l) dvd unat p"
    and "unat p + unat (lay_size l) \<le> unat (bump_end s)"
  using bump_alloc_cases [OF assms(2), of s] assms
  by (auto simp: bump_allocf_def bump_invar_def)

interpretation bump: heap_allocator bump_invar bump_free layout_ok bump_extent bump_allocf bump_freef bump_env
proof unfold_locales
  fix s l p s'
  assume *: "bump_invar s" "layout_ok l" "bump_allocf l s = Some (p, s')"
  note r = bump_allocf_Some [OF *]
  show "bump_invar s'" using r(1) *(1) by (simp add: bump_invar_def)
  show "unat (lay_align l) dvd unat p" by (rule r(4))
  show "block (unat p) (bump_extent l) \<subseteq> bump_free s \<and>
        bump_free s' \<subseteq> bump_free s - block (unat p) (bump_extent l)"
    using r(1,2,3,5) by (auto simp: block_def bump_free_def bump_extent_def word_le_nat_alt)
qed (auto simp: bump_extent_def bump_freef_def bump_dealloc_def bump_env_def)

subsection \<open>Correctness\<close>

text \<open>C6: whatever layouts are requested and in whatever order blocks are returned, the blocks a bump
  allocator over \<open>start .. end\<close> has handed out and that are still live lie inside that region, are
  aligned as requested and do not overlap.\<close>

theorem bump_live_blocks:
  assumes "heap_reach layout_ok bump_allocf bump_freef bump_env (bump_new start end') s live"
    and "unat end' \<le> 2 ^ 63"
  shows "live_ok bump_invar bump_free layout_ok bump_extent {unat start ..< unat end'} s live"
proof (rule bump.live_blocks_ok [OF assms(1)])
  show "bump_invar (bump_new start end')"
    using assms(2) by (simp add: bump_invar_def bump_new_def)
qed (simp add: bump_free_def bump_new_def)

theorem bump_live_blocks_witness:
  "live_ok bump_invar bump_free layout_ok bump_extent {unat (100::usize) ..< unat (200::usize)}
     (bump_new 112 200 \<lparr>bump_current := 136\<rparr>) [(128, \<lparr>lay_size = 8, lay_align = 128\<rparr>)]"
proof (rule bump_live_blocks)
  let ?l = "\<lparr>lay_size = 8, lay_align = 128\<rparr>"
  have pow: "is_power_of_two (128::usize)"
    by (simp add: is_power_of_two_iff exI [of _ 7])
  have "bump_allocf ?l (bump_new 100 200) = Some (128, bump_new 136 200)"
    by (simp add: bump_allocf_def bump_alloc_def bump_new_def align_up_def align_down_def pow
        saturating_add_def saturating_sub_def)
  moreover have "layout_ok ?l"
    by (simp add: layout_ok_def from_size_align_def from_size_align_unchecked_def pow)
  moreover have "bump_new 136 200 = bump_new 112 200 \<lparr>bump_current := 136\<rparr>"
    by (simp add: bump_new_def)
  ultimately show "heap_reach layout_ok bump_allocf bump_freef bump_env (bump_new 100 200)
      (bump_new 112 200 \<lparr>bump_current := 136\<rparr>) [(128, ?l)]"
    using hr_alloc [OF hr_init, of layout_ok ?l bump_allocf "bump_new 100 200" 128 "bump_new 136 200"]
    by simp
qed simp

end
