(* ===== verification/LinkedList.thy ===== *)
theory LinkedList
  imports Prelude
begin

text \<open>
  The intrusive linked list of addresses, \<open>kernel/src/allocator/linked_list.rs\<close>.

  Memory is a store of 64-bit cells, addressed by the pointer that the code dereferences; every
  pointer the allocator follows is 8-byte aligned, so distinct pointers are disjoint cells. A
  \<open>LinkedList\<close> value is the one field of the structure. Where the code holds a list behind a
  reference (the allocator's own \<open>head\<close>, or the \<open>head\<close> field of a block header) the list is the
  cell at an address, and the \<open>_at\<close> operations read it, run the method and write it back.

  The abstraction \<open>ll_rep m p xs\<close> says that following the cells from pointer \<open>p\<close> visits exactly
  the addresses \<open>xs\<close> and ends in the null pointer.
\<close>

type_synonym mem = "usize \<Rightarrow> usize"

record linked_list =
  ll_head :: usize

record iter =
  it_current :: usize

record node =
  nd_prev :: usize
  nd_value :: usize

record iter_mut =
  im_prev :: usize
  im_current :: usize

subsection \<open>LinkedList\<close>

definition LinkedList_new :: linked_list where
  "LinkedList_new = \<lparr>ll_head = 0\<rparr>"

definition is_empty :: "linked_list \<Rightarrow> bool" where
  "is_empty l \<longleftrightarrow> ll_head l = 0"

definition push :: "linked_list \<Rightarrow> usize \<Rightarrow> mem \<Rightarrow> linked_list \<times> mem" where
  "push l item m = (l\<lparr>ll_head := item\<rparr>, m(item := ll_head l))"

definition peek :: "linked_list \<Rightarrow> usize option" where
  "peek l = (if is_empty l then None else Some (ll_head l))"

definition pop :: "linked_list \<Rightarrow> mem \<Rightarrow> usize option \<times> linked_list" where
  "pop l m = (case peek l of None \<Rightarrow> (None, l) | Some value \<Rightarrow> (Some value, l\<lparr>ll_head := m value\<rparr>))"

text \<open>The same methods on a list that lives in memory at address \<open>loc\<close>.\<close>

definition list_at :: "mem \<Rightarrow> usize \<Rightarrow> linked_list" where
  "list_at m loc = \<lparr>ll_head = m loc\<rparr>"

definition push_at :: "usize \<Rightarrow> usize \<Rightarrow> mem \<Rightarrow> mem" where
  "push_at loc item m = (let (l, m') = push (list_at m loc) item m in m'(loc := ll_head l))"

definition pop_at :: "usize \<Rightarrow> mem \<Rightarrow> usize option \<times> mem" where
  "pop_at loc m = (let (v, l) = pop (list_at m loc) m in (v, m(loc := ll_head l)))"

subsection \<open>Iterators\<close>

definition iter_of :: "linked_list \<Rightarrow> iter" where
  "iter_of l = \<lparr>it_current = ll_head l\<rparr>"

definition iter_peek :: "iter \<Rightarrow> usize option" where
  "iter_peek i = peek \<lparr>ll_head = it_current i\<rparr>"

definition iter_next :: "iter \<Rightarrow> mem \<Rightarrow> usize option \<times> iter" where
  "iter_next i m =
     (case pop \<lparr>ll_head = it_current i\<rparr> m of
        (None, _) \<Rightarrow> (None, i)
      | (Some value, l) \<Rightarrow> (Some value, i\<lparr>it_current := ll_head l\<rparr>))"

definition node_pop :: "node \<Rightarrow> mem \<Rightarrow> usize \<times> mem" where
  "node_pop n m = (nd_value n, m(nd_prev n := m (nd_value n)))"

definition iter_mut_of :: "usize \<Rightarrow> mem \<Rightarrow> iter_mut" where
  "iter_mut_of loc m = \<lparr>im_prev = loc, im_current = m loc\<rparr>"

definition iter_mut_next :: "iter_mut \<Rightarrow> mem \<Rightarrow> node option \<times> iter_mut" where
  "iter_mut_next i m =
     (case pop \<lparr>ll_head = im_current i\<rparr> m of
        (None, _) \<Rightarrow> (None, i)
      | (Some value, l) \<Rightarrow>
          (Some \<lparr>nd_prev = im_prev i, nd_value = value\<rparr>,
           i\<lparr>im_prev := im_current i, im_current := ll_head l\<rparr>))"

text \<open>
  \<open>Iterator::fold\<close> over \<open>iter()\<close>: the closure may panic, and may write memory between two calls
  of \<open>next\<close>. \<open>None\<close> is a walk that never ends (a cyclic list).
\<close>

partial_function (option) iter_fold ::
  "('s \<Rightarrow> usize \<Rightarrow> mem \<Rightarrow> ('s \<times> mem) outcome) \<Rightarrow> iter \<Rightarrow> 's \<Rightarrow> mem \<Rightarrow> (('s \<times> mem) outcome) option"
where
  "iter_fold f i s m =
     (case iter_next i m of
        (None, _) \<Rightarrow> Some (Inr (s, m))
      | (Some value, i') \<Rightarrow>
          (case f s value m of
             Inl e \<Rightarrow> Some (Inl e)
           | Inr (s', m') \<Rightarrow> iter_fold f i' s' m'))"

text \<open>\<open>iter_mut().find(pred)\<close>: the first node whose value satisfies the predicate.\<close>

partial_function (option) iter_mut_find ::
  "(usize \<Rightarrow> mem \<Rightarrow> bool) \<Rightarrow> iter_mut \<Rightarrow> mem \<Rightarrow> (node option) option"
where
  "iter_mut_find p i m =
     (case iter_mut_next i m of
        (None, _) \<Rightarrow> Some None
      | (Some n, i') \<Rightarrow> if p (nd_value n) m then Some (Some n) else iter_mut_find p i' m)"

subsection \<open>The abstraction to lists of addresses\<close>

primrec ll_rep :: "mem \<Rightarrow> usize \<Rightarrow> usize list \<Rightarrow> bool" where
  "ll_rep m p [] \<longleftrightarrow> p = 0"
| "ll_rep m p (x # xs) \<longleftrightarrow> p = x \<and> x \<noteq> 0 \<and> ll_rep m (m x) xs"

lemmas ll_defs = LinkedList_new_def is_empty_def push_def peek_def pop_def list_at_def push_at_def
  pop_at_def iter_of_def iter_peek_def iter_next_def node_pop_def iter_mut_of_def iter_mut_next_def

lemma ll_rep_null [simp]: "ll_rep m 0 xs \<longleftrightarrow> xs = []"
  by (cases xs) auto

lemma ll_rep_nonnull: "p \<noteq> 0 \<Longrightarrow> ll_rep m p xs \<longleftrightarrow> (\<exists>ys. xs = p # ys \<and> ll_rep m (m p) ys)"
  by (cases xs) auto

lemma ll_rep_upd [simp]: "a \<notin> set xs \<Longrightarrow> ll_rep (m(a := v)) p xs = ll_rep m p xs"
  by (induction xs arbitrary: p) auto

lemma ll_rep_cong: "(\<And>x. x \<in> set xs \<Longrightarrow> m x = m' x) \<Longrightarrow> ll_rep m p xs = ll_rep m' p xs"
  by (induction xs arbitrary: p) auto

lemma ll_rep_unique: "ll_rep m p xs \<Longrightarrow> ll_rep m p ys \<Longrightarrow> xs = ys"
  by (induction xs arbitrary: p ys) (auto simp: ll_rep_nonnull)

lemma ll_rep_nonzero: "ll_rep m p xs \<Longrightarrow> 0 \<notin> set xs"
  by (induction xs arbitrary: p) auto

lemma ll_rep_suffix: "ll_rep m p (xs @ y # ys) \<Longrightarrow> ll_rep m y (y # ys)"
  by (induction xs arbitrary: p) auto

lemma ll_rep_distinct: "ll_rep m p xs \<Longrightarrow> distinct xs"
proof (induction xs arbitrary: p)
  case (Cons x xs)
  have "x \<notin> set xs"
  proof
    assume "x \<in> set xs"
    then obtain ys zs where xs: "xs = ys @ x # zs" by (meson split_list)
    from Cons.prems have "ll_rep m x (x # zs)"
      unfolding xs using ll_rep_suffix [of m p "x # ys" x zs] by simp
    moreover from Cons.prems have "ll_rep m x (x # xs)" by simp
    ultimately have "x # zs = x # xs" by (rule ll_rep_unique)
    with xs show False by simp
  qed
  with Cons show ?case by auto
qed simp

text \<open>The cell that points at the element after the prefix \<open>xs\<close>: the list head or the last of \<open>xs\<close>.\<close>

definition link_before :: "usize \<Rightarrow> usize list \<Rightarrow> usize" where
  "link_before loc xs = (if xs = [] then loc else last xs)"

lemma link_before_simps [simp]:
  "link_before loc [] = loc" "link_before loc (xs @ [x]) = x" "link_before loc (x # xs) = link_before x xs"
  by (auto simp: link_before_def)

lemma link_before_notin: "loc \<notin> set zs \<Longrightarrow> distinct (xs @ zs) \<Longrightarrow> link_before loc xs \<notin> set zs"
  by (auto simp: link_before_def dest: last_in_set)

text \<open>Rewriting one link: the prefix is kept, the tail becomes whatever the new link represents.\<close>

lemma ll_rep_relink:
  assumes "ll_rep m (m loc) (xs @ ys)" and "loc \<notin> set xs" and "loc \<notin> set zs" and "distinct xs"
    and "set xs \<inter> set zs = {}" and "ll_rep m p zs"
  shows "ll_rep (m(link_before loc xs := p)) ((m(link_before loc xs := p)) loc) (xs @ zs)"
  using assms
proof (induction xs arbitrary: loc)
  case Nil
  then have "ll_rep (m(loc := p)) p zs" using ll_rep_upd [of loc zs m p p] by blast
  then show ?case by (simp del: fun_upd_apply add: fun_upd_same)
next
  case (Cons x xs)
  let ?m = "m(link_before x xs := p)"
  have "ll_rep ?m (?m x) (xs @ zs)"
    using Cons.prems by (intro Cons.IH) auto
  moreover have "m loc = x" "x \<noteq> 0" using Cons.prems(1) by auto
  moreover have "link_before x xs \<noteq> loc"
    using Cons.prems(2) by (auto simp: link_before_def split: if_splits dest: last_in_set)
  ultimately show ?case by (simp del: fun_upd_apply add: fun_upd_other)
qed

lemma ll_rep_at_append: "ll_rep m (m loc) (xs @ y # ys) \<Longrightarrow> m (link_before loc xs) = y \<and> ll_rep m (m y) ys"
  by (induction xs arbitrary: loc) auto

lemma ll_rep_at_end: "ll_rep m (m loc) xs \<Longrightarrow> m (link_before loc xs) = 0"
  by (induction xs arbitrary: loc) auto

subsection \<open>The methods on the abstraction\<close>

lemma push_rep:
  assumes "ll_rep m (ll_head l) xs" and "a \<noteq> 0" and "a \<notin> set xs" and "push l a m = (l', m')"
  shows "ll_rep m' (ll_head l') (a # xs)"
  using assms by (auto simp: push_def)

lemma pop_rep:
  assumes "ll_rep m (ll_head l) xs"
  shows "pop l m = (case xs of [] \<Rightarrow> (None, l) | x # ys \<Rightarrow> (Some x, l\<lparr>ll_head := m x\<rparr>)) \<and>
         ll_rep m (ll_head (snd (pop l m))) (tl xs)"
  using assms by (cases xs) (auto simp: pop_def peek_def is_empty_def)

lemma push_at_rep:
  assumes "ll_rep m (m loc) (xs @ ys)" and "a \<noteq> 0" and "a \<notin> set (xs @ ys)" and "a \<noteq> loc"
    and "loc \<notin> set (xs @ ys)"
  shows "ll_rep (push_at (link_before loc xs) a m) (push_at (link_before loc xs) a m loc) (xs @ a # ys)"
proof -
  let ?k = "link_before loc xs"
  let ?m = "m(a := m ?k)"
  have dist: "distinct (xs @ ys)" using assms(1) by (rule ll_rep_distinct)
  have ak: "a \<noteq> ?k"
    using assms(3,4) by (auto simp: link_before_def split: if_splits dest: last_in_set)
  have tail: "ll_rep m (m ?k) ys"
  proof (cases ys)
    case Nil
    with assms(1) ll_rep_at_end [of m loc xs] show ?thesis by simp
  next
    case (Cons y zs)
    with assms(1) have "m ?k = y \<and> ll_rep m (m y) zs" by (intro ll_rep_at_append) simp
    moreover have "y \<noteq> 0" using ll_rep_nonzero [OF assms(1)] Cons by auto
    ultimately show ?thesis using Cons by simp
  qed
  have "?m loc = m loc" using assms(4) by simp
  then have "ll_rep ?m (?m loc) (xs @ ys)" using assms(1,3) by simp
  moreover have "ll_rep ?m a (a # ys)" using tail assms(2,3) by simp
  ultimately have "ll_rep (?m(?k := a)) ((?m(?k := a)) loc) (xs @ a # ys)"
    using assms dist by (intro ll_rep_relink [where ys = ys]) auto
  then show ?thesis
    using ak by (simp add: push_at_def push_def list_at_def)
qed

lemma node_pop_rep:
  assumes "ll_rep m (m loc) (xs @ x # ys)" and "loc \<notin> set (xs @ x # ys)"
  shows "ll_rep (m(link_before loc xs := m x)) ((m(link_before loc xs := m x)) loc) (xs @ ys)"
proof -
  have "distinct (xs @ x # ys)" using assms(1) by (rule ll_rep_distinct)
  with assms ll_rep_at_append [OF assms(1)] show ?thesis
    by (intro ll_rep_relink) auto
qed

subsection \<open>Walking the list\<close>

lemma iter_fold_null [simp]: "iter_fold f \<lparr>it_current = 0\<rparr> s m = Some (Inr (s, m))"
  by (simp add: iter_fold.simps iter_next_def pop_def peek_def is_empty_def)

lemma iter_fold_step:
  "p \<noteq> 0 \<Longrightarrow> iter_fold f \<lparr>it_current = p\<rparr> s m =
     (case f s p m of Inl e \<Rightarrow> Some (Inl e) | Inr (s', m') \<Rightarrow> iter_fold f \<lparr>it_current = m p\<rparr> s' m')"
  by (subst iter_fold.simps) (simp add: iter_next_def pop_def peek_def is_empty_def)

text \<open>A closure that only reads memory folds over exactly the addresses of the list, in order.\<close>

lemma iter_fold_pure:
  assumes "ll_rep m p xs" and "P s"
    and "\<And>s x. P s \<Longrightarrow> x \<in> set xs \<Longrightarrow> f s x m = Inr (g s x, m) \<and> P (g s x)"
  shows "iter_fold f \<lparr>it_current = p\<rparr> s m = Some (Inr (foldl g s xs, m))"
  using assms
proof (induction xs arbitrary: p s)
  case (Cons x xs)
  then have "f s x m = Inr (g s x, m)" "P (g s x)" by auto
  moreover have "iter_fold f \<lparr>it_current = m x\<rparr> (g s x) m = Some (Inr (foldl g (g s x) xs, m))"
    using Cons.prems \<open>P (g s x)\<close> by (intro Cons.IH) auto
  ultimately show ?case
    using Cons.prems(1) by (simp add: iter_fold_step)
qed simp

lemma iter_mut_find_unfold:
  "iter_mut_find p \<lparr>im_prev = q, im_current = c\<rparr> m =
     (if c = 0 then Some None
      else if p c m then Some (Some \<lparr>nd_prev = q, nd_value = c\<rparr>)
      else iter_mut_find p \<lparr>im_prev = c, im_current = m c\<rparr> m)"
  by (subst iter_mut_find.simps) (simp add: iter_mut_next_def pop_def peek_def is_empty_def)

lemma iter_mut_find_from:
  assumes "ll_rep m c xs"
  shows "iter_mut_find p \<lparr>im_prev = q, im_current = c\<rparr> m =
     Some (case dropWhile (\<lambda>x. \<not> p x m) xs of
             [] \<Rightarrow> None
           | x # _ \<Rightarrow> Some \<lparr>nd_prev = link_before q (takeWhile (\<lambda>x. \<not> p x m) xs), nd_value = x\<rparr>)"
  using assms
proof (induction xs arbitrary: q c)
  case Nil
  then show ?case by (simp add: iter_mut_find_unfold)
next
  case (Cons x xs)
  then show ?case
    by (subst iter_mut_find_unfold) (auto split: list.split simp del: dropWhile_eq_Nil_conv)
qed

text \<open>The search returns the first match, with the address of the cell that points at it.\<close>

lemma iter_mut_find_spec:
  assumes "ll_rep m (m loc) xs"
  shows "iter_mut_find p (iter_mut_of loc m) m =
     Some (case dropWhile (\<lambda>x. \<not> p x m) xs of
             [] \<Rightarrow> None
           | x # _ \<Rightarrow> Some \<lparr>nd_prev = link_before loc (takeWhile (\<lambda>x. \<not> p x m) xs), nd_value = x\<rparr>)"
  using iter_mut_find_from [OF assms] by (simp add: iter_mut_of_def)

subsection \<open>The stack interface\<close>

text \<open>
  What the list promises to a client that only pushes and pops: \<open>rep s xs\<close> relates a state to the
  items it holds, \<open>ok a\<close> says that \<open>a\<close> may be pushed.
\<close>

primrec pop_n :: "('s \<Rightarrow> 'a option \<times> 's) \<Rightarrow> nat \<Rightarrow> 's \<Rightarrow> 'a option list \<times> 's" where
  "pop_n f 0 s = ([], s)"
| "pop_n f (Suc n) s = (let (v, s') = f s; (vs, s'') = pop_n f n s' in (v # vs, s''))"

locale stack_interface =
  fixes rep :: "'s \<Rightarrow> 'a list \<Rightarrow> bool"
    and ok :: "'a \<Rightarrow> bool"
    and spush :: "'s \<Rightarrow> 'a \<Rightarrow> 's"
    and spop :: "'s \<Rightarrow> 'a option \<times> 's"
    and speek :: "'s \<Rightarrow> 'a option"
  assumes rep_push: "rep s xs \<Longrightarrow> ok a \<Longrightarrow> a \<notin> set xs \<Longrightarrow> rep (spush s a) (a # xs)"
    and rep_pop_Nil: "rep s [] \<Longrightarrow> spop s = (None, s)"
    and rep_pop_Cons: "rep s (x # xs) \<Longrightarrow> fst (spop s) = Some x \<and> rep (snd (spop s)) xs"
    and rep_peek: "rep s xs \<Longrightarrow> speek s = (case xs of [] \<Rightarrow> None | x # _ \<Rightarrow> Some x)"
begin

lemma rep_push_all:
  "rep s xs \<Longrightarrow> list_all ok as \<Longrightarrow> distinct (as @ xs) \<Longrightarrow> rep (foldl spush s as) (rev as @ xs)"
proof (induction as arbitrary: s xs)
  case (Cons a as)
  then have "rep (spush s a) (a # xs)" by (auto intro: rep_push)
  then have "rep (foldl spush (spush s a) as) (rev as @ (a # xs))"
    using Cons.prems by (intro Cons.IH) auto
  then show ?case by simp
qed simp

lemma pop_n_rep: "rep s (as @ xs) \<Longrightarrow> fst (pop_n spop (length as) s) = map Some as \<and> rep (snd (pop_n spop (length as) s)) xs"
proof (induction as arbitrary: s)
  case (Cons a as)
  then have "fst (spop s) = Some a" "rep (snd (spop s)) (as @ xs)"
    using rep_pop_Cons [of s a "as @ xs"] by auto
  with Cons.IH [of "snd (spop s)"] show ?case
    by (auto simp: Let_def split: prod.splits)
qed simp

lemma lifo:
  assumes "rep s xs" and "list_all ok as" and "distinct (as @ xs)"
  shows "fst (pop_n spop (length as) (foldl spush s as)) = map Some (rev as) \<and>
         rep (snd (pop_n spop (length as) (foldl spush s as))) xs"
  using pop_n_rep [OF rep_push_all [OF assms]] by simp

end

text \<open>The list value together with memory is such a stack of non-null addresses.\<close>

type_synonym ll_state = "linked_list \<times> mem"

definition ll_state_rep :: "ll_state \<Rightarrow> usize list \<Rightarrow> bool" where
  "ll_state_rep s xs \<longleftrightarrow> ll_rep (snd s) (ll_head (fst s)) xs"

definition push_state :: "ll_state \<Rightarrow> usize \<Rightarrow> ll_state" where
  "push_state s a = push (fst s) a (snd s)"

definition pop_state :: "ll_state \<Rightarrow> usize option \<times> ll_state" where
  "pop_state s = (let (v, l) = pop (fst s) (snd s) in (v, (l, snd s)))"

interpretation ll: stack_interface ll_state_rep "\<lambda>a. a \<noteq> 0" push_state pop_state "\<lambda>s. peek (fst s)"
proof unfold_locales
  fix s :: ll_state and xs and a :: usize
  assume "ll_state_rep s xs" and "a \<noteq> 0" and "a \<notin> set xs"
  then show "ll_state_rep (push_state s a) (a # xs)"
    by (simp add: ll_state_rep_def push_state_def push_def)
next
  fix s :: ll_state and x xs
  assume "ll_state_rep s (x # xs)"
  then show "fst (pop_state s) = Some x \<and> ll_state_rep (snd (pop_state s)) xs"
    using pop_rep [of "snd s" "fst s" "x # xs"]
    by (auto simp: ll_state_rep_def pop_state_def split: prod.splits)
next
  fix s :: ll_state
  assume "ll_state_rep s []"
  then show "pop_state s = (None, s)"
    using pop_rep [of "snd s" "fst s" "[]"]
    by (cases s) (simp add: ll_state_rep_def pop_state_def)
next
  fix s :: ll_state and xs
  assume "ll_state_rep s xs"
  then show "peek (fst s) = (case xs of [] \<Rightarrow> None | x # _ \<Rightarrow> Some x)"
    by (cases xs) (auto simp: ll_state_rep_def peek_def is_empty_def)
qed

subsection \<open>Correctness\<close>

text \<open>Pushing distinct, non-null addresses that are not in the list and popping as many times
  returns them last-in first-out, and the list is the initial one again.\<close>

theorem linked_list_lifo:
  assumes "ll_state_rep s xs" and "list_all (\<lambda>a. a \<noteq> 0) as" and "distinct (as @ xs)"
  shows "fst (pop_n pop_state (length as) (foldl push_state s as)) = map Some (rev as) \<and>
         ll_state_rep (snd (pop_n pop_state (length as) (foldl push_state s as))) xs"
  using assms by (rule ll.lifo)

theorem linked_list_lifo_witness:
  "fst (pop_n pop_state (length [8, 16 :: usize]) (foldl push_state (LinkedList_new, \<lambda>_. 0) [8, 16])) = map Some (rev [8, 16]) \<and>
   ll_state_rep (snd (pop_n pop_state (length [8, 16 :: usize]) (foldl push_state (LinkedList_new, \<lambda>_. 0) [8, 16]))) []"
  by (rule linked_list_lifo) (simp_all add: ll_state_rep_def LinkedList_new_def)

text \<open>\<open>iter()\<close> on a well-formed list terminates and yields every address of the list exactly once,
  in order.\<close>

theorem iter_yields_all:
  assumes "ll_rep m (ll_head l) xs"
  shows "iter_fold (\<lambda>acc x m. Inr (acc @ [x], m)) (iter_of l) [] m = Some (Inr (xs, m)) \<and> distinct xs"
proof -
  have "foldl (\<lambda>acc x. acc @ [x]) ys xs = ys @ xs" for ys :: "usize list"
    by (induction xs arbitrary: ys) auto
  then show ?thesis
    using iter_fold_pure [OF assms, of "\<lambda>_. True" "[]" "\<lambda>acc x m. Inr (acc @ [x], m)" "\<lambda>acc x. acc @ [x]"]
      ll_rep_distinct [OF assms]
    by (simp add: iter_of_def)
qed

theorem iter_yields_all_witness:
  "iter_fold (\<lambda>acc x m. Inr (acc @ [x], m)) (iter_of \<lparr>ll_head = 24\<rparr>) [] ((\<lambda>_. 0)(24 := 8)) =
     Some (Inr ([24, 8], (\<lambda>_. 0)(24 := 8))) \<and> distinct [24, 8 :: usize]"
  by (rule iter_yields_all) simp

text \<open>searching a list with \<open>iter_mut().find(p)\<close> and popping the node found removes exactly the
  first address that satisfies the predicate; if none does, nothing is found.\<close>

theorem iter_mut_find_pop:
  assumes "ll_rep m (m loc) xs" and "loc \<notin> set xs"
  shows "case dropWhile (\<lambda>x. \<not> p x m) xs of
           [] \<Rightarrow> iter_mut_find p (iter_mut_of loc m) m = Some None
         | x # ys \<Rightarrow> (\<exists>n. iter_mut_find p (iter_mut_of loc m) m = Some (Some n) \<and>
              (case node_pop n m of (v, m') \<Rightarrow>
                 v = x \<and> ll_rep m' (m' loc) (takeWhile (\<lambda>x. \<not> p x m) xs @ ys)))"
proof (cases "dropWhile (\<lambda>x. \<not> p x m) xs")
  case Nil
  with iter_mut_find_spec [OF assms(1), of p] show ?thesis
    by (simp del: dropWhile_eq_Nil_conv)
next
  case (Cons x ys)
  let ?pre = "takeWhile (\<lambda>x. \<not> p x m) xs"
  have "xs = ?pre @ x # ys" using Cons by (metis takeWhile_dropWhile_id)
  with assms have "ll_rep (m(link_before loc ?pre := m x)) ((m(link_before loc ?pre := m x)) loc) (?pre @ ys)"
    by (intro node_pop_rep) simp_all
  with Cons iter_mut_find_spec [OF assms(1), of p] show ?thesis
    by (simp only: node_pop_def list.case option.case prod.case node.simps) auto
qed

theorem iter_mut_find_pop_witness:
  "case dropWhile (\<lambda>x. \<not> (\<lambda>x m. x = 8) x ((\<lambda>_. 0)(1 := 24, 24 := 8))) [24, 8 :: usize] of
     [] \<Rightarrow> iter_mut_find (\<lambda>x m. x = 8) (iter_mut_of 1 ((\<lambda>_. 0)(1 := 24, 24 := 8))) ((\<lambda>_. 0)(1 := 24, 24 := 8)) = Some None
   | x # ys \<Rightarrow> (\<exists>n. iter_mut_find (\<lambda>x m. x = 8) (iter_mut_of 1 ((\<lambda>_. 0)(1 := 24, 24 := 8))) ((\<lambda>_. 0)(1 := 24, 24 := 8)) = Some (Some n) \<and>
        (case node_pop n ((\<lambda>_. 0)(1 := 24, 24 := 8)) of (v, m') \<Rightarrow>
           v = x \<and> ll_rep m' (m' 1) (takeWhile (\<lambda>x. \<not> (\<lambda>x m. x = 8) x ((\<lambda>_. 0)(1 := 24, 24 := 8))) [24, 8] @ ys)))"
  by (rule iter_mut_find_pop) simp_all

text \<open>
  Popping two neighbours in one \<open>iter_mut\<close> pass does not work: \<open>next\<close> remembers the node it has just
  returned as the predecessor of the following one, so after that node was popped the second \<open>pop\<close>
  writes into the unlinked node. On the list 24, 16, 8 with its head at address 1, popping 24 and
  then 16 leaves 16 and 8 in the list.
\<close>

lemma iter_mut_pop_adjacent_keeps_second:
  "let m = (\<lambda>_. 0)(1 := 24, 24 := 16, 16 := 8);
       (n1, i1) = iter_mut_next (iter_mut_of 1 m) m;
       (v1, m1) = node_pop (the n1) m;
       (n2, i2) = iter_mut_next i1 m1;
       (v2, m2) = node_pop (the n2) m1
   in ll_rep m (m 1) [24, 16, 8] \<and> v1 = 24 \<and> v2 = 16 \<and> ll_rep m2 (m2 1) [16, 8]"
  by (simp add: ll_defs)

end
