(* ===== verification/BinAlloc.thy ===== *)
theory BinAlloc
  imports AlignUtil LinkedList HeapApi
begin

text \<open>
  The bin allocator, \<open>kernel/src/allocator/bin.rs\<close>, over the memory of the intrusive list: a free
  block at address \<open>p\<close> is a \<open>BlockHeader\<close> stored in the block itself (\<open>#[repr(C)]\<close>: the link at
  \<open>p\<close>, the size at \<open>p + 8\<close>). The allocator's own list head is the cell at \<open>bin_head\<close>, the address of
  the field \<open>self.head\<close>, which the code takes to rewrite the first link.

  Results are layered as the code's are: \<open>None\<close> for a loop that does not end, \<open>Inl\<close> for a panic,
  then the \<open>Result\<close> of the method.
\<close>

definition BLOCK_LEN :: usize where
  "BLOCK_LEN = 16"

record bin_allocator =
  bin_start :: usize
  bin_end :: usize
  bin_head :: usize

subsection \<open>Block headers\<close>

definition bh_size :: "mem \<Rightarrow> usize \<Rightarrow> usize" where
  "bh_size m p = m (p + 8)"

definition set_size :: "usize \<Rightarrow> usize \<Rightarrow> mem \<Rightarrow> mem" where
  "set_size p n m = m(p + 8 := n)"

text \<open>\<open>new_from_ptr\<close> clears the size; its assignment to the local \<open>head_ptr\<close> leaves the link alone.\<close>

definition new_from_ptr :: "usize \<Rightarrow> mem \<Rightarrow> mem" where
  "new_from_ptr p m = set_size p 0 m"

definition matches_exact :: "mem \<Rightarrow> usize \<Rightarrow> layout \<Rightarrow> bool" where
  "matches_exact m p l \<longleftrightarrow> bh_size m p = lay_size l \<and> p mod lay_align l = 0"

definition matches_contains :: "mem \<Rightarrow> usize \<Rightarrow> layout \<Rightarrow> bool" where
  "matches_contains m p l \<longleftrightarrow> bh_size m p > lay_size l \<and> p mod lay_align l = 0"

definition is_adjacent :: "mem \<Rightarrow> usize \<Rightarrow> usize \<Rightarrow> bool" where
  "is_adjacent m p q \<longleftrightarrow> saturating_add p (bh_size m p) = q"

definition equal_size :: "mem \<Rightarrow> usize \<Rightarrow> usize \<Rightarrow> bool" where
  "equal_size m p q \<longleftrightarrow> bh_size m p = bh_size m q"

definition aligned_on :: "usize \<Rightarrow> usize \<Rightarrow> bool outcome" where
  "aligned_on p align =
     (if align = 0 then Inl (Panic ''attempt to calculate the remainder with a divisor of zero'')
      else Inr (p mod align = 0))"

subsection \<open>Layouts and size classes\<close>

definition unwrap_none :: string where
  "unwrap_none = ''called `Option::unwrap()` on a `None` value''"

definition next_power_of_two_below :: "usize \<Rightarrow> usize outcome" where
  "next_power_of_two_below n =
     and_then (expect unwrap_none (checked_next_power_of_two n)) (\<lambda>p. Inr (drop_bit 1 p))"

definition inner_layout :: "layout \<Rightarrow> (layout option) outcome" where
  "inner_layout l =
     (let sz = max (lay_size l) BLOCK_LEN in
      and_then (if \<not> is_power_of_two sz then expect unwrap_none (checked_next_power_of_two sz) else Inr sz)
        (\<lambda>sz. Inr (from_size_align sz (max (lay_align l) BLOCK_LEN))))"

subsection \<open>Splitting\<close>

text \<open>The address at which the block at \<open>ptr\<close> is split (\<open>ptr\<close> itself: not at all).\<close>

definition divide_next_ptr :: "usize \<Rightarrow> mem \<Rightarrow> usize outcome" where
  "divide_next_ptr ptr m =
     and_then (next_power_of_two_below (bh_size m ptr)) (\<lambda>alignment.
     and_then (align_up ptr alignment) (\<lambda>aligned_ptr.
       if ptr \<noteq> aligned_ptr then Inr aligned_ptr
       else if \<not> is_power_of_two (bh_size m ptr)
       then and_then (next_power_of_two_below (bh_size m ptr)) (\<lambda>p. Inr (ptr + p))
       else Inr ptr))"

definition divide_block_at :: "usize \<Rightarrow> usize \<Rightarrow> mem \<Rightarrow> mem" where
  "divide_block_at ptr next_ptr m =
     (let m1 = new_from_ptr next_ptr m;
          diff = saturating_sub next_ptr ptr;
          m2 = set_size next_ptr (bh_size m1 ptr - diff) m1;
          m3 = set_size ptr diff m2
      in push_at ptr next_ptr m3)"

partial_function (option) divide_loop :: "iter \<Rightarrow> mem \<Rightarrow> (mem outcome) option" where
  "divide_loop i m =
     (case iter_peek i of
        None \<Rightarrow> Some (Inr m)
      | Some ptr \<Rightarrow>
          (case divide_next_ptr ptr m of
             Inl e \<Rightarrow> Some (Inl e)
           | Inr next_ptr \<Rightarrow>
               if ptr \<noteq> next_ptr then divide_loop i (divide_block_at ptr next_ptr m)
               else divide_loop (snd (iter_next i m)) m))"

definition divide_maximally :: "bin_allocator \<Rightarrow> mem \<Rightarrow> (mem outcome) option" where
  "divide_maximally a m = divide_loop (iter_of (list_at m (bin_head a))) m"

definition bin_new :: "usize \<Rightarrow> usize \<Rightarrow> usize \<Rightarrow> mem \<Rightarrow> ((bin_allocator \<times> mem) outcome) option" where
  "bin_new start end' loc m =
     (case and_then (align_up start BLOCK_LEN) (\<lambda>start.
             and_then (align_down end' BLOCK_LEN) (\<lambda>end'. Inr (start, end'))) of
        Inl e \<Rightarrow> Some (Inl e)
      | Inr (start, end') \<Rightarrow>
          (let m1 = set_size start (end' - start) (new_from_ptr start m);
               (head, m2) = push LinkedList_new start m1;
               a = \<lparr>bin_start = start, bin_end = end', bin_head = loc\<rparr>
           in map_option (\<lambda>r. and_then r (\<lambda>m. Inr (a, m)))
                (divide_maximally a (m2(loc := ll_head head)))))"

subsection \<open>Joining\<close>

definition defragment_step :: "usize option \<Rightarrow> usize \<Rightarrow> mem \<Rightarrow> (usize option \<times> mem) outcome" where
  "defragment_step prev_ptr cur_ptr m =
     (case prev_ptr of
        None \<Rightarrow> Inr (Some cur_ptr, m)
      | Some pbh \<Rightarrow>
          and_then
            (if is_adjacent m pbh cur_ptr \<and> equal_size m pbh cur_ptr
             then aligned_on pbh (2 * bh_size m pbh) else Inr False)
            (\<lambda>join.
               if join
               then (let m1 = snd (pop_at pbh m)
                     in Inr (Some cur_ptr, set_size pbh (push_bit 1 (bh_size m1 pbh)) m1))
               else Inr (Some cur_ptr, m)))"

definition defragment :: "bin_allocator \<Rightarrow> mem \<Rightarrow> (mem outcome) option" where
  "defragment a m =
     map_option (\<lambda>r. and_then r (\<lambda>(_, m'). Inr m'))
       (iter_fold defragment_step (iter_of (list_at m (bin_head a))) None m)"

subsection \<open>Allocating\<close>

definition find_exact_free_block :: "bin_allocator \<Rightarrow> layout \<Rightarrow> mem \<Rightarrow> (node option) option" where
  "find_exact_free_block a l m =
     iter_mut_find (\<lambda>value m. matches_exact m value l) (iter_mut_of (bin_head a) m) m"

type_synonym search = "usize option \<times> usize option"

definition contains_step :: "layout \<Rightarrow> search \<Rightarrow> usize \<Rightarrow> mem \<Rightarrow> (search \<times> mem) outcome" where
  "contains_step l accum cur_ptr m =
     (case accum of
        (Some prev_ptr, Some found) \<Rightarrow> Inr ((Some prev_ptr, Some found), m)
      | (Some prev_ptr, None) \<Rightarrow>
          if matches_contains m cur_ptr l then Inr ((Some prev_ptr, Some cur_ptr), m)
          else Inr ((Some cur_ptr, None), m)
      | _ \<Rightarrow> Inl (Panic ''internal error: entered unreachable code''))"

definition carve_front :: "layout \<Rightarrow> usize \<Rightarrow> usize \<Rightarrow> mem \<Rightarrow> (usize \<times> mem) outcome" where
  "carve_front l list_ptr cbh m =
     (let mbh = saturating_add cbh (lay_size l);
          m1 = new_from_ptr mbh m;
          diff = saturating_sub mbh cbh;
          m2 = set_size mbh (saturating_sub (bh_size m1 cbh) diff) m1;
          (popped, m3) = pop_at list_ptr m2
      in and_then (expect unwrap_none popped) (\<lambda>v.
           if v \<noteq> cbh then Inl (Panic ''assertion failed: list.pop().unwrap() as usize == cbh.addr()'')
           else if cbh = mbh then Inl (Panic ''assertion failed: cbh.addr() != mbh.addr()'')
           else Inr (cbh, push_at list_ptr mbh m3)))"

definition alloc_inner ::
  "bin_allocator \<Rightarrow> layout \<Rightarrow> mem \<Rightarrow> (((alloc_err + usize) \<times> mem) outcome) option" where
  "alloc_inner a l m =
     (case find_exact_free_block a l m of
        None \<Rightarrow> None
      | Some (Some n) \<Rightarrow> (let (v, m') = node_pop n m in Some (Inr (Inr v, m')))
      | Some None \<Rightarrow>
          (case iter_fold (contains_step l) (iter_of (list_at m (bin_head a))) (Some (bin_head a), None) m of
             None \<Rightarrow> None
           | Some (Inl e) \<Rightarrow> Some (Inl e)
           | Some (Inr ((Some list_ptr, Some cbh), m)) \<Rightarrow>
               Some (and_then (carve_front l list_ptr cbh m) (\<lambda>(p, m'). Inr (Inr p, m')))
           | Some (Inr (_, m)) \<Rightarrow>
               Some (Inr (Inl (Exhausted (from_size_align_unchecked (lay_size l) (lay_align l))), m))))"

text \<open>The request reported in an \<open>Exhausted\<close> error is the caller's, not the rounded one.\<close>

definition map_alloc_err :: "layout \<Rightarrow> alloc_err \<Rightarrow> alloc_err" where
  "map_alloc_err l e =
     (case e of
        Exhausted _ \<Rightarrow> Exhausted (from_size_align_unchecked (lay_size l) (lay_align l))
      | _ \<Rightarrow> e)"

definition bin_alloc ::
  "bin_allocator \<Rightarrow> layout \<Rightarrow> mem \<Rightarrow> (((alloc_err + usize) \<times> mem) outcome) option" where
  "bin_alloc a l m =
     (case and_then (inner_layout l) (expect unwrap_none) of
        Inl e \<Rightarrow> Some (Inl e)
      | Inr inner \<Rightarrow>
          (case alloc_inner a inner m of
             None \<Rightarrow> None
           | Some (Inl e) \<Rightarrow> Some (Inl e)
           | Some (Inr (Inl err, m')) \<Rightarrow> Some (Inr (Inl (map_alloc_err l err), m'))
           | Some (Inr (Inr addr, m')) \<Rightarrow>
               map_option (\<lambda>r. and_then r (\<lambda>m''. Inr (Inr addr, m''))) (divide_maximally a m')))"

subsection \<open>Freeing\<close>

definition insert_step :: "usize \<Rightarrow> search \<Rightarrow> usize \<Rightarrow> mem \<Rightarrow> (search \<times> mem) outcome" where
  "insert_step freed_ptr accum cur_ptr m =
     (case accum of
        (Some prev_ptr, Some found) \<Rightarrow> Inr ((Some prev_ptr, Some found), m)
      | (Some prev_ptr, None) \<Rightarrow>
          if freed_ptr < cur_ptr then Inr ((Some prev_ptr, Some cur_ptr), m)
          else Inr ((Some cur_ptr, None), m)
      | _ \<Rightarrow> Inl (Panic ''internal error: entered unreachable code''))"

definition dealloc_inner :: "bin_allocator \<Rightarrow> usize \<Rightarrow> layout \<Rightarrow> mem \<Rightarrow> (mem outcome) option" where
  "dealloc_inner a ptr l m =
     (case iter_fold (insert_step ptr) (iter_of (list_at m (bin_head a))) (Some (bin_head a), None) m of
        None \<Rightarrow> None
      | Some (Inl e) \<Rightarrow> Some (Inl e)
      | Some (Inr ((Some prev_ptr, Some _), m)) \<Rightarrow>
          (let m1 = set_size ptr (lay_size l) (new_from_ptr ptr m)
           in if ptr mod lay_align l = 0 then Some (Inr (push_at prev_ptr ptr m1))
              else Some (Inl (Panic ''assertion failed: block_header.addr() % layout.align() == 0'')))
      | Some (Inr (_, m)) \<Rightarrow> Some (Inl (Panic ''invalid pointer provided'')))"

definition bin_dealloc :: "bin_allocator \<Rightarrow> usize \<Rightarrow> layout \<Rightarrow> mem \<Rightarrow> (mem outcome) option" where
  "bin_dealloc a ptr l m =
     (if ptr < bin_start a \<or> ptr \<ge> bin_end a
      then Some (Inl (Panic ''deallocated pointer is not owned by allocator''))
      else
        case and_then (inner_layout l) (expect unwrap_none) of
          Inl e \<Rightarrow> Some (Inl e)
        | Inr inner \<Rightarrow>
            (case dealloc_inner a ptr inner m of
               None \<Rightarrow> None
             | Some (Inl e) \<Rightarrow> Some (Inl e)
             | Some (Inr m') \<Rightarrow> defragment a m'))"

end
