(* ===== verification/BinSpec.thy ===== *)
theory BinSpec
  imports HeapApi
begin

text \<open>
  The abstract specification of the bin allocator: the free list as a sorted list of blocks
  (address, size), and what splitting, allocating, freeing and joining do to it. The concrete
  allocator of \<open>kernel/src/allocator/bin.rs\<close>, which keeps this list inside the free memory itself,
  is shown to implement these functions in the theory on the bin allocator.
\<close>

type_synonym fblock = "nat \<times> nat"

named_theorems fblock_simps \<open>simplification rules for lists of free blocks\<close>

subsection \<open>Well-formed free lists\<close>

definition block_ok :: "nat \<Rightarrow> nat \<Rightarrow> fblock \<Rightarrow> bool" where
  "block_ok lo hi b \<longleftrightarrow>
     (case b of (a, n) \<Rightarrow> 16 dvd a \<and> 16 dvd n \<and> 0 < n \<and> lo \<le> a \<and> a + n \<le> hi)"

definition wf_blocks :: "nat \<Rightarrow> nat \<Rightarrow> fblock list \<Rightarrow> bool" where
  "wf_blocks lo hi bs \<longleftrightarrow>
     list_all (block_ok lo hi) bs \<and> sorted_wrt (\<lambda>(a, n) (b, k). a + n \<le> b) bs"

definition free_bytes :: "fblock list \<Rightarrow> nat set" where
  "free_bytes bs = (\<Union>(a, n) \<in> set bs. block a n)"

lemma block_ok_simp [fblock_simps]: "block_ok lo hi (a, n) \<longleftrightarrow>
    16 dvd a \<and> 16 dvd n \<and> 0 < n \<and> lo \<le> a \<and> a + n \<le> hi"
  by (simp add: block_ok_def)

lemma wf_blocks_Nil [simp]: "wf_blocks lo hi []"
  by (simp add: wf_blocks_def)

lemma wf_blocks_Cons [fblock_simps]: "wf_blocks lo hi ((a, n) # bs) \<longleftrightarrow>
    block_ok lo hi (a, n) \<and> (\<forall>(b, k) \<in> set bs. a + n \<le> b) \<and> wf_blocks lo hi bs"
  by (auto simp: wf_blocks_def)

lemma wf_blocks_append [fblock_simps]: "wf_blocks lo hi (xs @ ys) \<longleftrightarrow>
    wf_blocks lo hi xs \<and> wf_blocks lo hi ys \<and> (\<forall>(a, n) \<in> set xs. \<forall>(b, k) \<in> set ys. a + n \<le> b)"
  by (auto simp: wf_blocks_def sorted_wrt_append split_beta)

lemma free_bytes_simps [simp]:
  "free_bytes [] = {}" "free_bytes ((a, n) # bs) = block a n \<union> free_bytes bs"
  "free_bytes (xs @ ys) = free_bytes xs \<union> free_bytes ys"
  by (auto simp: free_bytes_def)

lemma wf_blocks_lower: "wf_blocks lo hi bs \<Longrightarrow> lo \<le> lo' \<Longrightarrow> (\<And>a n. (a, n) \<in> set bs \<Longrightarrow> lo' \<le> a) \<Longrightarrow>
    wf_blocks lo' hi bs"
  by (auto simp: wf_blocks_def list_all_iff block_ok_def)

lemma wf_blocks_in:
  assumes "wf_blocks lo hi bs" and "(a, n) \<in> set bs"
  shows "16 dvd a" "16 dvd n" "0 < n" "16 \<le> n" "lo \<le> a" "a + n \<le> hi"
  using assms by (auto simp: wf_blocks_def list_all_iff block_ok_def dest: dvd_imp_le)

lemma free_bytes_range: "wf_blocks lo hi bs \<Longrightarrow> free_bytes bs \<subseteq> {lo ..< hi}"
  by (fastforce simp: free_bytes_def block_def dest: wf_blocks_in)

lemma wf_blocks_Cons_disjoint:
  "wf_blocks lo hi ((a, n) # bs) \<Longrightarrow> block a n \<inter> free_bytes bs = {}"
  by (fastforce simp: wf_blocks_Cons free_bytes_def block_def)

lemma wf_blocks_before: "wf_blocks lo hi (xs @ (a, n) # ys) \<Longrightarrow> (b, k) \<in> set xs \<Longrightarrow> b + k \<le> a"
  by (auto simp: wf_blocks_append)

lemma wf_blocks_after: "wf_blocks lo hi (xs @ (a, n) # ys) \<Longrightarrow> (b, k) \<in> set ys \<Longrightarrow> a + n \<le> b"
  by (auto simp: wf_blocks_append wf_blocks_Cons)

subsection \<open>Splitting into size classes\<close>

text \<open>
  Where \<open>divide_maximally\<close> splits a block of size \<open>n\<close> at address \<open>a\<close> (0: not at all): with \<open>p\<close> the power
  of two below \<open>n\<close> (half of \<open>n\<close> when \<open>n\<close> is itself a power of two), at the next multiple of \<open>p\<close> if
  \<open>a\<close> is not one, else at \<open>p\<close> unless the size is a power of two.
\<close>

definition split_at :: "nat \<Rightarrow> nat \<Rightarrow> nat" where
  "split_at a n =
     (let p = npot n div 2; up = (a + p - 1) div p * p
      in if a \<noteq> up then up - a else if \<not> is_pow2 n then p else 0)"

lemma npot_half:
  assumes "2 \<le> n"
  shows "0 < npot n div 2" "npot n div 2 < n" "is_pow2 (npot n div 2)"
proof -
  obtain k where k: "npot n = 2 ^ k" using npot_exp by blast
  have "2 \<le> npot n" using npot_ge [of n] assms by linarith
  with k obtain j where "k = Suc j" by (cases k) auto
  with k have "npot n div 2 = 2 ^ j" by simp
  then show "0 < npot n div 2" "is_pow2 (npot n div 2)" by (auto simp: is_pow2_iff)
  have "npot n < 2 * n" using assms by (intro npot_less_double) simp
  then show "npot n div 2 < n" by linarith
qed

lemma split_at_less: "split_at a n \<noteq> 0 \<Longrightarrow> split_at a n < n"
proof -
  assume nz: "split_at a n \<noteq> 0"
  show ?thesis
  proof (cases "2 \<le> n")
    case True
    let ?p = "npot n div 2"
    have "(a + ?p - 1) div ?p * ?p - a < ?p"
      using div_mult_mod_eq [of "a + ?p - 1" ?p] npot_half(1) [OF True] by linarith
    with npot_half [OF True] show ?thesis
      by (simp add: split_at_def Let_def)
  next
    case False
    then have "npot n div 2 = 0" by (simp add: npot.simps [of n])
    with nz have "a = 0" "\<not> is_pow2 n"
      by (auto simp: split_at_def split: if_splits)
    then show ?thesis using nz \<open>npot n div 2 = 0\<close> by (simp add: split_at_def)
  qed
qed

lemma split_square: "0 < k \<Longrightarrow> k < n \<Longrightarrow> k * k + (n - k) * (n - k) + 1 < n * (n::nat)"
proof -
  assume "0 < k" "k < n"
  then obtain j where n: "n = k + j" "0 < j" by (metis less_imp_add_positive)
  have "0 < k * j" using \<open>0 < k\<close> \<open>0 < j\<close> by simp
  moreover have "n * n = k * k + j * j + 2 * (k * j)" by (simp add: n algebra_simps)
  moreover have "(n - k) * (n - k) = j * j" using n by simp
  ultimately show ?thesis by linarith
qed

function divide_blocks :: "fblock list \<Rightarrow> fblock list" where
  "divide_blocks [] = []"
| "divide_blocks ((a, n) # bs) =
     (if split_at a n \<noteq> 0
      then divide_blocks ((a, split_at a n) # (a + split_at a n, n - split_at a n) # bs)
      else (a, n) # divide_blocks bs)"
  by pat_completeness auto

termination
proof (relation "measure (\<lambda>bs. sum_list (map (\<lambda>(a, n). n * n) bs) + length bs)")
  fix a n :: nat and bs
  assume "split_at a n \<noteq> 0"
  then have "split_at a n * split_at a n + (n - split_at a n) * (n - split_at a n) + 1 < n * n"
    by (intro split_square) (auto intro: split_at_less)
  then show "((a, split_at a n) # (a + split_at a n, n - split_at a n) # bs, (a, n) # bs)
      \<in> measure (\<lambda>bs. sum_list (map (\<lambda>(a, n). n * n) bs) + length bs)" by simp
qed simp_all

declare divide_blocks.simps(2) [simp del]

lemma divide_blocks_split [simp]:
  "split_at a n \<noteq> 0 \<Longrightarrow>
     divide_blocks ((a, n) # bs) = divide_blocks ((a, split_at a n) # (a + split_at a n, n - split_at a n) # bs)"
  by (subst divide_blocks.simps) simp

lemma divide_blocks_keep [simp]:
  "split_at a n = 0 \<Longrightarrow> divide_blocks ((a, n) # bs) = (a, n) # divide_blocks bs"
  by (subst divide_blocks.simps) simp

text \<open>Splitting keeps the multiples of 16.\<close>

lemma pow2_16_dvd: "is_pow2 p \<Longrightarrow> 16 \<le> p \<Longrightarrow> 16 dvd p"
  using pow2_dvd_iff_le [of 16 p] is_pow2_iff [of 16] by (simp add: exI [of _ 4])

lemma split_at_16:
  assumes "16 dvd a" and "16 dvd n" and "0 < n"
  shows "16 dvd split_at a n"
proof (cases "n = 16")
  case True
  have "npot (2 ^ 4) = 2 ^ 4" by (rule npot_pow2)
  then have p: "npot 16 = 16" by simp
  from assms(1) obtain c where a: "a = 16 * c" by (auto simp: dvd_def)
  have "(a + 8 - 1) div 8 * 8 = a" by (simp add: a)
  moreover have "is_pow2 16" using p by (simp add: is_pow2_def)
  ultimately show ?thesis using True p by (simp add: split_at_def)
next
  case False
  let ?p = "npot n div 2"
  from assms(2,3) False obtain c where n: "n = 16 * c" "2 \<le> c"
    by (auto simp: dvd_def)
  then have "32 \<le> npot n" using npot_ge [of n] by linarith
  then have "16 dvd ?p" using npot_half(3) [of n] n by (intro pow2_16_dvd) auto
  then have "16 dvd (a + ?p - 1) div ?p * ?p" by (rule dvd_mult)
  with \<open>16 dvd ?p\<close> assms(1) show ?thesis
    by (auto simp: split_at_def Let_def intro: dvd_diff_nat)
qed

lemma split_block_ok:
  assumes "block_ok lo hi (a, n)" and "split_at a n \<noteq> 0"
  shows "block_ok lo hi (a, split_at a n)" and "block_ok lo hi (a + split_at a n, n - split_at a n)"
    and "a + split_at a n + (n - split_at a n) = a + n"
  using assms split_at_16 [of a n] split_at_less [OF assms(2)]
  by (auto simp: block_ok_simp intro: dvd_diff_nat)

lemma split_wf:
  assumes "wf_blocks lo hi ((a, n) # bs)" and "split_at a n \<noteq> 0"
  shows "wf_blocks lo hi ((a, split_at a n) # (a + split_at a n, n - split_at a n) # bs)"
  using assms split_block_ok [of lo hi a n] split_at_less [OF assms(2)]
  by (fastforce simp: wf_blocks_Cons)

lemma split_bytes: "split_at a n \<noteq> 0 \<Longrightarrow>
    block a (split_at a n) \<union> block (a + split_at a n) (n - split_at a n) = block a n"
  using split_at_less [of a n] by (auto simp: block_def)

lemma divide_blocks_bytes [simp]: "free_bytes (divide_blocks bs) = free_bytes bs"
proof (induction bs rule: divide_blocks.induct)
  case (2 a n bs)
  then show ?case
    using split_bytes [of a n] by (cases "split_at a n = 0") (auto simp: Un_assoc [symmetric])
qed simp

lemma divide_blocks_ge:
  "(\<And>b k. (b, k) \<in> set bs \<Longrightarrow> c \<le> b) \<Longrightarrow> (b, k) \<in> set (divide_blocks bs) \<Longrightarrow> c \<le> b"
proof (induction bs rule: divide_blocks.induct)
  case (2 a n bs)
  show ?case
  proof (cases "split_at a n = 0")
    case True
    with "2.prems" "2.IH"(2) show ?thesis by auto
  next
    case False
    have "c \<le> b'" if "(b', k') \<in> set ((a, split_at a n) # (a + split_at a n, n - split_at a n) # bs)" for b' k'
      using that "2.prems"(1) [of a n] "2.prems"(1) [of b' k'] by auto
    with False "2.prems"(2) show ?thesis by (intro "2.IH"(1)) auto
  qed
qed simp

lemma divide_blocks_wf: "wf_blocks lo hi bs \<Longrightarrow> wf_blocks lo hi (divide_blocks bs)"
proof (induction bs rule: divide_blocks.induct)
  case (2 a n bs)
  show ?case
  proof (cases "split_at a n = 0")
    case True
    have "a + n \<le> b" if "(b, k) \<in> set (divide_blocks bs)" for b k
    proof (rule divide_blocks_ge [OF _ that])
      show "a + n \<le> b'" if "(b', k') \<in> set bs" for b' k'
        using that "2.prems" by (auto simp: wf_blocks_Cons)
    qed
    moreover have "wf_blocks lo hi (divide_blocks bs)" "block_ok lo hi (a, n)"
      using True "2.IH"(2) "2.prems" by (simp_all add: wf_blocks_Cons)
    ultimately show ?thesis
      unfolding divide_blocks_keep [OF True] wf_blocks_Cons by blast
  next
    case False
    with "2.IH"(1) split_wf [OF "2.prems"] show ?thesis by simp
  qed
qed simp

text \<open>Every block that is left has a power-of-two size and is aligned to half of it.\<close>

definition divided :: "fblock \<Rightarrow> bool" where
  "divided b \<longleftrightarrow> (case b of (a, n) \<Rightarrow> is_pow2 n \<and> n div 2 dvd a)"

lemma split_at_0_iff:
  assumes "2 \<le> n"
  shows "split_at a n = 0 \<longleftrightarrow> divided (a, n)"
proof -
  let ?p = "npot n div 2"
  have p: "0 < ?p" by (rule npot_half(1) [OF assms])
  have up: "a \<le> (a + ?p - 1) div ?p * ?p"
    using div_mult_mod_eq [of "a + ?p - 1" ?p] p mod_less_divisor [OF p, of "a + ?p - 1"] by linarith
  have eq: "a = (a + ?p - 1) div ?p * ?p \<longleftrightarrow> ?p dvd a"
  proof
    assume "?p dvd a"
    then obtain c where "a = ?p * c" by (auto simp: dvd_def)
    moreover from this have "(a + ?p - 1) div ?p = c" using p by (intro div_nat_eqI) simp_all
    ultimately show "a = (a + ?p - 1) div ?p * ?p" by simp
  qed (metis dvd_triv_right)
  show ?thesis
  proof (cases "is_pow2 n")
    case True
    then have "npot n = n" by (simp add: is_pow2_def)
    with eq up True show ?thesis by (auto simp: split_at_def divided_def Let_def)
  next
    case False
    with eq up p show ?thesis by (auto simp: split_at_def divided_def Let_def)
  qed
qed

lemma divide_blocks_divided:
  "wf_blocks lo hi bs \<Longrightarrow> list_all divided (divide_blocks bs)"
proof (induction bs rule: divide_blocks.induct)
  case (2 a n bs)
  have "16 \<le> n" using "2.prems" wf_blocks_in(4) [of lo hi "(a, n) # bs" a n] by simp
  then show ?case
    using "2.IH" "2.prems" split_wf [OF "2.prems"] split_at_0_iff [of n a]
    by (cases "split_at a n = 0") (auto simp: wf_blocks_Cons)
qed simp

lemma divide_blocks_id: "wf_blocks lo hi bs \<Longrightarrow> list_all divided bs \<Longrightarrow> divide_blocks bs = bs"
proof (induction bs)
  case (Cons b bs)
  obtain a n where b: "b = (a, n)" by (cases b)
  have "16 \<le> n" using Cons.prems wf_blocks_in(4) [of lo hi "b # bs" a n] b by simp
  then show ?case
    using Cons split_at_0_iff [of n a] b by (auto simp: wf_blocks_Cons)
qed simp

subsection \<open>Allocating\<close>

text \<open>The first free block of exactly the size and alignment, else the front of the first larger one.\<close>

fun take_exact :: "nat \<Rightarrow> nat \<Rightarrow> fblock list \<Rightarrow> (nat \<times> fblock list) option" where
  "take_exact sz al [] = None"
| "take_exact sz al ((a, n) # bs) =
     (if n = sz \<and> al dvd a then Some (a, bs)
      else map_option (\<lambda>(p, r). (p, (a, n) # r)) (take_exact sz al bs))"

fun carve :: "nat \<Rightarrow> nat \<Rightarrow> fblock list \<Rightarrow> (nat \<times> fblock list) option" where
  "carve sz al [] = None"
| "carve sz al ((a, n) # bs) =
     (if sz < n \<and> al dvd a then Some (a, (a + sz, n - sz) # bs)
      else map_option (\<lambda>(p, r). (p, (a, n) # r)) (carve sz al bs))"

definition take_block :: "nat \<Rightarrow> nat \<Rightarrow> fblock list \<Rightarrow> (nat \<times> fblock list) option" where
  "take_block sz al bs = (case take_exact sz al bs of None \<Rightarrow> carve sz al bs | Some r \<Rightarrow> Some r)"

definition spec_alloc :: "nat \<Rightarrow> nat \<Rightarrow> fblock list \<Rightarrow> (nat \<times> fblock list) option" where
  "spec_alloc sz al bs = map_option (\<lambda>(p, r). (p, divide_blocks r)) (take_block sz al bs)"

lemma take_exact_SomeD: "take_exact sz al bs = Some (p, r) \<Longrightarrow>
    \<exists>xs ys. bs = xs @ (p, sz) # ys \<and> r = xs @ ys \<and> al dvd p"
proof (induction sz al bs arbitrary: r rule: take_exact.induct)
  case (2 sz al a n bs)
  show ?case
  proof (cases "n = sz \<and> al dvd a")
    case True
    with "2.prems" show ?thesis by (intro exI [of _ "[]"] exI [of _ bs]) simp
  next
    case False
    with "2.prems" obtain r' where r: "r = (a, n) # r'" "take_exact sz al bs = Some (p, r')"
      by (auto split: if_splits)
    from "2.IH" [OF False r(2)] obtain xs ys where "bs = xs @ (p, sz) # ys" "r' = xs @ ys" "al dvd p"
      by blast
    with r(1) show ?thesis by (intro exI [of _ "(a, n) # xs"] exI [of _ ys]) simp
  qed
qed simp

lemma carve_SomeD: "carve sz al bs = Some (p, r) \<Longrightarrow>
    \<exists>xs n ys. bs = xs @ (p, n) # ys \<and> r = xs @ (p + sz, n - sz) # ys \<and> al dvd p \<and> sz < n"
proof (induction sz al bs arbitrary: r rule: carve.induct)
  case (2 sz al a n bs)
  show ?case
  proof (cases "sz < n \<and> al dvd a")
    case True
    with "2.prems" show ?thesis
      by (intro exI [of _ "[]"] exI [of _ n] exI [of _ bs]) auto
  next
    case False
    with "2.prems" obtain r' where r: "r = (a, n) # r'" "carve sz al bs = Some (p, r')"
      by (auto split: if_splits)
    from "2.IH" [OF False r(2)] obtain xs m ys where
      "bs = xs @ (p, m) # ys" "r' = xs @ (p + sz, m - sz) # ys" "al dvd p" "sz < m"
      by blast
    with r(1) show ?thesis by (intro exI [of _ "(a, n) # xs"] exI [of _ m] exI [of _ ys]) simp
  qed
qed simp

lemma take_exact_None: "take_exact sz al bs = None \<longleftrightarrow> (\<forall>(a, n) \<in> set bs. \<not> (n = sz \<and> al dvd a))"
  by (induction sz al bs rule: take_exact.induct) (auto split: if_splits)

lemma carve_None: "carve sz al bs = None \<longleftrightarrow> (\<forall>(a, n) \<in> set bs. \<not> (sz < n \<and> al dvd a))"
  by (induction sz al bs rule: carve.induct) (auto split: if_splits)

lemma take_exact_conv: "take_exact sz al bs =
    (case dropWhile (\<lambda>(a, n). \<not> (n = sz \<and> al dvd a)) bs of
       [] \<Rightarrow> None
     | (p, _) # ys \<Rightarrow> Some (p, takeWhile (\<lambda>(a, n). \<not> (n = sz \<and> al dvd a)) bs @ ys))"
  by (induction sz al bs rule: take_exact.induct) (auto split: list.splits simp del: dropWhile_eq_Nil_conv)

lemma carve_conv: "carve sz al bs =
    (case dropWhile (\<lambda>(a, n). \<not> (sz < n \<and> al dvd a)) bs of
       [] \<Rightarrow> None
     | (p, n) # ys \<Rightarrow> Some (p, takeWhile (\<lambda>(a, n). \<not> (sz < n \<and> al dvd a)) bs @ (p + sz, n - sz) # ys))"
  by (induction sz al bs rule: carve.induct) (auto split: list.splits simp del: dropWhile_eq_Nil_conv)

lemma take_block_None: "take_block sz al bs = None \<longleftrightarrow> (\<forall>(a, n) \<in> set bs. \<not> (sz \<le> n \<and> al dvd a))"
proof -
  have "take_block sz al bs = None \<longleftrightarrow> take_exact sz al bs = None \<and> carve sz al bs = None"
    by (auto simp: take_block_def split: option.splits)
  also have "\<dots> \<longleftrightarrow> (\<forall>(a, n) \<in> set bs. \<not> (sz \<le> n \<and> al dvd a))"
    unfolding take_exact_None carve_None by (auto simp: le_less)
  finally show ?thesis .
qed

lemma middle_block_bytes:
  assumes "wf_blocks lo hi (xs @ (p, n) # ys)" and "sz \<le> n"
  shows "block p sz \<subseteq> free_bytes (xs @ (p, n) # ys)"
    and "free_bytes (xs @ ys) \<union> block (p + sz) (n - sz) = free_bytes (xs @ (p, n) # ys) - block p sz"
proof -
  have l: "x < p" if "x \<in> free_bytes xs" for x
    using that assms(1) by (fastforce simp: free_bytes_def block_def wf_blocks_append)
  have r: "p + n \<le> x" if "x \<in> free_bytes ys" for x
    using that assms(1) by (fastforce simp: free_bytes_def block_def wf_blocks_append wf_blocks_Cons)
  show "block p sz \<subseteq> free_bytes (xs @ (p, n) # ys)"
    using assms(2) by (auto simp: block_def)
  show "free_bytes (xs @ ys) \<union> block (p + sz) (n - sz) = free_bytes (xs @ (p, n) # ys) - block p sz"
    using assms(2) l r by (fastforce simp: block_def)
qed

lemma wf_blocks_remove:
  "wf_blocks lo hi (xs @ (p, n) # ys) \<Longrightarrow> wf_blocks lo hi (xs @ ys)"
  by (auto simp: wf_blocks_append wf_blocks_Cons)

lemma wf_blocks_shrink:
  assumes "wf_blocks lo hi (xs @ (p, n) # ys)" and "16 dvd sz" and "sz < n"
  shows "wf_blocks lo hi (xs @ (p + sz, n - sz) # ys)"
  using assms by (fastforce simp: wf_blocks_append wf_blocks_Cons block_ok_simp intro: dvd_diff_nat)

lemma take_block_correct:
  assumes "wf_blocks lo hi bs" and "16 dvd sz" and "0 < sz" and "take_block sz al bs = Some (p, r)"
  shows "wf_blocks lo hi r" and "block p sz \<subseteq> free_bytes bs" and "free_bytes r = free_bytes bs - block p sz"
    and "al dvd p" and "16 dvd p" and "lo \<le> p" and "p + sz \<le> hi"
proof -
  obtain xs n ys where bs: "bs = xs @ (p, n) # ys" "sz \<le> n" "al dvd p"
    and r: "r = (if sz = n then xs @ ys else xs @ (p + sz, n - sz) # ys)"
    using assms(4) take_exact_SomeD [of sz al bs] carve_SomeD [of sz al bs]
    by (fastforce simp: take_block_def split: option.splits)
  note wf = assms(1) [unfolded bs(1)]
  have in_bs: "(p, n) \<in> set bs" by (simp add: bs(1))
  show "wf_blocks lo hi r"
    using wf_blocks_remove [OF wf] wf_blocks_shrink [OF wf assms(2)] bs(2) by (simp add: r)
  show "block p sz \<subseteq> free_bytes bs"
    unfolding bs(1) by (rule middle_block_bytes(1) [OF wf bs(2)])
  show "free_bytes r = free_bytes bs - block p sz"
    using middle_block_bytes(2) [OF wf bs(2)] unfolding bs(1) r by (auto simp: block_def)
  show "al dvd p" by (rule bs(3))
  show "16 dvd p" "lo \<le> p" using wf_blocks_in [OF assms(1) in_bs] by blast+
  show "p + sz \<le> hi" using wf_blocks_in(6) [OF assms(1) in_bs] bs(2) by linarith
qed

subsection \<open>Freeing and joining\<close>

text \<open>A freed block goes before the first free block above it; there has to be one.\<close>

fun insert_block :: "nat \<Rightarrow> nat \<Rightarrow> fblock list \<Rightarrow> fblock list option" where
  "insert_block a n [] = None"
| "insert_block a n ((b, k) # bs) =
     (if a < b then Some ((a, n) # (b, k) # bs) else map_option ((#) (b, k)) (insert_block a n bs))"

text \<open>One pass over the list: neighbours of equal size, the first aligned to the sum of the sizes.\<close>

fun join_blocks :: "fblock list \<Rightarrow> fblock list" where
  "join_blocks [] = []"
| "join_blocks [b] = [b]"
| "join_blocks ((a, n) # (b, k) # bs) =
     (if a + n = b \<and> n = k \<and> 2 * n dvd a then (a, 2 * n) # join_blocks bs
      else (a, n) # join_blocks ((b, k) # bs))"

definition spec_dealloc :: "nat \<Rightarrow> nat \<Rightarrow> fblock list \<Rightarrow> fblock list option" where
  "spec_dealloc a n bs = map_option join_blocks (insert_block a n bs)"

lemma insert_block_conv: "insert_block a n bs =
    (case dropWhile (\<lambda>(b, k). \<not> a < b) bs of
       [] \<Rightarrow> None
     | y # ys \<Rightarrow> Some (takeWhile (\<lambda>(b, k). \<not> a < b) bs @ (a, n) # y # ys))"
  by (induction a n bs rule: insert_block.induct) (auto split: list.splits simp del: dropWhile_eq_Nil_conv)

lemma insert_block_None: "insert_block a n bs = None \<longleftrightarrow> (\<forall>(b, k) \<in> set bs. b \<le> a)"
  by (induction a n bs rule: insert_block.induct) (auto split: if_splits)

lemma insert_block_SomeD: "insert_block a n bs = Some r \<Longrightarrow>
    \<exists>xs b k ys. bs = xs @ (b, k) # ys \<and> r = xs @ (a, n) # (b, k) # ys \<and> a < b \<and> (\<forall>(c, j) \<in> set xs. c \<le> a)"
proof (induction a n bs arbitrary: r rule: insert_block.induct)
  case (2 a n b k bs)
  show ?case
  proof (cases "a < b")
    case True
    with "2.prems" show ?thesis
      by (intro exI [of _ "[]"] exI [of _ b] exI [of _ k] exI [of _ bs]) auto
  next
    case False
    with "2.prems" obtain r' where r: "r = (b, k) # r'" "insert_block a n bs = Some r'" by auto
    from "2.IH" [OF False r(2)] obtain xs c j ys where
      "bs = xs @ (c, j) # ys" "r' = xs @ (a, n) # (c, j) # ys" "a < c" "\<forall>(c, j) \<in> set xs. c \<le> a"
      by blast
    with r(1) False show ?thesis
      by (intro exI [of _ "(b, k) # xs"] exI [of _ c] exI [of _ j] exI [of _ ys]) auto
  qed
qed simp

lemma insert_block_bytes: "insert_block a n bs = Some r \<Longrightarrow> free_bytes r = free_bytes bs \<union> block a n"
  by (auto dest!: insert_block_SomeD)

lemma insert_block_wf:
  assumes "wf_blocks lo hi bs" and "insert_block a n bs = Some r" and "block_ok lo hi (a, n)"
    and "block a n \<inter> free_bytes bs = {}"
  shows "wf_blocks lo hi r"
proof -
  obtain xs b k ys where bs: "bs = xs @ (b, k) # ys" and r: "r = xs @ (a, n) # (b, k) # ys"
    and ab: "a < b" and xs: "\<forall>(c, j) \<in> set xs. c \<le> a"
    using insert_block_SomeD [OF assms(2)] by blast
  have n: "0 < n" using assms(3) by (simp add: block_ok_simp)
  have "0 < k" using wf_blocks_in(3) [OF assms(1), of b k] bs by simp
  have disj: "block a n \<inter> block c j = {}" if "(c, j) \<in> set bs" for c j
    using that assms(4) by (auto simp: free_bytes_def)
  have "a + n \<le> b"
    using disj [of b k] bs ab \<open>0 < k\<close> n by (auto simp: block_def disjoint_iff)
  moreover have "c + j \<le> a" if "(c, j) \<in> set xs" for c j
  proof (rule ccontr)
    assume "\<not> c + j \<le> a"
    with that xs n have "a \<in> block a n \<inter> block c j" by (auto simp: block_def)
    with disj [of c j] that bs show False by auto
  qed
  ultimately show ?thesis
    using assms(1,3) unfolding bs r by (fastforce simp: wf_blocks_append wf_blocks_Cons)
qed

lemma join_blocks_bytes [simp]: "free_bytes (join_blocks bs) = free_bytes bs"
proof (induction bs rule: join_blocks.induct)
  case (3 a n b k bs)
  have "block a n \<union> block (a + n) n = block a (2 * n)" by (auto simp: block_def)
  with 3 show ?case by (auto simp: Un_assoc [symmetric])
qed simp_all

lemma join_blocks_ge:
  "(\<And>b k. (b, k) \<in> set bs \<Longrightarrow> c \<le> b) \<Longrightarrow> (b, k) \<in> set (join_blocks bs) \<Longrightarrow> c \<le> b"
  by (induction bs rule: join_blocks.induct) (auto split: if_splits)

lemma join_blocks_wf: "wf_blocks lo hi bs \<Longrightarrow> wf_blocks lo hi (join_blocks bs)"
proof (induction bs rule: join_blocks.induct)
  case (3 a n b k bs)
  have wf: "block_ok lo hi (a, n)" "block_ok lo hi (b, k)" "a + n \<le> b" "wf_blocks lo hi ((b, k) # bs)"
    "wf_blocks lo hi bs" "\<forall>(c, j) \<in> set bs. b + k \<le> c" "\<forall>(c, j) \<in> set ((b, k) # bs). a + n \<le> c"
    using "3.prems" by (auto simp: wf_blocks_Cons)
  show ?case
  proof (cases "a + n = b \<and> n = k \<and> 2 * n dvd a")
    case True
    have "a + 2 * n \<le> c" if "(c, j) \<in> set (join_blocks bs)" for c j
      using wf(6) True by (intro join_blocks_ge [OF _ that]) auto
    moreover have "block_ok lo hi (a, 2 * n)" using wf(1,2) True by (simp add: block_ok_simp)
    ultimately show ?thesis
      using True "3.IH"(1) wf(5) by (auto simp: wf_blocks_Cons)
  next
    case False
    have "a + n \<le> c" if "(c, j) \<in> set (join_blocks ((b, k) # bs))" for c j
      using wf(7) by (intro join_blocks_ge [OF _ that]) auto
    with False "3.IH"(2) wf(1,4) show ?thesis by (auto simp: wf_blocks_Cons)
  qed
qed simp_all

lemma join_blocks_length: "length (join_blocks bs) \<le> length bs"
  by (induction bs rule: join_blocks.induct) auto

end
