(* ===== verification/BinRefine.thy ===== *)
theory BinRefine
  imports BinAlloc BinSpec
begin

text \<open>
  The bin allocator of the sources implements the specification on lists of free blocks.
  \<open>bin_rep lo hi loc m bs\<close> relates memory \<open>m\<close>, with the list head in the cell \<open>loc\<close>, to the free list
  \<open>bs\<close> of the region \<open>lo ..< hi\<close>; each operation is shown to terminate without a panic where the
  specification is defined, to reach the memory that represents the specification's result, and to
  write no cell outside the free blocks and the list head (or the block that is freed).
\<close>

definition blocks_of :: "mem \<Rightarrow> usize list \<Rightarrow> fblock list" where
  "blocks_of m ps = map (\<lambda>p. (unat p, unat (bh_size m p))) ps"

definition region_ok :: "nat \<Rightarrow> nat \<Rightarrow> usize \<Rightarrow> bool" where
  "region_ok lo hi loc \<longleftrightarrow> 0 < lo \<and> hi \<le> 2 ^ 63 \<and> unat loc \<notin> {lo ..< hi}"

definition bin_rep :: "nat \<Rightarrow> nat \<Rightarrow> usize \<Rightarrow> mem \<Rightarrow> fblock list \<Rightarrow> bool" where
  "bin_rep lo hi loc m bs \<longleftrightarrow>
     region_ok lo hi loc \<and> wf_blocks lo hi bs \<and> (\<exists>ps. ll_rep m (m loc) ps \<and> bs = blocks_of m ps)"

subsection \<open>Header cells\<close>

text \<open>An address at which a block header of the region can stand.\<close>

definition hdr :: "nat \<Rightarrow> nat \<Rightarrow> usize \<Rightarrow> bool" where
  "hdr lo hi p \<longleftrightarrow> 16 dvd unat p \<and> 0 < lo \<and> lo \<le> unat p \<and> unat p + 16 \<le> hi \<and> hi \<le> 2 ^ 63"

lemma hdr_plus8: "hdr lo hi p \<Longrightarrow> unat (p + 8) = unat p + 8"
  by (simp add: hdr_def unat_plus_if')

lemma hdr_neq_plus8: "hdr lo hi p \<Longrightarrow> hdr lo' hi' q \<Longrightarrow> p \<noteq> q + 8"
proof
  assume *: "hdr lo hi p" "hdr lo' hi' q" "p = q + 8"
  then have "unat p = unat q + 8" by (simp add: hdr_plus8)
  moreover have "16 dvd unat p" "16 dvd unat q" using * by (auto simp: hdr_def)
  ultimately show False by presburger
qed

lemma hdr_neq_plus8' [simp]: "hdr lo hi p \<Longrightarrow> hdr lo hi q \<Longrightarrow> p \<noteq> q + 8"
  "hdr lo hi p \<Longrightarrow> hdr lo hi q \<Longrightarrow> q + 8 \<noteq> p"
  using hdr_neq_plus8 by metis+

lemma hdr_nonnull: "hdr lo hi p \<Longrightarrow> p \<noteq> 0"
  by (auto simp: hdr_def)

lemma hdr_loc:
  assumes "hdr lo hi p" and "region_ok lo hi loc"
  shows "loc \<noteq> p" "loc \<noteq> p + 8" "p \<noteq> loc" "p + 8 \<noteq> loc"
proof -
  show "loc \<noteq> p" using assms by (auto simp: hdr_def region_ok_def)
  then show "p \<noteq> loc" by simp
  have "loc \<noteq> p + 8"
  proof
    assume "loc = p + 8"
    then have "unat loc = unat p + 8" using assms(1) by (simp add: hdr_plus8)
    with assms show False by (auto simp: hdr_def region_ok_def)
  qed
  then show "loc \<noteq> p + 8" "p + 8 \<noteq> loc" by auto
qed

lemma wf_hdr:
  assumes "wf_blocks lo hi (blocks_of m ps)" and "region_ok lo hi loc" and "p \<in> set ps"
  shows "hdr lo hi p"
proof -
  have "(unat p, unat (bh_size m p)) \<in> set (blocks_of m ps)"
    using assms(3) by (auto simp: blocks_of_def)
  from wf_blocks_in [OF assms(1) this] assms(2) show ?thesis
    by (auto simp: hdr_def region_ok_def)
qed

lemma blocks_of_simps [simp]:
  "blocks_of m [] = []"
  "blocks_of m (p # ps) = (unat p, unat (bh_size m p)) # blocks_of m ps"
  "blocks_of m (ps @ qs) = blocks_of m ps @ blocks_of m qs"
  by (simp_all add: blocks_of_def)

lemma blocks_of_cong: "(\<And>p. p \<in> set ps \<Longrightarrow> bh_size m p = bh_size m' p) \<Longrightarrow> blocks_of m ps = blocks_of m' ps"
  by (simp add: blocks_of_def)

lemma in_blocks_of: "(a, n) \<in> set (blocks_of m ps) \<longleftrightarrow> (\<exists>p \<in> set ps. a = unat p \<and> n = unat (bh_size m p))"
  by (auto simp: blocks_of_def)

lemma wf_before:
  assumes "wf_blocks lo hi (blocks_of m (xs @ p # ys))" and "x \<in> set xs"
  shows "unat x < unat p"
proof -
  have in_xs: "(unat x, unat (bh_size m x)) \<in> set (blocks_of m xs)"
    using assms(2) by (auto simp: in_blocks_of)
  then have "unat x + unat (bh_size m x) \<le> unat p"
    using assms(1) by (intro wf_blocks_before [of lo hi "blocks_of m xs"]) auto
  moreover have "0 < unat (bh_size m x)"
    using in_xs by (intro wf_blocks_in(3) [OF assms(1), of "unat x"]) auto
  ultimately show ?thesis by linarith
qed

lemma wf_after:
  assumes "wf_blocks lo hi (blocks_of m (xs @ p # ys))" and "y \<in> set ys"
  shows "unat p + unat (bh_size m p) \<le> unat y"
  using assms by (intro wf_blocks_after [of lo hi "blocks_of m xs" _ _ "blocks_of m ys"]) (auto simp: in_blocks_of)

lemma bh_size_set_size [simp]: "bh_size (set_size p n m) q = (if q = p then n else bh_size m q)"
  by (simp add: bh_size_def set_size_def)

lemma set_size_other: "x \<noteq> p + 8 \<Longrightarrow> set_size p n m x = m x"
  by (simp add: set_size_def)

lemma ll_rep_set_size:
  assumes "hdr lo hi p" and "\<And>q. q \<in> set ps \<Longrightarrow> hdr lo hi q"
  shows "ll_rep (set_size p n m) x ps = ll_rep m x ps"
proof -
  have "p + 8 \<notin> set ps" using assms hdr_neq_plus8 by blast
  then show ?thesis unfolding set_size_def by (rule ll_rep_upd)
qed

lemma push_at_eq: "push_at k q m = (m(q := m k))(k := q)"
  by (simp add: push_at_def push_def list_at_def)

lemma bh_size_push_at:
  assumes "q \<noteq> p + 8" and "k \<noteq> p + 8"
  shows "bh_size (push_at k q m) p = bh_size m p"
  using assms by (simp add: push_at_eq bh_size_def)

subsection \<open>Splitting\<close>

lemma next_power_of_two_below_correct:
  assumes "unat n \<le> 2 ^ 63"
  shows "\<exists>r. next_power_of_two_below n = Inr r \<and> unat r = npot (unat n) div 2"
proof -
  have small: "npot (unat n) < 2 ^ 64"
    using npot_least [of "unat n" 63] assms by simp
  then have "unat (of_nat (npot (unat n)) :: usize) = npot (unat n)"
    by (simp add: unat_of_nat)
  then have "unat (drop_bit 1 (of_nat (npot (unat n)) :: usize)) = npot (unat n) div 2"
    by (simp add: drop_bit_eq_div unat_div)
  with small show ?thesis
    by (simp add: next_power_of_two_below_def checked_next_power_of_two_def)
qed

lemma divide_next_ptr_correct:
  assumes "2 \<le> unat (bh_size m p)" and "unat p + unat (bh_size m p) \<le> 2 ^ 63"
  shows "\<exists>q. divide_next_ptr p m = Inr q \<and> unat q = unat p + split_at (unat p) (unat (bh_size m p))"
proof -
  let ?n = "unat (bh_size m p)"
  let ?h = "npot ?n div 2"
  obtain h where h: "next_power_of_two_below (bh_size m p) = Inr h" "unat h = ?h"
    using next_power_of_two_below_correct [of "bh_size m p"] assms(2) by auto
  have half: "?h < ?n" "is_pow2 ?h" by (rule npot_half [OF assms(1)])+
  have "is_power_of_two h" using h(2) half(2) by (simp add: is_power_of_two_def)
  moreover have fit: "unat p + unat h < 2 ^ 64" using h(2) half(1) assms(2) by simp
  ultimately obtain r where r: "align_up p h = Inr r" "p \<le> r" "unat r < unat p + unat h"
    "unat r = (unat p + ?h - 1) div ?h * ?h"
    using align_up_ok [of h p] h(2) by metis
  have pr: "p = r \<longleftrightarrow> unat p = unat r" by (simp add: word_unat_eq_iff)
  have sum: "unat (p + h) = unat p + unat h" using fit by (simp add: unat_plus_if')
  have up: "split_at (unat p) ?n = (if unat p \<noteq> unat r then unat r - unat p
      else if \<not> is_pow2 ?n then ?h else 0)"
    by (simp only: split_at_def Let_def r(4))
  have pow: "is_power_of_two (bh_size m p) = is_pow2 ?n" by (simp add: is_power_of_two_def)
  have next_ptr: "divide_next_ptr p m = Inr (if p \<noteq> r then r else if \<not> is_pow2 ?n then p + h else p)"
    unfolding divide_next_ptr_def h(1) and_then_Inr r(1) pow by simp
  have "unat (if p \<noteq> r then r else if \<not> is_pow2 ?n then p + h else p) = unat p + split_at (unat p) ?n"
    unfolding up using r(2) sum h(2) pr by (simp add: word_le_nat_alt)
  with next_ptr show ?thesis by blast
qed

text \<open>One split: the new block is linked after the old one, and both get their sizes.\<close>

lemma divide_block_at_correct:
  assumes rep: "ll_rep m (m loc) (xs @ p # ys)" and reg: "region_ok lo hi loc"
    and wf: "wf_blocks lo hi (blocks_of m (xs @ p # ys))"
    and k: "0 < k" "k < unat (bh_size m p)" "16 dvd k" and q: "unat q = unat p + k"
  defines "m' \<equiv> divide_block_at p q m"
  shows "ll_rep m' (m' loc) (xs @ p # q # ys)" and "blocks_of m' xs = blocks_of m xs"
    and "blocks_of m' (p # q # ys) = (unat p, k) # (unat p + k, unat (bh_size m p) - k) # blocks_of m ys"
    and "\<And>x. unat x \<notin> block (unat p) (unat (bh_size m p)) \<Longrightarrow> m' x = m x"
proof -
  let ?n = "unat (bh_size m p)"
  have hdrs: "hdr lo hi x" if "x \<in> set (xs @ p # ys)" for x
    by (rule wf_hdr [OF wf reg that])
  have pn: "16 dvd ?n" "unat p + ?n \<le> hi"
    using wf_blocks_in [OF wf, of "unat p" ?n] by simp_all
  have k16: "k + 16 \<le> ?n" using k pn(1) by presburger
  have hp: "hdr lo hi p" by (rule hdrs) simp
  have hq: "hdr lo hi q" using hp k pn k16 q by (auto simp: hdr_def)
  note before = wf_before [OF wf] and after = wf_after [OF wf]
  have pq: "p \<noteq> q" using q k(1) by auto
  have fresh: "q \<notin> set (xs @ p # ys)"
    using before [of q] after [of q] q k(2) pq by auto
  have diff: "saturating_sub q p = of_nat k" "unat (of_nat k :: usize) = k"
  proof -
    show "unat (of_nat k :: usize) = k" using k(2) unat_lt_len [of "bh_size m p"] by (simp add: unat_of_nat)
    then show "saturating_sub q p = of_nat k" using q by (simp add: word_unat_eq_iff unat_saturating_sub)
  qed
  define m3 where "m3 = set_size p (of_nat k) (set_size q (bh_size m p - of_nat k) (set_size q 0 m))"
  have m': "m' = push_at p q m3"
    using pq diff(1) by (simp add: m'_def divide_block_at_def m3_def new_from_ptr_def Let_def)
  have sz3: "bh_size m3 x = (if x = p then of_nat k else if x = q then bh_size m p - of_nat k else bh_size m x)" for x
    by (simp add: m3_def)
  have sz: "bh_size m' x = bh_size m3 x" if "hdr lo hi x" for x
    unfolding m' using that hp hq by (intro bh_size_push_at) auto
  have loc: "m3 loc = m loc"
    using hdr_loc [OF hp reg] hdr_loc [OF hq reg] by (simp add: m3_def set_size_def)
  have "ll_rep (set_size x v m0) c (xs @ p # ys) = ll_rep m0 c (xs @ p # ys)" if "hdr lo hi x" for x v m0 c
    by (rule ll_rep_set_size [OF that hdrs])
  then have "ll_rep m3 (m3 loc) ((xs @ [p]) @ ys)"
    using rep hp hq unfolding loc unfolding m3_def by simp
  then show "ll_rep m' (m' loc) (xs @ p # q # ys)"
    using push_at_rep [of m3 loc "xs @ [p]" ys q] fresh hdrs hdr_loc [OF _ reg] hq hdr_nonnull [OF hq]
    unfolding m' by fastforce
  show "blocks_of m' xs = blocks_of m xs"
    using hdrs fresh before by (intro blocks_of_cong) (fastforce simp: sz sz3)
  have "blocks_of m' ys = blocks_of m ys"
    using hdrs fresh after k by (intro blocks_of_cong) (fastforce simp: sz sz3)
  moreover have "unat (bh_size m p - of_nat k) = ?n - k"
    using diff(2) k(2) by (subst unat_sub) (simp_all add: word_le_nat_alt)
  ultimately show "blocks_of m' (p # q # ys) = (unat p, k) # (unat p + k, ?n - k) # blocks_of m ys"
    using sz [OF hp] sz [OF hq] pq q diff(2) by (simp add: sz3)
  fix x :: usize
  assume "unat x \<notin> block (unat p) ?n"
  then have "x \<noteq> p" "x \<noteq> q" "x \<noteq> p + 8" "x \<noteq> q + 8"
    using hdr_plus8 [OF hp] hdr_plus8 [OF hq] q k k16 by (auto simp: mem_block)
  then show "m' x = m x" by (simp add: m' push_at_eq m3_def set_size_def)
qed

lemma divide_loop_null [simp]: "divide_loop \<lparr>it_current = 0\<rparr> m = Some (Inr m)"
  by (subst divide_loop.simps) (simp add: iter_peek_def peek_def is_empty_def)

lemma divide_loop_step:
  assumes "p \<noteq> 0" and "divide_next_ptr p m = Inr q"
  shows "divide_loop \<lparr>it_current = p\<rparr> m =
     (if p \<noteq> q then divide_loop \<lparr>it_current = p\<rparr> (divide_block_at p q m) else divide_loop \<lparr>it_current = m p\<rparr> m)"
  using assms
  by (subst divide_loop.simps) (simp add: iter_peek_def peek_def is_empty_def iter_next_def pop_def)

definition ll_first :: "usize list \<Rightarrow> usize" where
  "ll_first ps = (case ps of [] \<Rightarrow> 0 | p # _ \<Rightarrow> p)"

lemma ll_first_simps [simp]: "ll_first [] = 0" "ll_first (p # ps) = p"
  by (simp_all add: ll_first_def)

lemma ll_rep_first: "ll_rep m c ps \<Longrightarrow> c = ll_first ps"
  by (cases ps) auto

text \<open>The loop from a block onwards, after the blocks \<open>xs\<close> have been passed.\<close>

lemma divide_loop_refines:
  assumes "ll_rep m (m loc) (xs @ ps)" and "region_ok lo hi loc" and "wf_blocks lo hi (blocks_of m (xs @ ps))"
    and "bs = blocks_of m ps"
  shows "\<exists>m' ps'. divide_loop \<lparr>it_current = ll_first ps\<rparr> m = Some (Inr m') \<and> ll_rep m' (m' loc) (xs @ ps') \<and>
     blocks_of m' xs = blocks_of m xs \<and> blocks_of m' ps' = divide_blocks bs \<and>
     (\<forall>x. unat x \<notin> free_bytes bs \<longrightarrow> m' x = m x)"
  using assms
proof (induction bs arbitrary: m xs ps rule: divide_blocks.induct)
  case 1
  then show ?case by (intro exI [of _ m] exI [of _ "[]"]) (auto simp: blocks_of_def)
next
  case (2 a n bs)
  note rep = "2.prems"(1) and reg = "2.prems"(2) and wf = "2.prems"(3)
  from "2.prems"(4) obtain p ys where ps: "ps = p # ys" and a: "a = unat p" and n: "n = unat (bh_size m p)"
    and bs: "bs = blocks_of m ys" by (cases ps) auto
  have "(a, n) \<in> set (blocks_of m (xs @ ps))" by (simp add: ps a n)
  note pn = wf_blocks_in [OF wf this]
  have hp: "hdr lo hi p" using wf_hdr [OF wf reg] ps by simp
  have hi: "hi \<le> 2 ^ 63" using reg by (simp add: region_ok_def)
  obtain q where q: "divide_next_ptr p m = Inr q" "unat q = a + split_at a n"
    using divide_next_ptr_correct [of m p] pn hi a n by fastforce
  note step = divide_loop_step [OF hdr_nonnull [OF hp] q(1)]
  have pq: "p = q \<longleftrightarrow> split_at a n = 0"
    using q(2) a by (simp add: word_unat_eq_iff)
  show ?case
  proof (cases "split_at a n = 0")
    case True
    have "ll_rep m (m p) ys" using ll_rep_suffix [of m "m loc" xs p ys] rep ps by simp
    then have cur: "m p = ll_first ys" by (rule ll_rep_first)
    have "\<exists>m' ps'. divide_loop \<lparr>it_current = ll_first ys\<rparr> m = Some (Inr m') \<and>
        ll_rep m' (m' loc) ((xs @ [p]) @ ps') \<and> blocks_of m' (xs @ [p]) = blocks_of m (xs @ [p]) \<and>
        blocks_of m' ps' = divide_blocks bs \<and> (\<forall>x. unat x \<notin> free_bytes bs \<longrightarrow> m' x = m x)"
      using True rep reg wf bs ps by (intro "2.IH"(2)) auto
    then obtain m' ps' where "divide_loop \<lparr>it_current = m p\<rparr> m = Some (Inr m')"
      "ll_rep m' (m' loc) (xs @ p # ps')" "blocks_of m' xs = blocks_of m xs" "unat (bh_size m' p) = unat (bh_size m p)"
      "blocks_of m' ps' = divide_blocks bs" "\<forall>x. unat x \<notin> free_bytes bs \<longrightarrow> m' x = m x"
      unfolding cur by auto
    with True step pq ps a n show ?thesis
      by (intro exI [of _ m'] exI [of _ "p # ps'"]) simp
  next
    case False
    let ?k = "split_at a n" and ?m = "divide_block_at p q m"
    have k: "0 < ?k" "?k < n" "16 dvd ?k"
      using False split_at_less [of a n] split_at_16 pn by auto
    note div = divide_block_at_correct [OF rep [unfolded ps] reg wf [unfolded ps], of ?k q]
    have d: "ll_rep ?m (?m loc) (xs @ p # q # ys)" "blocks_of ?m xs = blocks_of m xs"
      "blocks_of ?m (p # q # ys) = (a, ?k) # (a + ?k, n - ?k) # bs"
      "\<And>x. unat x \<notin> block a n \<Longrightarrow> ?m x = m x"
      using div k q(2) a n bs by auto
    have "wf_blocks lo hi (blocks_of m xs @ (a, n) # bs)" using wf ps a n bs by simp
    then have "wf_blocks lo hi (blocks_of ?m (xs @ p # q # ys))"
      unfolding blocks_of_simps(3) d(2,3)
      using split_wf [OF _ False, of lo hi bs] split_at_less [OF False]
      by (fastforce simp: wf_blocks_append)
    then have "\<exists>m' ps'. divide_loop \<lparr>it_current = ll_first (p # q # ys)\<rparr> ?m = Some (Inr m') \<and>
        ll_rep m' (m' loc) (xs @ ps') \<and> blocks_of m' xs = blocks_of ?m xs \<and>
        blocks_of m' ps' = divide_blocks ((a, ?k) # (a + ?k, n - ?k) # bs) \<and>
        (\<forall>x. unat x \<notin> free_bytes ((a, ?k) # (a + ?k, n - ?k) # bs) \<longrightarrow> m' x = ?m x)"
      using False d reg by (intro "2.IH"(1)) auto
    then obtain m' ps' where "divide_loop \<lparr>it_current = p\<rparr> ?m = Some (Inr m')"
      "ll_rep m' (m' loc) (xs @ ps')" "blocks_of m' xs = blocks_of m xs"
      "blocks_of m' ps' = divide_blocks ((a, n) # bs)"
      "\<forall>x. unat x \<notin> free_bytes ((a, n) # bs) \<longrightarrow> m' x = m x"
      using False d(2,4) split_bytes [OF False] by (auto simp: Un_assoc [symmetric])
    with False step pq ps show ?thesis
      by (intro exI [of _ m'] exI [of _ ps']) simp
  qed
qed

lemma divide_maximally_refines:
  assumes "bin_rep lo hi (bin_head a) m bs"
  shows "\<exists>m'. divide_maximally a m = Some (Inr m') \<and> bin_rep lo hi (bin_head a) m' (divide_blocks bs) \<and>
     (\<forall>x. unat x \<notin> free_bytes bs \<longrightarrow> m' x = m x)"
proof -
  let ?loc = "bin_head a"
  from assms obtain ps where ps: "ll_rep m (m ?loc) ps" "bs = blocks_of m ps"
    and reg: "region_ok lo hi ?loc" and wf: "wf_blocks lo hi bs" by (auto simp: bin_rep_def)
  obtain m' ps' where m': "divide_loop \<lparr>it_current = ll_first ps\<rparr> m = Some (Inr m')"
    "ll_rep m' (m' ?loc) ps'" "blocks_of m' ps' = divide_blocks bs"
    "\<forall>x. unat x \<notin> free_bytes bs \<longrightarrow> m' x = m x"
    using divide_loop_refines [of m ?loc "[]" ps lo hi bs] ps reg wf by auto
  have "divide_maximally a m = Some (Inr m')"
    using m'(1) ll_rep_first [OF ps(1)] by (simp add: divide_maximally_def iter_of_def list_at_def)
  moreover have "bin_rep lo hi ?loc m' (divide_blocks bs)"
    unfolding bin_rep_def using m'(2,3) reg divide_blocks_wf [OF wf] by metis
  ultimately show ?thesis using m'(4) by blast
qed

end
