(* ===== verification/BinRefine2.thy ===== *)
theory BinRefine2
  imports BinRefine
begin

text \<open>
  Refinement of the bin allocator, continued: rounding of layouts, the searches of the free list,
  allocation and deallocation.
\<close>

subsection \<open>Rounding a layout\<close>

definition inner_size :: "layout \<Rightarrow> nat" where
  "inner_size l = npot (max (unat (lay_size l)) 16)"

definition inner_align :: "layout \<Rightarrow> nat" where
  "inner_align l = max (unat (lay_align l)) 16"

text \<open>A layout that \<open>inner_layout\<close> can round: valid, and of at most \<open>2 ^ 63\<close> bytes.\<close>

definition bin_ok :: "layout \<Rightarrow> bool" where
  "bin_ok l \<longleftrightarrow> layout_ok l \<and> unat (lay_size l) \<le> 2 ^ 63"

lemma unat_max: "unat (max a b :: 'a::len word) = max (unat a) (unat b)"
  by (simp add: max_def word_le_nat_alt)

lemma inner_size_bounds: "unat (lay_size l) \<le> inner_size l" "16 \<le> inner_size l" "16 dvd inner_size l"
proof -
  show "unat (lay_size l) \<le> inner_size l" and *: "16 \<le> inner_size l"
    using npot_ge [of "max (unat (lay_size l)) 16"] by (auto simp: inner_size_def)
  from * show "16 dvd inner_size l"
    by (intro pow2_16_dvd) (auto simp: inner_size_def)
qed

lemma inner_layout_correct:
  assumes "bin_ok l"
  shows "\<exists>i. and_then (inner_layout l) (expect unwrap_none) = Inr i \<and>
     unat (lay_size i) = inner_size l \<and> unat (lay_align i) = inner_align l"
proof -
  let ?s = "max (lay_size l) BLOCK_LEN" and ?al = "max (lay_align l) BLOCK_LEN"
  have s: "unat ?s = max (unat (lay_size l)) 16" and al: "unat ?al = inner_align l"
    by (simp_all add: unat_max BLOCK_LEN_def inner_align_def)
  have ok: "layout_ok l" and size: "unat (lay_size l) \<le> 2 ^ 63" using assms by (auto simp: bin_ok_def)
  have small: "inner_size l \<le> 2 ^ 63" using npot_least [of "unat ?s" 63] size s by (simp add: inner_size_def)
  then have conv: "unat (of_nat (inner_size l) :: usize) = inner_size l" by (simp add: unat_of_nat)
  define w :: usize where "w = of_nat (inner_size l)"
  have w: "(if \<not> is_power_of_two ?s then expect unwrap_none (checked_next_power_of_two ?s) else Inr ?s) = Inr w"
  proof (cases "is_power_of_two ?s")
    case True
    then have "inner_size l = unat ?s" by (simp add: is_power_of_two_def is_pow2_def inner_size_def s)
    with True show ?thesis by (simp add: w_def)
  next
    case False
    have "npot (unat ?s) = inner_size l" by (simp add: inner_size_def s)
    with False small show ?thesis by (simp add: checked_next_power_of_two_def w_def)
  qed
  have "is_pow2 16" using npot_pow2 [of 4] by (simp add: is_pow2_def)
  with layout_okD(1) [OF ok] have "is_power_of_two ?al"
    unfolding is_power_of_two_def al inner_align_def by (simp add: max_def)
  moreover have le: "unat ?al \<le> 2 ^ 31" using layout_okD(2) [OF ok] by (simp add: al inner_align_def)
  moreover have "\<not> w > - 1 - (?al - 1)"
  proof -
    have "unat (?al - 1) = unat ?al - 1"
      using al by (intro unat_minus_one) (auto simp: inner_align_def)
    then have "unat (- 1 - (?al - 1)) = 2 ^ 64 - 1 - (unat ?al - 1)"
      by (subst unat_sub) (simp_all add: unat_minus_one_word)
    then show ?thesis using le small conv by (simp add: word_less_nat_alt w_def)
  qed
  ultimately have "from_size_align w ?al = Some (from_size_align_unchecked w ?al)"
    by (simp add: from_size_align_def word_less_nat_alt)
  with w conv al show ?thesis
    by (simp add: inner_layout_def Let_def from_size_align_unchecked_def w_def)
qed

lemma mod_zero_iff: "(p :: 'a::len word) mod a = 0 \<longleftrightarrow> unat a dvd unat p"
  by (simp add: word_unat_eq_iff unat_mod dvd_eq_mod_eq_0)

lemma matches_exact_iff: "matches_exact m p l \<longleftrightarrow>
    unat (bh_size m p) = unat (lay_size l) \<and> unat (lay_align l) dvd unat p"
  unfolding matches_exact_def mod_zero_iff by (simp add: word_unat_eq_iff)

lemma matches_contains_iff: "matches_contains m p l \<longleftrightarrow>
    unat (lay_size l) < unat (bh_size m p) \<and> unat (lay_align l) dvd unat p"
  unfolding matches_contains_def mod_zero_iff by (simp add: word_less_nat_alt)

subsection \<open>The searches\<close>

text \<open>Both folds over the free list look for the first match and remember the link before it.\<close>

definition pure_search :: "(usize \<Rightarrow> bool) \<Rightarrow> search \<Rightarrow> usize \<Rightarrow> search" where
  "pure_search P acc cur =
     (case acc of
        (Some prev, None) \<Rightarrow> if P cur then (Some prev, Some cur) else (Some cur, None)
      | _ \<Rightarrow> acc)"

lemma contains_step_pure: "fst acc \<noteq> None \<Longrightarrow>
    contains_step l acc cur m = Inr (pure_search (\<lambda>c. matches_contains m c l) acc cur, m)"
  by (auto simp: contains_step_def pure_search_def split: option.splits prod.splits)

lemma insert_step_pure: "fst acc \<noteq> None \<Longrightarrow>
    insert_step p acc cur m = Inr (pure_search (\<lambda>c. p < c) acc cur, m)"
  by (auto simp: insert_step_def pure_search_def split: option.splits prod.splits)

lemma pure_search_fst: "fst acc \<noteq> None \<Longrightarrow> fst (pure_search P acc cur) \<noteq> None"
  by (auto simp: pure_search_def split: option.splits prod.splits)

lemma foldl_pure_search_found: "foldl (pure_search P) (Some q, Some f) ps = (Some q, Some f)"
  by (induction ps) (auto simp: pure_search_def)

lemma foldl_pure_search: "foldl (pure_search P) (Some q, None) ps =
    (case dropWhile (\<lambda>p. \<not> P p) ps of
       [] \<Rightarrow> (Some (link_before q ps), None)
     | x # _ \<Rightarrow> (Some (link_before q (takeWhile (\<lambda>p. \<not> P p) ps)), Some x))"
proof (induction ps arbitrary: q)
  case (Cons p ps)
  have "pure_search P (Some q, None) p = (if P p then (Some q, Some p) else (Some p, None))"
    by (simp add: pure_search_def)
  with Cons show ?case
    using foldl_pure_search_found [of P q p ps]
    by (auto split: list.splits simp del: dropWhile_eq_Nil_conv)
qed simp

lemma search_fold:
  assumes "ll_rep m (m loc) ps"
    and "\<And>acc cur. fst acc \<noteq> None \<Longrightarrow> step acc cur m = Inr (pure_search P acc cur, m)"
  shows "iter_fold step (iter_of (list_at m loc)) (Some loc, None) m =
    Some (Inr (case dropWhile (\<lambda>p. \<not> P p) ps of
       [] \<Rightarrow> (Some (link_before loc ps), None)
     | x # _ \<Rightarrow> (Some (link_before loc (takeWhile (\<lambda>p. \<not> P p) ps)), Some x), m))"
proof -
  have "iter_fold step \<lparr>it_current = m loc\<rparr> (Some loc, None) m =
      Some (Inr (foldl (pure_search P) (Some loc, None) ps, m))"
    using assms by (intro iter_fold_pure [where P = "\<lambda>acc. fst acc \<noteq> None"]) (auto simp: pure_search_fst)
  then show ?thesis by (simp add: foldl_pure_search iter_of_def list_at_def)
qed

lemma blocks_of_takeWhile: "takeWhile Q (blocks_of m ps) = blocks_of m (takeWhile (\<lambda>p. Q (unat p, unat (bh_size m p))) ps)"
  by (simp add: blocks_of_def takeWhile_map comp_def)

lemma blocks_of_dropWhile: "dropWhile Q (blocks_of m ps) = blocks_of m (dropWhile (\<lambda>p. Q (unat p, unat (bh_size m p))) ps)"
  by (simp add: blocks_of_def dropWhile_map comp_def)

lemma link_not_size:
  assumes "region_ok lo hi loc" and "\<And>x. x \<in> set xs \<Longrightarrow> hdr lo hi x" and "hdr lo hi p"
  shows "link_before loc xs \<noteq> p + 8"
proof (cases "xs = []")
  case True
  with hdr_loc [OF assms(3,1)] show ?thesis by simp
next
  case False
  then have "hdr lo hi (last xs)" by (intro assms(2)) simp
  from hdr_neq_plus8 [OF this assms(3)] False show ?thesis by (simp add: link_before_def)
qed

lemma bin_repI: "region_ok lo hi loc \<Longrightarrow> wf_blocks lo hi bs \<Longrightarrow> ll_rep m (m loc) ps \<Longrightarrow> blocks_of m ps = bs \<Longrightarrow>
    bin_rep lo hi loc m bs"
  by (auto simp: bin_rep_def)

lemma bin_repE:
  assumes "bin_rep lo hi loc m bs"
  obtains ps where "region_ok lo hi loc" "wf_blocks lo hi bs" "ll_rep m (m loc) ps" "bs = blocks_of m ps"
    "\<And>p. p \<in> set ps \<Longrightarrow> hdr lo hi p" "loc \<notin> set ps"
proof -
  from assms obtain ps where ps: "region_ok lo hi loc" "wf_blocks lo hi bs" "ll_rep m (m loc) ps" "bs = blocks_of m ps"
    by (auto simp: bin_rep_def)
  have hdrs: "hdr lo hi p" if "p \<in> set ps" for p
    using wf_hdr [OF _ ps(1) that] ps by simp
  moreover have "loc \<notin> set ps" using hdrs hdr_loc(1) [OF _ ps(1)] by blast
  ultimately show thesis using ps that by blast
qed

lemma hdr_in_free: "p \<in> set ps \<Longrightarrow> wf_blocks lo hi (blocks_of m ps) \<Longrightarrow> unat p \<in> free_bytes (blocks_of m ps)"
proof -
  assume p: "p \<in> set ps" and wf: "wf_blocks lo hi (blocks_of m ps)"
  then have "(unat p, unat (bh_size m p)) \<in> set (blocks_of m ps)" by (auto simp: in_blocks_of)
  with wf_blocks_in(3) [OF wf this] show ?thesis
    by (fastforce simp: free_bytes_def mem_block)
qed

subsection \<open>Allocating\<close>

text \<open>What an operation may write: the free bytes and the list head.\<close>

definition frame :: "usize \<Rightarrow> nat set \<Rightarrow> mem \<Rightarrow> mem \<Rightarrow> bool" where
  "frame loc area m m' \<longleftrightarrow> (\<forall>x. x \<noteq> loc \<longrightarrow> unat x \<notin> area \<longrightarrow> m' x = m x)"

lemma frame_refl [simp]: "frame loc area m m"
  by (simp add: frame_def)

lemma frame_trans: "frame loc A m m' \<Longrightarrow> frame loc B m' m'' \<Longrightarrow> A \<subseteq> C \<Longrightarrow> B \<subseteq> C \<Longrightarrow> frame loc C m m''"
  unfolding frame_def by (metis subsetD)

lemma link_in_area:
  assumes "\<And>x. x \<in> set xs \<Longrightarrow> unat x \<in> area"
  shows "link_before loc xs = loc \<or> unat (link_before loc xs) \<in> area"
  using assms by (auto simp: link_before_def)

text \<open>Unlinking a block that fits exactly.\<close>

lemma unlink_refines:
  assumes reg: "region_ok lo hi loc" and wf: "wf_blocks lo hi (blocks_of m (xs @ x # ys))"
    and rep: "ll_rep m (m loc) (xs @ x # ys)"
  defines "m' \<equiv> m(link_before loc xs := m x)"
  shows "bin_rep lo hi loc m' (blocks_of m (xs @ ys))"
    and "frame loc (free_bytes (blocks_of m (xs @ x # ys))) m m'"
proof -
  have hdrs: "hdr lo hi p" if "p \<in> set (xs @ x # ys)" for p
    by (rule wf_hdr [OF wf reg that])
  then have loc: "loc \<notin> set (xs @ x # ys)" using hdr_loc(1) [OF _ reg] by blast
  have "bh_size m' p = bh_size m p" if "p \<in> set (xs @ ys)" for p
    using link_not_size [OF reg, of xs p] hdrs that by (auto simp: bh_size_def m'_def)
  then have "blocks_of m' (xs @ ys) = blocks_of m (xs @ ys)" by (rule blocks_of_cong)
  moreover have "wf_blocks lo hi (blocks_of m (xs @ ys))"
    using wf by (auto intro: wf_blocks_remove)
  moreover have "ll_rep m' (m' loc) (xs @ ys)"
    unfolding m'_def by (rule node_pop_rep [OF rep loc])
  ultimately show "bin_rep lo hi loc m' (blocks_of m (xs @ ys))"
    using reg by (intro bin_repI)
  have "unat p \<in> free_bytes (blocks_of m (xs @ x # ys))" if "p \<in> set xs" for p
    using that by (intro hdr_in_free [OF _ wf]) simp
  from link_in_area [of xs, OF this] show "frame loc (free_bytes (blocks_of m (xs @ x # ys))) m m'"
    by (auto simp: frame_def m'_def)
qed

text \<open>Cutting the front off a larger block.\<close>

lemma carve_front_refines:
  assumes reg: "region_ok lo hi loc" and wf: "wf_blocks lo hi (blocks_of m (xs @ c # ys))"
    and rep: "ll_rep m (m loc) (xs @ c # ys)"
    and sz: "unat (lay_size i) < unat (bh_size m c)" "16 dvd unat (lay_size i)" "0 < unat (lay_size i)"
  shows "\<exists>m'. carve_front i (link_before loc xs) c m = Inr (c, m') \<and>
     bin_rep lo hi loc m' (blocks_of m xs @ (unat c + unat (lay_size i), unat (bh_size m c) - unat (lay_size i)) # blocks_of m ys) \<and>
     frame loc (free_bytes (blocks_of m (xs @ c # ys))) m m'"
proof -
  let ?k = "link_before loc xs" and ?s = "unat (lay_size i)" and ?n = "unat (bh_size m c)"
  let ?area = "free_bytes (blocks_of m (xs @ c # ys))"
  have hdrs: "hdr lo hi p" if "p \<in> set (xs @ c # ys)" for p
    by (rule wf_hdr [OF wf reg that])
  then have loc: "loc \<notin> set (xs @ c # ys)" using hdr_loc(1) [OF _ reg] by blast
  have hc: "hdr lo hi c" by (rule hdrs) simp
  have cn: "16 dvd ?n" "unat c + ?n \<le> hi"
    using wf_blocks_in [OF wf, of "unat c" ?n] by simp_all
  have hi: "hi \<le> 2 ^ 63" using reg by (simp add: region_ok_def)
  have s16: "?s + 16 \<le> ?n" using sz cn(1) by presburger
  define b where "b = saturating_add c (lay_size i)"
  have b: "unat b = unat c + ?s"
    using cn sz(1) hi by (simp add: b_def unat_saturating_add min_def)
  have hb: "hdr lo hi b" using hc sz cn s16 b by (auto simp: hdr_def)
  have cb: "c \<noteq> b" using b sz(3) by auto
  have fresh: "b \<notin> set (xs @ c # ys)"
    using wf_before [OF wf, of b] wf_after [OF wf, of b] b sz(1) cb by auto
  have diff: "saturating_sub b c = lay_size i" using b by (simp add: word_unat_eq_iff unat_saturating_sub)
  define m2 where "m2 = set_size b (saturating_sub (bh_size m c) (lay_size i)) (set_size b 0 m)"
  define m3 where "m3 = m2(?k := m2 c)"
  have kc: "m ?k = c" using ll_rep_at_append [OF rep] by simp
  have kb: "?k \<noteq> b + 8" using hdrs by (intro link_not_size [OF reg _ hb]) auto
  have m2k: "m2 ?k = c" using kb kc by (simp add: m2_def set_size_def)
  have loc2: "m2 loc = m loc" using hdr_loc [OF hb reg] by (simp add: m2_def set_size_def)
  have "ll_rep (set_size b v m0) q (xs @ c # ys) = ll_rep m0 q (xs @ c # ys)" for v m0 q
    by (rule ll_rep_set_size [OF hb hdrs])
  then have "ll_rep m2 (m2 loc) (xs @ c # ys)"
    using rep unfolding loc2 unfolding m2_def by simp
  then have rep3: "ll_rep m3 (m3 loc) (xs @ ys)"
    unfolding m3_def using loc by (rule node_pop_rep)
  have pop: "pop_at ?k m2 = (Some c, m3)"
    using m2k hdr_nonnull [OF hc] by (simp add: pop_at_def pop_def peek_def is_empty_def list_at_def m3_def)
  define m' where "m' = push_at ?k b m3"
  have front: "carve_front i ?k c m = Inr (c, m')"
    unfolding carve_front_def Let_def b_def [symmetric] diff new_from_ptr_def
    using pop cb by (simp add: m2_def [symmetric] m'_def)
  have rep': "ll_rep m' (m' loc) (xs @ b # ys)"
    unfolding m'_def using rep3 hdr_nonnull [OF hb] fresh hdr_loc [OF hb reg] loc
    by (intro push_at_rep) auto
  have szk: "bh_size m' p = bh_size m2 p" if "hdr lo hi p" for p
  proof -
    have "?k \<noteq> p + 8" using hdrs by (intro link_not_size [OF reg _ that]) auto
    moreover have "b \<noteq> p + 8" by (rule hdr_neq_plus8 [OF hb that])
    ultimately show ?thesis by (simp add: m'_def m3_def push_at_eq bh_size_def)
  qed
  have "bh_size m' p = bh_size m p" if "p \<in> set (xs @ ys)" for p
    using that hdrs fresh by (auto simp: szk m2_def)
  then have same: "blocks_of m' xs = blocks_of m xs" "blocks_of m' ys = blocks_of m ys"
    by (auto intro: blocks_of_cong)
  have "unat (bh_size m' b) = ?n - ?s"
    by (simp add: szk [OF hb] m2_def unat_saturating_sub)
  with same b have blocks: "blocks_of m' (xs @ b # ys) = blocks_of m xs @ (unat c + ?s, ?n - ?s) # blocks_of m ys"
    by simp
  have wf': "wf_blocks lo hi (blocks_of m xs @ (unat c + ?s, ?n - ?s) # blocks_of m ys)"
    using wf sz by (intro wf_blocks_shrink) auto
  have in_area: "unat p \<in> ?area" if "p \<in> set (xs @ c # ys)" for p
    by (rule hdr_in_free [OF that wf])
  have "block (unat c) ?n \<subseteq> ?area" by auto
  moreover have "unat b \<in> block (unat c) ?n" "unat (b + 8) \<in> block (unat c) ?n"
    using b s16 sz hdr_plus8 [OF hb] by (auto simp: mem_block)
  moreover have "?k = loc \<or> unat ?k \<in> ?area" using in_area by (intro link_in_area) auto
  ultimately have "frame loc ?area m m'"
    unfolding frame_def m'_def push_at_eq m3_def m2_def set_size_def by auto
  with front bin_repI [OF reg wf' rep' blocks] show ?thesis by blast
qed

text \<open>The search and the two ways to take a block, against the specification.\<close>

lemma alloc_inner_refines:
  assumes rep: "bin_rep lo hi (bin_head a) m bs"
    and sz: "16 dvd unat (lay_size i)" "0 < unat (lay_size i)"
  shows "case take_block (unat (lay_size i)) (unat (lay_align i)) bs of
     None \<Rightarrow> alloc_inner a i m = Some (Inr (Inl (Exhausted i), m))
   | Some (p, r) \<Rightarrow> \<exists>w m'. alloc_inner a i m = Some (Inr (Inr w, m')) \<and> unat w = p \<and>
       bin_rep lo hi (bin_head a) m' r \<and> frame (bin_head a) (free_bytes bs) m m'"
proof -
  let ?loc = "bin_head a" and ?s = "unat (lay_size i)" and ?al = "unat (lay_align i)"
  obtain ps where reg: "region_ok lo hi ?loc" and wf: "wf_blocks lo hi bs" and ll: "ll_rep m (m ?loc) ps"
    and bs: "bs = blocks_of m ps" using rep by (rule bin_repE)
  have find: "find_exact_free_block a i m = Some (case dropWhile (\<lambda>p. \<not> matches_exact m p i) ps of
      [] \<Rightarrow> None | x # _ \<Rightarrow> Some \<lparr>nd_prev = link_before ?loc (takeWhile (\<lambda>p. \<not> matches_exact m p i) ps), nd_value = x\<rparr>)"
    unfolding find_exact_free_block_def by (rule iter_mut_find_spec [OF ll])
  have fold: "iter_fold (contains_step i) (iter_of (list_at m ?loc)) (Some ?loc, None) m =
      Some (Inr (case dropWhile (\<lambda>p. \<not> matches_contains m p i) ps of
         [] \<Rightarrow> (Some (link_before ?loc ps), None)
       | x # _ \<Rightarrow> (Some (link_before ?loc (takeWhile (\<lambda>p. \<not> matches_contains m p i) ps)), Some x), m))"
    using contains_step_pure by (intro search_fold [OF ll]) blast
  have ex: "take_exact ?s ?al bs = (case dropWhile (\<lambda>p. \<not> matches_exact m p i) ps of
      [] \<Rightarrow> None | x # ys \<Rightarrow> Some (unat x, blocks_of m (takeWhile (\<lambda>p. \<not> matches_exact m p i) ps @ ys)))"
    unfolding take_exact_conv bs blocks_of_takeWhile blocks_of_dropWhile matches_exact_iff
    by (cases "dropWhile (\<lambda>p. \<not> (unat (bh_size m p) = ?s \<and> ?al dvd unat p)) ps")
      (simp_all del: dropWhile_eq_Nil_conv)
  have ca: "carve ?s ?al bs = (case dropWhile (\<lambda>p. \<not> matches_contains m p i) ps of
      [] \<Rightarrow> None
    | x # ys \<Rightarrow> Some (unat x, blocks_of m (takeWhile (\<lambda>p. \<not> matches_contains m p i) ps) @
         (unat x + ?s, unat (bh_size m x) - ?s) # blocks_of m ys))"
    unfolding carve_conv bs blocks_of_takeWhile blocks_of_dropWhile matches_contains_iff
    by (cases "dropWhile (\<lambda>p. \<not> (?s < unat (bh_size m p) \<and> ?al dvd unat p)) ps")
      (simp_all del: dropWhile_eq_Nil_conv)
  show ?thesis
  proof (cases "dropWhile (\<lambda>p. \<not> matches_exact m p i) ps")
    case (Cons x ys)
    let ?xs = "takeWhile (\<lambda>p. \<not> matches_exact m p i) ps"
    have ps: "ps = ?xs @ x # ys" using Cons by (metis takeWhile_dropWhile_id)
    note un = unlink_refines [OF reg, of m ?xs x ys, folded ps, OF wf [unfolded bs] ll, folded bs]
    have "alloc_inner a i m = Some (Inr (Inr x, m(link_before ?loc ?xs := m x)))"
      unfolding alloc_inner_def find Cons by (simp add: node_pop_def)
    with un ex Cons show ?thesis unfolding take_block_def by (simp del: fun_upd_apply)
  next
    case Nil
    show ?thesis
    proof (cases "dropWhile (\<lambda>p. \<not> matches_contains m p i) ps")
      case none: Nil
      have "alloc_inner a i m = Some (Inr (Inl (Exhausted i), m))"
        unfolding alloc_inner_def find Nil fold none
        by (simp add: from_size_align_unchecked_def)
      with ex ca Nil none show ?thesis unfolding take_block_def by (simp del: dropWhile_eq_Nil_conv)
    next
      case (Cons x ys)
      let ?xs = "takeWhile (\<lambda>p. \<not> matches_contains m p i) ps"
      have ps: "ps = ?xs @ x # ys" using Cons by (metis takeWhile_dropWhile_id)
      have "matches_contains m x i" using Cons by (metis dropWhile_eq_Cons_conv)
      then have "?s < unat (bh_size m x)" by (simp add: matches_contains_iff)
      then obtain m' where "carve_front i (link_before ?loc ?xs) x m = Inr (x, m')"
        "bin_rep lo hi ?loc m' (blocks_of m ?xs @ (unat x + ?s, unat (bh_size m x) - ?s) # blocks_of m ys)"
        "frame ?loc (free_bytes bs) m m'"
        using carve_front_refines [OF reg, of m ?xs x ys i, folded ps, OF wf [unfolded bs] ll _ sz, folded bs]
        by blast
      moreover from this(1) have "alloc_inner a i m = Some (Inr (Inr x, m'))"
        unfolding alloc_inner_def find Nil fold Cons by simp
      ultimately show ?thesis
        using ex ca Nil Cons unfolding take_block_def by (simp del: dropWhile_eq_Nil_conv)
    qed
  qed
qed

text \<open>The whole allocation: a block is taken and what is left is split again, or nothing changes.\<close>

lemma bin_alloc_refines:
  assumes rep: "bin_rep lo hi (bin_head a) m bs" and ok: "bin_ok l"
  shows "case spec_alloc (inner_size l) (inner_align l) bs of
     None \<Rightarrow> bin_alloc a l m = Some (Inr (Inl (Exhausted l), m))
   | Some (p, r) \<Rightarrow> \<exists>w m'. bin_alloc a l m = Some (Inr (Inr w, m')) \<and> unat w = p \<and>
       bin_rep lo hi (bin_head a) m' r \<and> frame (bin_head a) (free_bytes bs) m m'"
proof -
  obtain i where i: "and_then (inner_layout l) (expect unwrap_none) = Inr i"
    "unat (lay_size i) = inner_size l" "unat (lay_align i) = inner_align l"
    using inner_layout_correct [OF ok] by blast
  have sz: "16 dvd unat (lay_size i)" "0 < unat (lay_size i)"
    using inner_size_bounds [of l] i(2) by auto
  note inner = alloc_inner_refines [OF rep sz, unfolded i(2,3)]
  show ?thesis
  proof (cases "take_block (inner_size l) (inner_align l) bs")
    case None
    with inner have "alloc_inner a i m = Some (Inr (Inl (Exhausted i), m))" by simp
    with None i(1) show ?thesis
      by (simp add: bin_alloc_def spec_alloc_def map_alloc_err_def from_size_align_unchecked_def)
  next
    case (Some pr)
    obtain p r where pr: "pr = (p, r)" by (cases pr)
    from inner Some pr obtain w m' where w: "alloc_inner a i m = Some (Inr (Inr w, m'))" "unat w = p"
      "bin_rep lo hi (bin_head a) m' r" "frame (bin_head a) (free_bytes bs) m m'" by auto
    obtain m'' where m'': "divide_maximally a m' = Some (Inr m'')"
      "bin_rep lo hi (bin_head a) m'' (divide_blocks r)" "\<forall>x. unat x \<notin> free_bytes r \<longrightarrow> m'' x = m' x"
      using divide_maximally_refines [OF w(3)] by blast
    have "wf_blocks lo hi bs" using rep by (simp add: bin_rep_def)
    then have "free_bytes r \<subseteq> free_bytes bs"
      using take_block_correct(3) [of lo hi bs "inner_size l" "inner_align l" p r] Some pr sz i(2) by auto
    moreover have "frame (bin_head a) (free_bytes r) m' m''" using m''(3) by (simp add: frame_def)
    ultimately have "frame (bin_head a) (free_bytes bs) m m''" using w(4) by (blast intro: frame_trans)
    with Some pr w m'' i(1) show ?thesis
      by (simp add: bin_alloc_def spec_alloc_def)
  qed
qed

end
