(* ===== verification/BinCorrect.thy ===== *)
theory BinCorrect
  imports BinRefine2
begin

text \<open>
  Freeing and joining against the specification, the initial state, and the theorems on the bin
  allocator: the contract of \<open>heap_allocator\<close>, when an allocation fails, and when a deallocation
  panics.
\<close>

subsection \<open>Freeing\<close>

lemma link_block_refines:
  assumes reg: "region_ok lo hi loc" and wf: "wf_blocks lo hi (blocks_of m (xs @ ys))"
    and rep: "ll_rep m (m loc) (xs @ ys)"
    and ok: "block_ok lo hi (unat p, unat n)" and disj: "block (unat p) (unat n) \<inter> free_bytes (blocks_of m (xs @ ys)) = {}"
  defines "m' \<equiv> push_at (link_before loc xs) p (set_size p n (set_size p 0 m))"
  shows "ll_rep m' (m' loc) (xs @ p # ys)"
    and "blocks_of m' (xs @ p # ys) = blocks_of m xs @ (unat p, unat n) # blocks_of m ys"
    and "frame loc (free_bytes (blocks_of m (xs @ ys)) \<union> block (unat p) (unat n)) m m'"
proof -
  let ?k = "link_before loc xs" and ?area = "free_bytes (blocks_of m (xs @ ys)) \<union> block (unat p) (unat n)"
  define m1 where "m1 = set_size p n (set_size p 0 m)"
  have hdrs: "hdr lo hi x" if "x \<in> set (xs @ ys)" for x by (rule wf_hdr [OF wf reg that])
  then have loc: "loc \<notin> set (xs @ ys)" using hdr_loc(1) [OF _ reg] by blast
  have n16: "16 \<le> unat n" using ok by (auto simp: block_ok_simp dest: dvd_imp_le)
  have hp: "hdr lo hi p" using ok n16 reg by (auto simp: block_ok_simp hdr_def region_ok_def)
  have fresh: "p \<notin> set (xs @ ys)"
  proof
    assume "p \<in> set (xs @ ys)"
    from hdr_in_free [OF this wf] disj have "unat p \<notin> block (unat p) (unat n)" by blast
    with n16 show False by (simp add: mem_block)
  qed
  have "ll_rep (set_size p v m0) q (xs @ ys) = ll_rep m0 q (xs @ ys)" for v m0 q
    by (rule ll_rep_set_size [OF hp hdrs])
  moreover have "m1 loc = m loc" using hdr_loc [OF hp reg] by (simp add: m1_def set_size_def)
  ultimately have "ll_rep m1 (m1 loc) (xs @ ys)" using rep unfolding m1_def by simp
  then show "ll_rep m' (m' loc) (xs @ p # ys)"
    unfolding m'_def m1_def [symmetric] using hdr_nonnull [OF hp] fresh hdr_loc [OF hp reg] loc
    by (intro push_at_rep) auto
  have szs: "bh_size m' x = bh_size m1 x" if "hdr lo hi x" for x
    unfolding m'_def m1_def [symmetric]
    using link_not_size [OF reg _ that, of xs] hdrs hdr_neq_plus8 [OF hp that] by (intro bh_size_push_at) auto
  have "bh_size m' x = bh_size m x" if "x \<in> set (xs @ ys)" for x
    using szs [OF hdrs [OF that]] that fresh by (auto simp: m1_def)
  then have "blocks_of m' xs = blocks_of m xs" "blocks_of m' ys = blocks_of m ys"
    by (auto intro: blocks_of_cong)
  with szs [OF hp] show "blocks_of m' (xs @ p # ys) = blocks_of m xs @ (unat p, unat n) # blocks_of m ys"
    by (simp add: m1_def)
  have "unat x \<in> ?area" if "x \<in> set xs" for x
    using hdr_in_free [OF _ wf, of x] that by auto
  then have "?k = loc \<or> unat ?k \<in> ?area" by (rule link_in_area)
  moreover have "unat p \<in> ?area" "unat (p + 8) \<in> ?area"
    using n16 hdr_plus8 [OF hp] by (auto simp: mem_block)
  ultimately show "frame loc ?area m m'"
    unfolding frame_def m'_def push_at_eq set_size_def by auto
qed

lemma dealloc_inner_refines:
  assumes rep: "bin_rep lo hi (bin_head a) m bs"
    and ok: "block_ok lo hi (unat p, unat (lay_size i))" "block (unat p) (unat (lay_size i)) \<inter> free_bytes bs = {}"
    and al: "unat (lay_align i) dvd unat p"
  shows "case insert_block (unat p) (unat (lay_size i)) bs of
     None \<Rightarrow> dealloc_inner a p i m = Some (Inl (Panic ''invalid pointer provided''))
   | Some r \<Rightarrow> \<exists>m'. dealloc_inner a p i m = Some (Inr m') \<and> bin_rep lo hi (bin_head a) m' r \<and>
       frame (bin_head a) (free_bytes bs \<union> block (unat p) (unat (lay_size i))) m m'"
proof -
  let ?loc = "bin_head a" and ?P = "\<lambda>x. \<not> p < x"
  obtain ps where reg: "region_ok lo hi ?loc" and wf: "wf_blocks lo hi bs" and ll: "ll_rep m (m ?loc) ps"
    and bs: "bs = blocks_of m ps" using rep by (rule bin_repE)
  have fold: "iter_fold (insert_step p) (iter_of (list_at m ?loc)) (Some ?loc, None) m =
      Some (Inr (case dropWhile ?P ps of
         [] \<Rightarrow> (Some (link_before ?loc ps), None)
       | x # _ \<Rightarrow> (Some (link_before ?loc (takeWhile ?P ps)), Some x), m))"
    using insert_step_pure by (intro search_fold [OF ll]) blast
  have ins: "insert_block (unat p) n bs = (case dropWhile ?P ps of
      [] \<Rightarrow> None
    | x # ys \<Rightarrow> Some (blocks_of m (takeWhile ?P ps) @ (unat p, n) # blocks_of m (x # ys)))" for n
    unfolding insert_block_conv bs blocks_of_takeWhile blocks_of_dropWhile word_less_nat_alt prod.case
    by (cases "dropWhile (\<lambda>x. \<not> unat p < unat x) ps") (simp_all del: dropWhile_eq_Nil_conv)
  show ?thesis
  proof (cases "dropWhile ?P ps")
    case Nil
    then show ?thesis unfolding ins dealloc_inner_def fold by (simp del: dropWhile_eq_Nil_conv)
  next
    case (Cons x ys)
    let ?xs = "takeWhile ?P ps"
    define m' where "m' = push_at (link_before ?loc ?xs) p (set_size p (lay_size i) (set_size p 0 m))"
    have ps: "ps = ?xs @ x # ys" using Cons by (metis takeWhile_dropWhile_id)
    note link = link_block_refines [OF reg, of m ?xs "x # ys" p "lay_size i", folded ps m'_def,
        OF wf [unfolded bs] ll ok(1) ok(2) [unfolded bs], folded bs]
    have "dealloc_inner a p i m = Some (Inr m')"
      unfolding dealloc_inner_def fold Cons using al by (simp add: new_from_ptr_def m'_def mod_zero_iff)
    moreover have "insert_block (unat p) (unat (lay_size i)) bs =
        Some (blocks_of m ?xs @ (unat p, unat (lay_size i)) # blocks_of m (x # ys))"
      using ins Cons by simp
    moreover from this have "wf_blocks lo hi (blocks_of m ?xs @ (unat p, unat (lay_size i)) # blocks_of m (x # ys))"
      by (rule insert_block_wf [OF wf _ ok])
    ultimately show ?thesis using link bin_repI [OF reg _ link(1,2)] by simp
  qed
qed

subsection \<open>Joining\<close>

definition no_join :: "mem \<Rightarrow> usize option \<Rightarrow> usize list \<Rightarrow> bool" where
  "no_join m prev ps \<longleftrightarrow> (case ps of [] \<Rightarrow> True | c # _ \<Rightarrow> defragment_step prev c m = Inr (Some c, m))"

text \<open>The test of \<open>defragment\<close> on two headers, as arithmetic.\<close>

lemma defragment_step_eq:
  assumes "unat p + unat (bh_size m p) \<le> 2 ^ 63" and "0 < unat (bh_size m p)" and "hdr lo hi p"
  shows "defragment_step (Some p) c m =
    (if unat p + unat (bh_size m p) = unat c \<and> unat (bh_size m p) = unat (bh_size m c) \<and>
        2 * unat (bh_size m p) dvd unat p
     then (let m1 = snd (pop_at p m) in Inr (Some c, set_size p (push_bit 1 (bh_size m1 p)) m1))
     else Inr (Some c, m))"
proof -
  let ?n = "unat (bh_size m p)"
  have adj: "is_adjacent m p c \<longleftrightarrow> unat p + ?n = unat c"
    using assms(1) by (simp add: is_adjacent_def word_unat_eq_iff unat_saturating_add min_def)
  have eq: "equal_size m p c \<longleftrightarrow> ?n = unat (bh_size m c)"
    by (simp add: equal_size_def word_unat_eq_iff)
  show ?thesis
  proof (cases "is_adjacent m p c \<and> equal_size m p c")
    case False
    have "\<not> (unat p + ?n = unat c \<and> ?n = unat (bh_size m c) \<and> 2 * ?n dvd unat p)"
      using False adj eq by blast
    then show ?thesis
      unfolding defragment_step_def option.case if_not_P [OF False] and_then_Inr by (simp only: if_not_P if_False)
  next
    case True
    have "2 * ?n < 2 ^ 64"
    proof -
      have "0 < unat p" using assms(3) by (auto simp: hdr_def)
      then show ?thesis using assms(1) by simp
    qed
    then have two: "unat (2 * bh_size m p) = 2 * ?n" by (simp add: unat_word_ariths)
    then have "2 * bh_size m p \<noteq> 0" using assms(2) by auto
    then have al: "aligned_on p (2 * bh_size m p) = Inr (2 * ?n dvd unat p)"
      unfolding aligned_on_def mod_zero_iff two by simp
    have cond: "(unat p + ?n = unat c \<and> ?n = unat (bh_size m c) \<and> D) = D" for D
      using True adj eq by blast
    show ?thesis
      unfolding cond unfolding defragment_step_def option.case if_P [OF True] al and_then_Inr by (rule refl)
  qed
qed

text \<open>Joining two headers: the second is unlinked, the size of the first doubled.\<close>

lemma join_refines:
  assumes reg: "region_ok lo hi loc" and wf: "wf_blocks lo hi (blocks_of m (xs @ p # c # ys))"
    and rep: "ll_rep m (m loc) (xs @ p # c # ys)"
    and adj: "unat p + unat (bh_size m p) = unat c" "unat (bh_size m p) = unat (bh_size m c)"
      "2 * unat (bh_size m p) dvd unat p"
  defines "m' \<equiv> (let m1 = snd (pop_at p m) in set_size p (push_bit 1 (bh_size m1 p)) m1)"
  shows "ll_rep m' (m' loc) (xs @ p # ys)"
    and "blocks_of m' (xs @ p # ys) = blocks_of m xs @ (unat p, 2 * unat (bh_size m p)) # blocks_of m ys"
    and "\<And>x. unat x \<notin> block (unat p) (unat (bh_size m p)) \<Longrightarrow> m' x = m x"
    and "m' c = m c" and "bh_size m' c = bh_size m c"
    and "no_join m' (Some c) ys"
proof -
  let ?n = "unat (bh_size m p)"
  have hdrs: "hdr lo hi x" if "x \<in> set (xs @ p # c # ys)" for x by (rule wf_hdr [OF wf reg that])
  then have hp: "hdr lo hi p" and hc: "hdr lo hi c" and loc: "loc \<notin> set (xs @ p # c # ys)"
    using hdr_loc(1) [OF _ reg] by auto
  have dist: "distinct (xs @ p # c # ys)" by (rule ll_rep_distinct [OF rep])
  have hi: "hi \<le> 2 ^ 63" and lo: "0 < lo" using reg by (auto simp: region_ok_def)
  have pin: "(unat p, ?n) \<in> set (blocks_of m (xs @ p # c # ys))"
    and cin: "(unat c, unat (bh_size m c)) \<in> set (blocks_of m (xs @ p # c # ys))" by simp_all
  note pn = wf_blocks_in [OF wf pin] and cn = wf_blocks_in [OF wf cin]
  have mp: "m p = c" using ll_rep_at_append [of m loc "xs @ [p]" c ys] rep by simp
  define m1 where "m1 = m(p := m c)"
  have "pop_at p m = (Some c, m1)"
    using mp hdr_nonnull [OF hc] by (simp add: pop_at_def pop_def peek_def is_empty_def list_at_def m1_def)
  then have m': "m' = set_size p (push_bit 1 (bh_size m1 p)) m1" by (simp add: m'_def)
  have sz1: "bh_size m1 x = bh_size m x" if "hdr lo hi x" for x
    using hdr_neq_plus8 [OF hp that] by (simp add: m1_def bh_size_def)
  have rep1: "ll_rep m1 (m1 loc) ((xs @ [p]) @ ys)"
    using node_pop_rep [of m loc "xs @ [p]" c ys] rep loc by (simp add: m1_def)
  have "m' loc = m1 loc" using hdr_loc [OF hp reg] by (simp add: m' set_size_def)
  with rep1 hdrs show "ll_rep m' (m' loc) (xs @ p # ys)"
    unfolding m' by (subst ll_rep_set_size [OF hp]) auto
  have szs: "bh_size m' x = (if x = p then push_bit 1 (bh_size m p) else bh_size m x)" if "hdr lo hi x" for x
    using sz1 [OF that] sz1 [OF hp] by (simp add: m')
  have "bh_size m' x = bh_size m x" if "x \<in> set (xs @ ys)" for x
    using that hdrs [of x] dist by (auto simp: szs)
  then have "blocks_of m' xs = blocks_of m xs" "blocks_of m' ys = blocks_of m ys"
    by (auto intro: blocks_of_cong)
  moreover have dbl: "unat (push_bit 1 (bh_size m p)) = 2 * ?n"
    using pn cn adj hi by (simp add: unat_word_ariths mult.commute)
  ultimately show "blocks_of m' (xs @ p # ys) = blocks_of m xs @ (unat p, 2 * ?n) # blocks_of m ys"
    by (simp add: szs [OF hp])
  show "m' x = m x" if "unat x \<notin> block (unat p) ?n" for x
  proof -
    have "unat p \<in> block (unat p) ?n" "unat (p + 8) \<in> block (unat p) ?n"
      using pn hdr_plus8 [OF hp] by (auto simp: mem_block)
    then have "x \<noteq> p" "x \<noteq> p + 8" using that by auto
    then show ?thesis by (simp add: m' m1_def set_size_def)
  qed
  show "m' c = m c" using hdr_neq_plus8 [OF hc hp] dist by (simp add: m' m1_def set_size_def)
  have cp: "c \<noteq> p" using dist by auto
  then show szc: "bh_size m' c = bh_size m c" by (simp add: szs [OF hc])
  show "no_join m' (Some c) ys"
  proof (cases ys)
    case (Cons d zs)
    have "\<not> 2 * ?n dvd unat c"
    proof
      assume "2 * ?n dvd unat c"
      then have "2 * ?n dvd (unat p + ?n) - unat p" using adj by (intro dvd_diff_nat) simp_all
      then show False using pn(3) by (auto dest: dvd_imp_le)
    qed
    then have "defragment_step (Some c) d m' = Inr (Some d, m')"
      using cn hi adj(2) by (subst defragment_step_eq [OF _ _ hc]) (simp_all add: szc)
    then show ?thesis by (simp add: no_join_def Cons)
  qed (simp add: no_join_def)
qed

lemma defragment_fold_refines:
  assumes "ll_rep m (m loc) (xs @ ps)" and "region_ok lo hi loc" and "wf_blocks lo hi (blocks_of m (xs @ ps))"
    and "bs = blocks_of m ps" and "no_join m prev ps"
  shows "\<exists>s m' ps'. iter_fold defragment_step \<lparr>it_current = ll_first ps\<rparr> prev m = Some (Inr (s, m')) \<and>
     ll_rep m' (m' loc) (xs @ ps') \<and> blocks_of m' xs = blocks_of m xs \<and> blocks_of m' ps' = join_blocks bs \<and>
     (\<forall>x. unat x \<notin> free_bytes bs \<longrightarrow> m' x = m x)"
  using assms
proof (induction bs arbitrary: m xs ps prev rule: join_blocks.induct)
  case 1
  then show ?case by (intro exI [of _ prev] exI [of _ m] exI [of _ "[]"]) (auto simp: blocks_of_def)
next
  case (2 b)
  then obtain p where ps: "ps = [p]" by (cases ps) (auto simp: blocks_of_def)
  with 2 have "p \<noteq> 0" "m p = 0" using ll_rep_suffix [of m "m loc" xs p "[]"] by auto
  with 2 ps show ?case
    by (intro exI [of _ "Some p"] exI [of _ m] exI [of _ ps]) (simp add: iter_fold_step no_join_def)
next
  case (3 a n b k bs)
  note rep = "3.prems"(1) and reg = "3.prems"(2) and wf = "3.prems"(3)
  from "3.prems"(4) obtain p c ys where ps: "ps = p # c # ys" and eqs: "a = unat p" "n = unat (bh_size m p)"
    "b = unat c" "k = unat (bh_size m c)" "bs = blocks_of m ys" by (cases ps; cases "tl ps") auto
  have hp: "hdr lo hi p" and hc: "hdr lo hi c" using wf_hdr [OF wf reg] ps by auto
  have "(a, n) \<in> set (blocks_of m (xs @ ps))" by (simp add: ps eqs)
  note pn = wf_blocks_in [OF wf this]
  have hi: "hi \<le> 2 ^ 63" using reg by (simp add: region_ok_def)
  have tail: "ll_rep m p (p # c # ys)" using ll_rep_suffix [of m "m loc" xs p "c # ys"] rep ps by simp
  then have mp: "m p = c" and mc: "m c = ll_first ys" using ll_rep_first by auto
  have start: "iter_fold defragment_step \<lparr>it_current = ll_first ps\<rparr> prev m =
      iter_fold defragment_step \<lparr>it_current = c\<rparr> (Some p) m"
    using "3.prems"(5) ps hdr_nonnull [OF hp] mp by (simp add: iter_fold_step no_join_def)
  have "a + n \<le> 2 ^ 63" using pn hi by linarith
  note test = defragment_step_eq [of p m lo hi c, folded eqs, OF this pn(3) hp]
  show ?case
  proof (cases "a + n = b \<and> n = k \<and> 2 * n dvd a")
    case True
    define m' where "m' = (let m1 = snd (pop_at p m) in set_size p (push_bit 1 (bh_size m1 p)) m1)"
    have d: "defragment_step (Some p) c m = Inr (Some c, m')"
      unfolding test if_P [OF True] m'_def Let_def by (rule refl)
    have adj: "unat p + unat (bh_size m p) = unat c" "unat (bh_size m p) = unat (bh_size m c)"
      "2 * unat (bh_size m p) dvd unat p" using True eqs by auto
    note j = join_refines [OF reg wf [unfolded ps] rep [unfolded ps] adj, folded m'_def]
    have blk: "blocks_of m' xs = blocks_of m xs" "unat (bh_size m' p) = 2 * n" "blocks_of m' ys = bs"
      using j(2) eqs by (auto simp: blocks_of_def)
    have wf': "wf_blocks lo hi (blocks_of m' ((xs @ [p]) @ ys))"
    proof -
      have "wf_blocks lo hi (blocks_of m xs @ (a, 2 * n) # bs)"
        using wf True unfolding ps blocks_of_simps eqs(1-5) [symmetric]
        by (auto simp: wf_blocks_append wf_blocks_Cons block_ok_simp)
      then show ?thesis using blk eqs by simp
    qed
    have "\<exists>s m'' ps'. iter_fold defragment_step \<lparr>it_current = ll_first ys\<rparr> (Some c) m' = Some (Inr (s, m'')) \<and>
       ll_rep m'' (m'' loc) ((xs @ [p]) @ ps') \<and> blocks_of m'' (xs @ [p]) = blocks_of m' (xs @ [p]) \<and>
       blocks_of m'' ps' = join_blocks bs \<and> (\<forall>x. unat x \<notin> free_bytes bs \<longrightarrow> m'' x = m' x)"
      using True j(1,6) reg wf' blk by (intro "3.IH"(1)) auto
    then obtain s m'' ps' where r: "iter_fold defragment_step \<lparr>it_current = ll_first ys\<rparr> (Some c) m' = Some (Inr (s, m''))"
      "ll_rep m'' (m'' loc) (xs @ p # ps')" "blocks_of m'' xs = blocks_of m xs" "unat (bh_size m'' p) = 2 * n"
      "blocks_of m'' ps' = join_blocks bs" "\<forall>x. unat x \<notin> free_bytes bs \<longrightarrow> m'' x = m' x"
      using blk by auto
    have "iter_fold defragment_step \<lparr>it_current = c\<rparr> (Some p) m = Some (Inr (s, m''))"
      using r(1) d hdr_nonnull [OF hc] mc by (simp add: iter_fold_step)
    moreover have "\<forall>x. unat x \<notin> free_bytes ((a, n) # (b, k) # bs) \<longrightarrow> m'' x = m x"
      using r(6) j(3) eqs by auto
    moreover have "join_blocks ((a, n) # (b, k) # bs) = (a, 2 * n) # join_blocks bs"
      unfolding join_blocks.simps if_P [OF True] by (rule refl)
    ultimately show ?thesis
      unfolding start using r eqs(1)
      by (intro exI [of _ s] exI [of _ m''] exI [of _ "p # ps'"]) (simp del: join_blocks.simps)
  next
    case False
    have d: "defragment_step (Some p) c m = Inr (Some c, m)"
      unfolding test if_not_P [OF False] by (rule refl)
    have "\<exists>s m' ps'. iter_fold defragment_step \<lparr>it_current = ll_first (c # ys)\<rparr> (Some p) m = Some (Inr (s, m')) \<and>
       ll_rep m' (m' loc) ((xs @ [p]) @ ps') \<and> blocks_of m' (xs @ [p]) = blocks_of m (xs @ [p]) \<and>
       blocks_of m' ps' = join_blocks ((b, k) # bs) \<and> (\<forall>x. unat x \<notin> free_bytes ((b, k) # bs) \<longrightarrow> m' x = m x)"
      using False rep reg wf ps eqs d by (intro "3.IH"(2)) (auto simp: no_join_def)
    then obtain s m' ps' where "iter_fold defragment_step \<lparr>it_current = c\<rparr> (Some p) m = Some (Inr (s, m'))"
      "ll_rep m' (m' loc) (xs @ p # ps')" "blocks_of m' xs = blocks_of m xs" "unat (bh_size m' p) = n"
      "blocks_of m' ps' = join_blocks ((b, k) # bs)" "\<forall>x. unat x \<notin> free_bytes ((b, k) # bs) \<longrightarrow> m' x = m x"
      using eqs by auto
    moreover have "join_blocks ((a, n) # (b, k) # bs) = (a, n) # join_blocks ((b, k) # bs)"
      unfolding join_blocks.simps if_not_P [OF False] by (rule refl)
    ultimately show ?thesis
      unfolding start using eqs(1)
      by (intro exI [of _ s] exI [of _ m'] exI [of _ "p # ps'"]) (simp del: join_blocks.simps)
  qed
qed

lemma defragment_refines:
  assumes "bin_rep lo hi (bin_head a) m bs"
  shows "\<exists>m'. defragment a m = Some (Inr m') \<and> bin_rep lo hi (bin_head a) m' (join_blocks bs) \<and>
     (\<forall>x. unat x \<notin> free_bytes bs \<longrightarrow> m' x = m x)"
proof -
  let ?loc = "bin_head a"
  obtain ps where reg: "region_ok lo hi ?loc" and wf: "wf_blocks lo hi bs" and ll: "ll_rep m (m ?loc) ps"
    and bs: "bs = blocks_of m ps" using assms by (rule bin_repE)
  have "no_join m None ps" by (simp add: no_join_def defragment_step_def split: list.split)
  then obtain s m' ps' where m': "iter_fold defragment_step \<lparr>it_current = ll_first ps\<rparr> None m = Some (Inr (s, m'))"
    "ll_rep m' (m' ?loc) ps'" "blocks_of m' ps' = join_blocks bs" "\<forall>x. unat x \<notin> free_bytes bs \<longrightarrow> m' x = m x"
    using defragment_fold_refines [of m ?loc "[]" ps lo hi bs None] ll reg wf bs by auto
  have "defragment a m = Some (Inr m')"
    using m'(1) ll_rep_first [OF ll] by (simp add: defragment_def iter_of_def list_at_def)
  with m' bin_repI [OF reg join_blocks_wf [OF wf] m'(2,3)] show ?thesis by blast
qed

subsection \<open>Deallocation as a whole\<close>

text \<open>An allocator whose fields describe the region \<open>lo ..< hi\<close>.\<close>

definition bin_region :: "bin_allocator \<Rightarrow> nat \<Rightarrow> nat \<Rightarrow> bool" where
  "bin_region a lo hi \<longleftrightarrow> unat (bin_start a) = lo \<and> unat (bin_end a) = hi"

lemma bin_dealloc_refines:
  assumes rep: "bin_rep lo hi (bin_head a) m bs" and reg: "bin_region a lo hi" and ok: "bin_ok l"
    and blk: "block_ok lo hi (unat p, inner_size l)" "block (unat p) (inner_size l) \<inter> free_bytes bs = {}"
    and al: "inner_align l dvd unat p"
  shows "case spec_dealloc (unat p) (inner_size l) bs of
     None \<Rightarrow> bin_dealloc a p l m = Some (Inl (Panic ''invalid pointer provided''))
   | Some r \<Rightarrow> \<exists>m'. bin_dealloc a p l m = Some (Inr m') \<and> bin_rep lo hi (bin_head a) m' r \<and>
       frame (bin_head a) (free_bytes bs \<union> block (unat p) (inner_size l)) m m'"
proof -
  obtain i where i: "and_then (inner_layout l) (expect unwrap_none) = Inr i"
    "unat (lay_size i) = inner_size l" "unat (lay_align i) = inner_align l"
    using inner_layout_correct [OF ok] by blast
  have "\<not> (p < bin_start a \<or> p \<ge> bin_end a)"
    using blk(1) reg by (auto simp: bin_region_def block_ok_simp word_less_nat_alt word_le_nat_alt)
  then have d: "bin_dealloc a p l m = (case dealloc_inner a p i m of
      None \<Rightarrow> None | Some (Inl e) \<Rightarrow> Some (Inl e) | Some (Inr m') \<Rightarrow> defragment a m')"
    by (simp only: bin_dealloc_def if_False i(1) sum.case)
  note inner = dealloc_inner_refines [OF rep, of p i, unfolded i(2,3), OF blk al]
  show ?thesis
  proof (cases "insert_block (unat p) (inner_size l) bs")
    case None
    with inner d show ?thesis by (simp add: spec_dealloc_def)
  next
    case (Some r)
    with inner obtain m1 where m1: "dealloc_inner a p i m = Some (Inr m1)" "bin_rep lo hi (bin_head a) m1 r"
      "frame (bin_head a) (free_bytes bs \<union> block (unat p) (inner_size l)) m m1" by auto
    obtain m' where m': "defragment a m1 = Some (Inr m')" "bin_rep lo hi (bin_head a) m' (join_blocks r)"
      "\<forall>x. unat x \<notin> free_bytes r \<longrightarrow> m' x = m1 x"
      using defragment_refines [OF m1(2)] by blast
    have "frame (bin_head a) (free_bytes bs \<union> block (unat p) (inner_size l)) m m'"
      using m1(3) m'(3) insert_block_bytes [OF Some] by (simp add: frame_def)
    with d m1(1) m'(1,2) Some show ?thesis by (simp add: spec_dealloc_def)
  qed
qed

text \<open>A deallocation that succeeds was of a block inside the region, aligned as allocated.\<close>

lemma bin_dealloc_success:
  assumes rep: "bin_rep lo hi (bin_head a) m bs" and reg: "bin_region a lo hi" and ok: "bin_ok l"
    and disj: "block (unat p) (inner_size l) \<inter> free_bytes bs = {}"
    and run: "bin_dealloc a p l m = Some (Inr m')"
  shows "block_ok lo hi (unat p, inner_size l)" and "inner_align l dvd unat p"
proof -
  let ?loc = "bin_head a" and ?P = "\<lambda>x. \<not> p < x"
  obtain i where i: "and_then (inner_layout l) (expect unwrap_none) = Inr i"
    "unat (lay_size i) = inner_size l" "unat (lay_align i) = inner_align l"
    using inner_layout_correct [OF ok] by blast
  obtain ps where rok: "region_ok lo hi ?loc" and wf: "wf_blocks lo hi bs" and ll: "ll_rep m (m ?loc) ps"
    and bs: "bs = blocks_of m ps" using rep by (rule bin_repE)
  have low: "bin_start a \<le> p" using run by (auto simp: bin_dealloc_def not_less split: if_splits)
  obtain m1 where "dealloc_inner a p i m = Some (Inr m1)"
    using run i(1) by (auto simp: bin_dealloc_def split: if_splits option.splits sum.splits)
  moreover have "iter_fold (insert_step p) (iter_of (list_at m ?loc)) (Some ?loc, None) m =
      Some (Inr (case dropWhile ?P ps of
         [] \<Rightarrow> (Some (link_before ?loc ps), None)
       | x # _ \<Rightarrow> (Some (link_before ?loc (takeWhile ?P ps)), Some x), m))"
    using insert_step_pure by (intro search_fold [OF ll]) blast
  ultimately obtain x ys where x: "dropWhile ?P ps = x # ys" and mod: "p mod lay_align i = 0"
    by (cases "dropWhile ?P ps") (auto simp: dealloc_inner_def Let_def simp del: dropWhile_eq_Nil_conv split: if_splits)
  from mod show al: "inner_align l dvd unat p" by (simp add: mod_zero_iff i(3))
  have "p < x" using x by (metis dropWhile_eq_Cons_conv)
  have "x \<in> set ps" using x by (metis dropWhile_eq_Cons_conv in_set_conv_decomp)
  then have xin: "(unat x, unat (bh_size m x)) \<in> set bs" by (auto simp: bs in_blocks_of)
  have "unat x \<in> free_bytes bs" using hdr_in_free [OF \<open>x \<in> set ps\<close>] wf bs by simp
  then have "unat p + inner_size l \<le> unat x"
    using disj \<open>p < x\<close> by (auto simp: block_def word_less_nat_alt disjoint_iff not_less [symmetric])
  moreover have "unat x \<le> hi" using wf_blocks_in(6) [OF wf xin] by linarith
  moreover have "lo \<le> unat p" using low reg by (simp add: bin_region_def word_le_nat_alt)
  moreover have "16 dvd unat p"
  proof -
    have "is_pow2 (inner_align l)"
      using layout_okD(1) [of l] ok npot_pow2 [of 4]
      by (auto simp: bin_ok_def inner_align_def max_def is_power_of_two_def is_pow2_def)
    then have "16 dvd inner_align l" by (rule pow2_16_dvd) (simp add: inner_align_def)
    then show ?thesis using al by (rule dvd_trans)
  qed
  ultimately show "block_ok lo hi (unat p, inner_size l)"
    using inner_size_bounds [of l] by (simp add: block_ok_simp)
qed

subsection \<open>The initial state\<close>

text \<open>The fresh allocator over \<open>start .. end\<close>: the part of it on 16-byte boundaries is one free block,
  split into size classes.\<close>

definition up16 :: "nat \<Rightarrow> nat" where
  "up16 x = (x + 15) div 16 * 16"

definition down16 :: "nat \<Rightarrow> nat" where
  "down16 x = x div 16 * 16"

lemma bin_new_refines:
  assumes "0 < unat start" and "unat end' \<le> 2 ^ 63" and "up16 (unat start) < down16 (unat end')"
    and "unat loc \<notin> {up16 (unat start) ..< down16 (unat end')}"
  shows "\<exists>a m'. bin_new start end' loc m = Some (Inr (a, m')) \<and> bin_head a = loc \<and>
     bin_region a (up16 (unat start)) (down16 (unat end')) \<and>
     bin_rep (up16 (unat start)) (down16 (unat end')) loc m'
       (divide_blocks [(up16 (unat start), down16 (unat end') - up16 (unat start))]) \<and>
     frame loc {up16 (unat start) ..< down16 (unat end')} m m'"
proof -
  let ?lo = "up16 (unat start)" and ?hi = "down16 (unat end')"
  have pow: "is_power_of_two BLOCK_LEN"
    using npot_pow2 [of 4] by (simp add: is_power_of_two_def is_pow2_def BLOCK_LEN_def)
  have hi: "?hi \<le> 2 ^ 63" using assms(2) by (simp add: down16_def)
  have lo: "unat start \<le> ?lo" unfolding up16_def by linarith
  have fit: "unat start + unat BLOCK_LEN < 2 ^ 64" using lo hi assms(3) by (simp add: BLOCK_LEN_def)
  obtain s where s: "align_up start BLOCK_LEN = Inr s" "unat s = ?lo"
    using align_up_Inr [OF pow fit] by (auto simp: BLOCK_LEN_def up16_def)
  obtain e where e: "align_down end' BLOCK_LEN = Inr e" "unat e = ?hi"
    using align_down_Inr [OF pow, of end'] by (auto simp: BLOCK_LEN_def down16_def)
  have d16: "16 dvd ?lo" "16 dvd ?hi" by (auto simp: up16_def down16_def)
  let ?n = "?hi - ?lo" and ?a = "\<lparr>bin_start = s, bin_end = e, bin_head = loc\<rparr>"
  have n: "unat (e - s) = ?n" using s e assms(3) by (subst unat_sub) (auto simp: word_le_nat_alt)
  have reg: "region_ok ?lo ?hi loc" using assms lo hi by (auto simp: region_ok_def)
  have blk: "block_ok ?lo ?hi (?lo, ?n)" using assms(3) d16 by (simp add: block_ok_simp dvd_diff_nat)
  then have "16 \<le> ?n" by (auto simp: block_ok_simp dest: dvd_imp_le)
  then have hs: "hdr ?lo ?hi s" using s d16 assms(3) lo hi \<open>0 < unat start\<close> by (simp add: hdr_def)
  define m3 where "m3 = (set_size s (e - s) (set_size s 0 m))(s := 0, loc := s)"
  have "ll_rep m3 (m3 loc) [s]"
    using hdr_nonnull [OF hs] hdr_loc [OF hs reg] by (simp add: m3_def)
  moreover have "blocks_of m3 [s] = [(?lo, ?n)]"
    using hdr_loc [OF hs reg] hdr_neq_plus8 [OF hs hs] n s by (simp add: m3_def bh_size_def set_size_def)
  ultimately have rep: "bin_rep ?lo ?hi loc m3 [(?lo, ?n)]"
    using reg blk by (intro bin_repI [of _ _ _ _ _ "[s]"]) (simp_all only: wf_blocks_Cons wf_blocks_Nil, simp)
  then obtain m' where m': "divide_maximally ?a m3 = Some (Inr m')"
    "bin_rep ?lo ?hi loc m' (divide_blocks [(?lo, ?n)])" "\<forall>x. unat x \<notin> free_bytes [(?lo, ?n)] \<longrightarrow> m' x = m3 x"
    using divide_maximally_refines [of ?lo ?hi ?a m3 "[(?lo, ?n)]"] by auto
  have "bin_new start end' loc m = Some (Inr (?a, m'))"
    using s e m'(1) by (simp add: bin_new_def Let_def new_from_ptr_def push_def LinkedList_new_def m3_def)
  moreover have "frame loc {?lo ..< ?hi} m m'"
  proof -
    have "unat s \<in> {?lo ..< ?hi}" "unat (s + 8) \<in> {?lo ..< ?hi}"
      using s hdr_plus8 [OF hs] \<open>16 \<le> ?n\<close> by auto
    moreover have "block ?lo ?n = {?lo ..< ?hi}" using assms(3) by (auto simp: block_def)
    ultimately show ?thesis using m'(3) by (auto simp: frame_def m3_def set_size_def)
  qed
  ultimately show ?thesis using m'(2) s(2) e(2) by (auto simp: bin_region_def)
qed

subsection \<open>The allocator contract\<close>

type_synonym bin_state = "bin_allocator \<times> mem"

definition bin_allocf :: "layout \<Rightarrow> bin_state \<Rightarrow> (usize \<times> bin_state) option" where
  "bin_allocf l s =
     (case bin_alloc (fst s) l (snd s) of Some (Inr (Inr p, m')) \<Rightarrow> Some (p, (fst s, m')) | _ \<Rightarrow> None)"

definition bin_freef :: "usize \<Rightarrow> layout \<Rightarrow> bin_state \<Rightarrow> bin_state option" where
  "bin_freef p l s = (case bin_dealloc (fst s) p l (snd s) of Some (Inr m') \<Rightarrow> Some (fst s, m') | _ \<Rightarrow> None)"

definition bin_repr :: "bin_state \<Rightarrow> fblock list \<Rightarrow> bool" where
  "bin_repr s bs \<longleftrightarrow>
     bin_rep (unat (bin_start (fst s))) (unat (bin_end (fst s))) (bin_head (fst s)) (snd s) bs"

definition bin_invar :: "bin_state \<Rightarrow> bool" where
  "bin_invar s \<longleftrightarrow> (\<exists>bs. bin_repr s bs)"

definition bin_free :: "bin_state \<Rightarrow> nat set" where
  "bin_free s = \<Union> {free_bytes bs | bs. bin_repr s bs}"

text \<open>Owners of live blocks may write any cell inside their blocks, and nothing else.\<close>

definition bin_env :: "bin_state \<Rightarrow> (usize \<times> layout) list \<Rightarrow> bin_state \<Rightarrow> bool" where
  "bin_env s live s' \<longleftrightarrow>
     fst s' = fst s \<and>
     (\<forall>x. snd s' x \<noteq> snd s x \<longrightarrow> (\<exists>(p, l) \<in> set live. unat x \<in> block (unat p) (inner_size l))) \<and>
     snd s' (bin_head (fst s)) = snd s (bin_head (fst s))"

lemma bin_rep_unique: "bin_rep lo hi loc m bs \<Longrightarrow> bin_rep lo hi loc m bs' \<Longrightarrow> bs = bs'"
  by (auto simp: bin_rep_def dest: ll_rep_unique)

lemma bin_free_eq: "bin_repr s bs \<Longrightarrow> bin_free s = free_bytes bs"
proof -
  assume rep: "bin_repr s bs"
  then have "{free_bytes bs | bs. bin_repr s bs} = {free_bytes bs}"
    unfolding bin_repr_def by (auto dest: bin_rep_unique)
  then show ?thesis by (simp add: bin_free_def)
qed

lemma bin_rep_frame:
  assumes rep: "bin_rep lo hi loc m bs" and "m' loc = m loc" and "\<And>x. unat x \<in> free_bytes bs \<Longrightarrow> m' x = m x"
  shows "bin_rep lo hi loc m' bs"
proof -
  obtain ps where reg: "region_ok lo hi loc" and wf: "wf_blocks lo hi bs" and ll: "ll_rep m (m loc) ps"
    and bs: "bs = blocks_of m ps" using rep by (rule bin_repE)
  have hdrs: "hdr lo hi p" if "p \<in> set ps" for p using wf_hdr [OF _ reg that] wf bs by simp
  have cells: "m' p = m p" "bh_size m' p = bh_size m p" if "p \<in> set ps" for p
  proof -
    have "(unat p, unat (bh_size m p)) \<in> set bs" using that by (auto simp: bs in_blocks_of)
    then have "block (unat p) (unat (bh_size m p)) \<subseteq> free_bytes bs" "16 \<le> unat (bh_size m p)"
      using wf_blocks_in(4) [OF wf] by (auto simp: free_bytes_def)
    then have "unat p \<in> free_bytes bs" "unat (p + 8) \<in> free_bytes bs"
      using hdr_plus8 [OF hdrs [OF that]] by (auto simp: mem_block)
    then show "m' p = m p" "bh_size m' p = bh_size m p" using assms(3) by (simp_all add: bh_size_def)
  qed
  have "ll_rep m' (m' loc) ps" using ll cells(1) assms(2) ll_rep_cong [of ps m m'] by simp
  moreover have "blocks_of m' ps = bs" unfolding bs using cells(2) by (intro blocks_of_cong) simp
  ultimately show ?thesis using reg wf by (intro bin_repI)
qed

lemma bin_alloc_contract:
  assumes "bin_invar s" and "bin_ok l" and "bin_allocf l s = Some (p, s')"
  shows "bin_invar s'" and "block (unat p) (inner_size l) \<subseteq> bin_free s"
    and "bin_free s' = bin_free s - block (unat p) (inner_size l)" and "inner_align l dvd unat p"
proof -
  let ?a = "fst s" and ?lo = "unat (bin_start (fst s))" and ?hi = "unat (bin_end (fst s))"
  obtain bs where rep: "bin_rep ?lo ?hi (bin_head ?a) (snd s) bs"
    using assms(1) by (auto simp: bin_invar_def bin_repr_def)
  then have free: "bin_free s = free_bytes bs" and wf: "wf_blocks ?lo ?hi bs"
    using bin_free_eq [of s bs] by (simp_all add: bin_repr_def bin_rep_def)
  obtain m' where m': "bin_alloc ?a l (snd s) = Some (Inr (Inr p, m'))" "s' = (?a, m')"
    using assms(3) by (auto simp: bin_allocf_def split: option.splits sum.splits)
  with bin_alloc_refines [OF rep assms(2)] obtain r where
    r: "spec_alloc (inner_size l) (inner_align l) bs = Some (unat p, r)" "bin_rep ?lo ?hi (bin_head ?a) m' r"
    by (auto split: option.splits)
  then obtain r0 where r0: "take_block (inner_size l) (inner_align l) bs = Some (unat p, r0)" "r = divide_blocks r0"
    by (auto simp: spec_alloc_def)
  have sz: "16 dvd inner_size l" "0 < inner_size l" using inner_size_bounds [of l] by auto
  note tb = take_block_correct [OF wf sz r0(1)]
  have rep': "bin_repr s' r" using r(2) m'(2) by (simp add: bin_repr_def)
  then show "bin_invar s'" by (auto simp: bin_invar_def)
  show "block (unat p) (inner_size l) \<subseteq> bin_free s" unfolding free by (rule tb(2))
  show "bin_free s' = bin_free s - block (unat p) (inner_size l)"
    unfolding bin_free_eq [OF rep'] free by (simp add: r0(2) tb(3))
  show "inner_align l dvd unat p" by (rule tb(4))
qed

lemma bin_free_contract:
  assumes "bin_invar s" and "bin_ok l" and "bin_freef p l s = Some s'"
    and disj: "block (unat p) (inner_size l) \<inter> bin_free s = {}"
  shows "bin_invar s'" and "bin_free s' = bin_free s \<union> block (unat p) (inner_size l)"
proof -
  let ?a = "fst s" and ?lo = "unat (bin_start (fst s))" and ?hi = "unat (bin_end (fst s))"
  obtain bs where rep: "bin_rep ?lo ?hi (bin_head ?a) (snd s) bs"
    using assms(1) by (auto simp: bin_invar_def bin_repr_def)
  then have free: "bin_free s = free_bytes bs"
    using bin_free_eq [of s bs] by (simp add: bin_repr_def)
  have reg: "bin_region ?a ?lo ?hi" by (simp add: bin_region_def)
  obtain m' where m': "bin_dealloc ?a p l (snd s) = Some (Inr m')" "s' = (?a, m')"
    using assms(3) by (auto simp: bin_freef_def split: option.splits sum.splits)
  note ok = bin_dealloc_success [OF rep reg assms(2) disj [unfolded free] m'(1)]
  with bin_dealloc_refines [OF rep reg assms(2) ok(1) disj [unfolded free] ok(2)] m'(1) obtain r where
    r: "spec_dealloc (unat p) (inner_size l) bs = Some r" "bin_rep ?lo ?hi (bin_head ?a) m' r"
    by (auto split: option.splits)
  have rep': "bin_repr s' r" using r(2) m'(2) by (simp add: bin_repr_def)
  then show "bin_invar s'" by (auto simp: bin_invar_def)
  show "bin_free s' = bin_free s \<union> block (unat p) (inner_size l)"
    using r(1) unfolding bin_free_eq [OF rep'] free by (auto simp: spec_dealloc_def insert_block_bytes)
qed

lemma bin_env_contract:
  assumes "bin_invar s" and env: "bin_env s live s'"
    and live: "\<forall>(p, l) \<in> set live. bin_ok l \<and> block (unat p) (inner_size l) \<inter> bin_free s = {}"
  shows "bin_invar s' \<and> bin_free s' = bin_free s"
proof -
  obtain bs where rep: "bin_repr s bs" using assms(1) by (auto simp: bin_invar_def)
  have "snd s' x = snd s x" if "unat x \<in> free_bytes bs" for x
  proof (rule ccontr)
    assume "snd s' x \<noteq> snd s x"
    with env obtain p l where pl: "(p, l) \<in> set live" "unat x \<in> block (unat p) (inner_size l)"
      by (auto simp: bin_env_def)
    from live pl(1) have "block (unat p) (inner_size l) \<inter> bin_free s = {}" by auto
    with pl(2) that bin_free_eq [OF rep] show False by auto
  qed
  then have "bin_repr s' bs"
    using rep env unfolding bin_repr_def by (auto simp: bin_env_def intro: bin_rep_frame)
  with bin_free_eq [OF rep] bin_free_eq [of s' bs] show ?thesis by (auto simp: bin_invar_def)
qed

interpretation bin: heap_allocator bin_invar bin_free bin_ok inner_size bin_allocf bin_freef bin_env
proof unfold_locales
  fix s l p s'
  assume *: "bin_invar s" "bin_ok l" "bin_allocf l s = Some (p, s')"
  note c = bin_alloc_contract [OF *]
  show "bin_invar s'" by (rule c(1))
  show "block (unat p) (inner_size l) \<subseteq> bin_free s \<and> bin_free s' \<subseteq> bin_free s - block (unat p) (inner_size l)"
    using c(2,3) by simp
  have "is_pow2 (unat (lay_align l))" "is_pow2 16"
    using layout_okD(1) [of l] *(2) npot_pow2 [of 4] by (auto simp: bin_ok_def is_power_of_two_def is_pow2_def)
  then have "unat (lay_align l) dvd inner_align l"
    by (auto simp: inner_align_def max_def pow2_dvd_iff_le)
  then show "unat (lay_align l) dvd unat p" using c(4) by (rule dvd_trans)
next
  fix s l p s'
  assume *: "bin_invar s" "bin_ok l" "bin_freef p l s = Some s'" "block (unat p) (inner_size l) \<inter> bin_free s = {}"
  show "bin_invar s'" by (rule bin_free_contract(1) [OF *])
  show "bin_free s' \<subseteq> bin_free s \<union> block (unat p) (inner_size l)"
    using bin_free_contract(2) [OF *] by simp
qed (auto intro: inner_size_bounds dest: bin_env_contract)

subsection \<open>A concrete heap\<close>

text \<open>One free block of 64 bytes at 4096; the list head is the cell at 8.\<close>

definition ex_alloc :: bin_allocator where
  "ex_alloc = \<lparr>bin_start = 4096, bin_end = 4160, bin_head = 8\<rparr>"

definition ex_mem :: mem where
  "ex_mem = (\<lambda>_. 0)(8 := 4096, 4104 := 64)"

definition ex_layout :: layout where
  "ex_layout = \<lparr>lay_size = 24, lay_align = 8\<rparr>"

lemma ex_rep: "bin_rep 4096 4160 8 ex_mem [(4096, 64)]"
  by (rule bin_repI [of _ _ _ _ _ "[4096]"])
    (simp_all add: region_ok_def wf_blocks_Cons block_ok_simp ex_mem_def bh_size_def)

lemma ex_rep': "bin_rep 4096 4160 (bin_head ex_alloc) ex_mem [(4096, 64)]"
  using ex_rep by (simp add: ex_alloc_def)

lemma ex_repr: "bin_repr (ex_alloc, ex_mem) [(4096, 64)]"
  using ex_rep by (simp add: bin_repr_def ex_alloc_def)

lemma ex_layout_ok: "bin_ok ex_layout"
  using npot_pow2 [of 3]
  by (simp add: bin_ok_def layout_ok_def from_size_align_def from_size_align_unchecked_def ex_layout_def
      is_power_of_two_def is_pow2_def)

lemma ex_inner: "inner_size ex_layout = 32" "inner_align ex_layout = 16"
  by (simp_all add: inner_size_def inner_align_def ex_layout_def npot.simps)

subsection \<open>Correctness\<close>

text \<open>Every allocator state that \<open>divide_maximally\<close> starts from leads to a well-formed free list: the
  loop terminates without a panic, the free bytes are the same, every free block has a
  power-of-two size and is aligned to half of it, and no cell outside the free blocks is written.\<close>

theorem divide_maximally_correct:
  assumes "bin_rep lo hi (bin_head a) m bs"
  shows "\<exists>m' bs'. divide_maximally a m = Some (Inr m') \<and> bin_rep lo hi (bin_head a) m' bs' \<and>
     free_bytes bs' = free_bytes bs \<and> list_all divided bs' \<and> (\<forall>x. unat x \<notin> free_bytes bs \<longrightarrow> m' x = m x)"
proof -
  have "wf_blocks lo hi bs" using assms by (simp add: bin_rep_def)
  with divide_maximally_refines [OF assms] divide_blocks_divided show ?thesis
    by (metis divide_blocks_bytes)
qed

theorem divide_maximally_correct_witness:
  "\<exists>m' bs'. divide_maximally ex_alloc ex_mem = Some (Inr m') \<and> bin_rep 4096 4160 (bin_head ex_alloc) m' bs' \<and>
     free_bytes bs' = free_bytes [(4096, 64)] \<and> list_all divided bs' \<and>
     (\<forall>x. unat x \<notin> free_bytes [(4096, 64)] \<longrightarrow> m' x = ex_mem x)"
  by (rule divide_maximally_correct [OF ex_rep'])

lemma bin_alloc_huge:
  assumes "2 ^ 63 < unat (lay_size l)"
  shows "bin_alloc a l m = Some (Inl (Panic unwrap_none))"
proof -
  let ?s = "max (lay_size l) BLOCK_LEN"
  have s: "unat ?s = unat (lay_size l)" using assms by (simp add: unat_max BLOCK_LEN_def)
  obtain k where k: "npot (unat ?s) = 2 ^ k" using npot_exp by blast
  have "2 ^ 63 < npot (unat ?s)" using npot_ge [of "unat ?s"] assms s by linarith
  then have "(2::nat) ^ 63 < 2 ^ k" unfolding k .
  then have "64 \<le> k" using power_less_imp_less_exp [of "2::nat" 63 k] by simp
  then have ge: "2 ^ 64 \<le> npot (unat ?s)" unfolding k by (intro power_increasing) simp_all
  moreover have "unat ?s < 2 ^ 64" using unsigned_less [of ?s] by simp
  ultimately have "\<not> is_power_of_two ?s" "checked_next_power_of_two ?s = None"
    by (auto simp: is_power_of_two_def is_pow2_def checked_next_power_of_two_def)
  then show ?thesis by (simp add: bin_alloc_def inner_layout_def Let_def)
qed

text \<open>C2: the bin allocator implements its specification on lists of free blocks, on every valid layout: up to
  \<open>2 ^ 63\<close> bytes \<open>alloc\<close> always returns, with the specified block and the specified free list, or it reports the
  caller's layout as exhausted and changes nothing; it writes only free memory and the list head. Beyond that the next power of two does
  not fit and \<open>alloc\<close> panics, where its documentation promises an error.\<close>

theorem bin_alloc_implements_spec:
  assumes "bin_rep lo hi (bin_head a) m bs" and "layout_ok l"
  shows "if unat (lay_size l) \<le> 2 ^ 63
    then (case spec_alloc (inner_size l) (inner_align l) bs of
       None \<Rightarrow> bin_alloc a l m = Some (Inr (Inl (Exhausted l), m))
     | Some (p, r) \<Rightarrow> \<exists>w m'. bin_alloc a l m = Some (Inr (Inr w, m')) \<and> unat w = p \<and>
         bin_rep lo hi (bin_head a) m' r \<and> frame (bin_head a) (free_bytes bs) m m')
    else bin_alloc a l m = Some (Inl (Panic unwrap_none))"
  using bin_alloc_refines [OF assms(1)] bin_alloc_huge assms(2) by (simp add: bin_ok_def not_le)

theorem bin_alloc_implements_spec_witness:
  "(\<exists>w m'. bin_alloc ex_alloc ex_layout ex_mem = Some (Inr (Inr w, m')) \<and> unat w = 4096) \<and>
   bin_alloc ex_alloc \<lparr>lay_size = 0x8000000000000001, lay_align = 1\<rparr> ex_mem = Some (Inl (Panic unwrap_none))"
proof
  let ?l = "\<lparr>lay_size = 0x8000000000000001, lay_align = 1\<rparr>"
  have "layout_ok ex_layout" "unat (lay_size ex_layout) \<le> 2 ^ 63" using ex_layout_ok by (simp_all add: bin_ok_def)
  moreover have "spec_alloc (inner_size ex_layout) (inner_align ex_layout) [(4096, 64)] = Some (4096, [(4128, 32)])"
    by (simp add: ex_inner spec_alloc_def take_block_def divide_blocks.simps split_at_def Let_def is_pow2_def npot.simps)
  ultimately show "\<exists>w m'. bin_alloc ex_alloc ex_layout ex_mem = Some (Inr (Inr w, m')) \<and> unat w = 4096"
    using bin_alloc_implements_spec [OF ex_rep', of ex_layout] by auto
  have "layout_ok ?l"
    by (simp add: layout_ok_def from_size_align_def from_size_align_unchecked_def is_power_of_two_def is_pow2_def)
  then show "bin_alloc ex_alloc ?l ex_mem = Some (Inl (Panic unwrap_none))"
    using bin_alloc_implements_spec [OF ex_rep', of ?l] by simp
qed

text \<open>an allocation fails exactly when no free block of at least the rounded size starts at an
  address with the rounded alignment.\<close>

theorem bin_alloc_fails_iff:
  assumes "bin_rep lo hi (bin_head a) m bs" and "bin_ok l"
  shows "(\<exists>e m'. bin_alloc a l m = Some (Inr (Inl e, m'))) \<longleftrightarrow>
     (\<forall>(b, n) \<in> set bs. \<not> (inner_size l \<le> n \<and> inner_align l dvd b))"
proof -
  have "spec_alloc (inner_size l) (inner_align l) bs = None \<longleftrightarrow>
      (\<forall>(b, n) \<in> set bs. \<not> (inner_size l \<le> n \<and> inner_align l dvd b))"
    by (simp only: spec_alloc_def option.map_disc_iff take_block_None)
  with bin_alloc_refines [OF assms] show ?thesis
    by (auto split: option.splits)
qed

theorem bin_alloc_fails_iff_witness:
  "(\<exists>e m'. bin_alloc ex_alloc ex_layout ex_mem = Some (Inr (Inl e, m'))) \<longleftrightarrow>
     (\<forall>(b, n) \<in> set [(4096, 64)]. \<not> (inner_size ex_layout \<le> n \<and> inner_align ex_layout dvd b))"
  by (rule bin_alloc_fails_iff [OF ex_rep' ex_layout_ok])

text \<open>C3: freeing a block that is in the region, aligned as it was allocated and disjoint from the free
  memory implements the specification: the block is inserted and one joining pass is made; without
  a free block above it the deallocation panics.\<close>

theorem bin_dealloc_implements_spec:
  assumes "bin_rep lo hi (bin_head a) m bs" and "bin_region a lo hi" and "bin_ok l"
    and "block_ok lo hi (unat p, inner_size l)" and "block (unat p) (inner_size l) \<inter> free_bytes bs = {}"
    and "inner_align l dvd unat p"
  shows "case spec_dealloc (unat p) (inner_size l) bs of
     None \<Rightarrow> bin_dealloc a p l m = Some (Inl (Panic ''invalid pointer provided''))
   | Some r \<Rightarrow> \<exists>m'. bin_dealloc a p l m = Some (Inr m') \<and> bin_rep lo hi (bin_head a) m' r \<and>
       frame (bin_head a) (free_bytes bs \<union> block (unat p) (inner_size l)) m m'"
  using assms by (rule bin_dealloc_refines)

theorem bin_dealloc_implements_spec_witness:
  "case spec_dealloc (unat (4096::usize)) (inner_size ex_layout) [(4128, 32)] of
     None \<Rightarrow> bin_dealloc ex_alloc 4096 ex_layout ((\<lambda>_. 0)(8 := 4128, 4136 := 32)) = Some (Inl (Panic ''invalid pointer provided''))
   | Some r \<Rightarrow> \<exists>m'. bin_dealloc ex_alloc 4096 ex_layout ((\<lambda>_. 0)(8 := 4128, 4136 := 32)) = Some (Inr m') \<and>
       bin_rep 4096 4160 (bin_head ex_alloc) m' r \<and>
       frame (bin_head ex_alloc) (free_bytes [(4128, 32)] \<union> block (unat (4096::usize)) (inner_size ex_layout))
         ((\<lambda>_. 0)(8 := 4128, 4136 := 32)) m'"
proof (rule bin_dealloc_implements_spec)
  show "bin_rep 4096 4160 (bin_head ex_alloc) ((\<lambda>_. 0)(8 := 4128, 4136 := 32)) [(4128, 32)]"
    by (rule bin_repI [of _ _ _ _ _ "[4128]"])
      (simp_all add: ex_alloc_def region_ok_def wf_blocks_Cons block_ok_simp bh_size_def)
qed (simp_all add: ex_layout_ok ex_inner bin_region_def ex_alloc_def block_ok_simp block_def)

text \<open>C1: whatever is allocated, freed and written by the owners of live blocks after \<open>Allocator::new\<close>,
  the live blocks lie in the region, are aligned as requested and are disjoint from each other and
  from the free memory, and the free list stays well formed.\<close>

theorem bin_live_blocks:
  assumes "0 < unat start" and "unat end' \<le> 2 ^ 63" and "up16 (unat start) < down16 (unat end')"
    and "unat loc \<notin> {up16 (unat start) ..< down16 (unat end')}"
    and "bin_new start end' loc m = Some (Inr s0)"
    and "heap_reach bin_ok bin_allocf bin_freef bin_env s0 s live"
  shows "live_ok bin_invar bin_free bin_ok inner_size {unat start ..< unat end'} s live"
proof -
  let ?lo = "up16 (unat start)" and ?hi = "down16 (unat end')"
  obtain a m' where new: "s0 = (a, m')" "bin_head a = loc" "bin_region a ?lo ?hi"
    and rep: "bin_rep ?lo ?hi loc m' (divide_blocks [(?lo, ?hi - ?lo)])"
    using bin_new_refines [OF assms(1-4), of m] assms(5) by auto
  then have repr: "bin_repr s0 (divide_blocks [(?lo, ?hi - ?lo)])"
    by (simp add: bin_repr_def bin_region_def)
  have "bin_free s0 = {?lo ..< ?hi}"
    unfolding bin_free_eq [OF repr] using assms(3) by (auto simp: block_def)
  moreover have "unat start \<le> ?lo" "?hi \<le> unat end'" unfolding up16_def down16_def by linarith+
  ultimately have "bin_free s0 \<subseteq> {unat start ..< unat end'}" by auto
  moreover have "bin_invar s0" using repr by (auto simp: bin_invar_def)
  ultimately show ?thesis by (intro bin.live_blocks_ok [OF assms(6)])
qed

theorem bin_live_blocks_witness:
  "\<exists>s p. live_ok bin_invar bin_free bin_ok inner_size {unat (4100::usize) ..< unat (4500::usize)} s [(p, ex_layout)]"
proof -
  have pre: "0 < unat (4100::usize)" "unat (4500::usize) \<le> 2 ^ 63" "up16 (unat (4100::usize)) < down16 (unat (4500::usize))"
    "unat (8::usize) \<notin> {up16 (unat (4100::usize)) ..< down16 (unat (4500::usize))}"
    by (simp_all add: up16_def down16_def)
  obtain a m' where new: "bin_new 4100 4500 8 (\<lambda>_. 0) = Some (Inr (a, m'))"
    and rep: "bin_rep 4112 4496 (bin_head a) m' (divide_blocks [(4112, 384)])"
    using bin_new_refines [OF pre, of "\<lambda>_. 0"] by (auto simp: up16_def down16_def)
  have div: "divide_blocks [(4112, 384)] = [(4112, 16), (4128, 32), (4160, 64), (4224, 128), (4352, 128), (4480, 16)]"
    by (simp add: divide_blocks.simps split_at_def Let_def is_pow2_def npot.simps)
  have "spec_alloc (inner_size ex_layout) (inner_align ex_layout) (divide_blocks [(4112, 384)]) \<noteq> None"
    unfolding div by (simp add: ex_inner spec_alloc_def take_block_def)
  then obtain p m'' where al: "bin_alloc a ex_layout m' = Some (Inr (Inr p, m''))"
    using bin_alloc_refines [OF rep ex_layout_ok] by (fastforce split: option.splits)
  then have "bin_allocf ex_layout (a, m') = Some (p, (a, m''))" by (simp add: bin_allocf_def)
  with ex_layout_ok have "heap_reach bin_ok bin_allocf bin_freef bin_env (a, m') (a, m'') [(p, ex_layout)]"
    by (blast intro: hr_init hr_alloc)
  from bin_live_blocks [OF pre new this] show ?thesis by blast
qed

text \<open>C4: allocating a block and freeing it again with the same layout gives back exactly the free
  memory there was.\<close>

theorem bin_alloc_dealloc_roundtrip:
  assumes "bin_invar s" and "bin_ok l" and "bin_allocf l s = Some (p, s')" and "bin_freef p l s' = Some s''"
  shows "bin_invar s'' \<and> bin_free s'' = bin_free s"
proof -
  note al = bin_alloc_contract [OF assms(1-3)]
  have "block (unat p) (inner_size l) \<inter> bin_free s' = {}" using al(3) by blast
  note fr = bin_free_contract [OF al(1) assms(2,4) this]
  from al(2,3) fr show ?thesis by auto
qed

theorem bin_alloc_dealloc_roundtrip_witness:
  "\<exists>p s' s''. bin_allocf ex_layout (ex_alloc, ex_mem) = Some (p, s') \<and> bin_freef p ex_layout s' = Some s'' \<and>
     bin_invar s'' \<and> bin_free s'' = bin_free (ex_alloc, ex_mem)"
proof -
  have "npot (2 ^ 5) = 2 ^ 5" by (rule npot_pow2)
  then have spec: "spec_alloc (inner_size ex_layout) (inner_align ex_layout) [(4096, 64)] = Some (4096, [(4128, 32)])"
    by (simp add: ex_inner spec_alloc_def take_block_def divide_blocks.simps split_at_def Let_def is_pow2_def)
  obtain w m' where w: "bin_alloc ex_alloc ex_layout ex_mem = Some (Inr (Inr w, m'))" "unat w = 4096"
    "bin_rep 4096 4160 (bin_head ex_alloc) m' [(4128, 32)]"
    using bin_alloc_refines [OF ex_rep' ex_layout_ok] unfolding spec by auto
  have "spec_dealloc (unat w) (inner_size ex_layout) [(4128, 32)] = Some [(4096, 64)]"
    by (simp add: w(2) ex_inner spec_dealloc_def)
  moreover have "bin_region ex_alloc 4096 4160" "block_ok 4096 4160 (unat w, inner_size ex_layout)"
    "block (unat w) (inner_size ex_layout) \<inter> free_bytes [(4128, 32)] = {}" "inner_align ex_layout dvd unat w"
    by (simp_all add: w(2) ex_inner bin_region_def ex_alloc_def block_ok_simp block_def)
  ultimately obtain m'' where m'': "bin_dealloc ex_alloc w ex_layout m' = Some (Inr m'')"
    using bin_dealloc_refines [OF w(3) _ ex_layout_ok, of w] by auto
  have al: "bin_allocf ex_layout (ex_alloc, ex_mem) = Some (w, (ex_alloc, m'))" using w(1) by (simp add: bin_allocf_def)
  have fr: "bin_freef w ex_layout (ex_alloc, m') = Some (ex_alloc, m'')" using m'' by (simp add: bin_freef_def)
  have "bin_invar (ex_alloc, ex_mem)" using ex_repr by (auto simp: bin_invar_def)
  from bin_alloc_dealloc_roundtrip [OF this ex_layout_ok al fr] al fr show ?thesis by blast
qed

subsection \<open>Freeing the highest block\<close>

text \<open>What a history keeps beside the contract: the allocator itself, and that live blocks are aligned as they were
  allocated.\<close>

lemma bin_reach_aligned:
  assumes "heap_reach bin_ok bin_allocf bin_freef bin_env s0 s live" and "bin_invar s0"
  shows "fst s = fst s0 \<and> (\<forall>(p, l) \<in> set live. inner_align l dvd unat p)"
  using assms
proof (induction rule: heap_reach.induct)
  case (hr_alloc s live l p s')
  have "live_ok bin_invar bin_free bin_ok inner_size (bin_free s0) s live"
    using hr_alloc.hyps(1) hr_alloc.prems by (rule bin.live_blocks_ok) simp
  then have "bin_invar s" by (simp add: live_ok_def)
  with hr_alloc.hyps have "inner_align l dvd unat p" by (intro bin_alloc_contract(4))
  moreover have "fst s' = fst s" using hr_alloc.hyps(3) by (auto simp: bin_allocf_def split: option.splits sum.splits)
  ultimately show ?case using hr_alloc.IH [OF hr_alloc.prems] by simp
next
  case (hr_free s xs p l ys s')
  moreover have "fst s' = fst s" using hr_free.hyps(2) by (auto simp: bin_freef_def split: option.splits sum.splits)
  ultimately show ?case by auto
next
  case (hr_env s live s')
  then show ?case by (simp add: bin_env_def)
qed simp

lemma bin_dealloc_live:
  assumes "heap_reach bin_ok bin_allocf bin_freef bin_env s0 s live" and "bin_invar s0" and "(p, l) \<in> set live"
  shows "if \<exists>x \<in> bin_free s. unat p < x then \<exists>m'. bin_dealloc (fst s) p l (snd s) = Some (Inr m')
    else bin_dealloc (fst s) p l (snd s) = Some (Inl (Panic ''invalid pointer provided''))"
proof -
  let ?a = "fst s" and ?lo = "unat (bin_start (fst s))" and ?hi = "unat (bin_end (fst s))"
  have "live_ok bin_invar bin_free bin_ok inner_size (bin_free s0) s live"
    using assms(1,2) by (rule bin.live_blocks_ok) simp
  then have inv: "bin_invar s" and pl: "bin_ok l" "block (unat p) (inner_size l) \<subseteq> bin_free s0"
    "block (unat p) (inner_size l) \<inter> bin_free s = {}" using assms(3) by (auto simp: live_ok_def)
  have al: "inner_align l dvd unat p" and same: "fst s = fst s0" using bin_reach_aligned [OF assms(1,2)] assms(3) by auto
  obtain bs where rep: "bin_repr s bs" using inv by (auto simp: bin_invar_def)
  then have wf: "wf_blocks ?lo ?hi bs" and free: "bin_free s = free_bytes bs"
    using bin_free_eq by (simp_all add: bin_repr_def bin_rep_def)
  obtain bs0 where "bin_repr s0 bs0" using assms(2) by (auto simp: bin_invar_def)
  then have "bin_free s0 \<subseteq> {?lo ..< ?hi}"
    using bin_free_eq [of s0 bs0] free_bytes_range [of ?lo ?hi bs0] same by (simp add: bin_repr_def bin_rep_def)
  moreover have z: "16 \<le> inner_size l" "16 dvd inner_size l" by (rule inner_size_bounds)+
  moreover have "16 dvd inner_align l"
    using layout_okD(1) [of l] pl(1) npot_pow2 [of 4] pow2_dvd_iff_le [of 16 "unat (lay_align l)"]
    by (auto simp: inner_align_def max_def bin_ok_def is_power_of_two_def is_pow2_def)
  moreover have "unat p \<in> bin_free s0" "unat p + (inner_size l - 1) \<in> bin_free s0"
    using pl(2) z(1) by (auto simp: block_def subset_iff)
  ultimately have blk: "block_ok ?lo ?hi (unat p, inner_size l)"
    using al by (fastforce simp: block_ok_simp intro: dvd_trans dest: subsetD)
  have above: "(\<exists>x \<in> bin_free s. unat p < x) \<longleftrightarrow> (\<exists>(b, n) \<in> set bs. unat p < b)"
  proof
    assume "\<exists>x \<in> bin_free s. unat p < x"
    then obtain b n x where bn: "(b, n) \<in> set bs" "x \<in> block b n" "unat p < x" by (auto simp: free free_bytes_def)
    have "unat p \<in> block (unat p) (inner_size l)" using z(1) by (simp add: mem_block)
    then have "unat p \<notin> block b n" using pl(3) bn(1) by (auto simp: free free_bytes_def)
    then have "unat p < b" using bn(2,3) by (simp add: mem_block)
    then show "\<exists>(b, n) \<in> set bs. unat p < b" using bn(1) by auto
  next
    assume "\<exists>(b, n) \<in> set bs. unat p < b"
    then obtain b n where bn: "(b, n) \<in> set bs" "unat p < b" by auto
    then have "b \<in> block b n" using wf_blocks_in(3) [OF wf bn(1)] by (simp add: mem_block)
    then show "\<exists>x \<in> bin_free s. unat p < x" using bn by (auto simp: free free_bytes_def)
  qed
  have "bin_region ?a ?lo ?hi" by (simp add: bin_region_def)
  note ref = bin_dealloc_refines [OF rep [unfolded bin_repr_def] this pl(1) blk pl(3) [unfolded free] al]
  have none: "spec_dealloc (unat p) (inner_size l) bs = None \<longleftrightarrow> \<not> (\<exists>x \<in> bin_free s. unat p < x)"
    unfolding above by (auto simp: spec_dealloc_def insert_block_None not_le)
  show ?thesis
  proof (cases "spec_dealloc (unat p) (inner_size l) bs")
    case None
    then show ?thesis using ref none by simp
  next
    case (Some r)
    then have "\<exists>x \<in> bin_free s. unat p < x" using none by simp
    then show ?thesis using ref Some by auto
  qed
qed

text \<open>C5: when a live block can be freed. After any history of the allocator, whatever was allocated, freed and written by
  owners since \<open>Allocator::new\<close>, giving back a live block with its layout returns exactly when some free memory lies above
  the block; when none does, \<open>dealloc\<close> panics, although the caller did everything the method asks for.\<close>

theorem bin_dealloc_highest_panics:
  assumes "0 < unat start" and "unat end' \<le> 2 ^ 63" and "up16 (unat start) < down16 (unat end')"
    and "unat loc \<notin> {up16 (unat start) ..< down16 (unat end')}"
    and "bin_new start end' loc m = Some (Inr s0)"
    and "heap_reach bin_ok bin_allocf bin_freef bin_env s0 s live" and "(p, l) \<in> set live"
  shows "if \<exists>x \<in> bin_free s. unat p < x then \<exists>m'. bin_dealloc (fst s) p l (snd s) = Some (Inr m')
    else bin_dealloc (fst s) p l (snd s) = Some (Inl (Panic ''invalid pointer provided''))"
proof -
  have "bin_invar s0"
    using bin_new_refines [OF assms(1-4), of m] assms(5) by (auto simp: bin_invar_def bin_repr_def bin_region_def)
  then show ?thesis by (rule bin_dealloc_live [OF assms(6) _ assms(7)])
qed

text \<open>A region of one block that is allocated whole.\<close>

theorem bin_dealloc_highest_panics_witness:
  "\<exists>a m1 p m2. bin_new 4096 4160 8 (\<lambda>_. 0) = Some (Inr (a, m1)) \<and>
     bin_alloc a \<lparr>lay_size = 64, lay_align = 16\<rparr> m1 = Some (Inr (Inr p, m2)) \<and>
     bin_dealloc a p \<lparr>lay_size = 64, lay_align = 16\<rparr> m2 = Some (Inl (Panic ''invalid pointer provided''))"
proof -
  let ?l = "\<lparr>lay_size = 64, lay_align = 16\<rparr>"
  have pre: "0 < unat (4096::usize)" "unat (4160::usize) \<le> 2 ^ 63" "up16 (unat (4096::usize)) < down16 (unat (4160::usize))"
    "unat (8::usize) \<notin> {up16 (unat (4096::usize)) ..< down16 (unat (4160::usize))}"
    by (simp_all add: up16_def down16_def)
  have "divide_blocks [(4096, 64)] = [(4096, 64)]"
    by (simp add: divide_blocks.simps split_at_def Let_def is_pow2_def npot.simps)
  then obtain a m1 where new: "bin_new 4096 4160 8 (\<lambda>_. 0) = Some (Inr (a, m1))"
    and rep: "bin_rep 4096 4160 (bin_head a) m1 [(4096, 64)]" and reg: "bin_region a 4096 4160"
    using bin_new_refines [OF pre, of "\<lambda>_. 0"] by (auto simp: up16_def down16_def)
  have "npot (2 ^ 6) = 2 ^ 6" "npot (2 ^ 4) = 2 ^ 4" by (rule npot_pow2)+
  then have ok: "bin_ok ?l" and inner: "inner_size ?l = 64" "inner_align ?l = 16"
    by (simp_all add: bin_ok_def layout_ok_def from_size_align_def from_size_align_unchecked_def
        is_power_of_two_def is_pow2_def inner_size_def inner_align_def)
  have "spec_alloc (inner_size ?l) (inner_align ?l) [(4096, 64)] = Some (4096, [])"
    by (simp add: inner spec_alloc_def take_block_def)
  then obtain p m2 where al: "bin_alloc a ?l m1 = Some (Inr (Inr p, m2))" and rep2: "bin_rep 4096 4160 (bin_head a) m2 []"
    using bin_alloc_refines [OF rep ok] by auto
  have "bin_allocf ?l (a, m1) = Some (p, (a, m2))" using al by (simp add: bin_allocf_def)
  with ok have "heap_reach bin_ok bin_allocf bin_freef bin_env (a, m1) (a, m2) [(p, ?l)]"
    by (blast intro: hr_init hr_alloc)
  note panic = bin_dealloc_highest_panics [OF pre new this, of p ?l]
  have "bin_free (a, m2) = {}" using bin_free_eq [of "(a, m2)" "[]"] rep2 reg by (simp add: bin_repr_def bin_region_def)
  then show ?thesis using panic new al by auto
qed

end
