(* ===== verification/MutexModel.thy ===== *)
theory MutexModel
  imports Prelude
begin

text \<open>
  The kernel's mutex, \<open>kernel/src/mutex.rs\<close>: the flag and the owner are the two atomics, the guard
  gives access to the data and clears the flag when it is dropped. Histories of one mutex are the
  states that acquisitions, writes through a guard and drops of guards can reach.
\<close>

record 'a mutex =
  mx_data :: 'a
  mx_lock :: bool
  mx_owner :: usize

datatype mutex_guard = MutexGuard

definition mutex_new :: "'a \<Rightarrow> 'a mutex" where
  "mutex_new val = \<lparr>mx_data = val, mx_lock = False, mx_owner = - 1\<rparr>"

definition try_lock :: "'a mutex \<Rightarrow> mutex_guard option \<times> 'a mutex" where
  "try_lock x =
     (let this = 0 in
      if \<not> mx_lock x \<or> mx_owner x = this
      then (Some MutexGuard, x\<lparr>mx_lock := True, mx_owner := this\<rparr>)
      else (None, x))"

partial_function (option) mutex_lock :: "'a mutex \<Rightarrow> (mutex_guard \<times> 'a mutex) option" where
  "mutex_lock x =
     (case try_lock x of
        (Some guard, x') \<Rightarrow> Some (guard, x')
      | (None, x') \<Rightarrow> mutex_lock x')"

definition mutex_unlock :: "'a mutex \<Rightarrow> 'a mutex" where
  "mutex_unlock x = x\<lparr>mx_lock := False\<rparr>"

definition guard_deref :: "'a mutex \<Rightarrow> 'a" where
  "guard_deref x = mx_data x"

definition guard_deref_mut :: "('a \<Rightarrow> 'a) \<Rightarrow> 'a mutex \<Rightarrow> 'a mutex" where
  "guard_deref_mut f x = x\<lparr>mx_data := f (mx_data x)\<rparr>"

definition guard_drop :: "'a mutex \<Rightarrow> 'a mutex" where
  "guard_drop x = mutex_unlock x"

lemmas mutex_defs = mutex_new_def try_lock_def mutex_unlock_def guard_deref_def guard_deref_mut_def guard_drop_def

lemma mutex_lock_step: "mutex_lock x =
    (case try_lock x of (Some guard, x') \<Rightarrow> Some (guard, x') | (None, x') \<Rightarrow> mutex_lock x')"
  by (subst mutex_lock.simps) (rule refl)

lemma mutex_lock_free:
  assumes "\<not> mx_lock x \<or> mx_owner x = 0"
  shows "mutex_lock x = Some (MutexGuard, x\<lparr>mx_lock := True, mx_owner := 0\<rparr>)"
  using assms by (subst mutex_lock_step) (auto simp: try_lock_def)

subsection \<open>Histories\<close>

text \<open>A mutex together with the number of guards that are alive.\<close>

inductive mutex_reach :: "'a \<Rightarrow> 'a mutex \<Rightarrow> nat \<Rightarrow> bool" for val where
  mr_new: "mutex_reach val (mutex_new val) 0"
| mr_lock: "mutex_reach val x n \<Longrightarrow> mutex_lock x = Some (g, x') \<Longrightarrow> mutex_reach val x' (Suc n)"
| mr_try_lock: "mutex_reach val x n \<Longrightarrow> try_lock x = (Some g, x') \<Longrightarrow> mutex_reach val x' (Suc n)"
| mr_write: "mutex_reach val x (Suc n) \<Longrightarrow> mutex_reach val (guard_deref_mut f x) (Suc n)"
| mr_drop: "mutex_reach val x (Suc n) \<Longrightarrow> mutex_reach val (guard_drop x) n"

lemma mutex_reach_owner: "mutex_reach val x n \<Longrightarrow> mx_lock x \<longrightarrow> mx_owner x = 0"
proof (induction rule: mutex_reach.induct)
  case (mr_lock x n g x')
  then have "\<not> mx_lock x \<or> mx_owner x = 0" by blast
  from mutex_lock_free [OF this] mr_lock.hyps(2) show ?case by auto
qed (auto simp: mutex_defs Let_def split: if_splits)

text \<open>C18: \<open>lock\<close> never waits: whatever was done with the mutex since \<open>new\<close>, and however many guards are
  alive, it returns at once with a guard and leaves the data alone.\<close>

theorem mutex_lock_never_waits:
  assumes "mutex_reach val x n"
  shows "mutex_lock x = Some (MutexGuard, x\<lparr>mx_lock := True, mx_owner := 0\<rparr>)"
  using mutex_reach_owner [OF assms] by (intro mutex_lock_free) blast

theorem mutex_lock_never_waits_witness:
  "\<exists>x. mutex_reach (5::nat) x 1 \<and> mutex_lock x = Some (MutexGuard, \<lparr>mx_data = 5, mx_lock = True, mx_owner = 0\<rparr>)"
proof -
  let ?x = "\<lparr>mx_data = 5::nat, mx_lock = True, mx_owner = 0\<rparr>"
  have "mutex_reach (5::nat) ?x (Suc 0)"
    by (rule mr_try_lock [OF mr_new]) (simp add: mutex_defs)
  from mutex_lock_never_waits [OF this] this show ?thesis by auto
qed

text \<open>Hence two guards can be alive at once, and dropping one of them opens the lock under the other.\<close>

lemma mutex_two_guards:
  "\<exists>x. mutex_reach val x 2 \<and> mx_lock x" "\<exists>x. mutex_reach val x 1 \<and> \<not> mx_lock x"
proof -
  have one: "mutex_reach val (mutex_new val\<lparr>mx_lock := True, mx_owner := 0\<rparr>) (Suc 0)"
    by (rule mr_lock [OF mr_new]) (rule mutex_lock_free, simp add: mutex_defs)
  have two: "mutex_reach val (mutex_new val\<lparr>mx_lock := True, mx_owner := 0\<rparr>) (Suc (Suc 0))"
    by (rule mr_lock [OF one, where g = MutexGuard]) (subst mutex_lock_free, auto simp: mutex_defs)
  then show "\<exists>x. mutex_reach val x 2 \<and> mx_lock x" by (auto simp: numeral_2_eq_2 intro!: exI)
  from mr_drop [OF two] show "\<exists>x. mutex_reach val x 1 \<and> \<not> mx_lock x"
    by (auto simp: mutex_defs intro!: exI)
qed

subsection \<open>A statement that holds the lock\<close>

text \<open>\<open>x.lock().f()\<close>: the guard is a temporary that is dropped at the end of the statement. A panic in
  \<open>f\<close> halts the kernel, so the drop is only reached by a normal return.\<close>

definition with_lock :: "('a \<Rightarrow> (('r \<times> 'a) outcome) option) \<Rightarrow> 'a mutex \<Rightarrow> (('r \<times> 'a mutex) outcome) option" where
  "with_lock f x =
     (case mutex_lock x of
        None \<Rightarrow> None
      | Some (_, x1) \<Rightarrow>
          (case f (guard_deref x1) of
             None \<Rightarrow> None
           | Some (Inl e) \<Rightarrow> Some (Inl e)
           | Some (Inr (r, d)) \<Rightarrow> Some (Inr (r, guard_drop (guard_deref_mut (\<lambda>_. d) x1)))))"

lemma with_lock_idle:
  assumes "mx_lock x \<longrightarrow> mx_owner x = 0"
  shows "with_lock f x =
     (case f (mx_data x) of
        None \<Rightarrow> None
      | Some (Inl e) \<Rightarrow> Some (Inl e)
      | Some (Inr (r, d)) \<Rightarrow> Some (Inr (r, \<lparr>mx_data = d, mx_lock = False, mx_owner = 0, \<dots> = mutex.more x\<rparr>)))"
proof -
  from assms have "\<not> mx_lock x \<or> mx_owner x = 0" by blast
  from mutex_lock_free [OF this] show ?thesis
    by (cases x) (auto simp: with_lock_def mutex_defs split: option.splits sum.splits)
qed

end
