(* ===== verification/Atags.thy ===== *)
theory Atags
  imports Prelude
begin

text \<open>
  The boot information list, \<open>pi/src/atags\<close>: the firmware leaves a chain of tags at \<open>ATAG_BASE\<close>.
  Memory is the function from addresses to bytes; a raw tag is its address, and its fields are
  little-endian words at fixed offsets (\<open>#[repr(C)]\<close>). The loops over the chain and over a command
  line follow what memory holds, so they are partial functions whose \<open>None\<close> is not returning.
\<close>

type_synonym bytes = "usize \<Rightarrow> u8"

definition read_u32 :: "bytes \<Rightarrow> usize \<Rightarrow> u32" where
  "read_u32 b p = ucast (b p) OR push_bit 8 (ucast (b (p + 1))) OR
     push_bit 16 (ucast (b (p + 2))) OR push_bit 24 (ucast (b (p + 3)))"

subsection \<open>Raw tags\<close>

definition ATAG_BASE :: usize where
  "ATAG_BASE = 0x100"

definition ATAG_NONE :: u32 where
  "ATAG_NONE = 0x00000000"

definition ATAG_CORE :: u32 where
  "ATAG_CORE = 0x54410001"

definition ATAG_MEM :: u32 where
  "ATAG_MEM = 0x54410002"

definition ATAG_CMDLINE :: u32 where
  "ATAG_CMDLINE = 0x54410009"

lemmas atag_ids = ATAG_NONE_def ATAG_CORE_def ATAG_MEM_def ATAG_CMDLINE_def

definition raw_dwords :: "bytes \<Rightarrow> usize \<Rightarrow> u32" where
  "raw_dwords b p = read_u32 b p"

definition raw_tag :: "bytes \<Rightarrow> usize \<Rightarrow> u32" where
  "raw_tag b p = read_u32 b (p + 4)"

definition raw_next :: "bytes \<Rightarrow> usize \<Rightarrow> usize option" where
  "raw_next b p = (if raw_tag b p = ATAG_NONE then None else Some (p + 4 * ucast (raw_dwords b p)))"

record core_tag =
  core_flags :: u32
  core_page_size :: u32
  core_root_dev :: u32

record mem_tag =
  mem_size :: u32
  mem_start :: u32

definition raw_core :: "bytes \<Rightarrow> usize \<Rightarrow> core_tag" where
  "raw_core b p = \<lparr>core_flags = read_u32 b (p + 8), core_page_size = read_u32 b (p + 12),
     core_root_dev = read_u32 b (p + 16)\<rparr>"

definition raw_mem :: "bytes \<Rightarrow> usize \<Rightarrow> mem_tag" where
  "raw_mem b p = \<lparr>mem_size = read_u32 b (p + 8), mem_start = read_u32 b (p + 12)\<rparr>"

subsection \<open>Decoded tags\<close>

datatype atag =
    Core core_tag
  | Mem mem_tag
  | Cmd "u8 list"
  | Unknown u32
  | NoneTag

definition atag_core :: "atag \<Rightarrow> core_tag option" where
  "atag_core t = (case t of Core c \<Rightarrow> Some c | _ \<Rightarrow> None)"

definition atag_mem :: "atag \<Rightarrow> mem_tag option" where
  "atag_mem t = (case t of Mem x \<Rightarrow> Some x | _ \<Rightarrow> None)"

definition atag_cmd :: "atag \<Rightarrow> (u8 list) option" where
  "atag_cmd t = (case t of Cmd s \<Rightarrow> Some s | _ \<Rightarrow> None)"

text \<open>The scan for the terminating zero of a command line.\<close>

partial_function (option) cmd_end :: "bytes \<Rightarrow> usize \<Rightarrow> usize option" where
  "cmd_end b p = (if b p \<noteq> 0 then cmd_end b (p + 1) else Some p)"

definition from_raw_parts :: "bytes \<Rightarrow> usize \<Rightarrow> usize \<Rightarrow> u8 list" where
  "from_raw_parts b start len = map (\<lambda>i. b (start + of_nat i)) [0..<unat len]"

definition atag_from_cmd :: "bytes \<Rightarrow> usize \<Rightarrow> (atag outcome) option" where
  "atag_from_cmd b start =
     map_option (\<lambda>end'.
       let offset = end' - start; buf = from_raw_parts b start offset
       in and_then (expect ''utf8 conversion failed'' (from_utf8 buf)) (\<lambda>cmd. Inr (Cmd cmd)))
     (cmd_end b start)"

definition atag_from_raw :: "bytes \<Rightarrow> usize \<Rightarrow> (atag outcome) option" where
  "atag_from_raw b p =
     (let tag = raw_tag b p in
      if tag = ATAG_CORE then Some (Inr (Core (raw_core b p)))
      else if tag = ATAG_MEM then Some (Inr (Mem (raw_mem b p)))
      else if tag = ATAG_CMDLINE then atag_from_cmd b (p + 8)
      else if tag = ATAG_NONE then Some (Inr NoneTag)
      else Some (Inr (Unknown tag)))"

subsection \<open>The iterator\<close>

record atags =
  at_ptr :: usize

definition atags_get :: atags where
  "atags_get = \<lparr>at_ptr = ATAG_BASE\<rparr>"

definition atags_next :: "bytes \<Rightarrow> atags \<Rightarrow> ((atag option \<times> atags) outcome) option" where
  "atags_next b it =
     (case raw_next b (at_ptr it) of
        None \<Rightarrow> Some (Inr (None, it))
      | Some raw \<Rightarrow>
          map_option (\<lambda>r. and_then r (\<lambda>t. Inr (Some t, it\<lparr>at_ptr := raw\<rparr>))) (atag_from_raw b raw))"

text \<open>\<open>Iterator::find\<close> and \<open>Iterator::collect\<close> of the core library over this iterator.\<close>

partial_function (option) atags_find :: "bytes \<Rightarrow> (atag \<Rightarrow> bool) \<Rightarrow> atags \<Rightarrow> ((atag option) outcome) option" where
  "atags_find b p it =
     (case atags_next b it of
        None \<Rightarrow> None
      | Some (Inl e) \<Rightarrow> Some (Inl e)
      | Some (Inr (None, _)) \<Rightarrow> Some (Inr None)
      | Some (Inr (Some t, it')) \<Rightarrow> if p t then Some (Inr (Some t)) else atags_find b p it')"

subsection \<open>Chains of tags\<close>

text \<open>\<open>tag_chain b p ps q\<close>: the tags at the addresses \<open>ps\<close> follow each other from \<open>p\<close> and lead to the
  terminating tag at \<open>q\<close>.\<close>

primrec tag_chain :: "bytes \<Rightarrow> usize \<Rightarrow> usize list \<Rightarrow> usize \<Rightarrow> bool" where
  "tag_chain b p [] q \<longleftrightarrow> p = q \<and> raw_tag b p = ATAG_NONE"
| "tag_chain b p (x # xs) q \<longleftrightarrow> p = x \<and> raw_tag b p \<noteq> ATAG_NONE \<and> tag_chain b (p + 4 * ucast (raw_dwords b p)) xs q"

text \<open>\<open>decoded b ps ts\<close>: the tags at \<open>ps\<close> decode to \<open>ts\<close> (every command line among them ends and is
  UTF-8).\<close>

definition decoded :: "bytes \<Rightarrow> usize list \<Rightarrow> atag list \<Rightarrow> bool" where
  "decoded b ps ts \<longleftrightarrow> list_all2 (\<lambda>p t. atag_from_raw b p = Some (Inr t)) ps ts"

lemma decoded_simps [simp]:
  "decoded b [] ts \<longleftrightarrow> ts = []"
  "decoded b (p # ps) ts \<longleftrightarrow> (\<exists>t ts'. ts = t # ts' \<and> atag_from_raw b p = Some (Inr t) \<and> decoded b ps ts')"
  by (auto simp: decoded_def list_all2_Cons1)

lemma atag_from_raw_NoneTag: "raw_tag b p = ATAG_NONE \<Longrightarrow> atag_from_raw b p = Some (Inr NoneTag)"
  by (simp add: atag_from_raw_def atag_ids)

lemma cmd_end_step: "cmd_end b p = (if b p \<noteq> 0 then cmd_end b (p + 1) else Some p)"
  by (subst cmd_end.simps) (rule refl)

text \<open>A command line of \<open>n\<close> bytes before its zero is read back whole.\<close>

lemma cmd_end_terminates:
  assumes "\<forall>i < n. b (p + of_nat i) \<noteq> 0" and "b (p + of_nat n) = 0"
  shows "cmd_end b p = Some (p + of_nat n)"
  using assms
proof (induction n arbitrary: p)
  case 0
  then show ?case by (simp add: cmd_end_step)
next
  case (Suc n)
  have "b (p + 1 + of_nat i) \<noteq> 0" if "i < n" for i
    using Suc.prems(1) [rule_format, of "Suc i"] that by (simp add: ac_simps)
  moreover have "b (p + 1 + of_nat n) = 0"
    using Suc.prems(2) by (simp add: ac_simps)
  ultimately have "cmd_end b (p + 1) = Some (p + 1 + of_nat n)" by (intro Suc.IH) simp_all
  moreover have "b p \<noteq> 0" using Suc.prems(1) [rule_format, of 0] by simp
  ultimately show ?case by (subst cmd_end_step) (simp add: ac_simps)
qed

lemma atag_from_cmd_reads:
  assumes "\<forall>i < n. b (p + of_nat i) \<noteq> 0" and "b (p + of_nat n) = 0" and "n < 2 ^ 64"
    and "utf8_valid (map (\<lambda>i. b (p + of_nat i)) [0..<n])"
  shows "atag_from_cmd b p = Some (Inr (Cmd (map (\<lambda>i. b (p + of_nat i)) [0..<n])))"
proof -
  have "unat (of_nat n :: usize) = n"
    using assms(3) by (simp add: unsigned_of_nat take_bit_nat_eq_self)
  with assms(4) cmd_end_terminates [OF assms(1,2)] show ?thesis
    by (simp add: atag_from_cmd_def from_raw_parts_def from_utf8_def Let_def)
qed

lemma atags_find_step: "atags_find b p it =
     (case atags_next b it of
        None \<Rightarrow> None
      | Some (Inl e) \<Rightarrow> Some (Inl e)
      | Some (Inr (None, _)) \<Rightarrow> Some (Inr None)
      | Some (Inr (Some t, it')) \<Rightarrow> if p t then Some (Inr (Some t)) else atags_find b p it')"
  by (subst atags_find.simps) (rule refl)

lemma atags_find_chain:
  assumes "tag_chain b p (c # ps) q" and "decoded b (ps @ [q]) ts"
  shows "atags_find b pr \<lparr>at_ptr = p\<rparr> = Some (Inr (find pr ts))"
  using assms
proof (induction ps arbitrary: p c ts)
  case Nil
  then have "atags_next b \<lparr>at_ptr = p\<rparr> = Some (Inr (Some NoneTag, \<lparr>at_ptr = q\<rparr>))"
    "atags_next b \<lparr>at_ptr = q\<rparr> = Some (Inr (None, \<lparr>at_ptr = q\<rparr>))" "ts = [NoneTag]"
    by (auto simp: atags_next_def raw_next_def atag_from_raw_NoneTag)
  then show ?case by (subst atags_find_step) (simp add: atags_find_step [of b pr "\<lparr>at_ptr = q\<rparr>"])
next
  case (Cons x ps)
  from Cons.prems(2) obtain t ts' where ts: "ts = t # ts'" "atag_from_raw b x = Some (Inr t)" "decoded b (ps @ [q]) ts'"
    by auto
  have "atags_next b \<lparr>at_ptr = p\<rparr> = Some (Inr (Some t, \<lparr>at_ptr = x\<rparr>))"
    using Cons.prems(1) ts(2) by (auto simp: atags_next_def raw_next_def)
  moreover have "atags_find b pr \<lparr>at_ptr = x\<rparr> = Some (Inr (find pr ts'))"
    using Cons.prems(1) ts(3) by (intro Cons.IH [of x x]) auto
  ultimately show ?case by (subst atags_find_step) (simp add: ts(1))
qed

text \<open>a search over \<open>Atags::get()\<close> ends, and it ranges over the tags after the first one, up to and
  including the terminating \<open>None\<close> tag: the first tag of the list, which is the \<open>Core\<close> tag, is never
  produced by the iterator.\<close>

theorem atags_find_skips_first:
  assumes "tag_chain b ATAG_BASE (c # ps) q" and "decoded b (ps @ [q]) ts"
  shows "atags_find b pr atags_get = Some (Inr (find pr ts)) \<and> last ts = NoneTag"
proof
  show "atags_find b pr atags_get = Some (Inr (find pr ts))"
    unfolding atags_get_def using assms by (rule atags_find_chain)
  have "raw_tag b q = ATAG_NONE" if "tag_chain b p ps q" for p ps
    using that by (induction ps arbitrary: p) auto
  with assms(1) have "atag_from_raw b q = Some (Inr NoneTag)"
    by (auto intro!: atag_from_raw_NoneTag simp del: tag_chain.simps)
  with assms(2) show "last ts = NoneTag"
    by (auto simp: decoded_def list_all2_append1 list_all2_Cons1)
qed

text \<open>A chain as the firmware leaves it: \<open>Core\<close>, \<open>Mem\<close> (64 MB from 0), a command line, the end.\<close>

definition le_bytes :: "u32 \<Rightarrow> u8 list" where
  "le_bytes w = [ucast w, ucast (drop_bit 8 w), ucast (drop_bit 16 w), ucast (drop_bit 24 w)]"

definition ex_boot :: bytes where
  "ex_boot p =
     (let img = concat (map le_bytes [5, 0x54410001, 0, 4096, 0, 4, 0x54410002, 0x4000000, 0,
        3, 0x54410009, 0x6968, 0, 0])
      in if ATAG_BASE \<le> p \<and> unat (p - ATAG_BASE) < length img then img ! unat (p - ATAG_BASE) else 0)"

lemma ex_boot_chain: "tag_chain ex_boot ATAG_BASE [0x100, 0x114, 0x124] 0x130"
  by (simp add: ATAG_BASE_def ATAG_NONE_def raw_tag_def raw_dwords_def read_u32_def ex_boot_def le_bytes_def)

lemma ex_boot_decoded: "decoded ex_boot [0x114, 0x124, 0x130] [Mem \<lparr>mem_size = 0x4000000, mem_start = 0\<rparr>, Cmd [0x68, 0x69], NoneTag]"
proof -
  have b: "ex_boot 0x12C = 0x68" "ex_boot 0x12D = 0x69" "ex_boot 0x12E = 0"
    by (simp_all add: ATAG_BASE_def ex_boot_def le_bytes_def)
  have "atag_from_cmd ex_boot 0x12C = Some (Inr (Cmd [0x68, 0x69]))"
    using atag_from_cmd_reads [of 2 ex_boot "0x12C"] utf8_valid_ascii [of "[0x68, 0x69]"] b
    by (simp add: less_2_cases_iff upt_rec)
  then show ?thesis
    by (simp add: atag_from_raw_def atag_ids raw_tag_def raw_mem_def read_u32_def ex_boot_def le_bytes_def ATAG_BASE_def)
qed

theorem atags_find_skips_first_witness:
  "atags_find ex_boot (\<lambda>t. atag_core t \<noteq> None) atags_get = Some (Inr None) \<and>
   atag_from_raw ex_boot ATAG_BASE = Some (Inr (Core \<lparr>core_flags = 0, core_page_size = 4096, core_root_dev = 0\<rparr>))"
proof
  have "decoded ex_boot ([0x114, 0x124] @ [0x130]) [Mem \<lparr>mem_size = 0x4000000, mem_start = 0\<rparr>, Cmd [0x68, 0x69], NoneTag]"
    using ex_boot_decoded by (simp only: append_Cons append_Nil)
  from atags_find_skips_first [OF ex_boot_chain this]
  show "atags_find ex_boot (\<lambda>t. atag_core t \<noteq> None) atags_get = Some (Inr None)"
    by (simp add: atag_core_def)
  show "atag_from_raw ex_boot ATAG_BASE = Some (Inr (Core \<lparr>core_flags = 0, core_page_size = 4096, core_root_dev = 0\<rparr>))"
    by (simp add: atag_from_raw_def atag_ids raw_tag_def raw_core_def read_u32_def ex_boot_def le_bytes_def ATAG_BASE_def)
qed

end
