(* ===== verification/KernelAlloc.thy ===== *)
theory KernelAlloc
  imports BinCorrect MutexModel Atags
begin

text \<open>
  The global allocator, \<open>kernel/src/allocator/mod.rs\<close>: the bin allocator behind the kernel's mutex,
  created from the memory map that the boot tags describe. \<open>end_sym\<close> is the address of the linker
  symbol \<open>_end\<close> and \<open>loc\<close> the address of the free-list head inside the static; \<open>b\<close> is the boot
  memory with the tags, \<open>m\<close> the memory the allocator manages.
\<close>

type_synonym kernel_heap = "(bin_allocator option) mutex \<times> mem"

definition uninitialized :: "(bin_allocator option) mutex" where
  "uninitialized = mutex_new None"

definition is_mem_tag :: "atag \<Rightarrow> bool" where
  "is_mem_tag t = (case t of Mem _ \<Rightarrow> True | _ \<Rightarrow> False)"

definition memory_map :: "usize \<Rightarrow> bytes \<Rightarrow> (((usize \<times> usize) option) outcome) option" where
  "memory_map end_sym b =
     (let binary_end = ucast (ucast end_sym :: u32) in
      map_option (\<lambda>r. and_then r (\<lambda>found.
        Inr (case found of
               None \<Rightarrow> None
             | Some t \<Rightarrow>
                 (case atag_mem t of
                    None \<Rightarrow> None
                  | Some x \<Rightarrow> Some (binary_end, ucast (mem_start x + mem_size x))))))
      (atags_find b is_mem_tag atags_get))"

text \<open>The right-hand side \<open>Some(imp::Allocator::new(start, end))\<close> is evaluated before the lock is taken.\<close>

definition initialize :: "usize \<Rightarrow> usize \<Rightarrow> bytes \<Rightarrow> kernel_heap \<Rightarrow> (kernel_heap outcome) option" where
  "initialize end_sym loc b s =
     (case memory_map end_sym b of
        None \<Rightarrow> None
      | Some r \<Rightarrow>
          (case and_then r (expect ''failed to find memory map'') of
             Inl e \<Rightarrow> Some (Inl e)
           | Inr (start, end') \<Rightarrow>
               (case bin_new start end' loc (snd s) of
                  None \<Rightarrow> None
                | Some (Inl e) \<Rightarrow> Some (Inl e)
                | Some (Inr (a, m)) \<Rightarrow>
                    map_option (\<lambda>r. and_then r (\<lambda>(_, x). Inr (x, m)))
                      (with_lock (\<lambda>_. Some (Inr ((), Some a))) (fst s)))))"

definition kernel_alloc :: "layout \<Rightarrow> kernel_heap \<Rightarrow> (((alloc_err + usize) \<times> kernel_heap) outcome) option" where
  "kernel_alloc l s =
     map_option (\<lambda>r. and_then r (\<lambda>((res, m), x). Inr (res, (x, m))))
       (with_lock (\<lambda>d.
          case expect ''allocator uninitialized'' d of
            Inl e \<Rightarrow> Some (Inl e)
          | Inr a \<Rightarrow> map_option (\<lambda>r. and_then r (\<lambda>v. Inr (v, d))) (bin_alloc a l (snd s))) (fst s))"

definition kernel_dealloc :: "usize \<Rightarrow> layout \<Rightarrow> kernel_heap \<Rightarrow> (kernel_heap outcome) option" where
  "kernel_dealloc p l s =
     map_option (\<lambda>r. and_then r (\<lambda>(m, x). Inr (x, m)))
       (with_lock (\<lambda>d.
          case expect ''allocator uninitialized'' d of
            Inl e \<Rightarrow> Some (Inl e)
          | Inr a \<Rightarrow> map_option (\<lambda>r. and_then r (\<lambda>v. Inr (v, d))) (bin_dealloc a p l (snd s))) (fst s))"

subsection \<open>The wrapper keeps the contract of the allocator it wraps\<close>

definition kernel_allocf :: "layout \<Rightarrow> kernel_heap \<Rightarrow> (usize \<times> kernel_heap) option" where
  "kernel_allocf l s = (case kernel_alloc l s of Some (Inr (Inr p, s')) \<Rightarrow> Some (p, s') | _ \<Rightarrow> None)"

definition kernel_freef :: "usize \<Rightarrow> layout \<Rightarrow> kernel_heap \<Rightarrow> kernel_heap option" where
  "kernel_freef p l s = (case kernel_dealloc p l s of Some (Inr s') \<Rightarrow> Some s' | _ \<Rightarrow> None)"

definition idle :: "'a mutex \<Rightarrow> bool" where
  "idle x \<longleftrightarrow> (mx_lock x \<longrightarrow> mx_owner x = 0)"

definition kernel_invar :: "kernel_heap \<Rightarrow> bool" where
  "kernel_invar s \<longleftrightarrow> idle (fst s) \<and> (case mx_data (fst s) of None \<Rightarrow> False | Some a \<Rightarrow> bin_invar (a, snd s))"

definition kernel_free :: "kernel_heap \<Rightarrow> nat set" where
  "kernel_free s = (case mx_data (fst s) of None \<Rightarrow> {} | Some a \<Rightarrow> bin_free (a, snd s))"

definition kernel_env :: "kernel_heap \<Rightarrow> (usize \<times> layout) list \<Rightarrow> kernel_heap \<Rightarrow> bool" where
  "kernel_env s live s' \<longleftrightarrow> fst s' = fst s \<and>
     (case mx_data (fst s) of None \<Rightarrow> False | Some a \<Rightarrow> bin_env (a, snd s) live (a, snd s'))"

lemma kernel_invarE:
  assumes "kernel_invar s"
  obtains a where "mx_data (fst s) = Some a" "bin_invar (a, snd s)" "idle (fst s)" "kernel_free s = bin_free (a, snd s)"
  using assms by (auto simp: kernel_invar_def kernel_free_def split: option.splits)

lemma kernel_allocf_Some:
  assumes "kernel_allocf l s = Some (p, s')" and "idle (fst s)" and "mx_data (fst s) = Some a"
  shows "bin_allocf l (a, snd s) = Some (p, (a, snd s'))" "mx_data (fst s') = Some a" "idle (fst s')"
  using assms unfolding kernel_allocf_def kernel_alloc_def idle_def
  by (auto simp: with_lock_idle bin_allocf_def and_then_eq_Inr_iff split: option.splits sum.splits prod.splits)

lemma kernel_freef_Some:
  assumes "kernel_freef p l s = Some s'" and "idle (fst s)" and "mx_data (fst s) = Some a"
  shows "bin_freef p l (a, snd s) = Some (a, snd s')" "mx_data (fst s') = Some a" "idle (fst s')"
  using assms unfolding kernel_freef_def kernel_dealloc_def idle_def
  by (auto simp: with_lock_idle bin_freef_def and_then_eq_Inr_iff split: option.splits sum.splits prod.splits)

interpretation kheap: heap_allocator kernel_invar kernel_free bin_ok inner_size kernel_allocf kernel_freef kernel_env
proof unfold_locales
  fix l
  show "bin_ok l \<Longrightarrow> unat (lay_size l) \<le> inner_size l" by (rule bin.extent_ge)
next
  fix s l p s'
  assume *: "kernel_invar s" "bin_ok l" "kernel_allocf l s = Some (p, s')"
  from *(1) obtain a where a: "mx_data (fst s) = Some a" "bin_invar (a, snd s)" "idle (fst s)"
    "kernel_free s = bin_free (a, snd s)" by (rule kernel_invarE)
  note s' = kernel_allocf_Some [OF *(3) a(3,1)]
  show "kernel_invar s'" using bin.alloc_inv [OF a(2) *(2) s'(1)] s' by (simp add: kernel_invar_def)
  show "block (unat p) (inner_size l) \<subseteq> kernel_free s \<and> kernel_free s' \<subseteq> kernel_free s - block (unat p) (inner_size l)"
    using bin.alloc_fresh [OF a(2) *(2) s'(1)] s'(2) a(4) by (simp add: kernel_free_def)
  show "unat (lay_align l) dvd unat p" by (rule bin.alloc_aligned [OF a(2) *(2) s'(1)])
next
  fix s l p s'
  assume *: "kernel_invar s" "bin_ok l" "kernel_freef p l s = Some s'" "block (unat p) (inner_size l) \<inter> kernel_free s = {}"
  from *(1) obtain a where a: "mx_data (fst s) = Some a" "bin_invar (a, snd s)" "idle (fst s)"
    "kernel_free s = bin_free (a, snd s)" by (rule kernel_invarE)
  note s' = kernel_freef_Some [OF *(3) a(3,1)]
  show "kernel_invar s'" using bin.free_inv [OF a(2) *(2) s'(1)] s' *(4) a(4) by (simp add: kernel_invar_def)
  show "kernel_free s' \<subseteq> kernel_free s \<union> block (unat p) (inner_size l)"
    using bin.free_frees [OF a(2) *(2) s'(1)] s'(2) *(4) a(4) by (simp add: kernel_free_def)
next
  fix s live s'
  assume *: "kernel_invar s" "kernel_env s live s'"
    and live: "\<forall>(p, l) \<in> set live. bin_ok l \<and> block (unat p) (inner_size l) \<inter> kernel_free s = {}"
  from *(1) obtain a where a: "mx_data (fst s) = Some a" "bin_invar (a, snd s)" "idle (fst s)"
    "kernel_free s = bin_free (a, snd s)" by (rule kernel_invarE)
  from *(2) a(1) have "bin_env (a, snd s) live (a, snd s')" "fst s' = fst s" by (auto simp: kernel_env_def)
  with bin.env_inv [OF a(2) this(1)] live a show "kernel_invar s' \<and> kernel_free s' = kernel_free s"
    by (simp add: kernel_invar_def kernel_free_def)
qed

subsection \<open>Totality, and writing to a block\<close>

text \<open>On an initialized heap a request with a valid layout returns: a block, or \<open>Exhausted\<close> with the heap as it was.\<close>

lemma kernel_alloc_total:
  assumes "kernel_invar s" and "bin_ok l"
  shows "(\<exists>s'. kernel_alloc l s = Some (Inr (Inl (Exhausted l), s')) \<and> kernel_invar s' \<and> kernel_free s' = kernel_free s) \<or>
    (\<exists>p s'. kernel_alloc l s = Some (Inr (Inr p, s')) \<and> kernel_allocf l s = Some (p, s'))"
proof -
  obtain a where a: "mx_data (fst s) = Some a" "bin_invar (a, snd s)" "idle (fst s)" using assms(1) by (rule kernel_invarE)
  from a(2) obtain bs where rep: "bin_rep (unat (bin_start a)) (unat (bin_end a)) (bin_head a) (snd s) bs"
    by (auto simp: bin_invar_def bin_repr_def)
  have run: "kernel_alloc l s =
      map_option (\<lambda>r. and_then r (\<lambda>(res, m). Inr (res, (\<lparr>mx_data = Some a, mx_lock = False, mx_owner = 0\<rparr>, m))))
        (bin_alloc a l (snd s))"
    using a(1,3) by (auto simp: kernel_alloc_def with_lock_idle idle_def and_then_def split: option.splits sum.splits)
  show ?thesis
  proof (cases "spec_alloc (inner_size l) (inner_align l) bs")
    case None
    with bin_alloc_refines [OF rep assms(2)] have "bin_alloc a l (snd s) = Some (Inr (Inl (Exhausted l), snd s))" by simp
    with run a show ?thesis by (auto simp: kernel_invar_def kernel_free_def idle_def)
  next
    case (Some pr)
    with bin_alloc_refines [OF rep assms(2)] obtain w m' where "bin_alloc a l (snd s) = Some (Inr (Inr w, m'))"
      by (cases pr) auto
    with run show ?thesis by (auto simp: kernel_allocf_def)
  qed
qed

lemma kernel_head_not_free:
  assumes "kernel_invar s" and "mx_data (fst s) = Some a"
  shows "unat (bin_head a) \<notin> kernel_free s"
proof -
  from assms obtain bs where rep: "bin_repr (a, snd s) bs" and free: "kernel_free s = bin_free (a, snd s)"
    by (auto simp: kernel_invar_def kernel_free_def bin_invar_def)
  from rep have "region_ok (unat (bin_start a)) (unat (bin_end a)) (bin_head a)"
    and "wf_blocks (unat (bin_start a)) (unat (bin_end a)) bs"
    by (auto simp: bin_repr_def bin_rep_def)
  with free_bytes_range show ?thesis unfolding free bin_free_eq [OF rep] by (fastforce simp: region_ok_def)
qed

text \<open>The owner of a block just allocated may write it.\<close>

lemma kernel_write_fresh:
  assumes "kernel_invar s" and "bin_ok l" and "kernel_allocf l s = Some (p, s')"
    and "\<And>x. unat x \<notin> block (unat p) (inner_size l) \<Longrightarrow> m x = snd s' x"
  shows "kernel_invar (fst s', m)" and "kernel_free (fst s', m) = kernel_free s'"
proof -
  obtain a where a: "mx_data (fst s) = Some a" "idle (fst s)" using assms(1) by (rule kernel_invarE)
  note s' = kernel_allocf_Some [OF assms(3) a(2,1)]
  note fresh = kheap.alloc_fresh [OF assms(1-3)]
  have "unat (bin_head a) \<notin> block (unat p) (inner_size l)"
    using kernel_head_not_free [OF assms(1) a(1)] fresh by blast
  with assms(4) s'(2) have "kernel_env s' [(p, l)] (fst s', m)"
    by (auto simp: kernel_env_def bin_env_def)
  moreover have "kernel_invar s'" by (rule kheap.alloc_inv [OF assms(1-3)])
  ultimately show "kernel_invar (fst s', m)" and "kernel_free (fst s', m) = kernel_free s'"
    using kheap.env_inv [of s' "[(p, l)]" "(fst s', m)"] fresh assms(2) by auto
qed

subsection \<open>Properties\<close>

text \<open>Using the allocator before it is initialized panics.\<close>

lemma kernel_alloc_uninitialized:
  "kernel_alloc l (uninitialized, m) = Some (Inl (Panic ''allocator uninitialized''))"
  "kernel_dealloc p l (uninitialized, m) = Some (Inl (Panic ''allocator uninitialized''))"
  by (simp_all add: kernel_alloc_def kernel_dealloc_def uninitialized_def with_lock_idle mutex_defs)

lemma memory_map_chain:
  assumes "tag_chain b ATAG_BASE (c # ps) q" and "decoded b (ps @ [q]) ts"
  shows "memory_map end_sym b = Some (Inr (case find is_mem_tag ts of
      Some (Mem x) \<Rightarrow> Some (ucast (ucast end_sym :: u32), ucast (mem_start x + mem_size x))
    | _ \<Rightarrow> None))"
  unfolding memory_map_def atags_get_def atags_find_chain [OF assms]
  by (simp add: atag_mem_def split: option.splits atag.splits)

text \<open>Without a memory tag after the first tag, initialization panics.\<close>

lemma initialize_needs_memory_tag:
  assumes "tag_chain b ATAG_BASE (c # ps) q" and "decoded b (ps @ [q]) ts" and "find is_mem_tag ts = None"
  shows "initialize end_sym loc b s = Some (Inl (Panic ''failed to find memory map''))"
  using assms(3) by (simp add: initialize_def memory_map_chain [OF assms(1,2)])

text \<open>\<open>kernel_repr s bs\<close>: the heap is initialized, nobody else holds it, and its free list is \<open>bs\<close>.\<close>

definition kernel_repr :: "kernel_heap \<Rightarrow> fblock list \<Rightarrow> bool" where
  "kernel_repr s bs \<longleftrightarrow> idle (fst s) \<and> (case mx_data (fst s) of None \<Rightarrow> False | Some a \<Rightarrow> bin_repr (a, snd s) bs)"

lemma kernel_reprD:
  assumes "kernel_repr s bs"
  shows "kernel_invar s" "kernel_free s = free_bytes bs"
  using assms bin_free_eq by (auto simp: kernel_repr_def kernel_invar_def kernel_free_def bin_invar_def split: option.splits)

lemma initialize_repr:
  fixes end_sym :: usize
  defines "start \<equiv> ucast (ucast end_sym :: u32) :: usize"
  assumes "tag_chain b ATAG_BASE (c # ps) q" and "decoded b (ps @ [q]) ts" and "find is_mem_tag ts = Some (Mem x)"
    and "end' = (ucast (mem_start x + mem_size x) :: usize)"
    and "0 < unat start" and "up16 (unat start) < down16 (unat end')"
    and "unat loc \<notin> {up16 (unat start) ..< down16 (unat end')}"
  shows "\<exists>s0. initialize end_sym loc b (uninitialized, m) = Some (Inr s0) \<and>
    kernel_repr s0 (divide_blocks [(up16 (unat start), down16 (unat end') - up16 (unat start))])"
proof -
  let ?lo = "up16 (unat start)" and ?hi = "down16 (unat end')"
  have "unat end' < 2 ^ 32"
    using unat_lt_len [of "mem_start x + mem_size x"]
    by (auto simp: assms(5) unsigned_ucast_eq intro: le_less_trans [OF take_bit_nat_less_eq_self])
  then have "unat end' \<le> 2 ^ 63" by simp
  note new = bin_new_refines [OF assms(6) this assms(7,8), of m]
  then obtain a m' where new: "bin_new start end' loc m = Some (Inr (a, m'))" "bin_head a = loc" "bin_region a ?lo ?hi"
    and rep: "bin_rep ?lo ?hi loc m' (divide_blocks [(?lo, ?hi - ?lo)])" by auto
  let ?s0 = "(\<lparr>mx_data = Some a, mx_lock = False, mx_owner = 0\<rparr>, m') :: kernel_heap"
  have init: "initialize end_sym loc b (uninitialized, m) = Some (Inr ?s0)"
    using new(1) assms(4,5) unfolding start_def
    by (simp add: initialize_def memory_map_chain [OF assms(2,3)] with_lock_idle uninitialized_def mutex_defs)
  from rep new have repr: "bin_repr (a, m') (divide_blocks [(?lo, ?hi - ?lo)])"
    by (simp add: bin_repr_def bin_region_def)
  then have "kernel_repr ?s0 (divide_blocks [(?lo, ?hi - ?lo)])" by (simp add: kernel_repr_def idle_def)
  with init show ?thesis by blast
qed

text \<open>C7: from the memory tag to the live blocks. When the boot tags hold a memory tag after the first
  tag, the region it describes above the kernel image holds at least one block, and the list head
  lies outside of it, then initialization returns, and whatever is then allocated and freed through
  the global allocator (and written into live blocks by their owners), every live block lies between
  the end of the image and the end of physical memory, is aligned, and overlaps neither another live
  block nor free memory.\<close>

theorem kernel_heap_from_boot:
  fixes end_sym :: usize
  defines "start \<equiv> ucast (ucast end_sym :: u32) :: usize"
  assumes "tag_chain b ATAG_BASE (c # ps) q" and "decoded b (ps @ [q]) ts" and "find is_mem_tag ts = Some (Mem x)"
    and "end' = (ucast (mem_start x + mem_size x) :: usize)"
    and "0 < unat start" and "up16 (unat start) < down16 (unat end')"
    and "unat loc \<notin> {up16 (unat start) ..< down16 (unat end')}"
  shows "\<exists>s0. initialize end_sym loc b (uninitialized, m) = Some (Inr s0) \<and>
    (\<forall>s live. heap_reach bin_ok kernel_allocf kernel_freef kernel_env s0 s live \<longrightarrow>
       live_ok kernel_invar kernel_free bin_ok inner_size {unat start ..< unat end'} s live)"
proof -
  let ?lo = "up16 (unat start)" and ?hi = "down16 (unat end')"
  obtain s0 where s0: "initialize end_sym loc b (uninitialized, m) = Some (Inr s0)" "kernel_repr s0 (divide_blocks [(?lo, ?hi - ?lo)])"
    using initialize_repr [OF assms(2-5), of end_sym loc m] assms(6-8) unfolding start_def by blast
  have "kernel_free s0 = {?lo ..< ?hi}" unfolding kernel_reprD(2) [OF s0(2)] using assms(7) by (auto simp: block_def)
  moreover have "unat start \<le> ?lo" "?hi \<le> unat end'" unfolding up16_def down16_def by linarith+
  ultimately have "kernel_free s0 \<subseteq> {unat start ..< unat end'}" by auto
  then show ?thesis using s0(1) kernel_reprD(1) [OF s0(2)] kheap.live_blocks_ok by blast
qed

theorem kernel_heap_from_boot_witness:
  "\<exists>s0. initialize 0x80000 8 ex_boot (uninitialized, \<lambda>_. 0) = Some (Inr s0) \<and>
     live_ok kernel_invar kernel_free bin_ok inner_size {0x80000 ..< 0x4000000} s0 []"
proof -
  let ?x = "\<lparr>mem_size = 0x4000000, mem_start = 0\<rparr>"
  have dec: "decoded ex_boot ([0x114, 0x124] @ [0x130]) [Mem ?x, Cmd [0x68, 0x69], NoneTag]"
    using ex_boot_decoded by (simp only: append_Cons append_Nil)
  have mem: "find is_mem_tag [Mem ?x, Cmd [0x68, 0x69], NoneTag] = Some (Mem ?x)"
    by (simp add: is_mem_tag_def)
  have "\<exists>s0. initialize 0x80000 8 ex_boot (uninitialized, \<lambda>_. 0) = Some (Inr s0) \<and>
      (\<forall>s live. heap_reach bin_ok kernel_allocf kernel_freef kernel_env s0 s live \<longrightarrow>
         live_ok kernel_invar kernel_free bin_ok inner_size
           {unat (ucast (ucast (0x80000 :: usize) :: u32) :: usize) ..< unat (0x4000000 :: usize)} s live)"
    by (rule kernel_heap_from_boot [OF ex_boot_chain dec mem]) (simp_all add: up16_def down16_def)
  then show ?thesis by (fastforce intro: hr_init)
qed

end
