(* ===== verification/IoMonad.thy ===== *)
theory IoMonad
  imports Prelude
begin

text \<open>
  Code that talks to devices: a computation reads and writes a machine state \<open>'d\<close> and ends with a
  value, with a panic, or not at all (\<open>None\<close>). Loops over devices are \<open>partial_function\<close>s in this
  type; the monotonicity of \<open>io_bind\<close> is what they need.
\<close>

type_synonym ('d, 'a) io = "'d \<Rightarrow> (('a \<times> 'd) outcome) option"

definition io_return :: "'a \<Rightarrow> ('d, 'a) io" where
  "io_return a d = Some (Inr (a, d))"

definition io_panic :: "string \<Rightarrow> ('d, 'a) io" where
  "io_panic msg d = Some (Inl (Panic msg))"

definition io_bind :: "('d, 'a) io \<Rightarrow> ('a \<Rightarrow> ('d, 'b) io) \<Rightarrow> ('d, 'b) io" where
  "io_bind c f d =
     (case c d of
        None \<Rightarrow> None
      | Some (Inl e) \<Rightarrow> Some (Inl e)
      | Some (Inr (a, d')) \<Rightarrow> f a d')"

definition io_then :: "('d, 'a) io \<Rightarrow> ('d, 'b) io \<Rightarrow> ('d, 'b) io" where
  "io_then c k = io_bind c (\<lambda>_. k)"

definition io_state :: "('d \<Rightarrow> 'a \<times> 'd) \<Rightarrow> ('d, 'a) io" where
  "io_state f d = Some (Inr (f d))"

definition io_expect :: "string \<Rightarrow> 'a option \<Rightarrow> ('d, 'a) io" where
  "io_expect msg x = (case x of None \<Rightarrow> io_panic msg | Some v \<Rightarrow> io_return v)"

definition io_lift :: "'a outcome \<Rightarrow> ('d, 'a) io" where
  "io_lift r d = Some (and_then r (\<lambda>a. Inr (a, d)))"

text \<open>A computation on a component of the machine state.\<close>

definition io_zoom :: "('s \<Rightarrow> 'd) \<Rightarrow> ('d \<Rightarrow> 's \<Rightarrow> 's) \<Rightarrow> ('d, 'a) io \<Rightarrow> ('s, 'a) io" where
  "io_zoom get put c s =
     (case c (get s) of
        None \<Rightarrow> None
      | Some (Inl e) \<Rightarrow> Some (Inl e)
      | Some (Inr (a, d)) \<Rightarrow> Some (Inr (a, put d s)))"

lemmas io_defs = io_return_def io_panic_def io_bind_def io_then_def io_state_def io_expect_def
  io_lift_def

lemma io_return_bind [simp]: "io_bind (io_return a) f = f a"
  by (rule ext) (simp add: io_defs)

lemma io_panic_bind [simp]: "io_bind (io_panic msg) f = io_panic msg"
  by (rule ext) (simp add: io_defs)

lemma io_bind_assoc: "io_bind (io_bind c f) g = io_bind c (\<lambda>a. io_bind (f a) g)"
  by (rule ext) (simp add: io_bind_def split: option.splits sum.splits)

lemma io_bind_return [simp]: "io_bind c io_return = c"
  by (rule ext) (auto simp: io_defs split: option.splits sum.splits)

lemma io_bind_eq_ok_iff: "io_bind c f d = Some (Inr r) \<longleftrightarrow> (\<exists>a d'. c d = Some (Inr (a, d')) \<and> f a d' = Some (Inr r))"
  by (auto simp: io_bind_def split: option.splits sum.splits)

lemma io_bind_ok: "c d = Some (Inr (a, d')) \<Longrightarrow> io_bind c f d = f a d'"
  by (simp add: io_bind_def)

lemma io_then_ok: "c d = Some (Inr (a, d')) \<Longrightarrow> io_then c k d = k d'"
  by (simp add: io_then_def io_bind_def)

lemma io_then_state [simp]: "io_then (io_state f) k d = k (snd (f d))"
  by (simp add: io_defs split: prod.splits)

lemma io_bind_state [simp]: "io_bind (io_state f) k d = (case f d of (a, d') \<Rightarrow> k a d')"
  by (simp add: io_defs)

lemma io_bind_lift [simp]: "io_bind (io_lift (Inr a)) k = k a"
  by (rule ext) (simp add: io_defs)

lemma io_bind_diverges: "c d = None \<Longrightarrow> io_bind c f d = None"
  by (simp add: io_bind_def)

lemma io_return_eq [simp]: "io_return a d = Some (Inr (b, d')) \<longleftrightarrow> a = b \<and> d = d'"
  by (simp add: io_return_def)

lemma io_bind_mono [partial_function_mono]:
  fixes B :: "('x \<Rightarrow> 'y option) \<Rightarrow> ('d, 'a) io" and C :: "('x \<Rightarrow> 'y option) \<Rightarrow> 'a \<Rightarrow> ('d, 'b) io"
  assumes "\<And>d. mono_option (\<lambda>f. B f d)" and "\<And>a d. mono_option (\<lambda>f. C f a d)"
  shows "mono_option (\<lambda>f. io_bind (B f) (C f) d)"
proof (rule monotoneI)
  fix f g :: "'x \<Rightarrow> 'y option"
  assume fg: "fun_ord option_ord f g"
  have B: "option_ord (B f d) (B g d)" using monotoneD [OF assms(1) [of d], of f g] fg by simp
  have C: "option_ord (C f a d') (C g a d')" for a d' using monotoneD [OF assms(2) [of a d'], of f g] fg by simp
  show "option_ord (io_bind (B f) (C f) d) (io_bind (B g) (C g) d)"
  proof (cases "B f d")
    case None
    then show ?thesis by (simp add: io_bind_def flat_ord_def)
  next
    case (Some r)
    with B have "B g d = Some r" by (simp add: flat_ord_def)
    with Some C show ?thesis by (auto simp: io_bind_def flat_ord_def split: sum.splits)
  qed
qed

lemma io_then_mono [partial_function_mono]:
  assumes "\<And>d. mono_option (\<lambda>f. B f d)" and "\<And>d. mono_option (\<lambda>f. C f d)"
  shows "mono_option (\<lambda>f. io_then (B f) (C f) d)"
  unfolding io_then_def using assms by (rule io_bind_mono)

subsection \<open>Iterating over a list\<close>

text \<open>\<open>for x in xs { body }\<close>.\<close>

primrec io_for :: "('a \<Rightarrow> ('d, unit) io) \<Rightarrow> 'a list \<Rightarrow> ('d, unit) io" where
  "io_for body [] = io_return ()"
| "io_for body (x # xs) = io_then (body x) (io_for body xs)"

text \<open>If each step takes \<open>P d\<close> to \<open>P (g x d)\<close>, the loop folds \<open>g\<close>.\<close>

lemma io_for_fold:
  assumes "\<And>x d v. x \<in> set xs \<Longrightarrow> I v d \<Longrightarrow> \<exists>d'. body x d = Some (Inr ((), d')) \<and> I (g x v) d'" and "I v d"
  shows "\<exists>d'. io_for body xs d = Some (Inr ((), d')) \<and> I (fold g xs v) d'"
  using assms
proof (induction xs arbitrary: v d)
  case (Cons x xs)
  from Cons.prems(1) [of x v d] Cons.prems(2) obtain d1 where
    d1: "body x d = Some (Inr ((), d1))" "I (g x v) d1" by auto
  have "\<exists>d'. io_for body xs d1 = Some (Inr ((), d')) \<and> I (fold g xs (g x v)) d'"
    using Cons.prems(1) d1(2) by (intro Cons.IH) auto
  then show ?case by (simp add: io_then_ok [of "body x" d "()" d1, OF d1(1)])
qed (simp add: io_return_def)

end
