(* ===== verification/TrapFrame.thy ===== *)
theory TrapFrame
  imports Prelude
begin

text \<open>
  The saved context of an exception, \<open>kernel/src/traps/trap_frame.rs\<close>, in the order of the fields in
  memory.
\<close>

record trap_frame =
  tf_elr :: u64
  tf_spsr :: u64
  tf_sp :: u64
  tf_tpidr :: u64
  tf_q0 :: u128
  tf_q1 :: u128
  tf_q2 :: u128
  tf_q3 :: u128
  tf_q4 :: u128
  tf_q5 :: u128
  tf_q6 :: u128
  tf_q7 :: u128
  tf_q8 :: u128
  tf_q9 :: u128
  tf_q10 :: u128
  tf_q11 :: u128
  tf_q12 :: u128
  tf_q13 :: u128
  tf_q14 :: u128
  tf_q15 :: u128
  tf_q16 :: u128
  tf_q17 :: u128
  tf_q18 :: u128
  tf_q19 :: u128
  tf_q20 :: u128
  tf_q21 :: u128
  tf_q22 :: u128
  tf_q23 :: u128
  tf_q24 :: u128
  tf_q25 :: u128
  tf_q26 :: u128
  tf_q27 :: u128
  tf_q28 :: u128
  tf_q29 :: u128
  tf_q30 :: u128
  tf_q31 :: u128
  tf_x1 :: u64
  tf_x2 :: u64
  tf_x3 :: u64
  tf_x4 :: u64
  tf_x5 :: u64
  tf_x6 :: u64
  tf_x7 :: u64
  tf_x8 :: u64
  tf_x9 :: u64
  tf_x10 :: u64
  tf_x11 :: u64
  tf_x12 :: u64
  tf_x13 :: u64
  tf_x14 :: u64
  tf_x15 :: u64
  tf_x16 :: u64
  tf_x17 :: u64
  tf_x18 :: u64
  tf_x19 :: u64
  tf_x20 :: u64
  tf_x21 :: u64
  tf_x22 :: u64
  tf_x23 :: u64
  tf_x24 :: u64
  tf_x25 :: u64
  tf_x26 :: u64
  tf_x27 :: u64
  tf_x28 :: u64
  tf_x29 :: u64
  tf_reserved :: u64
  tf_x30 :: u64
  tf_x0 :: u64

text \<open>\<open>Default::default()\<close> of the derived implementation: every register is zero.\<close>

definition trap_frame_default :: trap_frame where
  "trap_frame_default = \<lparr>
    tf_elr = 0, tf_spsr = 0, tf_sp = 0, tf_tpidr = 0, tf_q0 = 0, tf_q1 = 0, tf_q2 = 0, tf_q3 = 0, tf_q4 = 0,
    tf_q5 = 0, tf_q6 = 0, tf_q7 = 0, tf_q8 = 0, tf_q9 = 0, tf_q10 = 0, tf_q11 = 0, tf_q12 = 0, tf_q13 = 0,
    tf_q14 = 0, tf_q15 = 0, tf_q16 = 0, tf_q17 = 0, tf_q18 = 0, tf_q19 = 0, tf_q20 = 0, tf_q21 = 0,
    tf_q22 = 0, tf_q23 = 0, tf_q24 = 0, tf_q25 = 0, tf_q26 = 0, tf_q27 = 0, tf_q28 = 0, tf_q29 = 0,
    tf_q30 = 0, tf_q31 = 0, tf_x1 = 0, tf_x2 = 0, tf_x3 = 0, tf_x4 = 0, tf_x5 = 0, tf_x6 = 0, tf_x7 = 0,
    tf_x8 = 0, tf_x9 = 0, tf_x10 = 0, tf_x11 = 0, tf_x12 = 0, tf_x13 = 0, tf_x14 = 0, tf_x15 = 0, tf_x16 = 0,
    tf_x17 = 0, tf_x18 = 0, tf_x19 = 0, tf_x20 = 0, tf_x21 = 0, tf_x22 = 0, tf_x23 = 0, tf_x24 = 0,
    tf_x25 = 0, tf_x26 = 0, tf_x27 = 0, tf_x28 = 0, tf_x29 = 0, tf_reserved = 0, tf_x30 = 0, tf_x0 = 0\<rparr>"

text \<open>\<open>size_of::<TrapFrame>()\<close> and its alignment: 4 + 32 registers of 8 bytes and 32 of 16 bytes.\<close>

definition TRAP_FRAME_SIZE :: usize where
  "TRAP_FRAME_SIZE = 36 * 8 + 32 * 16"

definition TRAP_FRAME_ALIGN :: usize where
  "TRAP_FRAME_ALIGN = 16"

end
