(* ===== verification/Process.thy ===== *)
theory Process
  imports KernelAlloc IoMonad TrapFrame
begin

text \<open>
  Processes, \<open>kernel/src/process/{process,state,stack}.rs\<close> and \<open>kernel/src/vm/address.rs\<close>. A process owns a
  stack and a boxed trap frame, both allocated from the kernel heap. The event that a waiting process
  polls is a boxed closure in the source; here it is a value of a type \<open>'w\<close> with the function \<open>poll\<close>
  that runs it on the process (and returns the closure, which may have changed itself).
\<close>

subsection \<open>Addresses\<close>

datatype physical_addr = PhysicalAddr usize

definition physical_from :: "usize \<Rightarrow> physical_addr" where
  "physical_from raw_ptr = PhysicalAddr raw_ptr"

definition as_ptr :: "physical_addr \<Rightarrow> usize" where
  "as_ptr a = (case a of PhysicalAddr x \<Rightarrow> x)"

definition as_mut_ptr :: "physical_addr \<Rightarrow> usize" where
  "as_mut_ptr a = (case a of PhysicalAddr x \<Rightarrow> x)"

definition as_usize :: "physical_addr \<Rightarrow> usize" where
  "as_usize a = (case a of PhysicalAddr x \<Rightarrow> x)"

definition as_u64 :: "physical_addr \<Rightarrow> u64" where
  "as_u64 a = (case a of PhysicalAddr x \<Rightarrow> x)"

subsection \<open>Stacks\<close>

record stack =
  st_ptr :: usize

definition STACK_SIZE :: usize where
  "STACK_SIZE = push_bit 20 1"

definition STACK_ALIGN :: usize where
  "STACK_ALIGN = 16"

definition stack_layout :: layout where
  "stack_layout = from_size_align_unchecked STACK_SIZE STACK_ALIGN"

text \<open>\<open>ptr.write_bytes(0, n)\<close>.\<close>

definition write_zeros :: "usize \<Rightarrow> usize \<Rightarrow> mem \<Rightarrow> mem" where
  "write_zeros p n m = (\<lambda>x. if unat x \<in> block (unat p) (unat n) then 0 else m x)"

definition unique_new :: "usize \<Rightarrow> usize option" where
  "unique_new p = (if p = 0 then None else Some p)"

definition stack_new :: "(kernel_heap, stack option) io" where
  "stack_new =
     io_bind (kernel_alloc stack_layout) (\<lambda>r.
       case r of
         Inl _ \<Rightarrow> io_return None
       | Inr raw_ptr \<Rightarrow>
           io_then (io_state (\<lambda>(x, m). ((), (x, write_zeros raw_ptr STACK_SIZE m))))
           (io_bind (io_expect ''non-null'' (unique_new raw_ptr)) (\<lambda>ptr. io_return (Some \<lparr>st_ptr = ptr\<rparr>))))"

definition stack_as_mut_ptr :: "stack \<Rightarrow> usize" where
  "stack_as_mut_ptr st = st_ptr st"

definition stack_top :: "stack \<Rightarrow> physical_addr" where
  "stack_top st = physical_from (stack_as_mut_ptr st + STACK_SIZE)"

definition stack_bottom :: "stack \<Rightarrow> physical_addr" where
  "stack_bottom st = physical_from (stack_as_mut_ptr st)"

definition stack_drop :: "stack \<Rightarrow> (kernel_heap, unit) io" where
  "stack_drop st s =
     map_option (\<lambda>r. and_then r (\<lambda>s'. Inr ((), s'))) (kernel_dealloc (stack_as_mut_ptr st) stack_layout s)"

subsection \<open>Processes\<close>

datatype 'w state =
    Ready
  | Waiting 'w
  | Running

text \<open>\<open>pr_box\<close> is the address of the box that holds the trap frame.\<close>

record 'w process =
  pr_trap_frame :: trap_frame
  pr_box :: usize
  pr_stack :: stack
  pr_state :: "'w state"

definition trap_frame_layout :: layout where
  "trap_frame_layout = from_size_align_unchecked TRAP_FRAME_SIZE TRAP_FRAME_ALIGN"

text \<open>\<open>Box::new\<close> aborts when the allocation fails.\<close>

definition box_new :: "layout \<Rightarrow> (kernel_heap, usize) io" where
  "box_new l =
     io_bind (kernel_alloc l) (\<lambda>r. case r of Inl _ \<Rightarrow> io_panic ''out of memory'' | Inr p \<Rightarrow> io_return p)"

definition process_new :: "(kernel_heap, 'w process option) io" where
  "process_new =
     io_bind stack_new (\<lambda>st.
       case st of
         None \<Rightarrow> io_return None
       | Some stk \<Rightarrow>
           io_bind (box_new trap_frame_layout) (\<lambda>b.
             io_return (Some \<lparr>pr_trap_frame = trap_frame_default, pr_box = b, pr_stack = stk, pr_state = Ready\<rparr>)))"

type_synonym ('d, 'w) poller = "'w \<Rightarrow> 'w process \<Rightarrow> ('d, bool \<times> 'w \<times> 'w process) io"

text \<open>\<open>mem::replace\<close> leaves \<open>Ready\<close> in the process while the event is polled.\<close>

definition is_ready :: "('d, 'w) poller \<Rightarrow> 'w process \<Rightarrow> ('d, bool \<times> 'w process) io" where
  "is_ready poll p =
     (let old = pr_state p; p1 = p\<lparr>pr_state := Ready\<rparr> in
      case old of
        Ready \<Rightarrow> io_return (True, p1)
      | Running \<Rightarrow> io_return (False, p1\<lparr>pr_state := Running\<rparr>)
      | Waiting f \<Rightarrow>
          io_bind (poll f p1) (\<lambda>(arrived, f', p2).
            if arrived then io_return (True, p2)
            else io_return (False, p2\<lparr>pr_state := Waiting f'\<rparr>)))"

subsection \<open>Properties\<close>

lemma stack_layout_ok: "bin_ok stack_layout" "inner_size stack_layout = 2 ^ 20" "lay_align stack_layout = 16"
proof -
  have "is_power_of_two (16::usize)"
    using npot_pow2 [of 4] by (simp add: is_power_of_two_def is_pow2_def)
  then show "bin_ok stack_layout"
    by (simp add: bin_ok_def layout_ok_def from_size_align_def stack_layout_def from_size_align_unchecked_def
        STACK_SIZE_def STACK_ALIGN_def)
  show "inner_size stack_layout = 2 ^ 20"
    using npot_pow2 [of 20] by (simp add: inner_size_def stack_layout_def from_size_align_unchecked_def STACK_SIZE_def)
  show "lay_align stack_layout = 16"
    by (simp add: stack_layout_def from_size_align_unchecked_def STACK_ALIGN_def)
qed

text \<open>The address \<open>0\<close> is never free, so \<open>Unique::new\<close> succeeds on every block.\<close>

lemma kernel_free_pos:
  assumes "kernel_invar s" and "x \<in> kernel_free s"
  shows "0 < x" "x < 2 ^ 63"
proof -
  from assms(1) obtain a bs where "mx_data (fst s) = Some a" and rep: "bin_repr (a, snd s) bs"
    by (auto simp: kernel_invar_def bin_invar_def split: option.splits)
  then have "x \<in> free_bytes bs" using assms(2) bin_free_eq [OF rep] by (simp add: kernel_free_def)
  moreover from rep have "region_ok (unat (bin_start a)) (unat (bin_end a)) (bin_head a)"
    "wf_blocks (unat (bin_start a)) (unat (bin_end a)) bs"
    by (auto simp: bin_repr_def bin_rep_def)
  ultimately show "0 < x" "x < 2 ^ 63" using free_bytes_range by (fastforce simp: region_ok_def)+
qed

text \<open>C14: on an initialized heap, \<open>Stack::new\<close> returns without a panic. It is \<open>None\<close> with the heap's free memory as it was,
  or a stack of one mebibyte, all zero, taken out of the free memory, whose bottom and top are aligned to 16 bytes and one
  mebibyte apart without wrapping around.\<close>

theorem stack_new_correct:
  assumes "kernel_invar s"
  shows "(\<exists>s'. stack_new s = Some (Inr (None, s')) \<and> kernel_invar s' \<and> kernel_free s' = kernel_free s) \<or>
    (\<exists>st s'. stack_new s = Some (Inr (Some st, s')) \<and> kernel_invar s' \<and>
       block (unat (as_usize (stack_bottom st))) (2 ^ 20) \<subseteq> kernel_free s \<and>
       kernel_free s' \<subseteq> kernel_free s - block (unat (as_usize (stack_bottom st))) (2 ^ 20) \<and>
       unat (as_usize (stack_top st)) = unat (as_usize (stack_bottom st)) + 2 ^ 20 \<and>
       16 dvd unat (as_usize (stack_bottom st)) \<and> 16 dvd unat (as_usize (stack_top st)) \<and>
       (\<forall>x. unat x \<in> block (unat (as_usize (stack_bottom st))) (2 ^ 20) \<longrightarrow> snd s' x = 0))"
  using kernel_alloc_total [OF assms stack_layout_ok(1)]
proof (elim disjE exE conjE)
  fix s'
  assume "kernel_alloc stack_layout s = Some (Inr (Inl (Exhausted stack_layout), s'))" and inv: "kernel_invar s'"
    and free: "kernel_free s' = kernel_free s"
  then have "stack_new s = Some (Inr (None, s'))" by (simp add: stack_new_def io_defs)
  with inv free show ?thesis by blast
next
  fix p s'
  assume al: "kernel_alloc stack_layout s = Some (Inr (Inr p, s'))" and alf: "kernel_allocf stack_layout s = Some (p, s')"
  let ?m = "write_zeros p STACK_SIZE (snd s')" and ?st = "\<lparr>st_ptr = p\<rparr>"
  have size: "unat STACK_SIZE = 2 ^ 20" by (simp add: STACK_SIZE_def)
  note fresh = kheap.alloc_fresh [OF assms stack_layout_ok(1) alf, unfolded stack_layout_ok(2)]
  have in_free: "unat p \<in> kernel_free s" "unat p + (2 ^ 20 - 1) \<in> kernel_free s" using fresh by (auto simp: mem_block)
  then have pos: "p \<noteq> 0" "unat p < 2 ^ 63" using kernel_free_pos [OF assms] by fastforce+
  have run: "stack_new s = Some (Inr (Some ?st, (fst s', ?m)))"
    using pos(1) by (cases s') (simp add: stack_new_def io_defs al unique_new_def)
  have "?m x = snd s' x" if "unat x \<notin> block (unat p) (inner_size stack_layout)" for x
    using that unfolding stack_layout_ok(2) by (simp add: write_zeros_def size)
  note wr = kernel_write_fresh [OF assms stack_layout_ok(1) alf this]
  have top: "unat (p + STACK_SIZE) = unat p + 2 ^ 20"
    using pos(2) size by (simp add: unat_word_ariths)
  have al16: "16 dvd unat p" using kheap.alloc_aligned [OF assms stack_layout_ok(1) alf] by (simp add: stack_layout_ok(3))
  moreover have "16 dvd (2::nat) ^ 20" by simp
  ultimately have "16 dvd unat p + 2 ^ 20" by (rule dvd_add)
  with run wr fresh top al16 show ?thesis
    by (intro disjI2 exI [of _ ?st] exI [of _ "(fst s', ?m)"])
      (simp add: stack_bottom_def stack_top_def stack_as_mut_ptr_def physical_from_def as_usize_def write_zeros_def size)
qed

definition ex_kernel :: kernel_heap where
  "ex_kernel = (\<lparr>mx_data = Some ex_alloc, mx_lock = False, mx_owner = 0\<rparr>, ex_mem)"

theorem stack_new_correct_witness:
  "kernel_invar ex_kernel \<and> (\<exists>r s'. stack_new ex_kernel = Some (Inr (r, s')) \<and> kernel_invar s')"
proof -
  have inv: "kernel_invar ex_kernel"
    using ex_repr by (auto simp: kernel_invar_def idle_def bin_invar_def ex_kernel_def)
  from stack_new_correct [OF inv] inv show ?thesis by blast
qed

text \<open>A ready process stays ready, a running one is never scheduled, and a waiting one is scheduled when its event has arrived.\<close>

lemma is_ready_cases:
  "pr_state p = Ready \<Longrightarrow> is_ready poll p d = Some (Inr ((True, p), d))"
  "pr_state p = Running \<Longrightarrow> is_ready poll p d = Some (Inr ((False, p), d))"
  "pr_state p = Waiting f \<Longrightarrow> poll f (p\<lparr>pr_state := Ready\<rparr>) d = Some (Inr ((b, f', p'), d')) \<Longrightarrow>
     is_ready poll p d = Some (Inr ((b, if b then p' else p'\<lparr>pr_state := Waiting f'\<rparr>), d'))"
  by (simp_all add: is_ready_def io_defs)

end
