(* ===== verification/Volatile.thy ===== *)
theory Volatile
  imports IoMonad
begin

text \<open>
  Volatile access, \<open>volatile/src\<close>. A device bus is a parameter: what a 32-bit or 8-bit load from an
  address returns and what loads and stores do to the device state is the hardware's, not the
  program's. A wrapped cell (\<open>Volatile<T>\<close>, \<open>ReadVolatile<T>\<close>, \<open>WriteVolatile<T>\<close>) is its address with the
  load and the store of its width.
\<close>

record 'd bus =
  bus_read32 :: "usize \<Rightarrow> 'd \<Rightarrow> u32 \<times> 'd"
  bus_write32 :: "usize \<Rightarrow> u32 \<Rightarrow> 'd \<Rightarrow> 'd"
  bus_read8 :: "usize \<Rightarrow> 'd \<Rightarrow> u8 \<times> 'd"
  bus_write8 :: "usize \<Rightarrow> u8 \<Rightarrow> 'd \<Rightarrow> 'd"

record ('v, 'd) vcell =
  vc_ptr :: usize
  vc_load :: "usize \<Rightarrow> 'd \<Rightarrow> 'v \<times> 'd"
  vc_store :: "usize \<Rightarrow> 'v \<Rightarrow> 'd \<Rightarrow> 'd"

definition cell32 :: "'d bus \<Rightarrow> usize \<Rightarrow> (u32, 'd) vcell" where
  "cell32 bus p = \<lparr>vc_ptr = p, vc_load = bus_read32 bus, vc_store = bus_write32 bus\<rparr>"

definition cell8 :: "'d bus \<Rightarrow> usize \<Rightarrow> (u8, 'd) vcell" where
  "cell8 bus p = \<lparr>vc_ptr = p, vc_load = bus_read8 bus, vc_store = bus_write8 bus\<rparr>"

definition vread :: "('v, 'd) vcell \<Rightarrow> 'd \<Rightarrow> 'v \<times> 'd" where
  "vread c = vc_load c (vc_ptr c)"

definition has_mask :: "('w::len word, 'd) vcell \<Rightarrow> 'w word \<Rightarrow> 'd \<Rightarrow> bool \<times> 'd" where
  "has_mask c msk d = (let (v, d') = vread c d in (v AND msk = msk, d'))"

definition vwrite :: "('v, 'd) vcell \<Rightarrow> 'v \<Rightarrow> 'd \<Rightarrow> 'd" where
  "vwrite c val = vc_store c (vc_ptr c) val"

definition and_mask :: "('w::len word, 'd) vcell \<Rightarrow> 'w word \<Rightarrow> 'd \<Rightarrow> 'd" where
  "and_mask c msk d = (let (init_val, d') = vread c d in vwrite c (init_val AND msk) d')"

definition or_mask :: "('w::len word, 'd) vcell \<Rightarrow> 'w word \<Rightarrow> 'd \<Rightarrow> 'd" where
  "or_mask c msk d = (let (init_val, d') = vread c d in vwrite c (init_val OR msk) d')"

lemmas volatile_defs = vread_def vwrite_def has_mask_def and_mask_def or_mask_def cell32_def cell8_def

subsection \<open>Cells that hold what is written to them\<close>

text \<open>A cell whose loads return the last value stored and change nothing.\<close>

definition holds_value :: "('v, 'd) vcell \<Rightarrow> bool" where
  "holds_value c \<longleftrightarrow> (\<forall>d v. vread c (vwrite c v d) = (v, vwrite c v d))"

text \<open>On a cell that holds what is written to it, \<open>has_mask\<close> is true after \<open>or_mask\<close> with the same mask, and after
  \<open>and_mask\<close> with the complement it is true only of the empty mask; other bits are unchanged.\<close>

theorem mask_roundtrip:
  assumes "holds_value c"
  shows "fst (has_mask c msk (or_mask c msk d)) \<and>
    (fst (has_mask c msk (and_mask c (NOT msk) d)) \<longleftrightarrow> msk = 0) \<and>
    fst (vread c (or_mask c msk d)) AND NOT msk = fst (vread c d) AND NOT msk \<and>
    fst (vread c (and_mask c (NOT msk) d)) = fst (vread c d) AND NOT msk"
proof -
  have hv: "vread c (vwrite c v d) = (v, vwrite c v d)" for v d using assms by (simp add: holds_value_def)
  have "(w AND NOT msk) AND msk = 0" "(w OR msk) AND msk = msk"
    "(w OR msk) AND NOT msk = w AND NOT msk" for w
    by (auto intro!: bit_word_eqI simp: bit_simps)
  then show ?thesis by (auto simp: has_mask_def or_mask_def and_mask_def hv split: prod.splits)
qed

text \<open>The registers at the addresses in \<open>A\<close> keep their values \<open>val d\<close> (documented as readable and
  writable) and change only by a store to them.\<close>

definition registers_at :: "'d bus \<Rightarrow> ('d \<Rightarrow> usize \<Rightarrow> u32) \<Rightarrow> usize set \<Rightarrow> bool" where
  "registers_at bus val A \<longleftrightarrow>
     (\<forall>p \<in> A. \<forall>d v. bus_read32 bus p d = (val d p, d) \<and>
        (\<forall>q \<in> A. val (bus_write32 bus p v d) q = (if q = p then v else val d q)))"

lemma registers_atD:
  assumes "registers_at bus val A" and "p \<in> A"
  shows "vread (cell32 bus p) d = (val d p, d)"
    and "q \<in> A \<Longrightarrow> val (vwrite (cell32 bus p) v d) q = (if q = p then v else val d q)"
    and "q \<in> A \<Longrightarrow> val (or_mask (cell32 bus p) v d) q = (if q = p then val d p OR v else val d q)"
  using assms by (auto simp: registers_at_def volatile_defs)

text \<open>A bus of plain memory.\<close>

definition ram_bus :: "(usize \<Rightarrow> u32) bus" where
  "ram_bus = \<lparr>bus_read32 = (\<lambda>p d. (d p, d)), bus_write32 = (\<lambda>p v d. d(p := v)),
     bus_read8 = (\<lambda>p d. (ucast (d p), d)),
     bus_write8 = (\<lambda>p v d. d(p := (d p AND NOT 0xFF) OR ucast v))\<rparr>"

lemma registers_at_ram [simp]: "registers_at ram_bus (\<lambda>d. d) A"
  by (simp add: registers_at_def ram_bus_def)

theorem mask_roundtrip_witness:
  "fst (has_mask (cell32 ram_bus 0x3F200000) 6 (or_mask (cell32 ram_bus 0x3F200000) 6 (\<lambda>_. 1))) \<and>
   fst (vread (cell32 ram_bus 0x3F200000) (or_mask (cell32 ram_bus 0x3F200000) 6 (\<lambda>_. 1))) = 7"
proof -
  have "holds_value (cell32 ram_bus 0x3F200000)"
    by (simp add: holds_value_def volatile_defs ram_bus_def)
  from mask_roundtrip [OF this, of 6 "\<lambda>_. 1"] show ?thesis
    by (simp add: volatile_defs ram_bus_def)
qed

end
