(* ===== verification/Gpio.thy ===== *)
theory Gpio
  imports Volatile
begin

text \<open>
  General purpose I/O pins, \<open>pi/src/gpio.rs\<close> (and \<open>pi/src/common.rs\<close>). The state of a pin is a phantom
  type parameter, as in the source: \<open>set\<close> and \<open>clear\<close> exist only for output pins, \<open>level\<close> only for
  input pins. Registers are the offsets of the \<open>#[repr(C)]\<close> structure from its base address;
  indexing a register array is bounds-checked.
\<close>

definition IO_BASE :: usize where
  "IO_BASE = 0x3F000000"

definition GPIO_BASE :: usize where
  "GPIO_BASE = IO_BASE + 0x200000"

datatype gpio_function = Input | Output | Alt0 | Alt1 | Alt2 | Alt3 | Alt4 | Alt5

definition function_bits :: "gpio_function \<Rightarrow> u32" where
  "function_bits f = (case f of Input \<Rightarrow> 0 | Output \<Rightarrow> 1 | Alt0 \<Rightarrow> 4 | Alt1 \<Rightarrow> 5 | Alt2 \<Rightarrow> 6 | Alt3 \<Rightarrow> 7
     | Alt4 \<Rightarrow> 3 | Alt5 \<Rightarrow> 2)"

typedecl st_uninitialized
typedecl st_input
typedecl st_output
typedecl st_alt

datatype 'state gpio = Gpio (gpio_pin: u8) (gpio_registers: usize)

text \<open>The offsets of the register arrays and their lengths.\<close>

record gpio_layout =
  gl_offset :: usize
  gl_len :: usize

definition FSEL :: gpio_layout where
  "FSEL = \<lparr>gl_offset = 0, gl_len = 6\<rparr>"

definition SET :: gpio_layout where
  "SET = \<lparr>gl_offset = 0x1C, gl_len = 2\<rparr>"

definition CLR :: gpio_layout where
  "CLR = \<lparr>gl_offset = 0x28, gl_len = 2\<rparr>"

definition LEV :: gpio_layout where
  "LEV = \<lparr>gl_offset = 0x34, gl_len = 2\<rparr>"

definition PUD :: gpio_layout where
  "PUD = \<lparr>gl_offset = 0x94, gl_len = 1\<rparr>"

definition PUDCLK :: gpio_layout where
  "PUDCLK = \<lparr>gl_offset = 0x98, gl_len = 2\<rparr>"

lemmas gpio_layouts = FSEL_def SET_def CLR_def LEV_def PUD_def PUDCLK_def

definition reg_at :: "'s gpio \<Rightarrow> gpio_layout \<Rightarrow> usize \<Rightarrow> ('d, usize) io" where
  "reg_at g r i =
     (if i < gl_len r then io_return (gpio_registers g + gl_offset r + 4 * i)
      else io_panic ''index out of bounds'')"

subsection \<open>Operations\<close>

definition transition :: "'t gpio \<Rightarrow> 's gpio" where
  "transition g = Gpio (gpio_pin g) (gpio_registers g)"

definition pin_index :: "'t gpio \<Rightarrow> usize" where
  "pin_index g = ucast (gpio_pin g) div 32"

definition pin_mask :: "'t gpio \<Rightarrow> u32" where
  "pin_mask g = push_bit (unat (ucast (gpio_pin g) mod 32 :: u32)) 1"

definition gpio_new_at :: "usize \<Rightarrow> u8 \<Rightarrow> (st_uninitialized gpio) outcome" where
  "gpio_new_at base pin =
     (if pin > 53 then Inl (Panic ''Gpio::new(): pin exceeds maximum of 53'') else Inr (Gpio pin base))"

definition gpio_new :: "u8 \<Rightarrow> (st_uninitialized gpio) outcome" where
  "gpio_new pin = gpio_new_at GPIO_BASE pin"

definition fsel_reg_index :: "st_uninitialized gpio \<Rightarrow> usize" where
  "fsel_reg_index g = ucast (gpio_pin g) div 10"

definition fsel_reg_shift :: "st_uninitialized gpio \<Rightarrow> u32" where
  "fsel_reg_shift g = (ucast (gpio_pin g) mod 10) * 3"

definition fsel_set_function_bits :: "u32 \<Rightarrow> u32 \<Rightarrow> u32 \<Rightarrow> u32" where
  "fsel_set_function_bits reg bits shift =
     (let msk = NOT (push_bit (unat shift) 0b111) in (reg AND msk) OR push_bit (unat shift) bits)"

definition write_fsel :: "'d bus \<Rightarrow> gpio_function \<Rightarrow> st_uninitialized gpio \<Rightarrow> ('d, unit) io" where
  "write_fsel bus f g =
     io_bind (reg_at g FSEL (fsel_reg_index g)) (\<lambda>p.
     io_bind (io_state (vread (cell32 bus p))) (\<lambda>val.
     io_state (\<lambda>d. ((), vwrite (cell32 bus p) (fsel_set_function_bits val (function_bits f) (fsel_reg_shift g)) d))))"

definition into_alt :: "'d bus \<Rightarrow> gpio_function \<Rightarrow> st_uninitialized gpio \<Rightarrow> ('d, st_alt gpio) io" where
  "into_alt bus f g = io_then (write_fsel bus f g) (io_return (Gpio (gpio_pin g) (gpio_registers g)))"

definition into_output :: "'d bus \<Rightarrow> st_uninitialized gpio \<Rightarrow> ('d, st_output gpio) io" where
  "into_output bus g = io_bind (into_alt bus Output g) (\<lambda>g. io_return (transition g))"

definition into_input :: "'d bus \<Rightarrow> st_uninitialized gpio \<Rightarrow> ('d, st_input gpio) io" where
  "into_input bus g = io_bind (into_alt bus Input g) (\<lambda>g. io_return (transition g))"

definition gpio_set :: "'d bus \<Rightarrow> st_output gpio \<Rightarrow> ('d, unit) io" where
  "gpio_set bus g =
     io_bind (reg_at g SET (pin_index g)) (\<lambda>p. io_state (\<lambda>d. ((), vwrite (cell32 bus p) (pin_mask g) d)))"

definition gpio_clear :: "'d bus \<Rightarrow> st_output gpio \<Rightarrow> ('d, unit) io" where
  "gpio_clear bus g =
     io_bind (reg_at g CLR (pin_index g)) (\<lambda>p. io_state (\<lambda>d. ((), vwrite (cell32 bus p) (pin_mask g) d)))"

definition gpio_level :: "'d bus \<Rightarrow> st_input gpio \<Rightarrow> ('d, bool) io" where
  "gpio_level bus g =
     io_bind (reg_at g LEV (pin_index g)) (\<lambda>p.
     io_bind (io_state (vread (cell32 bus p))) (\<lambda>v. io_return (v AND pin_mask g = 0)))"

text \<open>The \<open>nop\<close> loops only pass time.\<close>

definition disable_pull_up_down :: "'d bus \<Rightarrow> st_alt gpio \<Rightarrow> ('d, unit) io" where
  "disable_pull_up_down bus g =
     io_bind (reg_at g PUD 0) (\<lambda>pud.
     io_then (io_state (\<lambda>d. ((), vwrite (cell32 bus pud) 0 d)))
     (io_bind (reg_at g PUDCLK 0) (\<lambda>clk.
      io_then (io_state (\<lambda>d. ((), or_mask (cell32 bus clk) (pin_mask g) d)))
      (io_state (\<lambda>d. ((), vwrite (cell32 bus clk) 0 d))))))"

lemmas gpio_defs = reg_at_def transition_def pin_index_def gpio_new_at_def gpio_new_def write_fsel_def into_alt_def
  into_output_def into_input_def gpio_set_def gpio_clear_def gpio_level_def disable_pull_up_down_def

subsection \<open>The function field of a pin\<close>

definition fsel_field :: "u32 \<Rightarrow> nat \<Rightarrow> u32" where
  "fsel_field w k = drop_bit (3 * k) w AND mask 3"

lemma seven_mask: "(7::u32) = mask 3"
  by (simp add: mask_eq_exp_minus_1)

lemma function_bits_small: "take_bit 3 (function_bits f) = function_bits f"
  by (cases f) (simp_all add: function_bits_def take_bit_eq_mod)

lemma bit_function_bits: "bit (function_bits f) n \<Longrightarrow> n < 3"
  using function_bits_small [of f] by (metis bit_take_bit_iff)

lemma fsel_field_same:
  assumes "k < 10" and "unat shift = 3 * k"
  shows "fsel_field (fsel_set_function_bits reg (function_bits f) shift) k = function_bits f"
proof (rule bit_word_eqI)
  fix n
  assume "n < LENGTH(32)"
  have "3 * k + n < 32" if "n < 3" using that assms(1) by simp
  then show "bit (fsel_field (fsel_set_function_bits reg (function_bits f) shift) k) n = bit (function_bits f) n"
    using assms(2) bit_function_bits [of f n]
    by (auto simp: fsel_field_def fsel_set_function_bits_def Let_def seven_mask bit_simps)
qed

lemma fsel_field_other:
  assumes "j < 10" and "k < 10" and "j \<noteq> k" and "unat shift = 3 * k"
  shows "fsel_field (fsel_set_function_bits reg (function_bits f) shift) j = fsel_field reg j"
proof (rule bit_word_eqI)
  fix n
  assume "n < LENGTH(32)"
  have "\<not> (3 * k \<le> 3 * j + n \<and> 3 * j + n - 3 * k < 3) \<and> 3 * j + n < 32" if "n < 3"
    using that assms(1,3) by arith
  then show "bit (fsel_field (fsel_set_function_bits reg (function_bits f) shift) j) n = bit (fsel_field reg j) n"
    using assms(4) bit_function_bits [of f "3 * j + n - 3 * k"]
    by (auto simp: fsel_field_def fsel_set_function_bits_def Let_def seven_mask bit_simps)
qed

text \<open>The function that the hardware registers select for pin \<open>p\<close>.\<close>

definition fsel_addr :: "u8 \<Rightarrow> usize" where
  "fsel_addr p = GPIO_BASE + 4 * of_nat (unat p div 10)"

definition pin_function :: "('d \<Rightarrow> usize \<Rightarrow> u32) \<Rightarrow> 'd \<Rightarrow> u8 \<Rightarrow> u32" where
  "pin_function val d p = fsel_field (val d (fsel_addr p)) (unat p mod 10)"

lemma pin_unat:
  fixes p :: u8
  shows "unat (ucast p :: usize) = unat p" "unat (ucast p :: u32) = unat p" "unat p < 256"
  using unat_lt_len [of p] by (auto simp: unsigned_ucast_eq take_bit_nat_eq_self)

lemma fsel_index:
  "fsel_reg_index (Gpio p b) = of_nat (unat p div 10)" "unat (fsel_reg_shift (Gpio p b)) = 3 * (unat p mod 10)"
proof -
  have "unat (fsel_reg_index (Gpio p b)) = unat p div 10"
    by (simp add: fsel_reg_index_def unat_div pin_unat)
  then show "fsel_reg_index (Gpio p b) = of_nat (unat p div 10)"
    by (simp add: word_unat_eq_iff unsigned_of_nat take_bit_nat_eq_self less_imp_diff_less div_le_dividend [THEN le_less_trans] pin_unat(3) [THEN less_trans])
  have "unat (ucast p mod 10 :: u32) = unat p mod 10" by (simp add: unat_mod pin_unat)
  then show "unat (fsel_reg_shift (Gpio p b)) = 3 * (unat p mod 10)"
    by (simp add: fsel_reg_shift_def unat_word_ariths)
qed

lemma fsel_addr_inj:
  assumes "p \<le> 53" and "q \<le> 53" and "fsel_addr p = fsel_addr q"
  shows "unat p div 10 = unat q div 10"
proof -
  have "unat p \<le> 53" "unat q \<le> 53" using assms(1,2) by (simp_all add: word_le_nat_alt)
  then have b: "4 * (unat p div 10) < 2 ^ 64" "4 * (unat q div 10) < 2 ^ 64" by simp_all
  from assms(3) have "unat (of_nat (4 * (unat p div 10)) :: usize) = unat (of_nat (4 * (unat q div 10)) :: usize)"
    by (simp add: fsel_addr_def)
  with b [THEN take_bit_nat_eq_self_iff [THEN iffD2]] have "4 * (unat p div 10) = 4 * (unat q div 10)"
    by (simp only: unsigned_of_nat len_bit0 len_num1 id_apply) simp
  then show ?thesis by simp
qed

text \<open>\<open>into_alt\<close> on a pin made by \<open>Gpio::new\<close> never panics (no register index is out of bounds); it selects
  the requested function for that pin and leaves the function of each of the other 53 pins alone.\<close>

theorem into_alt_selects:
  assumes "gpio_new pin = Inr g" and "registers_at bus val (fsel_addr ` {p. p \<le> 53})"
  shows "\<exists>d'. into_alt bus f g d = Some (Inr (Gpio pin GPIO_BASE, d')) \<and> pin_function val d' pin = function_bits f \<and>
    (\<forall>q \<le> 53. q \<noteq> pin \<longrightarrow> pin_function val d' q = pin_function val d q)"
proof -
  from assms(1) have pin: "pin \<le> 53" and g: "g = Gpio pin GPIO_BASE"
    by (auto simp: gpio_defs split: if_splits)
  let ?a = "fsel_addr pin" and ?i = "of_nat (unat pin div 10) :: usize"
  let ?v = "fsel_set_function_bits (val d ?a) (function_bits f) (fsel_reg_shift g)"
  let ?d = "vwrite (cell32 bus ?a) ?v d"
  have in_a: "fsel_addr q \<in> fsel_addr ` {p. p \<le> 53}" if "q \<le> 53" for q using that by blast
  have "unat pin div 10 < 6" using pin by (simp add: word_le_nat_alt)
  then have "unat ?i < 6" by (simp add: unsigned_of_nat take_bit_nat_eq_self)
  then have idx: "?i < 6" by (simp add: word_less_nat_alt)
  have run: "into_alt bus f g d = Some (Inr (Gpio pin GPIO_BASE, ?d))"
    using idx registers_atD(1) [OF assms(2) in_a [OF pin], of d]
    by (simp add: gpio_defs g fsel_index FSEL_def io_defs fsel_addr_def)
  have val: "val ?d (fsel_addr q) = (if fsel_addr q = ?a then ?v else val d (fsel_addr q))" if "q \<le> 53" for q
    by (rule registers_atD(2) [OF assms(2) in_a [OF pin] in_a [OF that]])
  have sh: "unat (fsel_reg_shift g) = 3 * (unat pin mod 10)" by (simp add: g fsel_index)
  have "pin_function val ?d pin = function_bits f"
    using val [OF pin] sh by (simp add: pin_function_def fsel_field_same)
  moreover have "pin_function val ?d q = pin_function val d q" if "q \<le> 53" "q \<noteq> pin" for q
  proof (cases "fsel_addr q = ?a")
    case True
    with fsel_addr_inj [OF that(1) pin] have "unat q div 10 = unat pin div 10" by simp
    with that(2) have "unat q mod 10 \<noteq> unat pin mod 10"
      by (metis div_mult_mod_eq word_unat_eq_iff)
    then show ?thesis using val [OF that(1)] True fsel_field_other [of "unat q mod 10" "unat pin mod 10"] sh
      by (simp add: pin_function_def)
  qed (use val [OF that(1)] in \<open>simp add: pin_function_def\<close>)
  ultimately show ?thesis using run by blast
qed

theorem into_alt_selects_witness:
  "\<exists>d'. into_alt ram_bus Alt5 (Gpio 14 GPIO_BASE) (\<lambda>_. 0) = Some (Inr (Gpio 14 GPIO_BASE, d')) \<and>
     pin_function (\<lambda>d. d) d' 14 = 2 \<and> pin_function (\<lambda>d. d) d' 15 = pin_function (\<lambda>d. d) (\<lambda>_. 0) 15"
proof -
  have "gpio_new 14 = Inr (Gpio 14 GPIO_BASE)" by (simp add: gpio_new_def gpio_new_at_def)
  from into_alt_selects [OF this registers_at_ram, of Alt5 "\<lambda>_. 0"] show ?thesis
    by (auto simp: function_bits_def)
qed

text \<open>\<open>level\<close> returns true exactly when the pin's bit in the level register is clear, that is, when the pin
  is low; the documentation promises the opposite.\<close>

theorem level_is_inverted:
  assumes "pin \<le> 53" and "registers_at bus val {b + 0x34, b + 0x38}"
  shows "gpio_level bus (Gpio pin b) d =
    Some (Inr (\<not> bit (val d (b + 0x34 + 4 * (ucast pin div 32))) (unat pin mod 32), d))"
proof -
  let ?i = "ucast pin div 32 :: usize"
  have sm: "unat (ucast pin mod 32 :: u32) = unat pin mod 32" by (simp add: unat_mod pin_unat)
  have "unat ?i = unat pin div 32" by (simp add: unat_div pin_unat)
  moreover have "unat pin \<le> 53" using assms(1) by (simp add: word_le_nat_alt)
  ultimately have i: "?i < 2" by (simp add: word_less_nat_alt)
  have "?i = 0 \<or> ?i = 1"
  proof -
    from i have "unat ?i < 2" by (simp add: word_less_nat_alt)
    then have "unat ?i = 0 \<or> unat ?i = 1" by arith
    then show ?thesis by (metis unat_eq_zero unat_1 word_unat_eq_iff)
  qed
  then have "b + 0x34 + 4 * ?i \<in> {b + 0x34, b + 0x38}" by auto
  from registers_atD(1) [OF assms(2) this] have
    "gpio_level bus (Gpio pin b) d = Some (Inr (val d (b + 0x34 + 4 * ?i) AND pin_mask (Gpio pin b :: st_input gpio) = 0, d))"
    using i by (simp add: gpio_defs LEV_def io_defs)
  also have "(w AND pin_mask (Gpio pin b :: st_input gpio) = 0) = (\<not> bit w (unat pin mod 32))" for w :: u32
    by (simp add: pin_mask_def sm push_bit_of_1 and_exp_eq_0_iff_not_bit)
  finally show ?thesis .
qed

theorem level_is_inverted_witness:
  "gpio_level ram_bus (Gpio 33 0x100) (\<lambda>p. if p = 0x138 then 2 else 0)
     = Some (Inr (False, \<lambda>p. if p = 0x138 then 2 else 0))"
  using level_is_inverted [of 33 ram_bus "\<lambda>d. d" "0x100"] by (simp add: bit_simps)

text \<open>\<open>disable_pull_up_down\<close> always clocks the first of the two \<open>PUDCLK\<close> registers: for a pin above 31 that is the bit of
  the pin 32 below it.\<close>

lemma disable_pull_up_down_low_bank:
  "disable_pull_up_down bus (Gpio pin b) d =
     Some (Inr ((), vwrite (cell32 bus (b + 0x98)) 0
       (or_mask (cell32 bus (b + 0x98)) (push_bit (unat pin mod 32) 1) (vwrite (cell32 bus (b + 0x94)) 0 d))))"
proof -
  have "unat (ucast pin mod 32 :: u32) = unat pin mod 32" by (simp add: unat_mod pin_unat)
  then show ?thesis by (simp add: gpio_defs PUD_def PUDCLK_def io_defs pin_mask_def)
qed

text \<open>Setting and clearing a pin store its mask into the register of its bank.\<close>

lemma gpio_set_clear:
  assumes "pin \<le> 53"
  shows "gpio_set bus (Gpio pin b) d =
      Some (Inr ((), vwrite (cell32 bus (b + 0x1C + 4 * (ucast pin div 32))) (push_bit (unat pin mod 32) 1) d))"
    and "gpio_clear bus (Gpio pin b) d =
      Some (Inr ((), vwrite (cell32 bus (b + 0x28 + 4 * (ucast pin div 32))) (push_bit (unat pin mod 32) 1) d))"
proof -
  have "unat (ucast pin div 32 :: usize) = unat pin div 32" by (simp add: unat_div pin_unat)
  moreover have "unat pin \<le> 53" using assms by (simp add: word_le_nat_alt)
  ultimately have "(ucast pin div 32 :: usize) < 2" by (simp add: word_less_nat_alt)
  moreover have "unat (ucast pin mod 32 :: u32) = unat pin mod 32" by (simp add: unat_mod pin_unat)
  ultimately show
    "gpio_set bus (Gpio pin b) d =
      Some (Inr ((), vwrite (cell32 bus (b + 0x1C + 4 * (ucast pin div 32))) (push_bit (unat pin mod 32) 1) d))"
    "gpio_clear bus (Gpio pin b) d =
      Some (Inr ((), vwrite (cell32 bus (b + 0x28 + 4 * (ucast pin div 32))) (push_bit (unat pin mod 32) 1) d))"
    by (simp_all add: gpio_defs SET_def CLR_def io_defs pin_mask_def)
qed

end
