(* ===== verification/Interrupt.thy ===== *)
theory Interrupt
  imports Gpio
begin

text \<open>
  The interrupt controller, \<open>pi/src/interrupt.rs\<close>.
\<close>

definition INT_BASE :: usize where
  "INT_BASE = IO_BASE + 0xB000 + 0x200"

datatype interrupt = Timer1 | Timer3 | Usb | Gpio0 | Gpio1 | Gpio2 | Gpio3 | Uart

definition irqno :: "interrupt \<Rightarrow> u8" where
  "irqno irq = (case irq of Timer1 \<Rightarrow> 1 | Timer3 \<Rightarrow> 3 | Usb \<Rightarrow> 9 | Gpio0 \<Rightarrow> 49 | Gpio1 \<Rightarrow> 50 | Gpio2 \<Rightarrow> 51
     | Gpio3 \<Rightarrow> 52 | Uart \<Rightarrow> 57)"

record controller =
  ctl_registers :: usize

definition controller_new :: controller where
  "controller_new = \<lparr>ctl_registers = INT_BASE\<rparr>"

definition index_and_offset :: "u8 \<Rightarrow> usize \<times> usize" where
  "index_and_offset n = (let irqno = ucast n in (irqno div 32, irqno mod 32))"

text \<open>The offsets of the three two-element register arrays of the controller.\<close>

definition IRQ_PENDING :: usize where
  "IRQ_PENDING = 0x4"

definition ENABLE_IRQS :: usize where
  "ENABLE_IRQS = 0x10"

definition DISABLE_IRQS :: usize where
  "DISABLE_IRQS = 0x1C"

definition irq_reg :: "controller \<Rightarrow> usize \<Rightarrow> usize \<Rightarrow> ('d, usize) io" where
  "irq_reg c offset i =
     (if i < 2 then io_return (ctl_registers c + offset + 4 * i) else io_panic ''index out of bounds'')"

definition enable :: "'d bus \<Rightarrow> interrupt \<Rightarrow> controller \<Rightarrow> ('d, unit) io" where
  "enable bus irq c =
     (let (index, offset) = index_and_offset (irqno irq) in
      io_bind (irq_reg c ENABLE_IRQS index) (\<lambda>p.
      io_state (\<lambda>d. ((), vwrite (cell32 bus p) (push_bit (unat offset) 1) d))))"

definition disable :: "'d bus \<Rightarrow> interrupt \<Rightarrow> controller \<Rightarrow> ('d, unit) io" where
  "disable bus irq c =
     (let (index, offset) = index_and_offset (irqno irq) in
      io_bind (irq_reg c DISABLE_IRQS index) (\<lambda>p.
      io_state (\<lambda>d. ((), vwrite (cell32 bus p) (push_bit (unat offset) 1) d))))"

definition is_pending :: "'d bus \<Rightarrow> interrupt \<Rightarrow> controller \<Rightarrow> ('d, bool) io" where
  "is_pending bus irq c =
     (let (index, offset) = index_and_offset (irqno irq) in
      io_bind (irq_reg c IRQ_PENDING index) (\<lambda>p.
      io_bind (io_state (vread (cell32 bus p))) (\<lambda>v.
      io_return (v AND push_bit (unat offset) 1 \<noteq> 0))))"

lemmas irq_defs = enable_def disable_def is_pending_def irq_reg_def index_and_offset_def irqno_def io_defs
  IRQ_PENDING_def ENABLE_IRQS_def DISABLE_IRQS_def

text \<open>Every interrupt has a bit of its own among the 64.\<close>

lemma irq_bit_inj: "index_and_offset (irqno i) = index_and_offset (irqno j) \<longleftrightarrow> i = j"
  by (cases i; cases j) (simp_all add: index_and_offset_def irqno_def)

text \<open>The controller operations never index out of bounds; \<open>enable\<close> and \<open>disable\<close> store exactly the bit of the interrupt
  into the word of its bank, and \<open>is_pending\<close> reads exactly that bit of the pending word.\<close>

theorem irq_operations:
  "enable bus irq c d = Some (Inr ((), vwrite (cell32 bus (ctl_registers c + 0x10 + 4 * of_nat (unat (irqno irq) div 32)))
      (2 ^ (unat (irqno irq) mod 32)) d)) \<and>
   disable bus irq c d = Some (Inr ((), vwrite (cell32 bus (ctl_registers c + 0x1C + 4 * of_nat (unat (irqno irq) div 32)))
      (2 ^ (unat (irqno irq) mod 32)) d)) \<and>
   is_pending bus irq c d =
     (case vread (cell32 bus (ctl_registers c + 0x4 + 4 * of_nat (unat (irqno irq) div 32))) d of
        (v, d') \<Rightarrow> Some (Inr (bit v (unat (irqno irq) mod 32), d')))"
proof -
  have "v AND 2 ^ n \<noteq> 0 \<longleftrightarrow> bit v n" for v :: u32 and n
    by (simp add: and_exp_eq_0_iff_not_bit)
  note bit = this this [of _ 1] this [of _ 3] this [of _ 9]
  show ?thesis
    by (cases irq) (simp_all add: irq_defs bit [symmetric] split: prod.splits)
qed

end
