(* ===== verification/Timer.thy ===== *)
theory Timer
  imports Gpio
begin

text \<open>
  The system timer, \<open>pi/src/timer.rs\<close>: a 64-bit microsecond counter read as two 32-bit halves, the
  timer match, and the spinning delays. \<open>free_running\<close> is the documented behaviour of the counter
  registers: each load sees the current count and time passes between loads.
\<close>

definition TIMER_REG_BASE :: usize where
  "TIMER_REG_BASE = IO_BASE + 0x3000"

definition TIMER_CS :: usize where
  "TIMER_CS = TIMER_REG_BASE"

definition TIMER_CLO :: usize where
  "TIMER_CLO = TIMER_REG_BASE + 4"

definition TIMER_CHI :: usize where
  "TIMER_CHI = TIMER_REG_BASE + 8"

definition TIMER_COMPARE1 :: usize where
  "TIMER_COMPARE1 = TIMER_REG_BASE + 0x10"

lemmas timer_addrs = TIMER_REG_BASE_def TIMER_CS_def TIMER_CLO_def TIMER_CHI_def TIMER_COMPARE1_def IO_BASE_def

definition timer_read :: "'d bus \<Rightarrow> 'd \<Rightarrow> u64 \<times> 'd" where
  "timer_read bus d =
     (let (hi, d1) = vread (cell32 bus TIMER_CHI) d;
          (lo, d2) = vread (cell32 bus TIMER_CLO) d1
      in (push_bit 32 (ucast hi) OR ucast lo, d2))"

definition tick_in :: "'d bus \<Rightarrow> u32 \<Rightarrow> 'd \<Rightarrow> 'd" where
  "tick_in bus us d =
     (let (lo, d1) = vread (cell32 bus TIMER_CLO) d;
          future = lo + us;
          d2 = vwrite (cell32 bus TIMER_CS) (push_bit 1 1) d1
      in vwrite (cell32 bus TIMER_COMPARE1) future d2)"

definition current_time :: "'d bus \<Rightarrow> 'd \<Rightarrow> u64 \<times> 'd" where
  "current_time bus = timer_read bus"

partial_function (option) spin_until :: "'d bus \<Rightarrow> u64 \<Rightarrow> ('d, unit) io" where
  "spin_until bus deadline d =
     (case current_time bus d of
        (t, d') \<Rightarrow> if deadline > t then spin_until bus deadline d' else Some (Inr ((), d')))"

definition spin_sleep_us :: "'d bus \<Rightarrow> u64 \<Rightarrow> ('d, unit) io" where
  "spin_sleep_us bus us d = (case current_time bus d of (t, d') \<Rightarrow> spin_until bus (t + us) d')"

definition spin_sleep_ms :: "'d bus \<Rightarrow> u64 \<Rightarrow> ('d, unit) io" where
  "spin_sleep_ms bus ms = spin_sleep_us bus (ms * 1000)"

subsection \<open>The counter\<close>

definition free_running :: "'d bus \<Rightarrow> ('d \<Rightarrow> nat) \<Rightarrow> bool" where
  "free_running bus cnt \<longleftrightarrow>
     (\<forall>d. let (hi, d') = bus_read32 bus TIMER_CHI d in
        hi = of_nat (cnt d div 2 ^ 32) \<and> cnt d \<le> cnt d' \<and> cnt d' \<le> cnt d + 2 ^ 31) \<and>
     (\<forall>d. let (lo, d') = bus_read32 bus TIMER_CLO d in
        lo = of_nat (cnt d) \<and> cnt d < cnt d' \<and> cnt d' \<le> cnt d + 2 ^ 31)"

lemma free_runningD:
  assumes "free_running bus cnt"
  shows "bus_read32 bus TIMER_CHI d = (hi, d') \<Longrightarrow>
      hi = of_nat (cnt d div 2 ^ 32) \<and> cnt d \<le> cnt d' \<and> cnt d' \<le> cnt d + 2 ^ 31"
    and "bus_read32 bus TIMER_CLO d = (lo, d') \<Longrightarrow> lo = of_nat (cnt d) \<and> cnt d < cnt d' \<and> cnt d' \<le> cnt d + 2 ^ 31"
proof -
  note l = assms [unfolded free_running_def Let_def]
  show "bus_read32 bus TIMER_CHI d = (hi, d') \<Longrightarrow>
      hi = of_nat (cnt d div 2 ^ 32) \<and> cnt d \<le> cnt d' \<and> cnt d' \<le> cnt d + 2 ^ 31"
    using conjunct1 [OF l, rule_format, of d] by simp
  show "bus_read32 bus TIMER_CLO d = (lo, d') \<Longrightarrow> lo = of_nat (cnt d) \<and> cnt d < cnt d' \<and> cnt d' \<le> cnt d + 2 ^ 31"
    using conjunct2 [OF l, rule_format, of d] by simp
qed

lemma unat_halves: "unat (push_bit 32 (ucast (hi::u32)) OR ucast (lo::u32) :: u64) = unat hi * 2 ^ 32 + unat lo"
proof -
  have "push_bit 32 (ucast hi) OR ucast lo = push_bit 32 (ucast hi) + (ucast lo :: u64)"
    by (rule disjunctive_add [symmetric]) (auto simp: bit_simps dest: bit_imp_le_length)
  moreover have "unat (ucast lo :: u64) = unat lo"
    using unat_lt_len [of lo] by (simp add: unsigned_ucast_eq take_bit_nat_eq_self)
  moreover have "unat (push_bit 32 (ucast hi) :: u64) = unat hi * 2 ^ 32"
    using unat_lt_len [of hi]
    by (simp add: push_bit_eq_mult unat_word_ariths unsigned_ucast_eq take_bit_nat_eq_self)
  moreover have "unat hi * 2 ^ 32 + unat lo < 2 ^ 64"
    using unat_lt_len [of lo] unat_lt_len [of hi] by simp
  ultimately show ?thesis by (simp add: unat_word_ariths)
qed

text \<open>The count a read returns: the high half of the count at the first load, the low half of the count at the second.\<close>

lemma timer_read_value:
  assumes "free_running bus cnt" and "cnt d < 2 ^ 64" and "timer_read bus d = (v, d')"
  shows "\<exists>c. cnt d \<le> c \<and> c \<le> cnt d + 2 ^ 31 \<and> c < cnt d' \<and> cnt d' \<le> c + 2 ^ 31 \<and>
    unat v = cnt d div 2 ^ 32 * 2 ^ 32 + c mod 2 ^ 32"
proof -
  obtain hi d1 lo d2 where rd: "bus_read32 bus TIMER_CHI d = (hi, d1)" "bus_read32 bus TIMER_CLO d1 = (lo, d2)"
    by fastforce
  have hi: "hi = of_nat (cnt d div 2 ^ 32)" "cnt d \<le> cnt d1" "cnt d1 \<le> cnt d + 2 ^ 31"
    and lo: "lo = of_nat (cnt d1)" "cnt d1 < cnt d2" "cnt d2 \<le> cnt d1 + 2 ^ 31"
    using free_runningD(1) [OF assms(1) rd(1)] free_runningD(2) [OF assms(1) rd(2)] by blast+
  from assms(3) rd have v: "v = push_bit 32 (ucast hi) OR ucast lo" "d' = d2"
    by (simp_all add: timer_read_def volatile_defs)
  have "cnt d div 2 ^ 32 < 2 ^ 32" using assms(2) by (simp add: less_mult_imp_div_less)
  then have "unat hi = cnt d div 2 ^ 32" by (simp add: hi unsigned_of_nat take_bit_nat_eq_self)
  moreover have "unat lo = cnt d1 mod 2 ^ 32" by (simp add: lo unsigned_of_nat take_bit_eq_mod)
  ultimately have "unat v = cnt d div 2 ^ 32 * 2 ^ 32 + cnt d1 mod 2 ^ 32" by (simp add: v unat_halves)
  with hi lo v show ?thesis by blast
qed

lemma timer_read_le:
  assumes "free_running bus cnt" and "cnt d < 2 ^ 64" and "timer_read bus d = (v, d')"
  shows "cnt d div 2 ^ 32 * 2 ^ 32 \<le> unat v" "unat v < cnt d'" "cnt d < cnt d'" "cnt d' \<le> cnt d + 2 ^ 32"
proof -
  obtain c where c: "cnt d \<le> c" "c \<le> cnt d + 2 ^ 31" "c < cnt d'" "cnt d' \<le> c + 2 ^ 31"
    "unat v = cnt d div 2 ^ 32 * 2 ^ 32 + c mod 2 ^ 32"
    using timer_read_value [OF assms] by blast
  have "cnt d div 2 ^ 32 * 2 ^ 32 \<le> c div 2 ^ 32 * 2 ^ 32" by (rule mult_right_mono) (simp_all add: div_le_mono c(1))
  then have "unat v \<le> c" using c(5) div_mult_mod_eq [of c "2 ^ 32"] by linarith
  with c show "cnt d div 2 ^ 32 * 2 ^ 32 \<le> unat v" "unat v < cnt d'" "cnt d < cnt d'" "cnt d' \<le> cnt d + 2 ^ 32"
    by simp_all
qed

lemma spin_until_step: "spin_until bus deadline d =
     (case current_time bus d of
        (t, d') \<Rightarrow> if deadline > t then spin_until bus deadline d' else Some (Inr ((), d')))"
  by (subst spin_until.simps) (rule refl)

text \<open>The states between readings of the clock. A wait for a deadline ends as soon as one of the readings has reached it.\<close>

primrec clock_after :: "'d bus \<Rightarrow> nat \<Rightarrow> 'd \<Rightarrow> 'd" where
  "clock_after bus 0 d = d"
| "clock_after bus (Suc n) d = clock_after bus n (snd (current_time bus d))"

lemma spin_until_reached:
  "deadline \<le> fst (current_time bus (clock_after bus n d)) \<Longrightarrow>
    \<exists>k. spin_until bus deadline d = Some (Inr ((), clock_after bus k d))"
proof (induction n arbitrary: d)
  case 0
  then have "spin_until bus deadline d = Some (Inr ((), clock_after bus 1 d))"
    by (subst spin_until_step) (simp add: case_prod_beta leD)
  then show ?case by blast
next
  case (Suc n)
  then obtain k where k: "spin_until bus deadline (snd (current_time bus d)) = Some (Inr ((), clock_after bus (Suc k) d))"
    by fastforce
  show ?case
  proof (cases "deadline > fst (current_time bus d)")
    case True
    then have "spin_until bus deadline d = Some (Inr ((), clock_after bus (Suc k) d))"
      by (subst spin_until_step) (simp add: case_prod_beta k)
    then show ?thesis by blast
  next
    case False
    then have "spin_until bus deadline d = Some (Inr ((), clock_after bus 1 d))"
      by (subst spin_until_step) (simp add: case_prod_beta)
    then show ?thesis by blast
  qed
qed

lemma spin_sleep_us_reached:
  assumes "fst (current_time bus d) + us \<le> fst (current_time bus (clock_after bus (Suc n) d))"
  shows "\<exists>k. spin_sleep_us bus us d = Some (Inr ((), clock_after bus k d))"
proof -
  obtain k where "spin_until bus (fst (current_time bus d) + us) (snd (current_time bus d)) =
      Some (Inr ((), clock_after bus (Suc k) d))"
    using spin_until_reached [of "fst (current_time bus d) + us" bus n "snd (current_time bus d)"] assms by auto
  then show ?thesis by (intro exI [of _ "Suc k"]) (simp add: spin_sleep_us_def case_prod_beta)
qed

lemma spin_until_returns:
  assumes "free_running bus cnt" and "unat deadline + 2 ^ 34 < 2 ^ 64" and "cnt d < unat deadline + 2 ^ 33"
  shows "\<exists>d'. spin_until bus deadline d = Some (Inr ((), d')) \<and> unat deadline \<le> cnt d' \<and> cnt d \<le> cnt d'"
  using assms(3)
proof (induction "unat deadline + 2 ^ 33 - cnt d" arbitrary: d rule: less_induct)
  case less
  obtain t d1 where t: "timer_read bus d = (t, d1)" by fastforce
  have "cnt d < 2 ^ 64" using less.prems assms(2) by simp
  note b = timer_read_le [OF assms(1) this t]
  show ?case
  proof (cases "deadline > t")
    case True
    then have lt: "unat t < unat deadline" by (simp add: word_less_nat_alt)
    have "cnt d mod 2 ^ 32 < 2 ^ 32" by simp
    with b(1) lt have "cnt d < unat deadline + 2 ^ 32" using div_mult_mod_eq [of "cnt d" "2 ^ 32"] by linarith
    then have "cnt d1 < unat deadline + 2 ^ 33" using b(4) by simp
    moreover from this b(3) have "unat deadline + 2 ^ 33 - cnt d1 < unat deadline + 2 ^ 33 - cnt d" by arith
    ultimately obtain d' where "spin_until bus deadline d1 = Some (Inr ((), d'))" "unat deadline \<le> cnt d'" "cnt d1 \<le> cnt d'"
      using less.hyps by blast
    with True t b(3) show ?thesis by (auto simp: spin_until_step [of bus deadline d] current_time_def)
  next
    case False
    then have "deadline \<le> t" by simp
    then have "unat deadline \<le> unat t" by (simp add: word_le_nat_alt)
    with False t b(2,3) show ?thesis by (auto simp: spin_until_step [of bus deadline d] current_time_def)
  qed
qed

lemma spin_sleep_us_ends:
  assumes "free_running bus cnt" and "cnt d + unat us + 2 ^ 35 < 2 ^ 64"
  shows "\<exists>d'. spin_sleep_us bus us d = Some (Inr ((), d')) \<and> unat (fst (current_time bus d)) + unat us \<le> cnt d' \<and> cnt d < cnt d'"
proof -
  obtain t d1 where t: "timer_read bus d = (t, d1)" by fastforce
  have "cnt d < 2 ^ 64" using assms(2) by simp
  note b = timer_read_le [OF assms(1) this t]
  have "unat t + unat us < 2 ^ 64" using b(2,4) assms(2) by simp
  then have dl: "unat (t + us) = unat t + unat us" by (simp add: unat_word_ariths)
  have "cnt d mod 2 ^ 32 < 2 ^ 32" by simp
  then have "cnt d < unat t + 2 ^ 32" using b(1) div_mult_mod_eq [of "cnt d" "2 ^ 32"] by linarith
  then have "cnt d1 < unat (t + us) + 2 ^ 33" using b(4) dl by simp
  moreover have "unat (t + us) + 2 ^ 34 < 2 ^ 64" using b(2,4) assms(2) dl by simp
  ultimately obtain d' where "spin_until bus (t + us) d1 = Some (Inr ((), d'))" "unat (t + us) \<le> cnt d'" "cnt d1 \<le> cnt d'"
    using spin_until_returns [OF assms(1)] by blast
  with t dl b(3) show ?thesis by (auto simp: spin_sleep_us_def current_time_def)
qed

text \<open>On a running counter \<open>spin_sleep_us\<close> returns (also when a carry between the two halves tears a read), and not
  before the count has passed the first reading by the requested number of microseconds.\<close>

theorem spin_sleep_us_returns:
  assumes "free_running bus cnt" and "cnt d + unat us + 2 ^ 35 < 2 ^ 64"
  shows "\<exists>d'. spin_sleep_us bus us d = Some (Inr ((), d')) \<and> unat (fst (current_time bus d)) + unat us \<le> cnt d' \<and> cnt d < cnt d'"
  using assms by (rule spin_sleep_us_ends)

text \<open>A board whose clock advances by one microsecond with every load of a timer register, and whose other registers are
  memory.\<close>

record board =
  bd_time :: nat
  bd_regs :: "usize \<Rightarrow> u32"

definition board_bus :: "board bus" where
  "board_bus = \<lparr>bus_read32 = (\<lambda>p d.
       if p = TIMER_CLO then (of_nat (bd_time d), d\<lparr>bd_time := bd_time d + 1\<rparr>)
       else if p = TIMER_CHI then (of_nat (bd_time d div 2 ^ 32), d\<lparr>bd_time := bd_time d + 1\<rparr>)
       else (bd_regs d p, d)),
     bus_write32 = (\<lambda>p v d. d\<lparr>bd_regs := (bd_regs d)(p := v)\<rparr>),
     bus_read8 = (\<lambda>p d. (ucast (bd_regs d p), d)),
     bus_write8 = (\<lambda>p v d. d\<lparr>bd_regs := (bd_regs d)(p := (bd_regs d p AND NOT 0xFF) OR ucast v)\<rparr>)\<rparr>"

lemma board_free_running: "free_running board_bus bd_time"
  by (simp add: free_running_def board_bus_def timer_addrs)

theorem spin_sleep_us_returns_witness:
  "\<exists>d'. spin_sleep_us board_bus 10 \<lparr>bd_time = 100, bd_regs = (\<lambda>_. 0)\<rparr> = Some (Inr ((), d')) \<and> 111 \<le> bd_time d'"
proof -
  have "bd_time \<lparr>bd_time = 100, bd_regs = (\<lambda>_. 0)\<rparr> + unat (10::u64) + 2 ^ 35 < 2 ^ 64" by simp
  note r = spin_sleep_us_returns [OF board_free_running this]
  have "fst (current_time board_bus \<lparr>bd_time = 100, bd_regs = (\<lambda>_. 0)\<rparr>) = 101"
    by (simp add: current_time_def timer_read_def volatile_defs board_bus_def timer_addrs)
  with r show ?thesis by auto
qed

text \<open>The halves are read one after the other, the high half first. When the low half wraps around in between, the result
  is almost \<open>2 ^ 32\<close> microseconds in the past.\<close>

lemma timer_read_torn:
  "timer_read board_bus \<lparr>bd_time = 2 ^ 32 - 1, bd_regs = r\<rparr> = (0, \<lparr>bd_time = 2 ^ 32 + 1, bd_regs = r\<rparr>)"
  by (simp add: timer_read_def volatile_defs board_bus_def timer_addrs)

text \<open>A match set by \<open>tick_in\<close> lies \<open>us\<close> microseconds after the count that was read, modulo \<open>2 ^ 32\<close>, and the pending match of
  timer 1 is acknowledged by writing its bit.\<close>

lemma tick_in_stores:
  assumes "free_running bus cnt" and "bus_read32 bus TIMER_CLO d = (lo, d1)"
  shows "tick_in bus us d = vwrite (cell32 bus TIMER_COMPARE1) (of_nat (cnt d) + us) (vwrite (cell32 bus TIMER_CS) 2 d1)"
proof -
  have "lo = of_nat (cnt d)" using free_runningD(2) [OF assms] by blast
  with assms(2) show ?thesis by (simp add: tick_in_def volatile_defs)
qed

end
