(* ===== verification/Scheduler.thy ===== *)
theory Scheduler
  imports Process Interrupt Timer "HOL-Library.Multiset"
begin

text \<open>
  The scheduler, \<open>kernel/src/process/scheduler.rs\<close>: a queue whose front is the current process. The
  instruction \<open>wfi\<close> is a parameter, what the machine does until the next interrupt. Its loop in
  \<open>switch\<close> ends when some process is ready, so \<open>switch\<close> is a partial function.
\<close>

type_synonym id = u64

record 'w scheduler =
  sc_processes :: "'w process list"
  sc_current_id :: "id option"
  sc_last_id :: "id option"

definition TICK :: u32 where
  "TICK = 2 * 1000 * 1000"

definition scheduler_new :: "'w scheduler" where
  "scheduler_new = \<lparr>sc_processes = [], sc_current_id = Some 1, sc_last_id = None\<rparr>"

definition current :: "'w scheduler \<Rightarrow> 'w process option" where
  "current s = (case sc_processes s of [] \<Rightarrow> None | p # _ \<Rightarrow> Some p)"

text \<open>\<open>add\<close>: the incremented identifier is bound to a local variable that nothing reads.\<close>

definition add :: "'w process \<Rightarrow> 'w scheduler \<Rightarrow> id option \<times> 'w scheduler" where
  "add p s =
     (case sc_current_id s of
        None \<Rightarrow> (None, s)
      | Some prev \<Rightarrow>
          (let pid = prev;
               p' = p\<lparr>pr_trap_frame := (pr_trap_frame p)\<lparr>tf_tpidr := pid\<rparr>\<rparr>
           in (Some pid, s\<lparr>sc_last_id := Some prev, sc_processes := sc_processes s @ [p']\<rparr>)))"

text \<open>\<open>iter_mut().position(|p| p.is_ready())\<close>: processes are polled in order up to the first ready one.\<close>

primrec position_ready :: "('d, 'w) poller \<Rightarrow> 'w process list \<Rightarrow> ('d, nat option \<times> 'w process list) io" where
  "position_ready poll [] = io_return (None, [])"
| "position_ready poll (p # ps) =
     io_bind (is_ready poll p) (\<lambda>(ready, p').
       if ready then io_return (Some 0, p' # ps)
       else io_bind (position_ready poll ps) (\<lambda>(i, ps'). io_return (map_option Suc i, p' # ps')))"

definition next_process :: "('d, 'w) poller \<Rightarrow> 'w scheduler \<Rightarrow> ('d, 'w process option \<times> 'w scheduler) io" where
  "next_process poll s =
     io_bind (position_ready poll (sc_processes s)) (\<lambda>(i, ps).
       case i of
         None \<Rightarrow> io_return (None, s\<lparr>sc_processes := ps\<rparr>)
       | Some index \<Rightarrow>
           (let s' = s\<lparr>sc_processes := drop index ps @ take index ps\<rparr> in io_return (current s', s')))"

partial_function (option) switch_loop ::
  "('d, 'w) poller \<Rightarrow> ('d, unit) io \<Rightarrow> 'w scheduler \<Rightarrow> ('d, id \<times> trap_frame \<times> 'w scheduler) io"
where
  "switch_loop poll wfi s d =
     io_bind (next_process poll s) (\<lambda>r d.
       case fst r of
         Some p \<Rightarrow> io_return (tf_tpidr (pr_trap_frame p), pr_trap_frame p, snd r) d
       | None \<Rightarrow> io_then wfi (\<lambda>d. switch_loop poll wfi (snd r) d) d) d"

definition switch ::
  "('d, 'w) poller \<Rightarrow> ('d, unit) io \<Rightarrow> 'w state \<Rightarrow> trap_frame \<Rightarrow> 'w scheduler \<Rightarrow>
   ('d, id option \<times> trap_frame \<times> 'w scheduler) io"
where
  "switch poll wfi new_state tf s =
     (case sc_processes s of
        [] \<Rightarrow> io_return (None, tf, s)
      | cur # rest \<Rightarrow>
          (let cur' = cur\<lparr>pr_trap_frame := tf, pr_state := new_state\<rparr> in
           io_bind (switch_loop poll wfi (s\<lparr>sc_processes := rest @ [cur']\<rparr>)) (\<lambda>(pid, tf', s').
             io_return (Some pid, tf', s'))))"

subsection \<open>The global scheduler\<close>

type_synonym 'w gscheduler = "('w scheduler option) mutex"

definition gs_uninitialized :: "'w gscheduler" where
  "gs_uninitialized = mutex_new None"

definition gs_add :: "'w process \<Rightarrow> 'w gscheduler \<Rightarrow> ((id option \<times> 'w gscheduler) outcome) option" where
  "gs_add p g =
     with_lock (\<lambda>d.
       Some (and_then (expect ''scheduler uninitialized'' d) (\<lambda>s. let (i, s') = add p s in Inr (i, Some s')))) g"

definition gs_switch ::
  "('d, 'w) poller \<Rightarrow> ('d, unit) io \<Rightarrow> 'w state \<Rightarrow> trap_frame \<Rightarrow>
   ('w gscheduler \<times> 'd, id option \<times> trap_frame) io"
where
  "gs_switch poll wfi new_state tf st =
     map_option (\<lambda>r. and_then r (\<lambda>((v, d), g). Inr (v, (g, d))))
       (with_lock (\<lambda>x.
          case expect ''scheduler uninitialized'' x of
            Inl e \<Rightarrow> Some (Inl e)
          | Inr s \<Rightarrow>
              map_option (\<lambda>r. and_then r (\<lambda>((i, tf', s'), d). Inr (((i, tf'), d), Some s')))
                (switch poll wfi new_state tf s (snd st))) (fst st))"

definition new_process :: "u64 \<Rightarrow> (kernel_heap, 'w process) io" where
  "new_process fn_ptr =
     io_bind process_new (\<lambda>r. io_bind (io_expect ''first process'' r) (\<lambda>p.
       io_return (p\<lparr>pr_trap_frame := (pr_trap_frame p)\<lparr>tf_sp := as_u64 (stack_top (pr_stack p)), tf_elr := fn_ptr\<rparr>\<rparr>)))"

text \<open>
  \<open>start\<close> up to the jump into the first process: it enables the timer interrupt, sets the first tick,
  and queues the two shells. The result is the frame that \<open>context_restore\<close> loads. The devices, the
  kernel heap and the scheduler are the parts of the machine it changes.
\<close>

definition gs_start ::
  "'d bus \<Rightarrow> u64 \<Rightarrow> u64 \<Rightarrow> ('w gscheduler \<times> kernel_heap \<times> 'd, trap_frame) io"
where
  "gs_start bus start_shell_1 start_shell_2 =
     io_bind (io_zoom (snd \<circ> snd) (\<lambda>d (g, h, _). (g, h, d)) (enable bus Timer1 controller_new)) (\<lambda>_.
     io_bind (io_zoom (snd \<circ> snd) (\<lambda>d (g, h, _). (g, h, d)) (io_state (\<lambda>d. ((), tick_in bus TICK d)))) (\<lambda>_.
     io_bind (\<lambda>(g, h, d). map_option (\<lambda>(_, g'). Inr ((), (g', h, d))) (mutex_lock g)) (\<lambda>_.
     io_bind (io_state (\<lambda>(g, h, d).
       ((), (guard_deref_mut (\<lambda>x. case x of None \<Rightarrow> Some scheduler_new | Some s \<Rightarrow> Some s) g, h, d)))) (\<lambda>_.
     io_bind (io_zoom (fst \<circ> snd) (\<lambda>h (g, _, d). (g, h, d)) (new_process start_shell_1)) (\<lambda>p1.
     io_bind (io_zoom (fst \<circ> snd) (\<lambda>h (g, _, d). (g, h, d)) (new_process start_shell_2)) (\<lambda>p2.
     (\<lambda>(g, h, d).
       case guard_deref g of
         None \<Rightarrow> Some (Inl (Panic ''internal error: entered unreachable code''))
       | Some s \<Rightarrow>
           (let (i1, s1) = add p1 s; (_, s2) = add p2 s1; g' = guard_deref_mut (\<lambda>_. Some s2) g in
            case i1 of
              None \<Rightarrow> Some (Inl (Panic ''use of a freed trap frame''))
            | Some _ \<Rightarrow> Some (Inr (pr_trap_frame (last (sc_processes s1)), (g', h, d)))))))))))"

subsection \<open>Identifiers\<close>

text \<open>every process gets the identifier 1: \<open>add\<close> never stores the incremented identifier, so neither the returned
  identifiers nor those saved in the trap frames are new.\<close>

theorem add_reuses_pid:
  fixes ps :: "'w process list"
  defines "s \<equiv> fold (\<lambda>p s. snd (add p s)) ps scheduler_new"
  shows "fst (add p s) = Some 1 \<and>
    map (tf_tpidr \<circ> pr_trap_frame) (sc_processes s) = replicate (length ps) 1 \<and> map pr_stack (sc_processes s) = map pr_stack ps"
proof -
  have "sc_current_id t = Some 1 \<Longrightarrow>
      sc_current_id (fold (\<lambda>p s. snd (add p s)) ps t) = Some 1 \<and>
      map (tf_tpidr \<circ> pr_trap_frame) (sc_processes (fold (\<lambda>p s. snd (add p s)) ps t)) =
        map (tf_tpidr \<circ> pr_trap_frame) (sc_processes t) @ replicate (length ps) 1 \<and>
      map pr_stack (sc_processes (fold (\<lambda>p s. snd (add p s)) ps t)) = map pr_stack (sc_processes t) @ map pr_stack ps" for t :: "'w scheduler"
    by (induction ps arbitrary: t) (auto simp: add_def)
  from this [of scheduler_new] show ?thesis
    by (simp add: s_def scheduler_new_def add_def)
qed

subsection \<open>Round robin\<close>

lemma switch_loop_step: "switch_loop poll wfi s d =
     io_bind (next_process poll s) (\<lambda>r d.
       case fst r of
         Some p \<Rightarrow> io_return (tf_tpidr (pr_trap_frame p), pr_trap_frame p, snd r) d
       | None \<Rightarrow> io_then wfi (\<lambda>d. switch_loop poll wfi (snd r) d) d) d"
  by (subst switch_loop.simps) (rule refl)

lemma next_process_front:
  assumes "sc_processes s = p # ps" and "pr_state p = Ready"
  shows "next_process poll s d = Some (Inr ((Some p, s), d))"
  using assms by (simp add: next_process_def is_ready_def io_defs current_def)

lemma switch_front_ready:
  assumes "sc_processes s = cur # rest"
    and "rest @ [cur\<lparr>pr_trap_frame := tf, pr_state := st\<rparr>] = q # qs" and "pr_state q = Ready"
  shows "switch poll wfi st tf s d =
    Some (Inr ((Some (tf_tpidr (pr_trap_frame q)), pr_trap_frame q, s\<lparr>sc_processes := q # qs\<rparr>), d))"
proof -
  let ?s = "s\<lparr>sc_processes := q # qs\<rparr>"
  have "next_process poll ?s d = Some (Inr ((Some q, ?s), d))"
    using assms(3) by (intro next_process_front) simp_all
  then have "switch_loop poll wfi ?s d = Some (Inr ((tf_tpidr (pr_trap_frame q), pr_trap_frame q, ?s), d))"
    by (subst switch_loop_step) (simp add: io_bind_def io_return_def)
  then show ?thesis
    using assms(1,2) by (simp add: switch_def io_bind_def io_return_def)
qed

text \<open>\<open>n\<close> time slices: the process on the CPU runs (\<open>user\<close> is what it does to its registers), then the timer switches.\<close>

primrec slices ::
  "('d, 'w) poller \<Rightarrow> ('d, unit) io \<Rightarrow> (trap_frame \<Rightarrow> trap_frame) \<Rightarrow> nat \<Rightarrow> trap_frame \<Rightarrow> 'w scheduler \<Rightarrow>
   ('d, trap_frame \<times> 'w scheduler) io"
where
  "slices poll wfi user 0 tf s = io_return (tf, s)"
| "slices poll wfi user (Suc n) tf s =
     io_bind (switch poll wfi Ready (user tf) s) (\<lambda>(_, tf', s'). slices poll wfi user n tf' s')"

definition ran :: "(trap_frame \<Rightarrow> trap_frame) \<Rightarrow> 'w process \<Rightarrow> 'w process" where
  "ran user p = p\<lparr>pr_trap_frame := user (pr_trap_frame p), pr_state := Ready\<rparr>"

lemma slices_rotate:
  assumes "\<forall>p \<in> set (xs @ ys). pr_state p = Ready" and "sc_processes s = xs @ ys" and "xs \<noteq> []"
    and "tf = pr_trap_frame (hd xs)"
  shows "slices poll wfi user (length xs) tf s d =
    Some (Inr ((pr_trap_frame (hd (ys @ map (ran user) xs)), s\<lparr>sc_processes := ys @ map (ran user) xs\<rparr>), d))"
  using assms
proof (induction xs arbitrary: ys tf s)
  case (Cons x xs)
  let ?x = "x\<lparr>pr_trap_frame := user tf, pr_state := Ready\<rparr>"
  have rx: "?x = ran user x" using Cons.prems(4) by (simp add: ran_def)
  obtain q qs where q: "(xs @ ys) @ [?x] = q # qs" by (cases "(xs @ ys) @ [?x]") auto
  have "pr_state q = Ready"
  proof (cases "xs @ ys")
    case Nil
    with q show ?thesis by auto
  next
    case (Cons r rs)
    with q have "q = r" "r \<in> set (xs @ ys)" by auto
    then show ?thesis using Cons.prems(1) \<open>\<forall>p \<in> set ((x # xs) @ ys). pr_state p = Ready\<close> by auto
  qed
  then have sw: "switch poll wfi Ready (user tf) s d =
      Some (Inr ((Some (tf_tpidr (pr_trap_frame q)), pr_trap_frame q, s\<lparr>sc_processes := q # qs\<rparr>), d))"
    using Cons.prems(2) q by (intro switch_front_ready [of _ x "xs @ ys"]) simp_all
  have eq: "q # qs = xs @ (ys @ [ran user x])" using q rx by simp
  show ?case
  proof (cases "xs = []")
    case True
    with eq have "pr_trap_frame q = pr_trap_frame (hd (ys @ [ran user x]))" by (metis append_Nil list.sel(1))
    with sw eq True show ?thesis by (simp add: io_bind_def io_return_def)
  next
    case False
    with eq have "pr_trap_frame q = pr_trap_frame (hd xs)" by (metis hd_append list.sel(1))
    moreover have "\<forall>p \<in> set (xs @ ys @ [ran user x]). pr_state p = Ready"
      using Cons.prems(1) by (auto simp: ran_def)
    ultimately have "slices poll wfi user (length xs) (pr_trap_frame q) (s\<lparr>sc_processes := q # qs\<rparr>) d =
      Some (Inr ((pr_trap_frame (hd ((ys @ [ran user x]) @ map (ran user) xs)),
        (s\<lparr>sc_processes := q # qs\<rparr>)\<lparr>sc_processes := (ys @ [ran user x]) @ map (ran user) xs\<rparr>), d))"
      using False eq by (intro Cons.IH) simp_all
    with sw show ?thesis by (simp add: io_bind_def)
  qed
qed simp

text \<open>C8: round robin. When all processes are ready, as many timer switches as there are processes give each of them exactly
  one time slice, in queue order: every process sees only its own changes to its registers, and the queue and the
  registers on the CPU end where they were, each frame advanced by one slice.\<close>

theorem round_robin:
  assumes "\<forall>p \<in> set ps. pr_state p = Ready" and "ps \<noteq> []" and "sc_processes s = ps" and "tf = pr_trap_frame (hd ps)"
  shows "slices poll wfi user (length ps) tf s d =
    Some (Inr ((user tf, s\<lparr>sc_processes := map (ran user) ps\<rparr>), d))"
proof -
  have "hd (map (ran user) ps) = ran user (hd ps)" using assms(2) by (simp add: hd_map)
  with slices_rotate [of ps "[]" s tf poll wfi user d] assms show ?thesis by (simp add: ran_def)
qed

subsection \<open>No process is lost\<close>

text \<open>Polling an event does not exchange the stack of a process.\<close>

definition poll_keeps_stack :: "('d, 'w) poller \<Rightarrow> bool" where
  "poll_keeps_stack poll \<longleftrightarrow>
     (\<forall>f p d b f' p' d'. poll f p d = Some (Inr ((b, f', p'), d')) \<longrightarrow> pr_stack p' = pr_stack p)"

lemma is_ready_stack:
  assumes "poll_keeps_stack poll" and "is_ready poll p d = Some (Inr ((b, p'), d'))"
  shows "pr_stack p' = pr_stack p"
proof (cases "pr_state p")
  case (Waiting f)
  with assms(2) obtain a f' p2 d1 where "poll f (p\<lparr>pr_state := Ready\<rparr>) d = Some (Inr ((a, f', p2), d1))"
    "pr_stack p' = pr_stack p2"
    by (auto simp: is_ready_def io_bind_eq_ok_iff split: prod.splits if_splits)
  with assms(1) show ?thesis unfolding poll_keeps_stack_def by fastforce
qed (use assms(2) in \<open>auto simp: is_ready_def io_return_def\<close>)

lemma position_ready_stacks:
  assumes "poll_keeps_stack poll" and "position_ready poll ps d = Some (Inr ((i, ps'), d'))"
  shows "map pr_stack ps' = map pr_stack ps" and "\<forall>k. i = Some k \<longrightarrow> k < length ps'"
proof -
  have "map pr_stack ps' = map pr_stack ps \<and> (\<forall>k. i = Some k \<longrightarrow> k < length ps')"
    using assms(2)
  proof (induction ps arbitrary: i ps' d d')
    case Nil
    then show ?case by (simp add: io_return_def)
  next
    case (Cons p ps)
    from Cons.prems obtain b p1 d1 where r: "is_ready poll p d = Some (Inr ((b, p1), d1))"
      and k: "(if b then io_return (Some 0, p1 # ps)
        else io_bind (position_ready poll ps) (\<lambda>(i, ps'). io_return (map_option Suc i, p1 # ps'))) d1 = Some (Inr ((i, ps'), d'))"
      by (auto simp: io_bind_eq_ok_iff split: prod.splits)
    note st = is_ready_stack [OF assms(1) r]
    show ?case
    proof (cases b)
      case True
      with k st show ?thesis by (auto simp: io_return_def)
    next
      case False
      with k obtain j ps1 where "position_ready poll ps d1 = Some (Inr ((j, ps1), d'))" "i = map_option Suc j" "ps' = p1 # ps1"
        by (auto simp: io_bind_eq_ok_iff split: prod.splits)
      with Cons.IH [of d1 j ps1 d'] st show ?thesis by auto
    qed
  qed
  then show "map pr_stack ps' = map pr_stack ps" and "\<forall>k. i = Some k \<longrightarrow> k < length ps'" by blast+
qed

lemma next_process_stacks:
  assumes "poll_keeps_stack poll" and "next_process poll s d = Some (Inr ((r, s'), d'))"
  shows "mset (map pr_stack (sc_processes s')) = mset (map pr_stack (sc_processes s))"
    and "\<forall>p. r = Some p \<longrightarrow> (\<exists>ps. sc_processes s' = p # ps)"
proof -
  obtain i ps where i: "position_ready poll (sc_processes s) d = Some (Inr ((i, ps), d'))"
    and k: "(case i of None \<Rightarrow> io_return (None, s\<lparr>sc_processes := ps\<rparr>)
      | Some k \<Rightarrow> (let s' = s\<lparr>sc_processes := drop k ps @ take k ps\<rparr> in io_return (current s', s'))) d' = Some (Inr ((r, s'), d'))"
  proof -
    from assms(2) obtain i ps d1 where i: "position_ready poll (sc_processes s) d = Some (Inr ((i, ps), d1))"
      and k: "(case i of None \<Rightarrow> io_return (None, s\<lparr>sc_processes := ps\<rparr>)
      | Some k \<Rightarrow> (let s' = s\<lparr>sc_processes := drop k ps @ take k ps\<rparr> in io_return (current s', s'))) d1 = Some (Inr ((r, s'), d'))"
      by (auto simp: next_process_def io_bind_eq_ok_iff)
    from k have "d1 = d'" by (auto simp: Let_def split: option.splits)
    with i k that show thesis by simp
  qed
  note st = position_ready_stacks [OF assms(1) i]
  have "mset (map pr_stack (drop k ps @ take k ps)) = mset (map pr_stack ps)" for k
    by (metis append_take_drop_id map_append mset_append union_commute)
  with k arg_cong [OF st(1), of mset] show "mset (map pr_stack (sc_processes s')) = mset (map pr_stack (sc_processes s))"
    by (auto simp: Let_def simp del: map_append mset_append mset_map split: option.splits)
  from k st(2) show "\<forall>p. r = Some p \<longrightarrow> (\<exists>ps. sc_processes s' = p # ps)"
    by (auto simp: Let_def current_def split: option.splits list.splits)
qed

lemma switch_loop_stacks:
  fixes poll :: "('d, 'w) poller"
  assumes "poll_keeps_stack poll" and "switch_loop poll wfi s d = Some (Inr ((pid, tf, s'), d'))"
  shows "mset (map pr_stack (sc_processes s')) = mset (map pr_stack (sc_processes s)) \<and>
    (\<exists>p ps. sc_processes s' = p # ps \<and> pr_trap_frame p = tf \<and> tf_tpidr tf = pid)"
proof -
  let ?P = "\<lambda>(poll :: ('d, 'w) poller) (wfi :: ('d, unit) io) (s :: 'w scheduler) (d :: 'd)
    (r :: ((id \<times> trap_frame \<times> 'w scheduler) \<times> 'd) outcome). poll_keeps_stack poll \<longrightarrow> (\<forall>pid tf s' d'. r = Inr ((pid, tf, s'), d') \<longrightarrow>
    mset (map pr_stack (sc_processes s')) = mset (map pr_stack (sc_processes s)) \<and>
    (\<exists>p ps. sc_processes s' = p # ps \<and> pr_trap_frame p = tf \<and> tf_tpidr tf = pid))"
  have "?P poll wfi s d (Inr ((pid, tf, s'), d'))"
    using assms(2)
  proof (rule switch_loop.raw_induct [where P = ?P, rotated])
    fix loop :: "('d, 'w) poller \<Rightarrow> ('d, unit) io \<Rightarrow> 'w scheduler \<Rightarrow> ('d, id \<times> trap_frame \<times> 'w scheduler) io"
      and poll :: "('d, 'w) poller" and wfi :: "('d, unit) io" and s :: "'w scheduler" and d :: 'd and r
    assume rec: "\<And>poll wfi s d r. loop poll wfi s d = Some r \<Longrightarrow> ?P poll wfi s d r"
      and run: "io_bind (next_process poll s) (\<lambda>r d. case fst r of
           None \<Rightarrow> io_then wfi (loop poll wfi (snd r)) d
         | Some p \<Rightarrow> io_return (tf_tpidr (pr_trap_frame p), pr_trap_frame p, snd r) d) d = Some r"
    show "?P poll wfi s d r"
    proof (intro impI allI)
      fix pid tf s' d'
      assume keeps: "poll_keeps_stack poll" and r: "r = Inr ((pid, tf, s'), d')"
      from run r obtain c s1 d1 where c: "next_process poll s d = Some (Inr ((c, s1), d1))"
        and k: "(case c of
             None \<Rightarrow> io_then wfi (loop poll wfi s1) d1
           | Some p \<Rightarrow> io_return (tf_tpidr (pr_trap_frame p), pr_trap_frame p, s1) d1) = Some (Inr ((pid, tf, s'), d'))"
        by (auto simp: io_bind_eq_ok_iff cong: option.case_cong)
      note n = next_process_stacks [OF keeps c]
      show "mset (map pr_stack (sc_processes s')) = mset (map pr_stack (sc_processes s)) \<and>
        (\<exists>p ps. sc_processes s' = p # ps \<and> pr_trap_frame p = tf \<and> tf_tpidr tf = pid)"
      proof (cases c)
        case None
        with k obtain d2 where "loop poll wfi s1 d2 = Some (Inr ((pid, tf, s'), d'))"
          by (auto simp: io_then_def io_bind_eq_ok_iff)
        from rec [OF this] keeps n(1) show ?thesis by simp
      next
        case (Some p)
        with k n show ?thesis by (auto simp: io_return_def)
      qed
    qed
  qed
  with assms(1) show ?thesis by blast
qed

text \<open>A context switch loses and duplicates no process, whatever states they are in: the stacks in the queue are the same
  multiset, the switched-in process is at the front, and its frame and identifier are the ones returned.\<close>

theorem switch_keeps_processes:
  assumes "poll_keeps_stack poll" and "switch poll wfi new_state tf s d = Some (Inr ((Some pid, tf', s'), d'))"
  shows "mset (map pr_stack (sc_processes s')) = mset (map pr_stack (sc_processes s)) \<and>
    (\<exists>p ps. sc_processes s' = p # ps \<and> pr_trap_frame p = tf' \<and> tf_tpidr tf' = pid)"
proof (cases "sc_processes s")
  case Nil
  with assms(2) show ?thesis by (simp add: switch_def io_return_def)
next
  case (Cons cur rest)
  with assms(2) have "switch_loop poll wfi (s\<lparr>sc_processes := rest @ [cur\<lparr>pr_trap_frame := tf, pr_state := new_state\<rparr>]\<rparr>) d
      = Some (Inr ((pid, tf', s'), d'))"
    by (auto simp: switch_def Let_def io_bind_eq_ok_iff split: prod.splits)
  from switch_loop_stacks [OF assms(1) this] Cons show ?thesis by simp
qed

subsection \<open>Examples\<close>

definition ex_frame :: "u64 \<Rightarrow> trap_frame" where
  "ex_frame n = trap_frame_default\<lparr>tf_sp := n\<rparr>"

definition ex_user :: "trap_frame \<Rightarrow> trap_frame" where
  "ex_user tf = tf\<lparr>tf_x0 := tf_x0 tf + 1\<rparr>"

definition ex_process :: "u64 \<Rightarrow> unit process" where
  "ex_process n = \<lparr>pr_trap_frame = ex_frame n, pr_box = 0, pr_stack = \<lparr>st_ptr = n\<rparr>, pr_state = Ready\<rparr>"

definition ex_poll :: "(unit, unit) poller" where
  "ex_poll f p = io_return (False, f, p)"

definition ex_queue :: "unit scheduler" where
  "ex_queue = \<lparr>sc_processes = [ex_process 16, ex_process 32], sc_current_id = Some 1, sc_last_id = Some 1\<rparr>"

lemma ex_process_simps:
  "pr_state (ex_process n) = Ready" "pr_trap_frame (ex_process n) = ex_frame n" "pr_stack (ex_process n) = \<lparr>st_ptr = n\<rparr>"
  "sc_processes ex_queue = [ex_process 16, ex_process 32]"
  by (simp_all add: ex_process_def ex_queue_def)

theorem round_robin_witness:
  "slices ex_poll (io_return ()) ex_user 2 (ex_frame 16) ex_queue () =
     Some (Inr ((ex_user (ex_frame 16), ex_queue\<lparr>sc_processes := map (ran ex_user) [ex_process 16, ex_process 32]\<rparr>), ()))"
proof -
  have two: "(2::nat) = length [ex_process 16, ex_process 32]" by simp
  show ?thesis unfolding two by (rule round_robin) (simp_all add: ex_process_simps)
qed

theorem switch_keeps_processes_witness:
  "\<exists>pid tf' s' d'. switch ex_poll (io_return ()) Running (ex_frame 0) ex_queue () = Some (Inr ((Some pid, tf', s'), d')) \<and>
     mset (map pr_stack (sc_processes s')) = mset [\<lparr>st_ptr = 16\<rparr>, \<lparr>st_ptr = 32\<rparr>]"
proof -
  let ?q = "[ex_process 32, (ex_process 16)\<lparr>pr_trap_frame := ex_frame 0, pr_state := Running\<rparr>]"
  have run: "switch ex_poll (io_return ()) Running (ex_frame 0) ex_queue () =
      Some (Inr ((Some (tf_tpidr (ex_frame 32)), ex_frame 32, ex_queue\<lparr>sc_processes := ?q\<rparr>), ()))"
    using switch_front_ready [of ex_queue "ex_process 16" "[ex_process 32]" Running "ex_frame 0" "ex_process 32" "[(ex_process 16)\<lparr>pr_trap_frame := ex_frame 0, pr_state := Running\<rparr>]"]
    by (simp add: ex_process_simps)
  have "poll_keeps_stack ex_poll" by (simp add: poll_keeps_stack_def ex_poll_def)
  from switch_keeps_processes [OF this run] run show ?thesis by (auto simp: ex_process_simps)
qed

end
