(* ===== verification/Syndrome.thy ===== *)
theory Syndrome
  imports Prelude
begin

text \<open>
  Decoding of the exception syndrome register, \<open>kernel/src/traps/syndrome.rs\<close>. Match arms are tried in
  the order of the source; \<open>Fault::from\<close> panics on a class it has no arm for.
\<close>

datatype fault =
    AddressSize
  | Translation
  | AccessFlag
  | Permission
  | Alignment
  | TlbConflict
  | OtherFault u8

definition exception_class :: "u32 \<Rightarrow> u8" where
  "exception_class val = ucast (drop_bit 26 val)"

definition level :: "u32 \<Rightarrow> u8" where
  "level val = ucast (val AND 0x3)"

definition fault_code :: "u32 \<Rightarrow> u8" where
  "fault_code val = ucast (drop_bit 2 val AND 0xf)"

definition instruction_abort_fault :: "u32 \<Rightarrow> fault" where
  "instruction_abort_fault val =
     (let code = fault_code val in
      if code = 0b0000 then AddressSize
      else if code = 0b0001 then Translation
      else if code = 0b0010 then AccessFlag
      else if code = 0b0011 then Permission
      else if code = 0b1100 then TlbConflict
      else OtherFault code)"

definition data_abort_fault :: "u32 \<Rightarrow> fault" where
  "data_abort_fault val =
     (let code = fault_code val in
      if code = 0b0000 then AddressSize
      else if code = 0b0001 then Translation
      else if code = 0b0010 then AccessFlag
      else if code = 0b0011 then Permission
      else if code = 0b1000 then Alignment
      else if code = 0b1100 then TlbConflict
      else OtherFault code)"

text \<open>The second data abort pattern is written \<open>100101\<close>, in decimal; as an 8-bit literal it is \<open>100101 mod 256\<close>.\<close>

definition fault_from :: "u32 \<Rightarrow> fault outcome" where
  "fault_from val =
     (let class = exception_class val in
      if class = 0b100000 \<or> class = 0b100001 then Inr (instruction_abort_fault val)
      else if class = 0b100100 \<or> class = 100101 then Inr (data_abort_fault val)
      else Inl (Panic ''no fault for given exception class''))"

datatype syndrome =
    Unknown
  | WfiWfe
  | McrMrc
  | McrrMrrc
  | LdcStc
  | SimdFp
  | Vmrs
  | Mrrc
  | IllegalExecutionState
  | Svc u16
  | Hvc u16
  | Smc u16
  | MsrMrsSystem
  | InstructionAbort fault u8
  | PCAlignmentFault
  | DataAbort fault u8
  | SpAlignmentFault
  | TrappedFpu
  | SError
  | Breakpoint
  | Step
  | Watchpoint
  | Brk u16
  | OtherSyndrome u32

definition syndrome_from :: "u32 \<Rightarrow> syndrome outcome" where
  "syndrome_from esr =
     (let class = exception_class esr in
      if class = 0b000000 then Inr Unknown
      else if class = 0b000001 then Inr WfiWfe
      else if class = 0b000011 \<or> class = 0b000101 then Inr McrMrc
      else if class = 0b000100 then Inr McrrMrrc
      else if class = 0b000110 then Inr LdcStc
      else if class = 0b000111 then Inr SimdFp
      else if class = 0b001000 then Inr Vmrs
      else if class = 0b001100 then Inr Mrrc
      else if class = 0b001110 then Inr IllegalExecutionState
      else if class = 0b010101 then Inr (Svc (ucast esr))
      else if class = 0b010110 then Inr (Hvc (ucast esr))
      else if class = 0b010111 then Inr (Smc (ucast esr))
      else if class = 0b011000 then Inr MsrMrsSystem
      else if class = 0b100000 \<or> class = 0b100001
      then and_then (fault_from esr) (\<lambda>kind. Inr (InstructionAbort kind (level esr)))
      else if class = 0b100010 then Inr PCAlignmentFault
      else if class = 0b100100 \<or> class = 0b100101
      then and_then (fault_from esr) (\<lambda>kind. Inr (DataAbort kind (level esr)))
      else if class = 0b100110 then Inr SpAlignmentFault
      else if class = 0b101100 then Inr TrappedFpu
      else if class = 0b101111 then Inr SError
      else if class = 0b110000 \<or> class = 0b110001 then Inr Breakpoint
      else if class = 0b110010 \<or> class = 0b110011 then Inr Step
      else if class = 0b110100 \<or> class = 0b110101 then Inr Watchpoint
      else if class = 0b111100 then Inr (Brk (ucast esr))
      else Inr (OtherSyndrome esr))"

subsection \<open>Properties\<close>

text \<open>A raw value of the register for a class and an instruction specific field.\<close>

definition esr_of :: "u8 \<Rightarrow> u16 \<Rightarrow> u32" where
  "esr_of class imm = push_bit 26 (ucast class) OR ucast imm"

lemma esr_of_decode:
  assumes "class < 64"
  shows "exception_class (esr_of class imm) = class" "(ucast (esr_of class imm) :: u16) = imm"
proof -
  from assms have six: "take_bit 6 class = class" by (simp add: word_unat_eq_iff unsigned_take_bit_eq take_bit_nat_eq_self word_less_nat_alt)
  have low: "\<not> bit imm n" if "16 \<le> n" for n using that by (auto dest: bit_imp_le_length)
  have "bit class n \<Longrightarrow> n < 6" for n using six by (metis bit_take_bit_iff)
  then show "exception_class (esr_of class imm) = class"
    by (intro bit_word_eqI) (auto simp: exception_class_def esr_of_def bit_simps low)
  show "(ucast (esr_of class imm) :: u16) = imm"
    by (rule bit_word_eqI) (auto simp: esr_of_def bit_simps)
qed

text \<open>Supervisor calls and breakpoints are decoded to their immediate operand.\<close>

theorem svc_brk_roundtrip:
  "syndrome_from (esr_of 0b010101 imm) = Inr (Svc imm) \<and> syndrome_from (esr_of 0b111100 imm) = Inr (Brk imm)"
  by (simp add: syndrome_from_def Let_def esr_of_decode)

lemma syndrome_panics_cases:
  "exception_class esr \<noteq> 0b100101 \<Longrightarrow> \<exists>syn. syndrome_from esr = Inr syn"
  "exception_class esr = 0b100101 \<Longrightarrow> \<exists>p. syndrome_from esr = Inl p"
proof -
  have f: "fault_from esr = (if exception_class esr = 0b100000 \<or> exception_class esr = 0b100001 then Inr (instruction_abort_fault esr)
    else if exception_class esr = 0b100100 \<or> exception_class esr = 5 then Inr (data_abort_fault esr)
    else Inl (Panic ''no fault for given exception class''))"
    by (simp add: fault_from_def Let_def)
  from f show "exception_class esr \<noteq> 0b100101 \<Longrightarrow> \<exists>syn. syndrome_from esr = Inr syn"
    by (auto simp: syndrome_from_def Let_def)
  from f show "exception_class esr = 0b100101 \<Longrightarrow> \<exists>p. syndrome_from esr = Inl p"
    by (auto simp: syndrome_from_def Let_def)
qed

text \<open>C17: decoding panics on exactly one exception class, a data abort taken without a change of exception level
  (0b100101): the arm for it in \<open>Fault::from\<close> is the decimal number 100101, which no class is.\<close>

theorem syndrome_panics_iff:
  "(\<exists>p. syndrome_from esr = Inl p) \<longleftrightarrow> exception_class esr = 0b100101"
  using syndrome_panics_cases [of esr] by force

end
