(* ===== verification/IoError.thy ===== *)
theory IoError
  imports Prelude
begin

text \<open>
  I/O errors of the kernel's standard library, \<open>std/src/io/error.rs\<close>, with the platform functions they
  use (\<open>std/src/sys/ros/mod.rs\<close>). The boxed error of a custom error is its message, the only payload the
  kernel builds.
\<close>

datatype error_kind =
    NotFound
  | PermissionDenied
  | ConnectionRefused
  | ConnectionReset
  | ConnectionAborted
  | NotConnected
  | AddrInUse
  | AddrNotAvailable
  | BrokenPipe
  | AlreadyExists
  | WouldBlock
  | InvalidInput
  | InvalidData
  | TimedOut
  | WriteZero
  | Interrupted
  | OtherKind
  | UnexpectedEof
  | Nonexhaustive

record custom =
  cu_kind :: error_kind
  cu_error :: string

datatype io_error =
    Os i32
  | Simple error_kind
  | Custom custom

type_synonym 'a io_result = "io_error + 'a"

definition as_str :: "error_kind \<Rightarrow> string outcome" where
  "as_str k =
     (case k of
        NotFound \<Rightarrow> Inr ''entity not found''
      | PermissionDenied \<Rightarrow> Inr ''permission denied''
      | ConnectionRefused \<Rightarrow> Inr ''connection refused''
      | ConnectionReset \<Rightarrow> Inr ''connection reset''
      | ConnectionAborted \<Rightarrow> Inr ''connection aborted''
      | NotConnected \<Rightarrow> Inr ''not connected''
      | AddrInUse \<Rightarrow> Inr ''address in use''
      | AddrNotAvailable \<Rightarrow> Inr ''address not available''
      | BrokenPipe \<Rightarrow> Inr ''broken pipe''
      | AlreadyExists \<Rightarrow> Inr ''entity already exists''
      | WouldBlock \<Rightarrow> Inr ''operation would block''
      | InvalidInput \<Rightarrow> Inr ''invalid input parameter''
      | InvalidData \<Rightarrow> Inr ''invalid data''
      | TimedOut \<Rightarrow> Inr ''timed out''
      | WriteZero \<Rightarrow> Inr ''write zero''
      | Interrupted \<Rightarrow> Inr ''operation interrupted''
      | OtherKind \<Rightarrow> Inr ''other os error''
      | UnexpectedEof \<Rightarrow> Inr ''unexpected end of file''
      | Nonexhaustive \<Rightarrow> Inl (Panic ''internal error: entered unreachable code''))"

definition error_from_kind :: "error_kind \<Rightarrow> io_error" where
  "error_from_kind kind = Simple kind"

definition error_new :: "error_kind \<Rightarrow> string \<Rightarrow> io_error" where
  "error_new kind error = Custom \<lparr>cu_kind = kind, cu_error = error\<rparr>"

definition decode_error_kind :: "i32 \<Rightarrow> error_kind" where
  "decode_error_kind errno = OtherKind"

definition error_string :: "i32 \<Rightarrow> string" where
  "error_string errno = ''unknown error''"

definition errno :: i32 where
  "errno = - 1"

definition from_raw_os_error :: "i32 \<Rightarrow> io_error" where
  "from_raw_os_error code = Os code"

definition last_os_error :: io_error where
  "last_os_error = from_raw_os_error errno"

definition raw_os_error :: "io_error \<Rightarrow> i32 option" where
  "raw_os_error e = (case e of Os i \<Rightarrow> Some i | Custom _ \<Rightarrow> None | Simple _ \<Rightarrow> None)"

definition get_ref :: "io_error \<Rightarrow> string option" where
  "get_ref e = (case e of Os _ \<Rightarrow> None | Simple _ \<Rightarrow> None | Custom c \<Rightarrow> Some (cu_error c))"

definition get_mut :: "(string \<Rightarrow> string) \<Rightarrow> io_error \<Rightarrow> io_error option" where
  "get_mut f e = (case e of Os _ \<Rightarrow> None | Simple _ \<Rightarrow> None | Custom c \<Rightarrow> Some (Custom (c\<lparr>cu_error := f (cu_error c)\<rparr>)))"

definition into_inner_error :: "io_error \<Rightarrow> string option" where
  "into_inner_error e = (case e of Os _ \<Rightarrow> None | Simple _ \<Rightarrow> None | Custom c \<Rightarrow> Some (cu_error c))"

definition kind :: "io_error \<Rightarrow> error_kind" where
  "kind e = (case e of Os code \<Rightarrow> decode_error_kind code | Custom c \<Rightarrow> cu_kind c | Simple k \<Rightarrow> k)"

definition description :: "io_error \<Rightarrow> string outcome" where
  "description e = (case e of Custom c \<Rightarrow> Inr (cu_error c) | _ \<Rightarrow> as_str (kind e))"

lemmas io_error_defs = error_from_kind_def error_new_def decode_error_kind_def from_raw_os_error_def
  raw_os_error_def get_ref_def get_mut_def into_inner_error_def kind_def description_def

text \<open>An error is built from exactly one of a kind, a kind with a message, and an operating system code, and the accessors
  recover it.\<close>

lemma kind_of_constructed [simp]:
  "kind (error_new k msg) = k" "kind (error_from_kind k) = k" "kind (from_raw_os_error c) = OtherKind"
  by (simp_all add: io_error_defs)

lemma error_accessors:
  "raw_os_error e = Some c \<longleftrightarrow> e = from_raw_os_error c"
  "get_ref (error_new k msg) = Some msg"
  "get_ref e = into_inner_error e"
  by (cases e; simp add: io_error_defs)+

text \<open>Describing an error panics only for the kind that exists to keep matches open.\<close>

lemma description_total: "description e = Inl p \<longleftrightarrow> e = Simple Nonexhaustive \<and> p = Panic ''internal error: entered unreachable code''"
  by (cases e) (auto simp: io_error_defs as_str_def split: error_kind.splits)

end
