(* ===== verification/Uart.thy ===== *)
theory Uart
  imports Timer IoError
begin

text \<open>
  The mini UART, \<open>pi/src/uart.rs\<close>: its initialization, byte-wise blocking input and output, the
  newline translation of \<open>fmt::Write\<close>, and the \<open>io::Read\<close> and \<open>io::Write\<close> implementations. Each of the
  polling loops is a partial function: \<open>None\<close> is a poll that never succeeds.
\<close>

definition MU_REG_BASE :: usize where
  "MU_REG_BASE = IO_BASE + 0x215040"

definition AUX_ENABLES :: usize where
  "AUX_ENABLES = IO_BASE + 0x215004"

definition DataReady :: u32 where
  "DataReady = 1"

definition TxAvailable :: u32 where
  "TxAvailable = push_bit 5 1"

definition TxIdle :: u32 where
  "TxIdle = push_bit 6 1"

definition DataSize8Bit :: u32 where
  "DataSize8Bit = 0b11"

definition EnableRx :: u32 where
  "EnableRx = 1"

definition EnableTx :: u32 where
  "EnableTx = push_bit 1 1"

definition ClearRxFifo :: u32 where
  "ClearRxFifo = push_bit 1 1"

definition ClearTxFifo :: u32 where
  "ClearTxFifo = push_bit 2 1"

lemmas uart_bits = DataReady_def TxAvailable_def TxIdle_def DataSize8Bit_def EnableRx_def EnableTx_def
  ClearRxFifo_def ClearTxFifo_def

record mini_uart =
  mu_registers :: usize
  mu_timeout :: "u32 option"

text \<open>The registers of the \<open>#[repr(C)]\<close> structure.\<close>

definition MU_IO :: "usize \<Rightarrow> usize" where "MU_IO r = r"

definition MU_IER :: "usize \<Rightarrow> usize" where "MU_IER r = r + 0x4"

definition MU_IIR :: "usize \<Rightarrow> usize" where "MU_IIR r = r + 0x8"

definition MU_LCR :: "usize \<Rightarrow> usize" where "MU_LCR r = r + 0xC"

definition MU_MCR :: "usize \<Rightarrow> usize" where "MU_MCR r = r + 0x10"

definition MU_LSR :: "usize \<Rightarrow> usize" where "MU_LSR r = r + 0x14"

definition MU_CNTL :: "usize \<Rightarrow> usize" where "MU_CNTL r = r + 0x20"

definition MU_BAUD :: "usize \<Rightarrow> usize" where "MU_BAUD r = r + 0x28"

lemmas uart_regs = MU_IO_def MU_IER_def MU_IIR_def MU_LCR_def MU_MCR_def MU_LSR_def MU_CNTL_def MU_BAUD_def

subsection \<open>Initialization\<close>

definition set_reg :: "'d bus \<Rightarrow> usize \<Rightarrow> u32 \<Rightarrow> ('d, unit) io" where
  "set_reg bus p v = io_state (\<lambda>d. ((), vwrite (cell32 bus p) v d))"

definition or_reg :: "'d bus \<Rightarrow> usize \<Rightarrow> u32 \<Rightarrow> ('d, unit) io" where
  "or_reg bus p v = io_state (\<lambda>d. ((), or_mask (cell32 bus p) v d))"

definition uart_new_inner :: "'d bus \<Rightarrow> usize \<Rightarrow> usize \<Rightarrow> st_alt gpio \<Rightarrow> st_alt gpio \<Rightarrow> ('d, mini_uart) io" where
  "uart_new_inner bus aux_enables r gpio14 gpio15 =
     io_then (io_state (\<lambda>d. ((), or_mask (cell8 bus aux_enables) 1 d)))
     (io_then (set_reg bus (MU_IER r) 0)
     (io_then (set_reg bus (MU_CNTL r) 0)
     (io_then (or_reg bus (MU_LCR r) DataSize8Bit)
     (io_then (set_reg bus (MU_MCR r) 0)
     (io_then (set_reg bus (MU_IER r) 0)
     (io_then (set_reg bus (MU_IIR r) (ClearRxFifo OR ClearTxFifo))
     (io_then (set_reg bus (MU_BAUD r) 270)
     (io_then (disable_pull_up_down bus gpio14)
     (io_then (disable_pull_up_down bus gpio15)
     (io_then (or_reg bus (MU_CNTL r) (EnableRx OR EnableTx))
     (io_return \<lparr>mu_registers = r, mu_timeout = None\<rparr>)))))))))))"

definition uart_new :: "'d bus \<Rightarrow> ('d, mini_uart) io" where
  "uart_new bus =
     io_bind (io_lift (gpio_new 14)) (\<lambda>g. io_bind (into_alt bus Alt5 g) (\<lambda>gpio14.
     io_bind (io_lift (gpio_new 15)) (\<lambda>g. io_bind (into_alt bus Alt5 g) (\<lambda>gpio15.
     uart_new_inner bus AUX_ENABLES MU_REG_BASE gpio14 gpio15))))"

definition set_read_timeout :: "u32 \<Rightarrow> mini_uart \<Rightarrow> mini_uart" where
  "set_read_timeout milliseconds u = u\<lparr>mu_timeout := Some milliseconds\<rparr>"

subsection \<open>Input and output\<close>

definition lsr :: "'d bus \<Rightarrow> mini_uart \<Rightarrow> ('d, u32) io" where
  "lsr bus u = io_state (vread (cell32 bus (MU_LSR (mu_registers u))))"

definition write_fifo_full :: "'d bus \<Rightarrow> mini_uart \<Rightarrow> ('d, bool) io" where
  "write_fifo_full bus u = io_bind (lsr bus u) (\<lambda>v. io_return (v AND TxAvailable = 0))"

partial_function (option) uart_write_byte :: "'d bus \<Rightarrow> mini_uart \<Rightarrow> u8 \<Rightarrow> ('d, unit) io" where
  "uart_write_byte bus u byte d =
     io_bind (write_fifo_full bus u) (\<lambda>full d.
       if full then io_then (spin_sleep_us bus 10) (\<lambda>d. uart_write_byte bus u byte d) d
       else set_reg bus (MU_IO (mu_registers u)) (ucast byte) d) d"

definition has_byte :: "'d bus \<Rightarrow> mini_uart \<Rightarrow> ('d, bool) io" where
  "has_byte bus u = io_bind (lsr bus u) (\<lambda>v. io_return (v AND DataReady \<noteq> 0))"

text \<open>\<open>wait_for_byte\<close>: the loop with a deadline and the loop without.\<close>

partial_function (option) wait_deadline :: "'d bus \<Rightarrow> mini_uart \<Rightarrow> u64 \<Rightarrow> ('d, unit + unit) io" where
  "wait_deadline bus u deadline d =
     io_bind (io_state (current_time bus)) (\<lambda>t d.
       if deadline > t
       then io_bind (has_byte bus u) (\<lambda>ready d.
              if ready then io_return (Inr ()) d
              else io_then (spin_sleep_us bus 10) (\<lambda>d. wait_deadline bus u deadline d) d) d
       else io_return (Inl ()) d) d"

partial_function (option) wait_forever :: "'d bus \<Rightarrow> mini_uart \<Rightarrow> ('d, unit + unit) io" where
  "wait_forever bus u d =
     io_bind (has_byte bus u) (\<lambda>ready d.
       if ready then io_return (Inr ()) d
       else io_then (spin_sleep_us bus 10) (\<lambda>d. wait_forever bus u d) d) d"

definition wait_for_byte :: "'d bus \<Rightarrow> mini_uart \<Rightarrow> ('d, unit + unit) io" where
  "wait_for_byte bus u =
     (case mu_timeout u of
        Some milliseconds \<Rightarrow>
          io_bind (io_state (current_time bus)) (\<lambda>t.
            wait_deadline bus u (t + ucast (milliseconds * 1000)))
      | None \<Rightarrow> wait_forever bus u)"

partial_function (option) uart_read_byte :: "'d bus \<Rightarrow> mini_uart \<Rightarrow> ('d, u8) io" where
  "uart_read_byte bus u d =
     io_bind (has_byte bus u) (\<lambda>ready d.
       if \<not> ready then io_then (spin_sleep_us bus 10) (\<lambda>d. uart_read_byte bus u d) d
       else io_bind (io_state (vread (cell32 bus (MU_IO (mu_registers u))))) (\<lambda>v. io_return (ucast v)) d) d"

definition uart_write_str :: "'d bus \<Rightarrow> mini_uart \<Rightarrow> u8 list \<Rightarrow> ('d, unit) io" where
  "uart_write_str bus u s =
     io_for (\<lambda>b. if b = 10 then io_then (uart_write_byte bus u 13) (uart_write_byte bus u 10)
                 else uart_write_byte bus u b) s"

text \<open>\<open>io::Read::read\<close>: the bytes go to the front of the caller's buffer.\<close>

partial_function (option) uart_read_loop :: "'d bus \<Rightarrow> mini_uart \<Rightarrow> nat \<Rightarrow> u8 list \<Rightarrow> ('d, nat \<times> u8 list) io" where
  "uart_read_loop bus u n buf d =
     (if n < length buf
      then io_bind (has_byte bus u) (\<lambda>ready d.
             if ready
             then io_bind (uart_read_byte bus u) (\<lambda>b d. uart_read_loop bus u (n + 1) (buf[n := b]) d) d
             else io_return (n, buf) d) d
      else io_return (n, buf) d)"

definition uart_read :: "'d bus \<Rightarrow> mini_uart \<Rightarrow> u8 list \<Rightarrow> ('d, nat io_result \<times> u8 list) io" where
  "uart_read bus u buf =
     io_bind (wait_for_byte bus u) (\<lambda>r.
       case r of
         Inl _ \<Rightarrow> io_return (Inl (error_new TimedOut ''uart: read timeout''), buf)
       | Inr _ \<Rightarrow> io_bind (uart_read_loop bus u 0 buf) (\<lambda>(n, buf). io_return (Inr n, buf)))"

definition uart_write :: "'d bus \<Rightarrow> mini_uart \<Rightarrow> u8 list \<Rightarrow> ('d, nat io_result) io" where
  "uart_write bus u buf = io_then (io_for (uart_write_byte bus u) buf) (io_return (Inr (length buf)))"

partial_function (option) uart_flush :: "'d bus \<Rightarrow> mini_uart \<Rightarrow> ('d, unit io_result) io" where
  "uart_flush bus u d =
     io_bind (lsr bus u) (\<lambda>v d.
       if v AND TxIdle \<noteq> 1 then io_then (spin_sleep_us bus 10) (\<lambda>d. uart_flush bus u d) d
       else io_return (Inr ()) d) d"

subsection \<open>The device\<close>

text \<open>
  What the mini UART and the system timer document. \<open>rx\<close> is the input that is still to be read, received or not yet
  arrived; the next byte arrives after \<open>lag\<close> more polls. \<open>tx\<close> is what has been put into the transmit FIFO, which has room
  after \<open>busy\<close> more polls. Bit 0 of the line status says that a byte has been received, bit 5 that the transmit FIFO has
  room. A load of the data register takes the byte that has been received. A store sends a byte when there is
  room; nothing is said about a store into a full FIFO. Loads of the timer leave the port alone, and the counter, which runs freely, is
  eventually seen ten microseconds ahead.
\<close>

definition uart_device ::
  "'d bus \<Rightarrow> usize \<Rightarrow> ('d \<Rightarrow> u8 list) \<Rightarrow> ('d \<Rightarrow> u8 list) \<Rightarrow> ('d \<Rightarrow> nat) \<Rightarrow> ('d \<Rightarrow> nat) \<Rightarrow> bool" where
  "uart_device bus r rx tx busy lag \<longleftrightarrow>
     (\<forall>d. case bus_read32 bus (MU_LSR r) d of (v, d') \<Rightarrow>
        (v AND 1 \<noteq> 0 \<longleftrightarrow> rx d \<noteq> [] \<and> lag d = 0) \<and> (v AND 32 \<noteq> 0 \<longleftrightarrow> busy d = 0) \<and>
        rx d' = rx d \<and> tx d' = tx d \<and> busy d' \<le> busy d - 1 \<and> lag d' \<le> lag d - 1) \<and>
     (\<forall>d b bs. rx d = b # bs \<and> lag d = 0 \<longrightarrow>
        (case bus_read32 bus (MU_IO r) d of (v, d') \<Rightarrow> ucast v = b \<and> rx d' = bs \<and> tx d' = tx d)) \<and>
     (\<forall>d v. busy d = 0 \<longrightarrow>
        rx (bus_write32 bus (MU_IO r) v d) = rx d \<and> tx (bus_write32 bus (MU_IO r) v d) = tx d @ [ucast v]) \<and>
     (\<forall>d. \<forall>p \<in> {TIMER_CLO, TIMER_CHI}. case bus_read32 bus p d of (_, d') \<Rightarrow>
        rx d' = rx d \<and> tx d' = tx d \<and> busy d' \<le> busy d \<and> lag d' \<le> lag d) \<and>
     (\<forall>d. \<exists>n. fst (current_time bus d) + 10 \<le> fst (current_time bus (clock_after bus (Suc n) d)))"

lemma uart_deviceE:
  assumes "uart_device bus r rx tx busy lag"
  obtains v d' where "bus_read32 bus (MU_LSR r) d = (v, d')" "v AND 1 \<noteq> 0 \<longleftrightarrow> rx d \<noteq> [] \<and> lag d = 0"
    "v AND 32 \<noteq> 0 \<longleftrightarrow> busy d = 0" "rx d' = rx d" "tx d' = tx d" "busy d' \<le> busy d - 1" "lag d' \<le> lag d - 1"
proof -
  obtain v d' where rd: "bus_read32 bus (MU_LSR r) d = (v, d')" by (cases "bus_read32 bus (MU_LSR r) d")
  with assms [unfolded uart_device_def, THEN conjunct1, rule_format, of d] that [OF rd] show thesis by simp
qed

lemma uart_device_timer:
  assumes "uart_device bus r rx tx busy lag" and "p \<in> {TIMER_CLO, TIMER_CHI}" and "bus_read32 bus p d = (v, d')"
  shows "rx d' = rx d \<and> tx d' = tx d \<and> busy d' \<le> busy d \<and> lag d' \<le> lag d"
  using assms(1) [unfolded uart_device_def, THEN conjunct2, THEN conjunct2, THEN conjunct2, THEN conjunct1, rule_format, OF assms(2), of d]
    assms(3) by simp

lemma uart_device_clock:
  assumes "uart_device bus r rx tx busy lag"
  shows "rx (clock_after bus n d) = rx d \<and> tx (clock_after bus n d) = tx d \<and> busy (clock_after bus n d) \<le> busy d \<and>
    lag (clock_after bus n d) \<le> lag d"
proof (induction n arbitrary: d)
  case (Suc n)
  obtain hi d1 lo d2 where rd: "bus_read32 bus TIMER_CHI d = (hi, d1)" "bus_read32 bus TIMER_CLO d1 = (lo, d2)" by fastforce
  then have "snd (current_time bus d) = d2" by (simp add: current_time_def timer_read_def volatile_defs)
  moreover note uart_device_timer [OF assms _ rd(1)] uart_device_timer [OF assms _ rd(2)]
  ultimately show ?case using Suc.IH [of d2] by auto
qed simp

lemma uart_device_spin:
  assumes "uart_device bus r rx tx busy lag"
  obtains d' where "spin_sleep_us bus 10 d = Some (Inr ((), d'))" "rx d' = rx d" "tx d' = tx d" "busy d' \<le> busy d" "lag d' \<le> lag d"
proof -
  obtain n where "fst (current_time bus d) + 10 \<le> fst (current_time bus (clock_after bus (Suc n) d))"
    using assms unfolding uart_device_def by blast
  from spin_sleep_us_reached [OF this] show thesis using that uart_device_clock [OF assms, of _ d] by blast
qed

lemma uart_device_store:
  assumes "uart_device bus r rx tx busy lag" and "busy d = 0"
  shows "rx (bus_write32 bus (MU_IO r) v d) = rx d" "tx (bus_write32 bus (MU_IO r) v d) = tx d @ [ucast v]"
  using assms unfolding uart_device_def by blast+

lemma uart_device_load:
  assumes "uart_device bus r rx tx busy lag" and "rx d = b # bs" and "lag d = 0"
  obtains v d' where "bus_read32 bus (MU_IO r) d = (v, d')" "ucast v = b" "rx d' = bs" "tx d' = tx d"
proof -
  obtain v d' where rd: "bus_read32 bus (MU_IO r) d = (v, d')" by (cases "bus_read32 bus (MU_IO r) d")
  with assms(1) [unfolded uart_device_def, THEN conjunct2, THEN conjunct1, rule_format, of d b bs] assms(2,3) that [OF rd]
  show thesis by simp
qed

lemma ucast_byte [simp]: "ucast (ucast (b::u8) :: u32) = b"
  by (rule bit_word_eqI) (simp add: bit_simps)

lemma has_byte_device:
  assumes "uart_device bus (mu_registers u) rx tx busy lag"
  shows "\<exists>d'. has_byte bus u d = Some (Inr (rx d \<noteq> [] \<and> lag d = 0, d')) \<and> rx d' = rx d \<and> tx d' = tx d \<and> lag d' \<le> lag d - 1"
proof -
  obtain v d' where v: "bus_read32 bus (MU_LSR (mu_registers u)) d = (v, d')" "v AND 1 \<noteq> 0 \<longleftrightarrow> rx d \<noteq> [] \<and> lag d = 0"
    "v AND 32 \<noteq> 0 \<longleftrightarrow> busy d = 0" "rx d' = rx d" "tx d' = tx d" "busy d' \<le> busy d - 1" "lag d' \<le> lag d - 1"
    by (rule uart_deviceE [OF assms, where d = d])
  then show ?thesis by (auto simp: has_byte_def lsr_def io_defs volatile_defs DataReady_def)
qed

lemma uart_write_byte_step: "uart_write_byte bus u byte d =
     io_bind (write_fifo_full bus u) (\<lambda>full d.
       if full then io_then (spin_sleep_us bus 10) (\<lambda>d. uart_write_byte bus u byte d) d
       else set_reg bus (MU_IO (mu_registers u)) (ucast byte) d) d"
  by (subst uart_write_byte.simps) (rule refl)

text \<open>A byte is sent after finitely many polls.\<close>

lemma uart_write_byte_sends:
  assumes "uart_device bus (mu_registers u) rx tx busy lag"
  shows "\<exists>d'. uart_write_byte bus u b d = Some (Inr ((), d')) \<and> rx d' = rx d \<and> tx d' = tx d @ [b]"
proof (induction "busy d" arbitrary: d rule: less_induct)
  case less
  obtain v d1 where rd: "bus_read32 bus (MU_LSR (mu_registers u)) d = (v, d1)" "v AND 1 \<noteq> 0 \<longleftrightarrow> rx d \<noteq> [] \<and> lag d = 0"
    "v AND 32 \<noteq> 0 \<longleftrightarrow> busy d = 0" "rx d1 = rx d" "tx d1 = tx d" "busy d1 \<le> busy d - 1" "lag d1 \<le> lag d - 1"
    by (rule uart_deviceE [OF assms, where d = d])
  note v = rd(1,3-6)
  have full: "write_fifo_full bus u d = Some (Inr (busy d \<noteq> 0, d1))"
    using v(1,2) by (auto simp: write_fifo_full_def lsr_def io_defs volatile_defs TxAvailable_def)
  show ?case
  proof (cases "busy d = 0")
    case True
    let ?d = "bus_write32 bus (MU_IO (mu_registers u)) (ucast b) d1"
    have "uart_write_byte bus u b d = Some (Inr ((), ?d))"
      by (subst uart_write_byte_step) (simp add: io_bind_ok [where c = "write_fifo_full bus u", OF full] True set_reg_def io_state_def volatile_defs)
    moreover have "busy d1 = 0" using v(5) True by simp
    ultimately show ?thesis using uart_device_store [OF assms, of d1 "ucast b"] v(3,4) by simp
  next
    case False
    obtain d2 where d2: "spin_sleep_us bus 10 d1 = Some (Inr ((), d2))" "rx d2 = rx d1" "tx d2 = tx d1" "busy d2 \<le> busy d1" "lag d2 \<le> lag d1"
      using uart_device_spin [OF assms] .
    with v(5) False have "busy d2 < busy d" by simp
    from less [OF this] obtain d' where
      d': "uart_write_byte bus u b d2 = Some (Inr ((), d'))" "rx d' = rx d2" "tx d' = tx d2 @ [b]" by blast
    have "uart_write_byte bus u b d = uart_write_byte bus u b d2"
      by (subst uart_write_byte_step)
        (simp add: io_bind_ok [where c = "write_fifo_full bus u", OF full] False io_then_ok [where c = "spin_sleep_us bus 10", OF d2(1)])
    with d' d2 v show ?thesis by simp
  qed
qed

definition crlf :: "u8 list \<Rightarrow> u8 list" where
  "crlf s = concat (map (\<lambda>b. if b = 10 then [13, 10] else [b]) s)"

lemma fold_append: "fold (\<lambda>x acc. acc @ f x) xs acc = acc @ concat (map f xs)"
  by (induction xs arbitrary: acc) auto

lemma uart_for_sends:
  assumes "\<And>b d. \<exists>d'. body b d = Some (Inr ((), d')) \<and> rx d' = rx d \<and> tx d' = tx d @ f b"
  shows "\<exists>d'. io_for body s d = Some (Inr ((), d')) \<and> tx d' = tx d @ concat (map f s) \<and> rx d' = rx d"
proof -
  define I where "I v d' \<longleftrightarrow> tx d' = v \<and> rx d' = rx d" for v d'
  have "\<exists>d'. body b d = Some (Inr ((), d')) \<and> I (v @ f b) d'" if "I v d" for b v d
    using assms [of b d] that by (auto simp: I_def)
  moreover have "I (tx d) d" by (simp add: I_def)
  ultimately obtain d' where "io_for body s d = Some (Inr ((), d'))" "I (fold (\<lambda>b acc. acc @ f b) s (tx d)) d'"
    using io_for_fold [where I = I and body = body and g = "\<lambda>b acc. acc @ f b"] by blast
  then show ?thesis by (auto simp: I_def fold_append)
qed

lemma uart_write_str_sends:
  assumes "uart_device bus (mu_registers u) rx tx busy lag"
  shows "\<exists>d'. uart_write_str bus u s d = Some (Inr ((), d')) \<and> tx d' = tx d @ crlf s \<and> rx d' = rx d"
  unfolding uart_write_str_def crlf_def
proof (rule uart_for_sends)
  fix b d
  let ?body = "if b = 10 then io_then (uart_write_byte bus u 13) (uart_write_byte bus u 10) else uart_write_byte bus u b"
  show "\<exists>d'. ?body d = Some (Inr ((), d')) \<and> rx d' = rx d \<and> tx d' = tx d @ (if b = 10 then [13, 10] else [b])"
  proof (cases "b = 10")
    case True
    obtain d1 where d1: "uart_write_byte bus u 13 d = Some (Inr ((), d1))" "rx d1 = rx d" "tx d1 = tx d @ [13]"
      using uart_write_byte_sends [OF assms, of 13 d] by blast
    with uart_write_byte_sends [OF assms, of 10 d1] True show ?thesis
      by (simp add: io_then_ok [where c = "uart_write_byte bus u 13", OF d1(1)])
  qed (use uart_write_byte_sends [OF assms, of b d] in simp)
qed

lemma uart_write_sends:
  assumes "uart_device bus (mu_registers u) rx tx busy lag"
  shows "\<exists>d'. uart_write bus u s d = Some (Inr (Inr (length s), d')) \<and> tx d' = tx d @ s \<and> rx d' = rx d"
proof -
  have "\<exists>d'. io_for (uart_write_byte bus u) s d = Some (Inr ((), d')) \<and> tx d' = tx d @ concat (map (\<lambda>b. [b]) s) \<and> rx d' = rx d"
    by (rule uart_for_sends) (rule uart_write_byte_sends [OF assms])
  then obtain d' where d': "io_for (uart_write_byte bus u) s d = Some (Inr ((), d'))" "tx d' = tx d @ s" "rx d' = rx d"
    by auto
  then show ?thesis
    by (simp add: uart_write_def io_then_ok [where c = "io_for (uart_write_byte bus u) s", OF d'(1)] io_return_def)
qed

text \<open>C15: \<open>write_str\<close> returns once every byte is sent, in order, with a carriage return before each line feed, and \<open>write\<close>
  sends the bytes as they are and reports all of them written.\<close>

theorem uart_output:
  assumes "uart_device bus (mu_registers u) rx tx busy lag"
  shows "(\<exists>d'. uart_write_str bus u s d = Some (Inr ((), d')) \<and> tx d' = tx d @ crlf s \<and> rx d' = rx d) \<and>
    (\<exists>d'. uart_write bus u s d = Some (Inr (Inr (length s), d')) \<and> tx d' = tx d @ s \<and> rx d' = rx d)"
  using uart_write_str_sends [OF assms] uart_write_sends [OF assms] by blast

subsection \<open>Input\<close>

text \<open>Reading a byte waits until it has arrived.\<close>

lemma uart_read_byte_ready:
  assumes "uart_device bus (mu_registers u) rx tx busy lag" and "rx d = b # bs"
  shows "\<exists>d'. uart_read_byte bus u d = Some (Inr (b, d')) \<and> rx d' = bs \<and> tx d' = tx d"
  using assms(2)
proof (induction "lag d" arbitrary: d rule: less_induct)
  case less
  obtain d1 where d1: "has_byte bus u d = Some (Inr (lag d = 0, d1))" "rx d1 = b # bs" "tx d1 = tx d" "lag d1 \<le> lag d - 1"
    using has_byte_device [OF assms(1), of d] less.prems by auto
  show ?case
  proof (cases "lag d = 0")
    case True
    then have "lag d1 = 0" using d1(4) by simp
    then obtain v d2 where v: "bus_read32 bus (MU_IO (mu_registers u)) d1 = (v, d2)" "ucast v = b" "rx d2 = bs" "tx d2 = tx d1"
      using uart_device_load [OF assms(1) d1(2)] by blast
    have "uart_read_byte bus u d = Some (Inr (b, d2))"
      by (subst uart_read_byte.simps) (simp add: d1(1) True io_defs volatile_defs v(1,2))
    with v(3,4) d1(3) show ?thesis by simp
  next
    case False
    obtain d2 where d2: "spin_sleep_us bus 10 d1 = Some (Inr ((), d2))" "rx d2 = rx d1" "tx d2 = tx d1" "busy d2 \<le> busy d1" "lag d2 \<le> lag d1"
      using uart_device_spin [OF assms(1)] .
    have "lag d2 < lag d" using d1(4) d2(5) False by simp
    then obtain d' where "uart_read_byte bus u d2 = Some (Inr (b, d'))" "rx d' = bs" "tx d' = tx d2"
      using less.hyps [of d2] d1(2) d2(2) by auto
    moreover have "uart_read_byte bus u d = uart_read_byte bus u d2"
      by (subst uart_read_byte.simps)
        (simp add: io_bind_ok [where c = "has_byte bus u", OF d1(1)] False io_then_ok [where c = "spin_sleep_us bus 10", OF d2(1)])
    ultimately show ?thesis using d1(3) d2(3) by simp
  qed
qed

lemma uart_read_loop_step: "uart_read_loop bus u n buf d =
     (if n < length buf
      then io_bind (has_byte bus u) (\<lambda>ready d.
             if ready
             then io_bind (uart_read_byte bus u) (\<lambda>b d. uart_read_loop bus u (n + 1) (buf[n := b]) d) d
             else io_return (n, buf) d) d
      else io_return (n, buf) d)"
  by (subst uart_read_loop.simps) (rule refl)

lemma uart_read_loop_takes:
  assumes "uart_device bus (mu_registers u) rx tx busy lag" and "n \<le> length buf"
  shows "\<exists>k d'. uart_read_loop bus u n buf d =
      Some (Inr ((n + k, take n buf @ take k (rx d) @ drop (n + k) buf), d')) \<and>
    k \<le> length buf - n \<and> k \<le> length (rx d) \<and> (n < length buf \<and> rx d \<noteq> [] \<and> lag d = 0 \<longrightarrow> 0 < k) \<and>
    rx d' = drop k (rx d) \<and> tx d' = tx d"
  using assms(2)
proof (induction "length buf - n" arbitrary: n buf d)
  case 0
  then have "uart_read_loop bus u n buf d = Some (Inr ((n + 0, take n buf @ take 0 (rx d) @ drop (n + 0) buf), d))"
    by (simp add: uart_read_loop_step io_return_def)
  then show ?case using 0 by (intro exI [of _ 0] exI [of _ d]) auto
next
  case (Suc m)
  then have lt: "n < length buf" by simp
  show ?case
  proof (cases "rx d \<noteq> [] \<and> lag d = 0")
    case False
    obtain d1 where d1: "has_byte bus u d = Some (Inr (False, d1))" "rx d1 = rx d" "tx d1 = tx d"
      using has_byte_device [OF assms(1), of d] False by auto
    have "uart_read_loop bus u n buf d = Some (Inr ((n + 0, take n buf @ take 0 (rx d) @ drop (n + 0) buf), d1))"
      by (subst uart_read_loop_step) (simp add: lt io_bind_ok [where c = "has_byte bus u", OF d1(1)] io_return_def)
    with d1 False show ?thesis by (intro exI [of _ 0] exI [of _ d1]) auto
  next
    case True
    then obtain b bs where bs: "rx d = b # bs" by (cases "rx d") auto
    obtain d1 where d1: "has_byte bus u d = Some (Inr (True, d1))" "rx d1 = b # bs" "tx d1 = tx d"
      using has_byte_device [OF assms(1), of d] True bs by auto
    obtain d2 where d2: "uart_read_byte bus u d1 = Some (Inr (b, d2))" "rx d2 = bs" "tx d2 = tx d1"
      using uart_read_byte_ready [OF assms(1) d1(2)] by blast
    have run: "uart_read_loop bus u n buf d = uart_read_loop bus u (Suc n) (buf[n := b]) d2"
      by (subst uart_read_loop_step)
        (simp add: lt io_bind_ok [where c = "has_byte bus u", OF d1(1)] io_bind_ok [where c = "uart_read_byte bus u", OF d2(1)])
    have "m = length (buf[n := b]) - Suc n" "Suc n \<le> length (buf[n := b])" using Suc.hyps(2) lt by simp_all
    from Suc.hyps(1) [OF this, of d2] obtain k d' where k: "uart_read_loop bus u (Suc n) (buf[n := b]) d2 =
        Some (Inr ((Suc n + k, take (Suc n) (buf[n := b]) @ take k (rx d2) @ drop (Suc n + k) (buf[n := b])), d'))"
      "k \<le> length (buf[n := b]) - Suc n" "k \<le> length (rx d2)" "rx d' = drop k (rx d2)" "tx d' = tx d2" by blast
    have "take (Suc n) (buf[n := b]) = take n buf @ [b]" using lt by (simp add: take_Suc_conv_app_nth)
    then have "uart_read_loop bus u n buf d = Some (Inr ((n + Suc k, take n buf @ take (Suc k) (rx d) @ drop (n + Suc k) buf), d'))"
      using k(1) run bs d2(2) by simp
    then show ?thesis using k(2-5) d1 d2 bs lt by (intro exI [of _ "Suc k"] exI [of _ d']) auto
  qed
qed

lemma wait_forever_ends:
  assumes "uart_device bus (mu_registers u) rx tx busy lag" and "rx d \<noteq> []"
  shows "\<exists>d'. wait_forever bus u d = Some (Inr (Inr (), d')) \<and> rx d' = rx d \<and> tx d' = tx d \<and> lag d' = 0"
  using assms(2)
proof (induction "lag d" arbitrary: d rule: less_induct)
  case less
  obtain d1 where d1: "has_byte bus u d = Some (Inr (lag d = 0, d1))" "rx d1 = rx d" "tx d1 = tx d" "lag d1 \<le> lag d - 1"
    using has_byte_device [OF assms(1), of d] less.prems by auto
  show ?case
  proof (cases "lag d = 0")
    case True
    then have "wait_forever bus u d = Some (Inr (Inr (), d1))"
      by (subst wait_forever.simps) (simp add: io_bind_ok [where c = "has_byte bus u", OF d1(1)] io_return_def)
    then show ?thesis using d1 True by simp
  next
    case False
    obtain d2 where d2: "spin_sleep_us bus 10 d1 = Some (Inr ((), d2))" "rx d2 = rx d1" "tx d2 = tx d1" "busy d2 \<le> busy d1" "lag d2 \<le> lag d1"
      using uart_device_spin [OF assms(1)] .
    have "lag d2 < lag d" using d1(4) d2(5) False by simp
    then obtain d' where "wait_forever bus u d2 = Some (Inr (Inr (), d'))" "rx d' = rx d2" "tx d' = tx d2" "lag d' = 0"
      using less.hyps [of d2] less.prems d1(2) d2(2) by auto
    moreover have "wait_forever bus u d = wait_forever bus u d2"
      by (subst wait_forever.simps)
        (simp add: io_bind_ok [where c = "has_byte bus u", OF d1(1)] False io_then_ok [where c = "spin_sleep_us bus 10", OF d2(1)])
    ultimately show ?thesis using d1 d2 by simp
  qed
qed

text \<open>When there is input, now or later, \<open>read\<close> without a timeout returns with at least one byte of it, at most as many as the
  buffer holds, at the front of the buffer and in order, and leaves the others for the next call.\<close>

theorem uart_input:
  assumes "uart_device bus (mu_registers u) rx tx busy lag" and "mu_timeout u = None" and "rx d \<noteq> []"
  shows "\<exists>n d'. uart_read bus u buf d = Some (Inr ((Inr n, take n (rx d) @ drop n buf), d')) \<and>
    n \<le> length buf \<and> n \<le> length (rx d) \<and> (buf \<noteq> [] \<longrightarrow> 0 < n) \<and> rx d' = drop n (rx d) \<and> tx d' = tx d"
proof -
  obtain d1 where d1: "wait_for_byte bus u d = Some (Inr (Inr (), d1))" "rx d1 = rx d" "tx d1 = tx d" "lag d1 = 0"
    using wait_forever_ends [OF assms(1,3)] by (auto simp: wait_for_byte_def assms(2))
  obtain n d2 where d2: "uart_read_loop bus u 0 buf d1 = Some (Inr ((n, take n (rx d) @ drop n buf), d2))" "n \<le> length buf"
    "n \<le> length (rx d)" "buf \<noteq> [] \<longrightarrow> 0 < n" "rx d2 = drop n (rx d)" "tx d2 = tx d"
    using uart_read_loop_takes [OF assms(1), of 0 buf d1] d1(2-4) assms(3) by auto
  have "uart_read bus u buf d = Some (Inr ((Inr n, take n (rx d) @ drop n buf), d2))"
    by (simp add: uart_read_def io_bind_ok [where c = "wait_for_byte bus u", OF d1(1)] io_bind_ok [where c = "uart_read_loop bus u 0 buf", OF d2(1)]
        io_return_def)
  with d2 show ?thesis by blast
qed

text \<open>The timeout in microseconds is computed in 32 bits: a timeout of 4294968 milliseconds (71.6 minutes) waits 704
  microseconds.\<close>

theorem read_timeout_wraps:
  "wait_for_byte bus \<lparr>mu_registers = r, mu_timeout = Some 4294968\<rparr> d =
     (case current_time bus d of (t, d') \<Rightarrow> wait_deadline bus \<lparr>mu_registers = r, mu_timeout = Some 4294968\<rparr> (t + 704) d')"
  by (simp add: wait_for_byte_def io_bind_def io_state_def split: prod.splits)

subsection \<open>Flushing\<close>

lemma spin_until_no_panic:
  assumes "spin_until bus dl d = Some r"
  shows "\<not> isl r"
  using assms
proof (rule spin_until.raw_induct [where P = "\<lambda>_ _ _ r. \<not> isl r", rotated])
  fix f :: "'a bus \<Rightarrow> u64 \<Rightarrow> ('a, unit) io" and bus :: "'a bus" and dl d r
  assume "\<And>bus dl d r. f bus dl d = Some r \<Longrightarrow> \<not> isl r"
    and "(case current_time bus d of (t, d') \<Rightarrow> if t < dl then f bus dl d' else Some (Inr ((), d'))) = Some r"
  then show "\<not> isl r" by (auto split: prod.splits if_splits)
qed

lemma spin_sleep_no_panic: "spin_sleep_us bus us d \<noteq> Some (Inl e)"
  using spin_until_no_panic by (fastforce simp: spin_sleep_us_def split: prod.splits)

lemma and_64_neq_1: "(v::u32) AND 64 \<noteq> 1"
proof
  assume "v AND 64 = 1"
  then have "bit (v AND 64) 0" by simp
  then show False by (simp add: bit_and_iff)
qed

text \<open>C16: \<open>flush\<close> never returns, whatever the device does: the loop compares the idle bit, which is 64 or 0 in place, with 1.\<close>

theorem uart_flush_never_returns: "uart_flush bus u d = None"
proof (cases "uart_flush bus u d")
  case (Some r)
  then have False
  proof (rule uart_flush.raw_induct [where P = "\<lambda>_ _ _ _. False", rotated])
    fix f :: "'a bus \<Rightarrow> mini_uart \<Rightarrow> ('a, unit io_result) io" and bus :: "'a bus" and u d r
    assume rec: "\<And>bus u d r. f bus u d = Some r \<Longrightarrow> False"
      and "io_bind (lsr bus u) (\<lambda>v d. if v AND TxIdle \<noteq> 1 then io_then (spin_sleep_us bus 10) (f bus u) d
             else io_return (Inr ()) d) d = Some r"
    then obtain d' where "io_then (spin_sleep_us bus 10) (f bus u) d' = Some r"
      by (auto simp: io_bind_def lsr_def io_state_def TxIdle_def and_64_neq_1 split: prod.splits)
    with rec show False
      by (auto simp: io_then_def io_bind_def spin_sleep_no_panic split: option.splits sum.splits)
  qed
  then show ?thesis ..
qed

subsection \<open>A simulated port\<close>

text \<open>A port with its two FIFOs on a board whose clock advances by 16 microseconds with each reading and stops at its
  largest value. A store keeps the transmitter busy for two polls, and while it is busy another store is lost; a byte that is taken is
  followed by the next one a poll later.\<close>

record port =
  pt_time :: u64
  pt_rx :: "u8 list"
  pt_lag :: nat
  pt_tx :: "u8 list"
  pt_busy :: nat

definition port_bus :: "port bus" where
  "port_bus = \<lparr>bus_read32 = (\<lambda>p d.
       if p = TIMER_CLO then (ucast (pt_time d), d\<lparr>pt_time := saturating_add (pt_time d) 16\<rparr>)
       else if p = TIMER_CHI then (ucast (drop_bit 32 (pt_time d)), d)
       else if p = MU_LSR MU_REG_BASE
       then ((if pt_rx d \<noteq> [] \<and> pt_lag d = 0 then 1 else 0) OR (if pt_busy d = 0 then 32 else 0),
             d\<lparr>pt_busy := pt_busy d - 1, pt_lag := pt_lag d - 1\<rparr>)
       else if p = MU_IO MU_REG_BASE \<and> pt_lag d = 0
       then (case pt_rx d of [] \<Rightarrow> (0, d) | b # bs \<Rightarrow> (ucast b, d\<lparr>pt_rx := bs, pt_lag := 1\<rparr>))
       else (0, d)),
     bus_write32 = (\<lambda>p v d.
       if p = MU_IO MU_REG_BASE \<and> pt_busy d = 0 then d\<lparr>pt_tx := pt_tx d @ [ucast v], pt_busy := 2\<rparr> else d),
     bus_read8 = (\<lambda>p d. (0, d)), bus_write8 = (\<lambda>p v d. d)\<rparr>"

lemma port_current_time: "current_time port_bus d = (pt_time d, d\<lparr>pt_time := saturating_add (pt_time d) 16\<rparr>)"
proof -
  have "push_bit 32 (ucast (ucast (drop_bit 32 c) :: u32)) OR ucast (ucast c :: u32) = c" for c :: u64
    by (rule bit_word_eqI) (auto simp: bit_simps)
  then show ?thesis
    by (simp add: current_time_def timer_read_def volatile_defs port_bus_def timer_addrs)
qed

lemma port_device: "uart_device port_bus MU_REG_BASE pt_rx pt_tx pt_busy pt_lag"
proof -
  have "\<not> pt_time d + 10 > saturating_add (pt_time d) 16" for d
    by (simp add: word_less_nat_alt unat_saturating_add unat_word_ariths)
  then have "pt_time d + 10 \<le> saturating_add (pt_time d) 16" for d by (simp only: not_less)
  then have "\<exists>n. fst (current_time port_bus d) + 10 \<le> fst (current_time port_bus (clock_after port_bus (Suc n) d))" for d
    by (intro exI [of _ 0]) (simp add: port_current_time)
  moreover have "MU_LSR MU_REG_BASE \<notin> {TIMER_CLO, TIMER_CHI}" "MU_IO MU_REG_BASE \<notin> {TIMER_CLO, TIMER_CHI, MU_LSR MU_REG_BASE}"
    "TIMER_CLO \<noteq> TIMER_CHI" by (simp_all add: uart_regs MU_REG_BASE_def timer_addrs IO_BASE_def)
  ultimately show ?thesis unfolding uart_device_def by (auto simp: port_bus_def)
qed

definition ex_port :: "u8 list \<Rightarrow> port" where
  "ex_port rx = \<lparr>pt_time = 0, pt_rx = rx, pt_lag = 2, pt_tx = [], pt_busy = 3\<rparr>"

definition ex_uart :: mini_uart where
  "ex_uart = \<lparr>mu_registers = MU_REG_BASE, mu_timeout = None\<rparr>"

theorem uart_output_witness:
  "\<exists>d'. uart_write_str port_bus ex_uart [104, 105, 10] (ex_port []) = Some (Inr ((), d')) \<and> pt_tx d' = [104, 105, 13, 10]"
proof -
  have "uart_device port_bus (mu_registers ex_uart) pt_rx pt_tx pt_busy pt_lag"
    using port_device by (simp add: ex_uart_def)
  from uart_output [OF this, of "[104, 105, 10]" "ex_port []"] show ?thesis
    by (auto simp: ex_port_def crlf_def)
qed

theorem uart_input_witness:
  "\<exists>n d'. uart_read port_bus ex_uart [0, 0] (ex_port [1, 2, 3]) = Some (Inr ((Inr n, take n [1, 2, 3] @ drop n [0, 0]), d')) \<and>
    0 < n \<and> n \<le> 2 \<and> pt_rx d' = drop n [1, 2, 3]"
proof -
  have "uart_device port_bus (mu_registers ex_uart) pt_rx pt_tx pt_busy pt_lag" "mu_timeout ex_uart = None" "pt_rx (ex_port [1, 2, 3]) \<noteq> []"
    using port_device by (simp_all add: ex_uart_def ex_port_def)
  from uart_input [OF this, of "[0, 0]"] show ?thesis by (auto simp: ex_port_def)
qed

subsection \<open>After initialization\<close>

definition uart_config_regs :: "usize set" where
  "uart_config_regs = {MU_IER MU_REG_BASE, MU_LCR MU_REG_BASE, MU_MCR MU_REG_BASE, MU_CNTL MU_REG_BASE, MU_BAUD MU_REG_BASE,
     fsel_addr 14, GPIO_BASE + 0x94, GPIO_BASE + 0x98}"

lemma fsel_14_15: "fsel_addr 15 = fsel_addr 14" "fsel_addr 14 = 0x3F200004"
  by (simp_all add: fsel_addr_def GPIO_BASE_def IO_BASE_def)

text \<open>\<open>MiniUart::new\<close> returns without a panic and leaves the port configured: interrupts off, 8-bit data, the divider for
  115200 baud, transmitter and receiver on, and pins 14 and 15 switched to the port.\<close>

theorem uart_new_configures:
  assumes "registers_at bus val uart_config_regs"
    and "\<And>v d q. q \<in> uart_config_regs \<Longrightarrow> val (bus_write32 bus (MU_IIR MU_REG_BASE) v d) q = val d q"
    and "\<And>d q. q \<in> uart_config_regs \<Longrightarrow> val (or_mask (cell8 bus AUX_ENABLES) 1 d) q = val d q"
  shows "\<exists>d'. uart_new bus d = Some (Inr (\<lparr>mu_registers = MU_REG_BASE, mu_timeout = None\<rparr>, d')) \<and>
    val d' (MU_IER MU_REG_BASE) = 0 \<and> val d' (MU_CNTL MU_REG_BASE) = 3 \<and> val d' (MU_BAUD MU_REG_BASE) = 270 \<and>
    val d' (MU_LCR MU_REG_BASE) AND 3 = 3 \<and> val d' (MU_MCR MU_REG_BASE) = 0 \<and>
    pin_function val d' 14 = function_bits Alt5 \<and> pin_function val d' 15 = function_bits Alt5"
proof -
  note addr = uart_regs MU_REG_BASE_def AUX_ENABLES_def GPIO_BASE_def IO_BASE_def
  have A: "uart_config_regs = {0x3F215044, 0x3F21504C, 0x3F215050, 0x3F215060, 0x3F215068, 0x3F200004, 0x3F200094, 0x3F200098}"
    by (simp add: uart_config_regs_def fsel_14_15 addr)
  have rd: "bus_read32 bus p d = (val d p, d)" if "p \<in> uart_config_regs" for p d
    using assms(1) that by (simp add: registers_at_def)
  have wr: "val (bus_write32 bus p v d) q = (if q = p then v else val d q)" if "p \<in> uart_config_regs" "q \<in> uart_config_regs" for p q v d
    using assms(1) that by (simp add: registers_at_def)
  note sim = rd [unfolded A] wr [unfolded A] assms(2) [unfolded A addr, simplified] assms(3) [unfolded A addr volatile_defs, simplified]
  have alt: "into_alt bus Alt5 (Gpio 14 GPIO_BASE) d =
      Some (Inr (Gpio 14 GPIO_BASE, bus_write32 bus 0x3F200004 (fsel_set_function_bits (val d 0x3F200004) 2 12) d))"
    "into_alt bus Alt5 (Gpio 15 GPIO_BASE) d =
      Some (Inr (Gpio 15 GPIO_BASE, bus_write32 bus 0x3F200004 (fsel_set_function_bits (val d 0x3F200004) 2 15) d))" for d
    by (simp_all add: into_alt_def write_fsel_def reg_at_def FSEL_def fsel_reg_index_def fsel_reg_shift_def function_bits_def
        io_then_def io_bind_assoc io_defs volatile_defs addr sim)
  have pull: "io_then (disable_pull_up_down bus (Gpio p b)) k d =
      k (snd ((\<lambda>d. ((), vwrite (cell32 bus (b + 0x98)) 0
       (or_mask (cell32 bus (b + 0x98)) (push_bit (unat p mod 32) 1) (vwrite (cell32 bus (b + 0x94)) 0 d)))) d))" for p b d k
    by (simp add: io_then_ok [where c = "disable_pull_up_down bus (Gpio p b)", OF disable_pull_up_down_low_bank])
  have or3: "(w OR 3) AND 3 = 3" for w :: u32 by (rule bit_word_eqI) (auto simp: bit_simps)
  define w where "w = fsel_set_function_bits (fsel_set_function_bits (val d 0x3F200004) 2 12) 2 15"
  have f: "fsel_field w 4 = 2" "fsel_field w 5 = 2"
    using fsel_field_other [of 4 5 15 _ Alt5] fsel_field_same [of 4 12 _ Alt5] fsel_field_same [of 5 15 _ Alt5]
    by (simp_all add: w_def function_bits_def)
  show ?thesis
    by (simp add: uart_new_def gpio_new_def gpio_new_at_def uart_new_inner_def set_reg_def or_reg_def pull
        io_bind_ok [where c = "into_alt bus Alt5 (Gpio 14 GPIO_BASE)", OF alt(1)]
        io_bind_ok [where c = "into_alt bus Alt5 (Gpio 15 GPIO_BASE)", OF alt(2)] io_return_def)
      (simp add: pin_function_def fsel_14_15 function_bits_def volatile_defs sim addr uart_bits or3 w_def [symmetric] f)
qed

theorem uart_new_configures_witness:
  "\<exists>d'. uart_new ram_bus (\<lambda>_. 0) = Some (Inr (\<lparr>mu_registers = MU_REG_BASE, mu_timeout = None\<rparr>, d')) \<and>
     d' (MU_CNTL MU_REG_BASE) = 3 \<and> d' (MU_BAUD MU_REG_BASE) = 270"
proof -
  have "q \<noteq> MU_IIR MU_REG_BASE" "q \<noteq> AUX_ENABLES" if "q \<in> uart_config_regs" for q
    using that by (auto simp: uart_config_regs_def fsel_14_15 uart_regs MU_REG_BASE_def AUX_ENABLES_def GPIO_BASE_def IO_BASE_def)
  then have "\<exists>d'. uart_new ram_bus (\<lambda>_. 0) = Some (Inr (\<lparr>mu_registers = MU_REG_BASE, mu_timeout = None\<rparr>, d')) \<and>
    d' (MU_IER MU_REG_BASE) = 0 \<and> d' (MU_CNTL MU_REG_BASE) = 3 \<and> d' (MU_BAUD MU_REG_BASE) = 270 \<and>
    d' (MU_LCR MU_REG_BASE) AND 3 = 3 \<and> d' (MU_MCR MU_REG_BASE) = 0 \<and>
    pin_function (\<lambda>d. d) d' 14 = function_bits Alt5 \<and> pin_function (\<lambda>d. d) d' 15 = function_bits Alt5"
    by (intro uart_new_configures [OF registers_at_ram]) (auto simp: ram_bus_def volatile_defs)
  then show ?thesis by blast
qed

text \<open>On plain memory the initialization always returns.\<close>

lemma uart_new_ram: "\<exists>u d1. uart_new ram_bus d = Some (Inr (u, d1))"
proof -
  have alt: "into_alt ram_bus Alt5 (Gpio 14 GPIO_BASE) d = Some (Inr (Gpio 14 GPIO_BASE, d(0x3F200004 := fsel_set_function_bits (d 0x3F200004) 2 12)))"
    "into_alt ram_bus Alt5 (Gpio 15 GPIO_BASE) d = Some (Inr (Gpio 15 GPIO_BASE, d(0x3F200004 := fsel_set_function_bits (d 0x3F200004) 2 15)))" for d
    by (simp_all add: into_alt_def write_fsel_def reg_at_def FSEL_def fsel_reg_index_def fsel_reg_shift_def function_bits_def
        io_then_def io_bind_assoc io_defs volatile_defs ram_bus_def GPIO_BASE_def IO_BASE_def)
  show ?thesis
    by (simp add: uart_new_def gpio_new_def gpio_new_at_def uart_new_inner_def set_reg_def or_reg_def
        io_bind_ok [where c = "into_alt ram_bus Alt5 (Gpio 14 GPIO_BASE)", OF alt(1)]
        io_bind_ok [where c = "into_alt ram_bus Alt5 (Gpio 15 GPIO_BASE)", OF alt(2)]
        io_then_ok [where c = "disable_pull_up_down ram_bus (Gpio _ _)", OF disable_pull_up_down_low_bank] io_return_def)
qed

end
