(* ===== verification/Console.thy ===== *)
theory Console
  imports Uart MutexModel
begin

text \<open>
  The console, \<open>kernel/src/console.rs\<close>: the UART behind lazy initialization, and the global console
  behind its mutex that the printing macros use. Formatting of the arguments is not modelled:
  \<open>print_str\<close> takes the formatted text.
\<close>

record console =
  con_inner :: "mini_uart option"

definition console_new :: console where
  "console_new = \<lparr>con_inner = None\<rparr>"

definition console_initialize :: "'d bus \<Rightarrow> console \<Rightarrow> ('d, console) io" where
  "console_initialize bus c =
     (case con_inner c of
        None \<Rightarrow> io_bind (uart_new bus) (\<lambda>u. io_return (c\<lparr>con_inner := Some u\<rparr>))
      | Some _ \<Rightarrow> io_return c)"

definition console_inner :: "'d bus \<Rightarrow> console \<Rightarrow> ('d, mini_uart \<times> console) io" where
  "console_inner bus c =
     io_bind (console_initialize bus c) (\<lambda>c.
       case con_inner c of
         Some inner \<Rightarrow> io_return (inner, c)
       | None \<Rightarrow> io_panic ''internal error: entered unreachable code'')"

definition console_read_byte :: "'d bus \<Rightarrow> console \<Rightarrow> ('d, u8 \<times> console) io" where
  "console_read_byte bus c =
     io_bind (console_inner bus c) (\<lambda>(u, c). io_bind (uart_read_byte bus u) (\<lambda>b. io_return (b, c)))"

definition console_write_byte :: "'d bus \<Rightarrow> u8 \<Rightarrow> console \<Rightarrow> ('d, console) io" where
  "console_write_byte bus b c =
     io_bind (console_inner bus c) (\<lambda>(u, c). io_then (uart_write_byte bus u b) (io_return c))"

definition console_read :: "'d bus \<Rightarrow> u8 list \<Rightarrow> console \<Rightarrow> ('d, (nat io_result \<times> u8 list) \<times> console) io" where
  "console_read bus buf c =
     io_bind (console_inner bus c) (\<lambda>(u, c). io_bind (uart_read bus u buf) (\<lambda>r. io_return (r, c)))"

definition console_write :: "'d bus \<Rightarrow> u8 list \<Rightarrow> console \<Rightarrow> ('d, nat io_result \<times> console) io" where
  "console_write bus buf c =
     io_bind (console_inner bus c) (\<lambda>(u, c). io_bind (uart_write bus u buf) (\<lambda>r. io_return (r, c)))"

definition console_flush :: "'d bus \<Rightarrow> console \<Rightarrow> ('d, unit io_result \<times> console) io" where
  "console_flush bus c =
     io_bind (console_inner bus c) (\<lambda>(u, c). io_bind (uart_flush bus u) (\<lambda>r. io_return (r, c)))"

definition console_write_str :: "'d bus \<Rightarrow> u8 list \<Rightarrow> console \<Rightarrow> ('d, console) io" where
  "console_write_str bus s c =
     io_bind (console_inner bus c) (\<lambda>(u, c). io_then (uart_write_str bus u s) (io_return c))"

text \<open>The machine: the static console and the devices.\<close>

definition CONSOLE :: "console mutex" where
  "CONSOLE = mutex_new console_new"

type_synonym 'd cmachine = "console mutex \<times> 'd"

text \<open>A statement with a guard of the global console.\<close>

definition on_console :: "(console \<Rightarrow> ('d, 'a \<times> console) io) \<Rightarrow> ('d cmachine, 'a) io" where
  "on_console f s =
     map_option (\<lambda>r. and_then r (\<lambda>((a, d), x). Inr (a, (x, d))))
       (with_lock (\<lambda>c. map_option (\<lambda>r. and_then r (\<lambda>((a, c), d). Inr ((a, d), c))) (f c (snd s))) (fst s))"

definition print_str :: "'d bus \<Rightarrow> u8 list \<Rightarrow> ('d cmachine, unit) io" where
  "print_str bus s = on_console (\<lambda>c. io_bind (console_write_str bus s c) (\<lambda>c. io_return ((), c)))"

lemmas console_defs = console_initialize_def console_inner_def console_read_byte_def console_write_byte_def
  console_read_def console_write_def console_flush_def console_write_str_def

text \<open>The branch after initialization is not reached without a UART.\<close>

lemma console_inner_initialized:
  "con_inner c = Some u \<Longrightarrow> console_inner bus c d = Some (Inr ((u, c), d))"
  "con_inner c = None \<Longrightarrow> console_inner bus c = io_bind (uart_new bus) (\<lambda>u. io_return (u, c\<lparr>con_inner := Some u\<rparr>))"
  by (simp add: console_inner_def console_initialize_def io_return_def)
    (simp add: console_inner_def console_initialize_def io_bind_assoc)

lemma with_console:
  assumes "con_inner c = Some u"
  shows "console_read_byte bus c = io_bind (uart_read_byte bus u) (\<lambda>b. io_return (b, c))"
    "console_write_byte bus b c = io_then (uart_write_byte bus u b) (io_return c)"
    "console_read bus buf c = io_bind (uart_read bus u buf) (\<lambda>r. io_return (r, c))"
    "console_write bus buf c = io_bind (uart_write bus u buf) (\<lambda>r. io_return (r, c))"
    "console_flush bus c = io_bind (uart_flush bus u) (\<lambda>r. io_return (r, c))"
    "console_write_str bus s c = io_then (uart_write_str bus u s) (io_return c)"
  using assms by (simp_all add: console_defs)

text \<open>The console is initialized by its first use and only by it: an operation on a fresh console first runs
  \<open>MiniUart::new\<close> once, and a console that has a UART never runs it again but passes the call through.\<close>

theorem console_lazy_initialization:
  assumes "uart_new bus d = Some (Inr (u, d1))"
  shows "console_write_byte bus b console_new d = console_write_byte bus b \<lparr>con_inner = Some u\<rparr> d1 \<and>
    console_read_byte bus console_new d = console_read_byte bus \<lparr>con_inner = Some u\<rparr> d1 \<and>
    console_write_byte bus b \<lparr>con_inner = Some u\<rparr> d1 =
      io_then (uart_write_byte bus u b) (io_return \<lparr>con_inner = Some u\<rparr>) d1 \<and>
    console_read_byte bus \<lparr>con_inner = Some u\<rparr> d1 =
      io_bind (uart_read_byte bus u) (\<lambda>b. io_return (b, \<lparr>con_inner = Some u\<rparr>)) d1"
proof -
  have "io_bind (uart_new bus) k d = k u d1" for k :: "mini_uart \<Rightarrow> ('a, 'b) io"
    by (rule io_bind_ok) (rule assms)
  moreover have "io_bind (uart_new bus) k d = k u d1" for k :: "mini_uart \<Rightarrow> ('a, 'c) io"
    by (rule io_bind_ok) (rule assms)
  ultimately show ?thesis
    by (simp add: console_defs console_new_def io_bind_assoc io_bind_def assms io_return_def)
qed

theorem console_lazy_initialization_witness:
  "\<exists>u d1. uart_new ram_bus (\<lambda>_. 0) = Some (Inr (u, d1)) \<and>
     console_write_byte ram_bus 65 console_new (\<lambda>_. 0) = console_write_byte ram_bus 65 \<lparr>con_inner = Some u\<rparr> d1"
proof -
  obtain u d1 where "uart_new ram_bus (\<lambda>_. 0) = Some (Inr (u, d1))" using uart_new_ram by blast
  with console_lazy_initialization [OF this] show ?thesis by blast
qed

text \<open>Printing through the global console: the guard is taken and dropped, and the text is sent with its newlines translated.\<close>

lemma print_str_sends:
  assumes "uart_device bus (mu_registers u) rx tx busy lag" and "mx_data x = \<lparr>con_inner = Some u\<rparr>" and "mx_lock x \<longrightarrow> mx_owner x = 0"
  shows "\<exists>x' d'. print_str bus s (x, d) = Some (Inr ((), (x', d'))) \<and> tx d' = tx d @ crlf s \<and>
    mx_data x' = mx_data x \<and> \<not> mx_lock x'"
proof -
  obtain d' where d': "uart_write_str bus u s d = Some (Inr ((), d'))" "tx d' = tx d @ crlf s"
    using uart_write_str_sends [OF assms(1), of s d] by blast
  then show ?thesis
    using assms(2,3) by (simp add: print_str_def on_console_def with_lock_idle with_console io_defs)
qed

end
