(* ===== verification/Traps.thy ===== *)
theory Traps
  imports Scheduler Syndrome Console
begin

text \<open>
  Exceptions, \<open>kernel/src/traps/{mod,irq,syscall}.rs\<close>, and the user side of the sleep system call,
  \<open>kernel/src/syscall.rs\<close>. The machine is the console, the scheduler and the devices. The shell
  that a breakpoint opens and the text of the three debug lines that every exception prints are
  arguments of the handler.
\<close>

subsection \<open>The sleep system call\<close>

text \<open>The closure that a sleeping process polls, with the variables it captures.\<close>

record sleep_fn =
  sl_start_time :: u64
  sl_us :: u64

definition sleep_poll :: "'d bus \<Rightarrow> ('d, sleep_fn) poller" where
  "sleep_poll bus f p =
     io_bind (io_state (timer_read bus)) (\<lambda>t.
       let elapsed = t - sl_start_time f in
       if elapsed > sl_us f
       then io_return (True, f, p\<lparr>pr_trap_frame := (pr_trap_frame p)\<lparr>tf_x0 := elapsed div 1000, tf_x7 := 0\<rparr>\<rparr>)
       else io_return (False, f, p))"

type_synonym 'd smachine = "sleep_fn gscheduler \<times> 'd"

definition on_device :: "('d, 'a) io \<Rightarrow> ('d smachine, 'a) io" where
  "on_device = io_zoom snd (\<lambda>d (g, _). (g, d))"

definition sys_sleep :: "'d bus \<Rightarrow> ('d, unit) io \<Rightarrow> u32 \<Rightarrow> trap_frame \<Rightarrow> ('d smachine, trap_frame) io" where
  "sys_sleep bus wfi ms tf =
     (let us = ucast ms * 1000 in
      io_bind (on_device (io_state (timer_read bus))) (\<lambda>start_time.
      io_bind (gs_switch (sleep_poll bus) wfi (Waiting \<lparr>sl_start_time = start_time, sl_us = us\<rparr>) tf) (\<lambda>(_, tf').
      io_return tf')))"

definition handle_syscall :: "'d bus \<Rightarrow> ('d, unit) io \<Rightarrow> u16 \<Rightarrow> trap_frame \<Rightarrow> ('d smachine, trap_frame) io" where
  "handle_syscall bus wfi num tf =
     (if num = 1 then sys_sleep bus wfi (ucast (tf_x0 tf)) tf
      else io_panic ''not yet implemented: unknown syscall'')"

subsection \<open>Interrupts and exceptions\<close>

definition handle_irq :: "'d bus \<Rightarrow> ('d, unit) io \<Rightarrow> interrupt \<Rightarrow> trap_frame \<Rightarrow> ('d smachine, trap_frame) io" where
  "handle_irq bus wfi irq tf =
     (case irq of
        Timer1 \<Rightarrow>
          io_bind (gs_switch (sleep_poll bus) wfi Ready tf) (\<lambda>(_, tf').
          io_then (on_device (io_state (\<lambda>d. ((), tick_in bus TICK d)))) (io_return tf'))
      | _ \<Rightarrow> io_panic ''unexpected interrupt'')"

datatype exception_kind = Synchronous | Irq | Fiq | SErrorKind

datatype source = CurrentSpEl0 | CurrentSpElx | LowerAArch64 | LowerAArch32

record info =
  in_source :: source
  in_kind :: exception_kind

type_synonym 'd kmachine = "console mutex \<times> sleep_fn gscheduler \<times> 'd"

definition on_cmachine :: "('d cmachine, 'a) io \<Rightarrow> ('d kmachine, 'a) io" where
  "on_cmachine = io_zoom (\<lambda>(c, _, d). (c, d)) (\<lambda>(c, d) (_, g, _). (c, g, d))"

definition on_smachine :: "('d smachine, 'a) io \<Rightarrow> ('d kmachine, 'a) io" where
  "on_smachine = io_zoom snd (\<lambda>s (c, _). (c, s))"

definition handle_exception ::
  "'d bus \<Rightarrow> ('d, unit) io \<Rightarrow> (info \<Rightarrow> u32 \<Rightarrow> trap_frame \<Rightarrow> u8 list list) \<Rightarrow> ('d kmachine, unit) io \<Rightarrow>
   info \<Rightarrow> u32 \<Rightarrow> trap_frame \<Rightarrow> ('d kmachine, trap_frame) io"
where
  "handle_exception bus wfi debug_lines shell einfo esr tf =
     io_then (io_for (\<lambda>line. on_cmachine (print_str bus line)) (debug_lines einfo esr tf))
     (io_bind (io_lift (syndrome_from esr)) (\<lambda>syn.
        case (in_kind einfo, syn) of
          (Synchronous, Brk x) \<Rightarrow> io_then shell (io_return (tf\<lparr>tf_elr := tf_elr tf + 4\<rparr>))
        | (Synchronous, Svc x) \<Rightarrow> on_smachine (handle_syscall bus wfi x tf)
        | (Irq, _) \<Rightarrow>
            io_bind (on_smachine (on_device (is_pending bus Timer1 controller_new))) (\<lambda>pending.
              if pending then on_smachine (handle_irq bus wfi Timer1 tf)
              else io_panic ''unexpected interrupt'')
        | _ \<Rightarrow> io_panic ''unexpected syndrome''))"

subsection \<open>The user side\<close>

text \<open>\<open>svc\<close> is the exception entry; the caller's other registers are those of \<open>tf\<close>.\<close>

datatype syscall_error = SyscallError

definition syscall_error_from :: "u64 \<Rightarrow> syscall_error" where
  "syscall_error_from code = SyscallError"

definition user_sleep :: "(u16 \<Rightarrow> trap_frame \<Rightarrow> ('m, trap_frame) io) \<Rightarrow> u32 \<Rightarrow> trap_frame \<Rightarrow> ('m, syscall_error + u32) io" where
  "user_sleep svc ms tf =
     io_bind (svc 1 (tf\<lparr>tf_x0 := ucast ms\<rparr>)) (\<lambda>tf'.
       let elapsed = tf_x0 tf'; error = tf_x7 tf' in
       if error = 0 then io_return (Inr (ucast elapsed)) else io_return (Inl (syscall_error_from error)))"

subsection \<open>Sleeping\<close>

text \<open>
  Waiting for an interrupt: while the timer is armed, as \<open>start\<close> and the handler of its interrupt leave it, \<open>wfi\<close> resumes when the next
  interrupt is pending, masked or not. \<open>w\<close> bounds the time that one wait takes, at most the tick of two seconds, and the time of
  one load of a timer register; loads do not disarm the timer.
\<close>

definition wakes :: "'d bus \<Rightarrow> ('d, unit) io \<Rightarrow> ('d \<Rightarrow> nat) \<Rightarrow> ('d \<Rightarrow> bool) \<Rightarrow> nat \<Rightarrow> bool" where
  "wakes bus wfi cnt armed w \<longleftrightarrow>
     (\<forall>d. armed d \<longrightarrow> (\<exists>d'. wfi d = Some (Inr ((), d')) \<and> armed d' \<and> cnt d \<le> cnt d' \<and> cnt d' \<le> cnt d + w)) \<and>
     (\<forall>d. \<forall>p \<in> {TIMER_CLO, TIMER_CHI}. armed d \<longrightarrow>
        armed (snd (bus_read32 bus p d)) \<and> cnt (snd (bus_read32 bus p d)) \<le> cnt d + w)"

lemma wakes_wfi:
  assumes "wakes bus wfi cnt armed w" and "armed d"
  obtains d' where "wfi d = Some (Inr ((), d'))" "armed d'" "cnt d \<le> cnt d'" "cnt d' \<le> cnt d + w"
  using assms unfolding wakes_def by blast

lemma wakes_read:
  assumes "wakes bus wfi cnt armed w" and "armed d" and "timer_read bus d = (v, d')"
  shows "armed d'" "cnt d' \<le> cnt d + 2 * w"
proof -
  obtain hi d1 lo d2 where rd: "bus_read32 bus TIMER_CHI d = (hi, d1)" "bus_read32 bus TIMER_CLO d1 = (lo, d2)" by fastforce
  have load: "armed (snd (bus_read32 bus p x)) \<and> cnt (snd (bus_read32 bus p x)) \<le> cnt x + w"
    if "armed x" "p \<in> {TIMER_CLO, TIMER_CHI}" for x p using assms(1) that unfolding wakes_def by blast
  have "d' = d2" using assms(3) rd by (simp add: timer_read_def volatile_defs)
  then show "armed d'" "cnt d' \<le> cnt d + 2 * w" using load [OF assms(2), of TIMER_CHI] load [of d1 TIMER_CLO] rd by auto
qed

text \<open>A reading that is not torn: the low half does not wrap around while the two halves are read.\<close>

lemma timer_read_exact:
  assumes "free_running bus cnt" "wakes bus wfi cnt armed w" "armed d" "timer_read bus d = (v, d')"
    and "B \<le> cnt d" "cnt d + 2 * w \<le> hi" "B div 2 ^ 32 = hi div 2 ^ 32" "hi < 2 ^ 64"
  shows "cnt d \<le> unat v" "unat v < cnt d'"
proof -
  note r = wakes_read [OF assms(2-4)]
  have "cnt d < 2 ^ 64" using assms(6,8) by simp
  from timer_read_value [OF assms(1) this assms(4)] obtain c where c: "cnt d \<le> c" "c < cnt d'"
    "unat v = cnt d div 2 ^ 32 * 2 ^ 32 + c mod 2 ^ 32" by blast
  have "B div 2 ^ 32 \<le> cnt d div 2 ^ 32" "cnt d div 2 ^ 32 \<le> c div 2 ^ 32" "c div 2 ^ 32 \<le> hi div 2 ^ 32"
    by (rule div_le_mono; use assms(5,6) c r(2) in simp)+
  then have "cnt d div 2 ^ 32 = c div 2 ^ 32" using assms(7) by simp
  then have "unat v = c" using c(3) by (simp only: div_mult_mod_eq)
  then show "cnt d \<le> unat v" "unat v < cnt d'" using c by simp_all
qed

definition woken :: "trap_frame \<Rightarrow> u64 \<Rightarrow> trap_frame" where
  "woken tf elapsed = tf\<lparr>tf_x0 := elapsed div 1000, tf_x7 := 0\<rparr>"

lemma sleep_loop_wakes:
  fixes st us :: u64
  assumes clk: "free_running bus cnt" "wakes bus wfi cnt armed w"
    and win: "B div 2 ^ 32 = hi div 2 ^ 32" "hi < 2 ^ 64" "B \<le> unat st" "unat st + unat us + 5 * w \<le> hi"
    and ps: "sc_processes s = [p\<lparr>pr_trap_frame := tf, pr_state := Waiting \<lparr>sl_start_time = st, sl_us = us\<rparr>\<rparr>]"
  shows "armed d \<Longrightarrow> unat st \<le> cnt d \<Longrightarrow> cnt d \<le> unat st + unat us + 3 * w \<Longrightarrow>
    \<exists>elapsed s' d'. switch_loop (sleep_poll bus) wfi s d =
        Some (Inr ((tf_tpidr (woken tf elapsed), woken tf elapsed, s'), d')) \<and> us < elapsed \<and>
      unat st + unat elapsed < cnt d' \<and> cnt d' \<le> unat st + unat us + 5 * w"
proof (induction "unat st + unat us + 3 * w + 1 - cnt d" arbitrary: d rule: less_induct)
  case less
  let ?f = "\<lparr>sl_start_time = st, sl_us = us\<rparr>"
  let ?p = "p\<lparr>pr_trap_frame := tf, pr_state := Ready\<rparr>"
  obtain v d1 where d1: "timer_read bus d = (v, d1)" by fastforce
  note r = wakes_read [OF clk(2) less.prems(1) d1]
  have v: "cnt d \<le> unat v" "unat v < cnt d1"
    by (rule timer_read_exact [OF clk less.prems(1) d1 _ _ win(1,2)]; use less.prems win in simp)+
  define elapsed where "elapsed = v - st"
  have el: "unat elapsed = unat v - unat st"
    using less.prems(2) v(1) unfolding elapsed_def by (subst unat_sub) (simp_all add: word_le_nat_alt)
  show ?case
  proof (cases "elapsed > us")
    case True
    let ?q = "?p\<lparr>pr_trap_frame := woken tf elapsed\<rparr>"
    have "sleep_poll bus ?f ?p d = Some (Inr ((True, ?f, ?q), d1))"
      using True d1 by (simp add: sleep_poll_def io_state_def io_bind_def io_return_def elapsed_def woken_def Let_def)
    then have "next_process (sleep_poll bus) s d = Some (Inr ((Some ?q, s\<lparr>sc_processes := [?q]\<rparr>), d1))"
      using ps by (simp add: next_process_def is_ready_def io_bind_def io_return_def current_def)
    then have "switch_loop (sleep_poll bus) wfi s d =
        Some (Inr ((tf_tpidr (woken tf elapsed), woken tf elapsed, s\<lparr>sc_processes := [?q]\<rparr>), d1))"
      by (subst switch_loop_step) (simp add: io_bind_def io_return_def)
    moreover have "unat st + unat elapsed < cnt d1" "cnt d1 \<le> unat st + unat us + 5 * w"
      using el v less.prems r(2) by simp_all
    ultimately show ?thesis using True by blast
  next
    case False
    have "sleep_poll bus ?f ?p d = Some (Inr ((False, ?f, ?p), d1))"
      using False d1 by (simp add: sleep_poll_def io_state_def io_bind_def io_return_def elapsed_def Let_def)
    then have "next_process (sleep_poll bus) s d = Some (Inr ((None, s), d1))"
      using ps by (cases s) (simp add: next_process_def is_ready_def io_bind_def io_return_def)
    moreover obtain d2 where d2: "wfi d1 = Some (Inr ((), d2))" "armed d2" "cnt d1 \<le> cnt d2" "cnt d2 \<le> cnt d1 + w"
      by (rule wakes_wfi [OF clk(2) r(1)])
    ultimately have run: "switch_loop (sleep_poll bus) wfi s d = switch_loop (sleep_poll bus) wfi s d2"
      by (subst switch_loop_step) (simp add: io_bind_def io_then_def)
    have "unat elapsed \<le> unat us" using False by (simp add: word_less_nat_alt)
    then have le: "cnt d \<le> unat st + unat us" using el v(1) less.prems(2) by linarith
    have "cnt d < cnt d2" "unat st \<le> cnt d2" "cnt d2 \<le> unat st + unat us + 3 * w"
      using v d2(3,4) less.prems(2) le r(2) by simp_all
    from less.hyps [OF _ d2(2) this(2,3)] this(1) less.prems(3) run show ?thesis by simp
  qed
qed

lemma sys_sleep_wakes:
  assumes clk: "free_running bus cnt" "wakes bus wfi cnt armed w" "armed d"
    and win: "cnt d div 2 ^ 32 = (cnt d + unat ms * 1000 + 7 * w) div 2 ^ 32" "cnt d + unat ms * 1000 + 7 * w < 2 ^ 64"
    and "mx_data g = Some s" and "mx_lock g \<longrightarrow> mx_owner g = 0" and "sc_processes s = [p]"
  shows "\<exists>st elapsed g' d'. sys_sleep bus wfi ms tf (g, d) = Some (Inr (woken tf elapsed, (g', d'))) \<and>
    unat ms * 1000 < unat elapsed \<and> cnt d \<le> st \<and> st + unat elapsed < cnt d' \<and> cnt d' \<le> cnt d + unat ms * 1000 + 7 * w"
proof -
  have "unat (ucast ms :: u64) = unat ms" using unat_lt_len [of ms] by (simp add: unsigned_ucast_eq take_bit_nat_eq_self)
  then have us: "unat (ucast ms * 1000 :: u64) = unat ms * 1000"
    using unat_lt_len [of ms] by (simp add: unat_word_ariths)
  obtain v d1 where d1: "timer_read bus d = (v, d1)" by fastforce
  note r = wakes_read [OF clk(2,3) d1]
  have v: "cnt d \<le> unat v" "unat v < cnt d1"
    by (rule timer_read_exact [OF clk(1,2,3) d1 order_refl _ win]; simp)+
  let ?us = "ucast ms * 1000 :: u64"
  let ?w = "Waiting \<lparr>sl_start_time = v, sl_us = ?us\<rparr>"
  let ?s = "s\<lparr>sc_processes := [p\<lparr>pr_trap_frame := tf, pr_state := ?w\<rparr>]\<rparr>"
  have "unat v + unat ?us + 5 * w \<le> cnt d + unat ms * 1000 + 7 * w" "unat v \<le> cnt d1" "cnt d1 \<le> unat v + unat ?us + 3 * w"
    using v r(2) us by simp_all
  then obtain elapsed s' d' where loop: "switch_loop (sleep_poll bus) wfi ?s d1 =
      Some (Inr ((tf_tpidr (woken tf elapsed), woken tf elapsed, s'), d'))" "?us < elapsed"
      "unat v + unat elapsed < cnt d'" "cnt d' \<le> unat v + unat ?us + 5 * w"
    using sleep_loop_wakes [OF clk(1,2) win v(1), where us = ?us and s = ?s and p = p and tf = tf and d = d1] r(1) by auto
  have "switch (sleep_poll bus) wfi ?w tf s d1 = Some (Inr ((Some (tf_tpidr (woken tf elapsed)), woken tf elapsed, s'), d'))"
    using loop(1) assms(8) by (simp add: switch_def io_bind_def io_return_def)
  then have "gs_switch (sleep_poll bus) wfi ?w tf (g, d1) =
      Some (Inr ((Some (tf_tpidr (woken tf elapsed)), woken tf elapsed), (\<lparr>mx_data = Some s', mx_lock = False, mx_owner = 0\<rparr>, d')))"
    using assms(6,7) by (simp add: gs_switch_def with_lock_idle)
  then have "sys_sleep bus wfi ms tf (g, d) =
      Some (Inr (woken tf elapsed, (\<lparr>mx_data = Some s', mx_lock = False, mx_owner = 0\<rparr>, d')))"
    using d1 by (simp add: sys_sleep_def on_device_def io_zoom_def io_state_def io_bind_def io_return_def Let_def)
  moreover have "unat ms * 1000 < unat elapsed" using loop(2) us by (simp add: word_less_nat_alt)
  moreover have "cnt d' \<le> cnt d + unat ms * 1000 + 7 * w" using loop(4) v r(2) us by simp
  ultimately show ?thesis using loop(3) v(1) by blast
qed

text \<open>C12: the sleep system call, from the user's call to its return, when the caller is the only process and the low half of the
  counter does not wrap around meanwhile: it returns (the wait ends) with success, and the reported time is the time that
  elapsed, in milliseconds, between a reading of the counter \<open>start\<close> after the call and one before the return. More than the
  requested time has elapsed, so the counter has advanced by more than it, and by no more than a few waits in addition. No
  other register of the caller is changed.\<close>

theorem user_sleep_elapsed:
  assumes "free_running bus cnt" and "wakes bus wfi cnt armed w" and "armed d"
    and "cnt d div 2 ^ 32 = (cnt d + unat ms * 1000 + 7 * w) div 2 ^ 32" and "cnt d + unat ms * 1000 + 7 * w < 2 ^ 64"
    and "mx_data g = Some s" and "mx_lock g \<longrightarrow> mx_owner g = 0" and "sc_processes s = [p]"
  shows "\<exists>start elapsed g' d'. user_sleep (handle_syscall bus wfi) ms tf (g, d) = Some (Inr (Inr (ucast (elapsed div 1000)), (g', d'))) \<and>
    handle_syscall bus wfi 1 (tf\<lparr>tf_x0 := ucast ms\<rparr>) (g, d) =
      Some (Inr (tf\<lparr>tf_x0 := elapsed div 1000, tf_x7 := 0\<rparr>, (g', d'))) \<and>
    unat ms * 1000 < unat elapsed \<and> cnt d \<le> start \<and> start + unat elapsed < cnt d' \<and>
    cnt d' \<le> cnt d + unat ms * 1000 + 7 * w"
proof -
  let ?tf = "tf\<lparr>tf_x0 := ucast ms\<rparr>"
  have x0: "ucast (tf_x0 ?tf) = ms" by simp (rule bit_word_eqI, simp add: bit_simps)
  obtain st elapsed g' d' where run: "sys_sleep bus wfi ms ?tf (g, d) = Some (Inr (woken ?tf elapsed, (g', d')))"
    "unat ms * 1000 < unat elapsed" "cnt d \<le> st" "st + unat elapsed < cnt d'" "cnt d' \<le> cnt d + unat ms * 1000 + 7 * w"
    using sys_sleep_wakes [OF assms, of ?tf] by blast
  have sys: "handle_syscall bus wfi 1 ?tf (g, d) = Some (Inr (woken ?tf elapsed, (g', d')))"
    using run(1) x0 by (simp only: handle_syscall_def if_True refl)
  have w: "woken ?tf elapsed = tf\<lparr>tf_x0 := elapsed div 1000, tf_x7 := 0\<rparr>" by (simp add: woken_def)
  have "user_sleep (handle_syscall bus wfi) ms tf (g, d) = Some (Inr (Inr (ucast (elapsed div 1000)), (g', d')))"
    using sys unfolding user_sleep_def w by (simp add: io_bind_ok [where c = "handle_syscall bus wfi 1 ?tf", OF sys [unfolded w]] io_return_def Let_def)
  with sys run(2-5) show ?thesis unfolding w by blast
qed

subsection \<open>Breakpoints and the timer\<close>

text \<open>A breakpoint opens the shell and then resumes after the instruction: once the debug lines are printed and the shell
  has returned, the frame is the same but for the return address, which is 4 higher.\<close>

theorem brk_resumes:
  assumes "io_for (\<lambda>line. on_cmachine (print_str bus line)) (debug_lines \<lparr>in_source = src, in_kind = Synchronous\<rparr> (esr_of 0b111100 imm) tf) m = Some (Inr ((), m1))"
    and "shell m1 = Some (Inr ((), m2))"
  shows "handle_exception bus wfi debug_lines shell \<lparr>in_source = src, in_kind = Synchronous\<rparr> (esr_of 0b111100 imm) tf m =
    Some (Inr (tf\<lparr>tf_elr := tf_elr tf + 4\<rparr>, m2))"
proof -
  have "syndrome_from (esr_of 0b111100 imm) = Inr (Brk imm)"
    by (simp add: syndrome_from_def Let_def esr_of_decode)
  then show ?thesis
    using assms by (simp add: handle_exception_def io_then_def io_bind_def io_return_def io_lift_def)
qed

lemma handle_irq_timer:
  assumes "mx_data g = Some s" and "mx_lock g \<longrightarrow> mx_owner g = 0" and "sc_processes s = cur # q # rest" and "pr_state q = Ready"
  shows "\<exists>g'. handle_irq bus wfi Timer1 tf (g, d) = Some (Inr (pr_trap_frame q, (g', tick_in bus TICK d))) \<and>
    mx_data g' = Some (s\<lparr>sc_processes := q # rest @ [cur\<lparr>pr_trap_frame := tf, pr_state := Ready\<rparr>]\<rparr>) \<and> \<not> mx_lock g'"
proof -
  have "switch (sleep_poll bus) wfi Ready tf s d = Some (Inr ((Some (tf_tpidr (pr_trap_frame q)), pr_trap_frame q,
      s\<lparr>sc_processes := q # rest @ [cur\<lparr>pr_trap_frame := tf, pr_state := Ready\<rparr>]\<rparr>), d))"
    using assms(3,4) by (intro switch_front_ready [of _ cur "q # rest"]) simp_all
  then show ?thesis
    using assms(1,2) by (simp add: handle_irq_def gs_switch_def with_lock_idle io_bind_def io_then_def io_return_def
        on_device_def io_zoom_def io_state_def)
qed

text \<open>C13: preemption. On a timer interrupt with a ready process next in the queue, the handler saves the interrupted registers
  into the interrupted process, loads those of the next one, moves the interrupted process to the back, and arms the
  next tick two seconds ahead.\<close>

theorem timer_irq_preempts:
  assumes "io_for (\<lambda>line. on_cmachine (print_str bus line)) (debug_lines einfo esr tf) m = Some (Inr ((), (c, g, d)))"
    and "in_kind einfo = Irq" and "exception_class esr \<noteq> 0b100101"
    and "is_pending bus Timer1 controller_new d = Some (Inr (True, d1))"
    and "mx_data g = Some s" and "mx_lock g \<longrightarrow> mx_owner g = 0" and "sc_processes s = cur # q # rest" and "pr_state q = Ready"
  shows "\<exists>g'. handle_exception bus wfi debug_lines shell einfo esr tf m =
      Some (Inr (pr_trap_frame q, (c, g', tick_in bus 2000000 d1))) \<and>
    mx_data g' = Some (s\<lparr>sc_processes := q # rest @ [cur\<lparr>pr_trap_frame := tf, pr_state := Ready\<rparr>]\<rparr>)"
proof -
  obtain syn where syn: "syndrome_from esr = Inr syn"
    using syndrome_panics_cases(1) [OF assms(3)] by blast
  obtain g' where g': "handle_irq bus wfi Timer1 tf (g, d1) = Some (Inr (pr_trap_frame q, (g', tick_in bus TICK d1)))"
    "mx_data g' = Some (s\<lparr>sc_processes := q # rest @ [cur\<lparr>pr_trap_frame := tf, pr_state := Ready\<rparr>]\<rparr>)"
    using handle_irq_timer [OF assms(5-8), of bus wfi tf d1] by blast
  have "handle_exception bus wfi debug_lines shell einfo esr tf m = Some (Inr (pr_trap_frame q, (c, g', tick_in bus TICK d1)))"
    using assms(1,2,4) g'(1) syn
    by (simp add: handle_exception_def io_then_def io_bind_def io_lift_def on_smachine_def on_device_def io_zoom_def)
  with g'(2) show ?thesis by (simp add: TICK_def)
qed

subsection \<open>Examples\<close>

text \<open>A machine that is only its clock: the counter advances when its low half is read, and a wait lasts until the next
  multiple of the tick; the interrupt of timer 1 is always pending.\<close>

definition clock_bus :: "nat bus" where
  "clock_bus = \<lparr>bus_read32 = (\<lambda>p d.
       if p = TIMER_CLO then (of_nat d, d + 1)
       else if p = TIMER_CHI then (of_nat (d div 2 ^ 32), d) else (2, d)),
     bus_write32 = (\<lambda>p v d. d), bus_read8 = (\<lambda>p d. (0, d)), bus_write8 = (\<lambda>p v d. d)\<rparr>"

definition clock_wfi :: "(nat, unit) io" where
  "clock_wfi d = Some (Inr ((), (d div 2000000 + 1) * 2000000))"

lemma clock_free_running: "free_running clock_bus (\<lambda>d. d)"
  by (simp add: free_running_def clock_bus_def timer_addrs)

lemma clock_wakes: "wakes clock_bus clock_wfi (\<lambda>d. d) (\<lambda>_. True) 2000000"
proof -
  have "d \<le> (d div 2000000 + 1) * 2000000 \<and> (d div 2000000 + 1) * 2000000 \<le> d + 2000000" for d :: nat
    using div_mult_mod_eq [of d 2000000] mod_less_divisor [of 2000000 d] by (simp add: distrib_right)
  then show ?thesis by (auto simp: wakes_def clock_wfi_def clock_bus_def timer_addrs)
qed

definition ex_sleeper :: "sleep_fn process" where
  "ex_sleeper = \<lparr>pr_trap_frame = ex_frame 16, pr_box = 0, pr_stack = \<lparr>st_ptr = 16\<rparr>, pr_state = Ready\<rparr>"

definition ex_sched :: "sleep_fn process list \<Rightarrow> sleep_fn gscheduler" where
  "ex_sched ps = \<lparr>mx_data = Some \<lparr>sc_processes = ps, sc_current_id = Some 1, sc_last_id = Some 1\<rparr>, mx_lock = True, mx_owner = 0\<rparr>"

theorem user_sleep_elapsed_witness:
  "\<exists>(elapsed::u64) g' d'. user_sleep (handle_syscall clock_bus clock_wfi) 5 (ex_frame 16) (ex_sched [ex_sleeper], 100) =
     Some (Inr (Inr (ucast (elapsed div 1000)), (g', d'))) \<and> 5000 < unat elapsed \<and> 100 + unat elapsed < d'"
proof -
  let ?s = "\<lparr>sc_processes = [ex_sleeper], sc_current_id = Some 1, sc_last_id = Some 1\<rparr>"
  have "mx_data (ex_sched [ex_sleeper]) = Some ?s" "mx_lock (ex_sched [ex_sleeper]) \<longrightarrow> mx_owner (ex_sched [ex_sleeper]) = 0"
    by (simp_all add: ex_sched_def)
  moreover have "sc_processes ?s = [ex_sleeper]" by simp
  moreover have "(100::nat) div 2 ^ 32 = (100 + unat (5::u32) * 1000 + 7 * 2000000) div 2 ^ 32"
    "(100::nat) + unat (5::u32) * 1000 + 7 * 2000000 < 2 ^ 64" by simp_all
  ultimately obtain start and elapsed :: u64 and g' d' where
    "user_sleep (handle_syscall clock_bus clock_wfi) 5 (ex_frame 16) (ex_sched [ex_sleeper], 100) =
      Some (Inr (Inr (ucast (elapsed div 1000)), (g', d')))"
    "unat (5::u32) * 1000 < unat elapsed" "100 \<le> start" "start + unat elapsed < d'"
    using user_sleep_elapsed [OF clock_free_running clock_wakes TrueI, of 100 5 "ex_sched [ex_sleeper]" ?s ex_sleeper "ex_frame 16"] by blast
  then show ?thesis by (intro exI [of _ elapsed] exI [of _ g'] exI [of _ d']) simp
qed

theorem brk_resumes_witness:
  "handle_exception clock_bus clock_wfi (\<lambda>_ _ _. []) (\<lambda>m. Some (Inr ((), m))) \<lparr>in_source = LowerAArch64, in_kind = Synchronous\<rparr>
     (esr_of 0b111100 7) (ex_frame 16) (CONSOLE, ex_sched [], 0) =
   Some (Inr ((ex_frame 16)\<lparr>tf_elr := tf_elr (ex_frame 16) + 4\<rparr>, (CONSOLE, ex_sched [], 0)))"
  by (rule brk_resumes) (simp_all add: io_return_def)

theorem timer_irq_preempts_witness:
  "\<exists>g'. handle_exception clock_bus clock_wfi (\<lambda>_ _ _. []) (\<lambda>m. Some (Inr ((), m))) \<lparr>in_source = LowerAArch64, in_kind = Irq\<rparr>
      0 (ex_frame 32) (CONSOLE, ex_sched [ex_sleeper, ex_sleeper], 7) =
    Some (Inr (ex_frame 16, (CONSOLE, g', tick_in clock_bus 2000000 7)))"
proof -
  have "\<exists>g'. handle_exception clock_bus clock_wfi (\<lambda>_ _ _. []) (\<lambda>m. Some (Inr ((), m))) \<lparr>in_source = LowerAArch64, in_kind = Irq\<rparr>
      0 (ex_frame 32) (CONSOLE, ex_sched [ex_sleeper, ex_sleeper], 7) =
    Some (Inr (pr_trap_frame ex_sleeper, (CONSOLE, g', tick_in clock_bus 2000000 7))) \<and>
    mx_data g' = Some (\<lparr>sc_processes = [ex_sleeper, ex_sleeper], sc_current_id = Some 1, sc_last_id = Some 1\<rparr>
      \<lparr>sc_processes := ex_sleeper # [] @ [ex_sleeper\<lparr>pr_trap_frame := ex_frame 32, pr_state := Ready\<rparr>]\<rparr>)"
    by (rule timer_irq_preempts [where g = "ex_sched [ex_sleeper, ex_sleeper]" and d = 7])
      (simp_all add: io_return_def exception_class_def is_pending_def index_and_offset_def irqno_def irq_reg_def
        IRQ_PENDING_def volatile_defs clock_bus_def io_bind_def io_state_def timer_addrs ex_sched_def ex_sleeper_def controller_new_def
        INT_BASE_def IO_BASE_def)
  then show ?thesis by (auto simp: ex_sleeper_def)
qed

end
