(* ===== verification/IoRead.thy ===== *)
theory IoRead
  imports IoMonad IoError
begin

text \<open>
  Reading and writing bytes, \<open>std/src/io/mod.rs\<close>, with the in-memory readers and writers of
  \<open>std/src/io/impls.rs\<close> and \<open>std/src/io/util.rs\<close> and the search of \<open>std/src/memchr.rs\<close>. A reader fills
  the front of the caller's buffer and returns how many bytes it wrote; a writer takes some of
  the bytes it is given. The state of readers and writers is the machine state \<open>'d\<close>. Indexing out of range
  panics. Initializers only decide whether a buffer is zeroed first: buffers start as zeros here.
\<close>

type_synonym 'd reader = "u8 list \<Rightarrow> ('d, nat io_result \<times> u8 list) io"

type_synonym 'd writer = "u8 list \<Rightarrow> ('d, nat io_result) io"

record 'd buf_read =
  fill_buf :: "('d, u8 list io_result) io"
  consume :: "nat \<Rightarrow> ('d, unit) io"

definition slice_panic :: "('d, 'a) io" where
  "slice_panic = io_panic ''index out of range for slice''"

definition DEFAULT_BUF_SIZE :: nat where
  "DEFAULT_BUF_SIZE = 4096"

subsection \<open>Searching\<close>

definition memchr :: "u8 \<Rightarrow> u8 list \<Rightarrow> nat option" where
  "memchr needle haystack = position (\<lambda>b. b = needle) haystack"

definition memrchr :: "u8 \<Rightarrow> u8 list \<Rightarrow> nat option" where
  "memrchr needle haystack = position (\<lambda>b. b = needle) (rev haystack)"

subsection \<open>Default methods of readers and writers\<close>

text \<open>\<open>pre\<close> is the part of the buffer that is already filled.\<close>

partial_function (option) read_exact_loop :: "'d reader \<Rightarrow> u8 list \<Rightarrow> u8 list \<Rightarrow> ('d, unit io_result \<times> u8 list) io" where
  "read_exact_loop rd pre buf d =
     (if buf = [] then io_return (Inr (), pre) d
      else io_bind (rd buf) (\<lambda>(r, buf) d.
        case r of
          Inr n \<Rightarrow>
            if n = 0 then io_return (Inl (error_new UnexpectedEof ''failed to fill whole buffer''), pre @ buf) d
            else if n > length buf then slice_panic d
            else read_exact_loop rd (pre @ take n buf) (drop n buf) d
        | Inl e \<Rightarrow>
            if kind e = Interrupted then read_exact_loop rd pre buf d
            else io_return (Inl e, pre @ buf) d) d)"

definition read_exact :: "'d reader \<Rightarrow> u8 list \<Rightarrow> ('d, unit io_result \<times> u8 list) io" where
  "read_exact rd buf = read_exact_loop rd [] buf"

partial_function (option) write_all :: "'d writer \<Rightarrow> u8 list \<Rightarrow> ('d, unit io_result) io" where
  "write_all wr buf d =
     (if buf = [] then io_return (Inr ()) d
      else io_bind (wr buf) (\<lambda>r d.
        case r of
          Inr n \<Rightarrow>
            if n = 0 then io_return (Inl (error_new WriteZero ''failed to write whole buffer'')) d
            else if n > length buf then slice_panic d
            else write_all wr (drop n buf) d
        | Inl e \<Rightarrow> if kind e = Interrupted then write_all wr buf d else io_return (Inl e) d) d)"

text \<open>
  \<open>read_to_end\<close>: the vector's bytes up to its length \<open>len\<close> are \<open>acc\<close>, and \<open>tail\<close> is the space behind
  them up to the capacity; \<open>reserve n\<close> is the capacity of a full vector of length \<open>n\<close> after \<open>reserve(32)\<close>.
  The guard truncates the vector on return.
\<close>

partial_function (option) read_to_end_loop ::
  "'d reader \<Rightarrow> (nat \<Rightarrow> nat) \<Rightarrow> nat \<Rightarrow> u8 list \<Rightarrow> u8 list \<Rightarrow> ('d, nat io_result \<times> u8 list) io" where
  "read_to_end_loop rd reserve start_len acc tail d =
     (let space = (if tail = [] then replicate (reserve (length acc) - length acc) 0 else tail) in
      io_bind (rd space) (\<lambda>(r, space) d.
        case r of
          Inr n \<Rightarrow>
            if n = 0 then io_return (Inr (length acc - start_len), acc) d
            else if n > length space then slice_panic d
            else read_to_end_loop rd reserve start_len (acc @ take n space) (drop n space) d
        | Inl e \<Rightarrow>
            if kind e = Interrupted then read_to_end_loop rd reserve start_len acc space d
            else io_return (Inl e, acc) d) d)"

definition read_to_end :: "'d reader \<Rightarrow> (nat \<Rightarrow> nat) \<Rightarrow> u8 list \<Rightarrow> ('d, nat io_result \<times> u8 list) io" where
  "read_to_end rd reserve buf = read_to_end_loop rd reserve (length buf) buf []"

partial_function (option) read_one_byte :: "'d reader \<Rightarrow> ('d, (u8 io_result) option) io" where
  "read_one_byte rd d =
     io_bind (rd [0]) (\<lambda>(r, buf) d.
       case r of
         Inr n \<Rightarrow> if n = 0 then io_return None d else io_return (Some (Inr (hd buf))) d
       | Inl e \<Rightarrow> if kind e = Interrupted then read_one_byte rd d else io_return (Some (Inl e)) d) d"

subsection \<open>Buffered reading\<close>

partial_function (option) read_until_loop :: "'d buf_read \<Rightarrow> u8 \<Rightarrow> nat \<Rightarrow> u8 list \<Rightarrow> ('d, nat io_result \<times> u8 list) io" where
  "read_until_loop r delim read buf d =
     io_bind (fill_buf r) (\<lambda>res d.
       case res of
         Inl e \<Rightarrow> if kind e = Interrupted then read_until_loop r delim read buf d else io_return (Inl e, buf) d
       | Inr available \<Rightarrow>
           (case memchr delim available of
              Some i \<Rightarrow> io_then (consume r (i + 1)) (io_return (Inr (read + (i + 1)), buf @ take (i + 1) available)) d
            | None \<Rightarrow>
                io_then (consume r (length available)) (\<lambda>d.
                  if length available = 0 then io_return (Inr read, buf) d
                  else read_until_loop r delim (read + length available) (buf @ available) d) d)) d"

definition read_until :: "'d buf_read \<Rightarrow> u8 \<Rightarrow> u8 list \<Rightarrow> ('d, nat io_result \<times> u8 list) io" where
  "read_until r delim buf = read_until_loop r delim 0 buf"

text \<open>\<open>append_to_string\<close>: the guard truncates the string to its prior length unless the new bytes are valid.\<close>

definition append_to_string ::
  "u8 list \<Rightarrow> (u8 list \<Rightarrow> ('d, nat io_result \<times> u8 list) io) \<Rightarrow> ('d, nat io_result \<times> u8 list) io" where
  "append_to_string buf f =
     io_bind (f buf) (\<lambda>(ret, vec).
       if from_utf8 (drop (length buf) vec) = None
       then io_return (case ret of Inr _ \<Rightarrow> Inl (error_new InvalidData ''stream did not contain valid UTF-8'')
                                 | Inl e \<Rightarrow> Inl e, take (length buf) vec)
       else io_return (ret, vec))"

definition read_to_string :: "'d reader \<Rightarrow> (nat \<Rightarrow> nat) \<Rightarrow> u8 list \<Rightarrow> ('d, nat io_result \<times> u8 list) io" where
  "read_to_string rd reserve buf = append_to_string buf (\<lambda>b. read_to_end rd reserve b)"

definition read_line :: "'d buf_read \<Rightarrow> u8 list \<Rightarrow> ('d, nat io_result \<times> u8 list) io" where
  "read_line r buf = append_to_string buf (\<lambda>b. read_until r 10 b)"

definition split_next :: "'d buf_read \<Rightarrow> u8 \<Rightarrow> ('d, (u8 list io_result) option) io" where
  "split_next r delim =
     io_bind (read_until r delim []) (\<lambda>(res, buf).
       case res of
         Inr n \<Rightarrow>
           if n = 0 then io_return None
           else if buf = [] then slice_panic
           else io_return (Some (Inr (if last buf = delim then butlast buf else buf)))
       | Inl e \<Rightarrow> io_return (Some (Inl e)))"

definition strip_newline :: "u8 list \<Rightarrow> u8 list" where
  "strip_newline buf =
     (if buf \<noteq> [] \<and> last buf = 10
      then let buf = butlast buf in (if buf \<noteq> [] \<and> last buf = 13 then butlast buf else buf)
      else buf)"

definition lines_next :: "'d buf_read \<Rightarrow> ('d, (u8 list io_result) option) io" where
  "lines_next r =
     io_bind (read_line r []) (\<lambda>(res, buf).
       case res of
         Inr n \<Rightarrow> if n = 0 then io_return None else io_return (Some (Inr (strip_newline buf)))
       | Inl e \<Rightarrow> io_return (Some (Inl e)))"

subsection \<open>Byte slices and vectors\<close>

text \<open>Reading from a slice advances it; the state is the slice. Writing into a slice or a vector: the state is what is
  left of the slice, with the bytes already written, and the vector.\<close>

definition slice_read :: "(u8 list) reader" where
  "slice_read buf s =
     (let amt = min (length buf) (length s); a = take amt s; b = drop amt s in
      io_return (Inr amt, a @ drop amt buf) b)"

definition slice_read_exact :: "u8 list \<Rightarrow> (u8 list, unit io_result \<times> u8 list) io" where
  "slice_read_exact buf s =
     (if length buf > length s
      then io_return (Inl (error_new UnexpectedEof ''failed to fill whole buffer''), buf) s
      else io_return (Inr (), take (length buf) s) (drop (length buf) s))"

definition slice_read_to_end :: "u8 list \<Rightarrow> (u8 list, nat io_result \<times> u8 list) io" where
  "slice_read_to_end buf s = io_return (Inr (length s), buf @ s) (drop (length s) s)"

definition slice_fill_buf :: "(u8 list, u8 list io_result) io" where
  "slice_fill_buf s = io_return (Inr s) s"

definition slice_consume :: "nat \<Rightarrow> (u8 list, unit) io" where
  "slice_consume amt s = (if amt > length s then slice_panic s else io_return () (drop amt s))"

definition slice_buf_read :: "(u8 list) buf_read" where
  "slice_buf_read = \<lparr>fill_buf = slice_fill_buf, consume = slice_consume\<rparr>"

definition slice_write :: "(u8 list \<times> u8 list) writer" where
  "slice_write data s =
     (case s of (written, left) \<Rightarrow>
        let amt = min (length data) (length left) in
        io_return (Inr amt) (written @ take amt data, drop amt left))"

definition slice_write_all :: "u8 list \<Rightarrow> (u8 list \<times> u8 list, unit io_result) io" where
  "slice_write_all data =
     io_bind (slice_write data) (\<lambda>r. io_return (case r of
       Inr n \<Rightarrow> if n = length data then Inr () else Inl (error_new WriteZero ''failed to write whole buffer'')
     | Inl e \<Rightarrow> Inl e))"

definition vec_write :: "(u8 list) writer" where
  "vec_write buf s = io_return (Inr (length buf)) (s @ buf)"

definition vec_write_all :: "u8 list \<Rightarrow> (u8 list, unit io_result) io" where
  "vec_write_all buf s = io_return (Inr ()) (s @ buf)"

subsection \<open>Adaptors and utilities\<close>

text \<open>\<open>Chain\<close>: the two readers with their own states, and whether the first has ended.\<close>

type_synonym ('a, 'b) chain = "'a \<times> 'b \<times> bool"

definition on_first :: "('a, 'r) io \<Rightarrow> (('a, 'b) chain, 'r) io" where
  "on_first = io_zoom fst (\<lambda>a (_, b, done). (a, b, done))"

definition on_second :: "('b, 'r) io \<Rightarrow> (('a, 'b) chain, 'r) io" where
  "on_second = io_zoom (\<lambda>(_, b, _). b) (\<lambda>b (a, _, done). (a, b, done))"

definition chain_done :: "(('a, 'b) chain, unit) io" where
  "chain_done = io_state (\<lambda>(a, b, _). ((), (a, b, True)))"

definition chain_read :: "'a reader \<Rightarrow> 'b reader \<Rightarrow> (('a, 'b) chain) reader" where
  "chain_read first second buf =
     io_bind (io_state (\<lambda>s. (snd (snd s), s))) (\<lambda>done_first.
       if \<not> done_first
       then io_bind (on_first (first buf)) (\<lambda>(r, buf).
              case r of
                Inl e \<Rightarrow> io_return (Inl e, buf)
              | Inr n \<Rightarrow> if n = 0 \<and> length buf \<noteq> 0 then io_then chain_done (on_second (second buf))
                         else io_return (Inr n, buf))
       else on_second (second buf))"

definition chain_fill_buf :: "'a buf_read \<Rightarrow> 'b buf_read \<Rightarrow> (('a, 'b) chain, u8 list io_result) io" where
  "chain_fill_buf first second =
     io_bind (io_state (\<lambda>s. (snd (snd s), s))) (\<lambda>done_first.
       if \<not> done_first
       then io_bind (on_first (fill_buf first)) (\<lambda>r.
              case r of
                Inl e \<Rightarrow> io_return (Inl e)
              | Inr buf \<Rightarrow> if length buf = 0 then io_then chain_done (on_second (fill_buf second))
                           else io_return (Inr buf))
       else on_second (fill_buf second))"

definition chain_consume :: "'a buf_read \<Rightarrow> 'b buf_read \<Rightarrow> nat \<Rightarrow> (('a, 'b) chain, unit) io" where
  "chain_consume first second amt =
     io_bind (io_state (\<lambda>s. (snd (snd s), s))) (\<lambda>done_first.
       if \<not> done_first then on_first (consume first amt) else on_second (consume second amt))"

text \<open>\<open>Take\<close>: the limit and the inner reader's state.\<close>

type_synonym 'd take_state = "u64 \<times> 'd"

definition take_read :: "'d reader \<Rightarrow> ('d take_state) reader" where
  "take_read rd buf s =
     (case s of (limit, d) \<Rightarrow>
        if limit = 0 then io_return (Inr 0, buf) s
        else let max = min (length buf) (unat limit) in
             io_bind (io_zoom snd (\<lambda>d (l, _). (l, d)) (rd (take max buf))) (\<lambda>(r, sub).
               case r of
                 Inl e \<Rightarrow> io_return (Inl e, sub @ drop max buf)
               | Inr n \<Rightarrow> io_then (io_state (\<lambda>(l, d). ((), (l - of_nat n, d)))) (io_return (Inr n, sub @ drop max buf))) s)"

definition take_fill_buf :: "'d buf_read \<Rightarrow> ('d take_state, u8 list io_result) io" where
  "take_fill_buf r s =
     (case s of (limit, d) \<Rightarrow>
        if limit = 0 then io_return (Inr []) s
        else io_bind (io_zoom snd (\<lambda>d (l, _). (l, d)) (fill_buf r)) (\<lambda>res.
               io_return (case res of
                 Inl e \<Rightarrow> Inl e
               | Inr buf \<Rightarrow> Inr (take (min (length buf) (unat limit)) buf))) s)"

definition take_consume :: "'d buf_read \<Rightarrow> nat \<Rightarrow> ('d take_state, unit) io" where
  "take_consume r amt s =
     (case s of (limit, d) \<Rightarrow>
        let amt = min amt (unat limit) in
        io_zoom snd (\<lambda>d (l, _). (l, d)) (consume r amt) (limit - of_nat amt, d))"

definition empty_read :: "'d reader" where
  "empty_read buf = io_return (Inr 0, buf)"

definition repeat_read :: "u8 \<Rightarrow> 'd reader" where
  "repeat_read byte buf = io_return (Inr (length buf), replicate (length buf) byte)"

definition sink_write :: "'d writer" where
  "sink_write buf = io_return (Inr (length buf))"

text \<open>\<open>copy\<close>: the buffer is kept between the reads; the count is a \<open>u64\<close>.\<close>

partial_function (option) copy_loop :: "'d reader \<Rightarrow> 'd writer \<Rightarrow> u8 list \<Rightarrow> u64 \<Rightarrow> ('d, u64 io_result) io" where
  "copy_loop reader writer buf written d =
     io_bind (reader buf) (\<lambda>(r, buf) d.
       case r of
         Inl e \<Rightarrow> if kind e = Interrupted then copy_loop reader writer buf written d else io_return (Inl e) d
       | Inr len \<Rightarrow>
           if len = 0 then io_return (Inr written) d
           else if len > length buf then slice_panic d
           else io_bind (write_all writer (take len buf)) (\<lambda>w d.
                  case w of
                    Inl e \<Rightarrow> io_return (Inl e) d
                  | Inr _ \<Rightarrow> copy_loop reader writer buf (written + of_nat len) d) d) d"

definition io_copy :: "'d reader \<Rightarrow> 'd writer \<Rightarrow> ('d, u64 io_result) io" where
  "io_copy reader writer = copy_loop reader writer (replicate DEFAULT_BUF_SIZE 0) 0"

end
