(* ===== verification/IoSource.thy ===== *)
theory IoSource
  imports IoRead
begin

text \<open>
  The contracts of \<open>io::Read\<close> and \<open>io::BufRead\<close>: a reader delivers the bytes of a source in
  order, in pieces of its own choosing, and returns 0 only at the end. What the default methods of
  \<open>std/src/io/mod.rs\<close> do is proved from the contracts once, and the contracts are established for the
  implementations of the library.
\<close>

subsection \<open>The loops, unfolded once\<close>

lemmas io_loop_steps = read_exact_loop.simps write_all.simps read_to_end_loop.simps read_one_byte.simps
  read_until_loop.simps copy_loop.simps

subsection \<open>Byte sources\<close>

locale byte_source =
  fixes rd :: "'d reader" and inv :: "'d \<Rightarrow> bool" and src :: "'d \<Rightarrow> u8 list"
  assumes read_law: "inv d \<Longrightarrow>
    \<exists>n buf' d'. rd buf d = Some (Inr ((Inr n, buf'), d')) \<and> length buf' = length buf \<and>
      n \<le> length buf \<and> n \<le> length (src d) \<and> take n buf' = take n (src d) \<and>
      (n = 0 \<longrightarrow> src d = [] \<or> buf = []) \<and> src d' = drop n (src d) \<and> inv d'"
begin

lemma read_exact_enough:
  "inv d \<Longrightarrow> length buf \<le> length (src d) \<Longrightarrow>
     \<exists>d'. read_exact_loop rd pre buf d = Some (Inr ((Inr (), pre @ take (length buf) (src d)), d')) \<and>
       src d' = drop (length buf) (src d) \<and> inv d'"
proof (induction "length buf" arbitrary: buf pre d rule: less_induct)
  case less
  show ?case
  proof (cases "buf = []")
    case True
    then show ?thesis using less.prems by (simp add: read_exact_loop.simps io_return_def)
  next
    case False
    obtain n buf' d' where r: "rd buf d = Some (Inr ((Inr n, buf'), d'))" "length buf' = length buf"
      "n \<le> length buf" "take n buf' = take n (src d)" "n = 0 \<longrightarrow> src d = [] \<or> buf = []"
      "src d' = drop n (src d)" "inv d'"
      using read_law [OF less.prems(1), of buf] by blast
    have n: "n \<noteq> 0" using r(5) False less.prems(2) by auto
    have "\<exists>e. read_exact_loop rd (pre @ take n buf') (drop n buf') d' =
        Some (Inr ((Inr (), (pre @ take n buf') @ take (length (drop n buf')) (src d')), e)) \<and>
        src e = drop (length (drop n buf')) (src d') \<and> inv e"
      using n r(2,3,6,7) False less.prems(2) by (intro less.hyps) (auto simp: diff_le_mono)
    moreover have "read_exact_loop rd pre buf d = read_exact_loop rd (pre @ take n buf') (drop n buf') d'"
      using False n r(2,3) by (simp add: read_exact_loop.simps [of rd pre buf] io_bind_def r(1))
    moreover have "take n (src d) @ take (length buf - n) (drop n (src d)) = take (length buf) (src d)"
      using r(3) by (metis add_diff_inverse_nat not_le take_add)
    ultimately show ?thesis using r(2,3,4,6) by auto
  qed
qed

lemma read_exact_eof:
  "inv d \<Longrightarrow> length (src d) < length buf \<Longrightarrow>
     \<exists>buf' d'. read_exact_loop rd pre buf d =
       Some (Inr ((Inl (error_new UnexpectedEof ''failed to fill whole buffer''), buf'), d')) \<and> src d' = [] \<and> inv d'"
proof (induction "length buf" arbitrary: buf pre d rule: less_induct)
  case less
  obtain n buf' d' where r: "rd buf d = Some (Inr ((Inr n, buf'), d'))" "length buf' = length buf"
    "n \<le> length buf" "n \<le> length (src d)" "n = 0 \<longrightarrow> src d = [] \<or> buf = []" "src d' = drop n (src d)" "inv d'"
    using read_law [OF less.prems(1), of buf] by blast
  have ne: "buf \<noteq> []" using less.prems(2) by auto
  show ?case
  proof (cases "n = 0")
    case True
    then show ?thesis using ne r(1,5,6,7) by (auto simp: read_exact_loop.simps [of rd pre buf] io_bind_def io_return_def)
  next
    case False
    have "\<exists>b e. read_exact_loop rd (pre @ take n buf') (drop n buf') d' =
        Some (Inr ((Inl (error_new UnexpectedEof ''failed to fill whole buffer''), b), e)) \<and> src e = [] \<and> inv e"
      using False r less.prems(2) ne by (intro less.hyps) auto
    moreover have "read_exact_loop rd pre buf d = read_exact_loop rd (pre @ take n buf') (drop n buf') d'"
      using False ne r(2,3) by (simp add: read_exact_loop.simps [of rd pre buf] io_bind_def r(1))
    ultimately show ?thesis by simp
  qed
qed

lemma read_to_end_all:
  "inv d \<Longrightarrow> (\<And>n. n < reserve n) \<Longrightarrow> st \<le> length acc \<Longrightarrow>
     \<exists>d'. read_to_end_loop rd reserve st acc sp d = Some (Inr ((Inr (length acc + length (src d) - st), acc @ src d), d')) \<and>
       src d' = [] \<and> inv d'"
proof (induction "length (src d)" arbitrary: acc sp d rule: less_induct)
  case less
  define space where "space = (if sp = [] then replicate (reserve (length acc) - length acc) 0 else sp)"
  have ne: "space \<noteq> []" using less.prems(2)[of "length acc"] by (auto simp: space_def)
  obtain n buf' d' where r: "rd space d = Some (Inr ((Inr n, buf'), d'))" "length buf' = length space"
    "n \<le> length space" "n \<le> length (src d)" "take n buf' = take n (src d)" "n = 0 \<longrightarrow> src d = [] \<or> space = []"
    "src d' = drop n (src d)" "inv d'"
    using read_law [OF less.prems(1), of space] by blast
  show ?case
  proof (cases "n = 0")
    case True
    then show ?thesis
      using ne r(1,6,7,8)
      by (simp add: read_to_end_loop.simps [of rd reserve st acc sp d] io_bind_def io_return_def flip: space_def)
  next
    case False
    have run: "read_to_end_loop rd reserve st acc sp d = read_to_end_loop rd reserve st (acc @ take n buf') (drop n buf') d'"
      using False r(1-3) by (simp add: read_to_end_loop.simps [of rd reserve st acc sp d] io_bind_def flip: space_def)
    have "length (src d') < length (src d)" using False r(4,7) by simp
    from less.hyps [OF this r(8) less.prems(2), of "acc @ take n buf'" "drop n buf'"] less.prems(3)
    show ?thesis using r(4,5,7) by (simp add: run)
  qed
qed

lemma read_one_byte_source:
  assumes "inv d"
  shows "\<exists>d'. read_one_byte rd d = Some (Inr (case src d of [] \<Rightarrow> None | b # _ \<Rightarrow> Some (Inr b), d')) \<and>
    src d' = drop 1 (src d) \<and> inv d'"
proof -
  obtain n buf' d' where r: "rd [0] d = Some (Inr ((Inr n, buf'), d'))" "length buf' = 1"
    "n \<le> 1" "n \<le> length (src d)" "take n buf' = take n (src d)" "n = 0 \<longrightarrow> src d = []"
    "src d' = drop n (src d)" "inv d'"
    using read_law [OF assms, of "[0]"] by auto
  show ?thesis
  proof (cases "n = 0")
    case True
    then show ?thesis using r by (simp add: read_one_byte.simps [of rd d] io_bind_def io_return_def)
  next
    case False
    then have "n = 1" using r(3) by simp
    then obtain b bs where "src d = b # bs" "buf' = [b]"
      using r(2,4,5) by (cases "src d"; cases buf') auto
    then show ?thesis
      using r \<open>n = 1\<close> by (simp add: read_one_byte.simps [of rd d] io_bind_def io_return_def)
  qed
qed

end

subsection \<open>Buffered sources\<close>

text \<open>The bytes up to and with the first \<open>delim\<close>, or all of them.\<close>

definition through :: "u8 \<Rightarrow> u8 list \<Rightarrow> u8 list" where
  "through delim xs = (case position (\<lambda>b. b = delim) xs of None \<Rightarrow> xs | Some i \<Rightarrow> take (Suc i) xs)"

lemma through_Nil [simp]: "through delim [] = []"
  by (simp add: through_def)

lemma through_empty_iff [simp]: "through delim xs = [] \<longleftrightarrow> xs = []"
  by (auto simp: through_def split: option.splits)

lemma position_append_None:
  "position p xs = None \<Longrightarrow> position p (xs @ ys) = map_option (\<lambda>i. i + length xs) (position p ys)"
  by (induction xs) (simp_all add: option.map_comp comp_def option.map_ident split: if_splits)

lemma position_append_Some: "position p xs = Some i \<Longrightarrow> position p (xs @ ys) = Some i"
  by (induction xs arbitrary: i) (auto split: if_splits)

lemma through_append:
  "position (\<lambda>b. b = delim) xs = Some i \<Longrightarrow> through delim (xs @ ys) = take (Suc i) xs"
  "position (\<lambda>b. b = delim) xs = None \<Longrightarrow> through delim (xs @ ys) = xs @ through delim ys"
  using position_SomeD [of "\<lambda>b. b = delim" xs i]
  by (auto simp: through_def position_append_Some position_append_None split: option.splits)

locale buf_source =
  fixes r :: "'d buf_read" and inv :: "'d \<Rightarrow> bool" and src :: "'d \<Rightarrow> u8 list"
  assumes fill_law: "inv d \<Longrightarrow>
    \<exists>av more d'. fill_buf r d = Some (Inr (Inr av, d')) \<and> src d = av @ more \<and> (av = [] \<longrightarrow> src d = []) \<and>
      (\<forall>n \<le> length av. \<exists>e. consume r n d' = Some (Inr ((), e)) \<and> src e = drop n (src d) \<and> inv e)"
begin

lemma read_until_source:
  "inv d \<Longrightarrow>
     \<exists>d'. read_until_loop r delim k buf d =
       Some (Inr ((Inr (k + length (through delim (src d))), buf @ through delim (src d)), d')) \<and>
       src d' = drop (length (through delim (src d))) (src d) \<and> inv d'"
proof (induction "length (src d)" arbitrary: d k buf rule: less_induct)
  case less
  obtain av more d1 where f: "fill_buf r d = Some (Inr (Inr av, d1))" "src d = av @ more" "av = [] \<longrightarrow> src d = []"
    and c: "\<And>n. n \<le> length av \<Longrightarrow> \<exists>e. consume r n d1 = Some (Inr ((), e)) \<and> src e = drop n (src d) \<and> inv e"
    using fill_law [OF less.prems] by blast
  show ?case
  proof (cases "position (\<lambda>b. b = delim) av")
    case (Some i)
    then have i: "Suc i \<le> length av" using position_SomeD [OF Some] by simp
    obtain e where "consume r (Suc i) d1 = Some (Inr ((), e))" "src e = drop (Suc i) (src d)" "inv e"
      using c [OF i] by blast
    then show ?thesis
      using Some i f(1,2) through_append(1)[OF Some, of more]
      by (simp add: read_until_loop.simps [of r delim k buf d] memchr_def io_defs)
  next
    case None
    obtain e where e: "consume r (length av) d1 = Some (Inr ((), e))" "src e = drop (length av) (src d)" "inv e"
      using c [of "length av"] by blast
    show ?thesis
    proof (cases "av = []")
      case True
      then show ?thesis
        using None e f by (simp add: read_until_loop.simps [of r delim k buf d] memchr_def io_defs)
    next
      case False
      have run: "read_until_loop r delim k buf d = read_until_loop r delim (k + length av) (buf @ av) e"
        using None e(1) f(1) False by (simp add: read_until_loop.simps [of r delim k buf d] memchr_def io_defs)
      have "length (src e) < length (src d)" using e(2) f(2) False by simp
      from less.hyps [OF this e(3), of "k + length av" "buf @ av"]
      show ?thesis using e(2) f(2) through_append(2)[OF None, of more] by (simp add: run add.assoc)
    qed
  qed
qed

lemma read_line_source:
  assumes "inv d"
  shows "\<exists>d'. read_line r buf d =
      Some (Inr (if utf8_valid (through 10 (src d)) then (Inr (length (through 10 (src d))), buf @ through 10 (src d))
                 else (Inl (error_new InvalidData ''stream did not contain valid UTF-8''), buf), d')) \<and>
    src d' = drop (length (through 10 (src d))) (src d) \<and> inv d'"
  using read_until_source [OF assms, of 10 0 buf]
  by (auto simp: read_line_def append_to_string_def read_until_def from_utf8_def io_defs)

lemma lines_next_source:
  assumes "inv d"
  shows "\<exists>d'. lines_next r d =
      Some (Inr (if src d = [] then None
                 else if utf8_valid (through 10 (src d)) then Some (Inr (strip_newline (through 10 (src d))))
                 else Some (Inl (error_new InvalidData ''stream did not contain valid UTF-8'')), d')) \<and>
    src d' = drop (length (through 10 (src d))) (src d) \<and> inv d'"
  using read_line_source [OF assms, of "[]"] by (auto simp: lines_next_def io_defs)

lemma split_next_source:
  assumes "inv d"
  shows "\<exists>d'. split_next r delim d =
      Some (Inr (if src d = [] then None
                 else Some (Inr (if last (through delim (src d)) = delim then butlast (through delim (src d))
                                 else through delim (src d))), d')) \<and>
    src d' = drop (length (through delim (src d))) (src d) \<and> inv d'"
  using read_until_source [OF assms, of delim 0 "[]"] by (auto simp: split_next_def read_until_def io_defs)

end

subsection \<open>Slices\<close>

interpretation slice_source: byte_source slice_read "\<lambda>_. True" "\<lambda>s. s"
proof
  fix buf d :: "u8 list"
  let ?n = "min (length buf) (length d)"
  show "\<exists>n buf' d'. slice_read buf d = Some (Inr ((Inr n, buf'), d')) \<and> length buf' = length buf \<and>
      n \<le> length buf \<and> n \<le> length d \<and> take n buf' = take n d \<and> (n = 0 \<longrightarrow> d = [] \<or> buf = []) \<and> d' = drop n d \<and> True"
    by (rule exI [of _ ?n], rule exI [of _ "take ?n d @ drop ?n buf"], rule exI [of _ "drop ?n d"])
      (auto simp: slice_read_def io_return_def Let_def min_def split: if_splits)
qed

interpretation slice_buf: buf_source slice_buf_read "\<lambda>_. True" "\<lambda>s. s"
  by unfold_locales (auto simp: slice_buf_read_def slice_fill_buf_def slice_consume_def io_return_def)

text \<open>The overridden methods of slices agree with the default ones.\<close>

lemma slice_read_to_end_default:
  "(\<And>n. n < reserve n) \<Longrightarrow> read_to_end slice_read reserve buf s = slice_read_to_end buf s"
  using slice_source.read_to_end_all [where d = s and reserve = reserve and st = "length buf" and acc = buf and sp = "[]"]
  by (auto simp: read_to_end_def slice_read_to_end_def io_return_def)

lemma slice_read_exact_default:
  "length buf \<le> length s \<Longrightarrow> read_exact slice_read buf s = slice_read_exact buf s"
  using slice_source.read_exact_enough [where d = s and buf = buf and pre = "[]"]
  by (auto simp: read_exact_def slice_read_exact_def io_return_def)

subsection \<open>Adaptors keep the contract\<close>

text \<open>Two sources one after the other are a source, and so is a source cut off at a limit.\<close>

definition chain_src :: "('a \<Rightarrow> u8 list) \<Rightarrow> ('b \<Rightarrow> u8 list) \<Rightarrow> ('a, 'b) chain \<Rightarrow> u8 list" where
  "chain_src s1 s2 c = (case c of (a, b, done) \<Rightarrow> if done then s2 b else s1 a @ s2 b)"

definition chain_inv :: "('a \<Rightarrow> bool) \<Rightarrow> ('b \<Rightarrow> bool) \<Rightarrow> ('a, 'b) chain \<Rightarrow> bool" where
  "chain_inv i1 i2 c = (case c of (a, b, _) \<Rightarrow> i1 a \<and> i2 b)"

lemma on_first_ok: "c a = Some (Inr (x, a')) \<Longrightarrow> on_first c (a, b, f) = Some (Inr (x, (a', b, f)))"
  by (simp add: on_first_def io_zoom_def)

lemma on_second_ok: "c b = Some (Inr (x, b')) \<Longrightarrow> on_second c (a, b, f) = Some (Inr (x, (a, b', f)))"
  by (simp add: on_second_def io_zoom_def)

locale chained =
  fst: byte_source rd1 inv1 src1 + snd: byte_source rd2 inv2 src2
  for rd1 :: "'a reader" and inv1 src1 and rd2 :: "'b reader" and inv2 src2

sublocale chained \<subseteq> chain: byte_source "chain_read rd1 rd2" "chain_inv inv1 inv2" "chain_src src1 src2"
proof
  fix c :: "('a, 'b) chain" and buf :: "u8 list"
  obtain a b f where c: "c = (a, b, f)" by (cases c)
  assume "chain_inv inv1 inv2 c"
  then have i: "inv1 a" "inv2 b" by (simp_all add: c chain_inv_def)
  show "\<exists>n buf' d'. chain_read rd1 rd2 buf c = Some (Inr ((Inr n, buf'), d')) \<and> length buf' = length buf \<and>
      n \<le> length buf \<and> n \<le> length (chain_src src1 src2 c) \<and> take n buf' = take n (chain_src src1 src2 c) \<and>
      (n = 0 \<longrightarrow> chain_src src1 src2 c = [] \<or> buf = []) \<and> chain_src src1 src2 d' = drop n (chain_src src1 src2 c) \<and>
      chain_inv inv1 inv2 d'"
  proof (cases f)
    case True
    obtain n buf' b' where r: "rd2 buf b = Some (Inr ((Inr n, buf'), b'))" "length buf' = length buf"
      "n \<le> length buf" "n \<le> length (src2 b)" "take n buf' = take n (src2 b)" "n = 0 \<longrightarrow> src2 b = [] \<or> buf = []"
      "src2 b' = drop n (src2 b)" "inv2 b'"
      using snd.read_law [OF i(2), of buf] by blast
    then show ?thesis
      using True i by (simp add: c chain_read_def chain_src_def chain_inv_def on_second_ok [where c = "rd2 buf", OF r(1)])
  next
    case False
    obtain n buf' a' where r: "rd1 buf a = Some (Inr ((Inr n, buf'), a'))" "length buf' = length buf"
      "n \<le> length buf" "n \<le> length (src1 a)" "take n buf' = take n (src1 a)" "n = 0 \<longrightarrow> src1 a = [] \<or> buf = []"
      "src1 a' = drop n (src1 a)" "inv1 a'"
      using fst.read_law [OF i(1), of buf] by blast
    show ?thesis
    proof (cases "n = 0 \<and> buf \<noteq> []")
      case at_end: True
      obtain m buf2 b' where s: "rd2 buf' b = Some (Inr ((Inr m, buf2), b'))" "length buf2 = length buf'"
        "m \<le> length buf'" "m \<le> length (src2 b)" "take m buf2 = take m (src2 b)" "m = 0 \<longrightarrow> src2 b = [] \<or> buf' = []"
        "src2 b' = drop m (src2 b)" "inv2 b'"
        using snd.read_law [OF i(2), of buf'] by blast
      have "chain_read rd1 rd2 buf c = Some (Inr ((Inr m, buf2), (a', b', True)))"
        using False at_end r(2)
        by (auto simp: c chain_read_def chain_done_def on_second_ok [where c = "rd2 buf'", OF s(1)] io_bind_ok [where c = "on_first (rd1 buf)", OF on_first_ok [where c = "rd1 buf", OF r(1)]])
      then show ?thesis
        using False at_end r s by (auto simp: c chain_src_def chain_inv_def)
    next
      case more: False
      have "chain_read rd1 rd2 buf c = Some (Inr ((Inr n, buf'), (a', b, False)))"
        using False more r(2)
        by (auto simp: c chain_read_def io_return_def io_bind_ok [where c = "on_first (rd1 buf)", OF on_first_ok [where c = "rd1 buf", OF r(1)]])
      then show ?thesis
        using False more r i by (auto simp: c chain_src_def chain_inv_def)
    qed
  qed
qed

definition take_src :: "('d \<Rightarrow> u8 list) \<Rightarrow> 'd take_state \<Rightarrow> u8 list" where
  "take_src s t = (case t of (limit, d) \<Rightarrow> take (unat limit) (s d))"

definition take_inv :: "('d \<Rightarrow> bool) \<Rightarrow> 'd take_state \<Rightarrow> bool" where
  "take_inv i t = i (snd t)"

locale limited = inner: byte_source rd inv src
  for rd :: "'d reader" and inv src

sublocale limited \<subseteq> take: byte_source "take_read rd" "take_inv inv" "take_src src"
proof
  fix t :: "'d take_state" and buf :: "u8 list"
  obtain l d where t: "t = (l, d)" by (cases t)
  assume "take_inv inv t"
  then have i: "inv d" by (simp add: t take_inv_def)
  let ?max = "min (length buf) (unat l)"
  obtain n buf' d' where r: "rd (take ?max buf) d = Some (Inr ((Inr n, buf'), d'))" "length buf' = ?max"
    "n \<le> ?max" "n \<le> length (src d)" "take n buf' = take n (src d)" "n = 0 \<longrightarrow> src d = [] \<or> take ?max buf = []"
    "src d' = drop n (src d)" "inv d'"
    using inner.read_law [OF i, of "take ?max buf"] by auto
  show "\<exists>n buf' d'. take_read rd buf t = Some (Inr ((Inr n, buf'), d')) \<and> length buf' = length buf \<and>
      n \<le> length buf \<and> n \<le> length (take_src src t) \<and> take n buf' = take n (take_src src t) \<and>
      (n = 0 \<longrightarrow> take_src src t = [] \<or> buf = []) \<and> take_src src d' = drop n (take_src src t) \<and> take_inv inv d'"
  proof (cases "l = 0")
    case True
    then show ?thesis using i by (simp add: t take_read_def take_src_def take_inv_def io_return_def)
  next
    case False
    have run: "take_read rd buf t = Some (Inr ((Inr n, buf' @ drop ?max buf), (l - of_nat n, d')))"
      using False by (simp add: t take_read_def io_zoom_def io_bind_def r(1) io_return_def Let_def)
    have lt: "unat l < 2 ^ 64" using unsigned_less [of l] by simp
    have l: "unat (l - of_nat n) = unat l - n"
      using r(3) lt by (simp add: unat_sub word_le_nat_alt unat_of_nat)
    show ?thesis
      unfolding run using r False by (auto simp: t take_src_def take_inv_def l drop_take min_def split: if_splits)
  qed
qed

interpretation slice_chain: chained slice_read "\<lambda>_. True" "\<lambda>s. s" slice_read "\<lambda>_. True" "\<lambda>s. s"
  by unfold_locales

interpretation slice_take: limited slice_read "\<lambda>_. True" "\<lambda>s. s"
  by unfold_locales

end
