(* ===== verification/IoBuffered.thy ===== *)
theory IoBuffered
  imports IoSource
begin

text \<open>
  The buffering wrappers of \<open>std/src/io/buffered.rs\<close>: \<open>BufReader\<close>, \<open>BufWriter\<close> and \<open>LineWriter\<close>. The
  state of a wrapper is its own record next to the state of the reader or writer it owns.
\<close>

subsection \<open>BufReader\<close>

record buf_reader =
  br_buf :: "u8 list"
  br_pos :: nat
  br_cap :: nat

type_synonym 'd br_state = "buf_reader \<times> 'd"

definition bufreader_with_capacity :: "nat \<Rightarrow> buf_reader" where
  "bufreader_with_capacity cap = \<lparr>br_buf = replicate cap 0, br_pos = 0, br_cap = 0\<rparr>"

definition bufreader_new :: buf_reader where
  "bufreader_new = bufreader_with_capacity DEFAULT_BUF_SIZE"

definition br_is_empty :: "buf_reader \<Rightarrow> bool" where
  "br_is_empty b \<longleftrightarrow> br_pos b = br_cap b"

definition on_inner :: "('d, 'a) io \<Rightarrow> ('s \<times> 'd, 'a) io" where
  "on_inner = io_zoom snd (\<lambda>d (s, _). (s, d))"

definition on_own :: "('s \<Rightarrow> 's) \<Rightarrow> ('s \<times> 'd, unit) io" where
  "on_own f = io_state (\<lambda>(s, d). ((), (f s, d)))"

definition own :: "('s \<times> 'd, 's) io" where
  "own = io_state (\<lambda>(s, d). (s, (s, d)))"

definition br_buffered :: "('d br_state, u8 list io_result) io" where
  "br_buffered = io_bind own (\<lambda>b.
     if br_cap b > length (br_buf b) \<or> br_pos b > br_cap b then slice_panic
     else io_return (Inr (drop (br_pos b) (take (br_cap b) (br_buf b)))))"

definition br_fill_buf :: "'d reader \<Rightarrow> ('d br_state, u8 list io_result) io" where
  "br_fill_buf rd = io_bind own (\<lambda>b.
     if br_pos b \<ge> br_cap b
     then io_bind (on_inner (rd (br_buf b))) (\<lambda>(r, buf).
            io_then (on_own (\<lambda>b. b\<lparr>br_buf := buf\<rparr>))
            (case r of
               Inl e \<Rightarrow> io_return (Inl e)
             | Inr n \<Rightarrow> io_then (on_own (\<lambda>b. b\<lparr>br_cap := n, br_pos := 0\<rparr>)) br_buffered))
     else br_buffered)"

definition br_consume :: "nat \<Rightarrow> ('d br_state, unit) io" where
  "br_consume amt = on_own (\<lambda>b. b\<lparr>br_pos := min ((br_pos b + amt) mod 2 ^ 64) (br_cap b)\<rparr>)"

definition bufreader :: "'d reader \<Rightarrow> ('d br_state) buf_read" where
  "bufreader rd = \<lparr>fill_buf = br_fill_buf rd, consume = br_consume\<rparr>"

text \<open>\<open>rem.read(buf)\<close> is the reader of slices, on the buffered bytes.\<close>

definition br_read :: "'d reader \<Rightarrow> ('d br_state) reader" where
  "br_read rd buf = io_bind own (\<lambda>b.
     if br_pos b = br_cap b \<and> length buf \<ge> length (br_buf b) then on_inner (rd buf)
     else io_bind (br_fill_buf rd) (\<lambda>r.
       case r of
         Inl e \<Rightarrow> io_return (Inl e, buf)
       | Inr rem \<Rightarrow>
           let nread = min (length buf) (length rem) in
           io_then (br_consume nread) (io_return (Inr nread, take nread rem @ drop nread buf))))"

text \<open>What is left of a buffered source, and the state the operations keep.\<close>

definition br_src :: "('d \<Rightarrow> u8 list) \<Rightarrow> 'd br_state \<Rightarrow> u8 list" where
  "br_src src s = (case s of (b, d) \<Rightarrow> drop (br_pos b) (take (br_cap b) (br_buf b)) @ src d)"

definition br_inv :: "('d \<Rightarrow> bool) \<Rightarrow> 'd br_state \<Rightarrow> bool" where
  "br_inv i s = (case s of (b, d) \<Rightarrow> br_pos b \<le> br_cap b \<and> br_cap b \<le> length (br_buf b) \<and>
     0 < length (br_buf b) \<and> length (br_buf b) < 2 ^ 64 \<and> i d)"

lemmas own_defs = on_inner_def on_own_def own_def io_zoom_def

lemma on_inner_ok: "c d = Some (Inr (x, d')) \<Longrightarrow> on_inner c (s, d) = Some (Inr (x, (s, d')))"
  by (simp add: own_defs)

lemma own_bind [simp]: "io_bind own f (s, d) = f s (s, d)"
  by (simp add: own_def)

lemma on_own_then [simp]: "io_then (on_own f) k (s, d) = k (f s, d)"
  by (simp add: on_own_def)

lemma br_buffered_ok:
  "br_pos b \<le> br_cap b \<Longrightarrow> br_cap b \<le> length (br_buf b) \<Longrightarrow>
     br_buffered (b, d) = Some (Inr (Inr (drop (br_pos b) (take (br_cap b) (br_buf b))), (b, d)))"
  by (simp add: br_buffered_def io_return_def)

locale buffered = inner: byte_source rd inv src
  for rd :: "'d reader" and inv src
begin

lemma fill_buf_ok:
  assumes "br_inv inv s"
  shows "\<exists>b d. br_fill_buf rd s = Some (Inr (Inr (drop (br_pos b) (take (br_cap b) (br_buf b))), (b, d))) \<and>
    br_inv inv (b, d) \<and> br_src src (b, d) = br_src src s \<and> length (br_buf b) = length (br_buf (fst s)) \<and>
    (br_pos b = br_cap b \<longrightarrow> br_src src s = [])"
proof -
  obtain b d where s: "s = (b, d)" by (cases s)
  have i: "br_pos b \<le> br_cap b" "br_cap b \<le> length (br_buf b)" "0 < length (br_buf b)" "length (br_buf b) < 2 ^ 64" "inv d"
    using assms by (auto simp: s br_inv_def)
  show ?thesis
  proof (cases "br_pos b \<ge> br_cap b")
    case False
    then have "br_fill_buf rd s = Some (Inr (Inr (drop (br_pos b) (take (br_cap b) (br_buf b))), (b, d)))"
      using i by (simp add: s br_fill_buf_def br_buffered_ok)
    then show ?thesis using assms False by (intro exI [of _ b] exI [of _ d]) (auto simp: s)
  next
    case True
    obtain n buf' d' where r: "rd (br_buf b) d = Some (Inr ((Inr n, buf'), d'))" "length buf' = length (br_buf b)"
      "n \<le> length (br_buf b)" "n \<le> length (src d)" "take n buf' = take n (src d)" "n = 0 \<longrightarrow> src d = [] \<or> br_buf b = []"
      "src d' = drop n (src d)" "inv d'"
      using inner.read_law [OF i(5), of "br_buf b"] by blast
    let ?b = "b\<lparr>br_buf := buf', br_cap := n, br_pos := 0\<rparr>"
    have "br_fill_buf rd s = Some (Inr (Inr (take n buf'), (?b, d')))"
      using True r(2,3)
      by (simp add: s br_fill_buf_def br_buffered_ok io_bind_ok [where c = "on_inner (rd (br_buf b))",
            OF on_inner_ok [where c = "rd (br_buf b)", OF r(1)]])
    then show ?thesis
      using True i r by (intro exI [of _ ?b] exI [of _ d']) (auto simp: s br_inv_def br_src_def)
  qed
qed

lemma consume_ok:
  assumes "br_inv inv (b, d)" "n \<le> br_cap b - br_pos b"
  shows "br_consume n (b, d) = Some (Inr ((), (b\<lparr>br_pos := br_pos b + n\<rparr>, d)))"
    "br_inv inv (b\<lparr>br_pos := br_pos b + n\<rparr>, d)"
    "br_src src (b\<lparr>br_pos := br_pos b + n\<rparr>, d) = drop n (br_src src (b, d))"
  using assms by (auto simp: br_consume_def on_own_def io_state_def br_inv_def br_src_def add.commute)

end

sublocale buffered \<subseteq> buf: buf_source "bufreader rd" "br_inv inv" "br_src src"
proof
  fix s :: "'d br_state"
  assume "br_inv inv s"
  then obtain b d where f: "br_fill_buf rd s = Some (Inr (Inr (drop (br_pos b) (take (br_cap b) (br_buf b))), (b, d)))"
    "br_inv inv (b, d)" "br_src src (b, d) = br_src src s" "br_pos b = br_cap b \<longrightarrow> br_src src s = []"
    using fill_buf_ok by blast
  show "\<exists>av more d'. fill_buf (bufreader rd) s = Some (Inr (Inr av, d')) \<and> br_src src s = av @ more \<and>
      (av = [] \<longrightarrow> br_src src s = []) \<and>
      (\<forall>n \<le> length av. \<exists>e. consume (bufreader rd) n d' = Some (Inr ((), e)) \<and>
         br_src src e = drop n (br_src src s) \<and> br_inv inv e)"
  proof (intro exI conjI allI impI)
    show "fill_buf (bufreader rd) s = Some (Inr (Inr (drop (br_pos b) (take (br_cap b) (br_buf b))), (b, d)))"
      by (simp add: bufreader_def f(1))
    show "br_src src s = drop (br_pos b) (take (br_cap b) (br_buf b)) @ src d"
      using f(3) by (simp add: br_src_def)
    show "drop (br_pos b) (take (br_cap b) (br_buf b)) = [] \<Longrightarrow> br_src src s = []"
      using f(2,4) by (auto simp: br_inv_def)
    fix n
    assume "n \<le> length (drop (br_pos b) (take (br_cap b) (br_buf b)))"
    then have n: "n \<le> br_cap b - br_pos b" using f(2) by (simp add: br_inv_def)
    show "consume (bufreader rd) n (b, d) = Some (Inr ((), (b\<lparr>br_pos := br_pos b + n\<rparr>, d)))"
      "br_src src (b\<lparr>br_pos := br_pos b + n\<rparr>, d) = drop n (br_src src s)"
      "br_inv inv (b\<lparr>br_pos := br_pos b + n\<rparr>, d)"
      using consume_ok [OF f(2) n] f(3) by (simp_all add: bufreader_def)
  qed
qed

sublocale buffered \<subseteq> br: byte_source "br_read rd" "br_inv inv" "br_src src"
proof
  fix s :: "'d br_state" and buf :: "u8 list"
  assume i: "br_inv inv s"
  obtain b d where s: "s = (b, d)" by (cases s)
  show "\<exists>n buf' d'. br_read rd buf s = Some (Inr ((Inr n, buf'), d')) \<and> length buf' = length buf \<and>
      n \<le> length buf \<and> n \<le> length (br_src src s) \<and> take n buf' = take n (br_src src s) \<and>
      (n = 0 \<longrightarrow> br_src src s = [] \<or> buf = []) \<and> br_src src d' = drop n (br_src src s) \<and> br_inv inv d'"
  proof (cases "br_pos b = br_cap b \<and> length buf \<ge> length (br_buf b)")
    case True
    obtain n buf' d' where r: "rd buf d = Some (Inr ((Inr n, buf'), d'))" "length buf' = length buf"
      "n \<le> length buf" "n \<le> length (src d)" "take n buf' = take n (src d)" "n = 0 \<longrightarrow> src d = [] \<or> buf = []"
      "src d' = drop n (src d)" "inv d'"
      using inner.read_law [of d buf] i by (auto simp: s br_inv_def)
    have "br_read rd buf s = Some (Inr ((Inr n, buf'), (b, d')))"
      using True by (simp add: s br_read_def on_inner_ok [where c = "rd buf", OF r(1)])
    then show ?thesis
      using True r i by (intro exI [of _ n] exI [of _ buf'] exI [of _ "(b, d')"]) (auto simp: s br_src_def br_inv_def)
  next
    case False
    obtain b1 d1 where f: "br_fill_buf rd s = Some (Inr (Inr (drop (br_pos b1) (take (br_cap b1) (br_buf b1))), (b1, d1)))"
      "br_inv inv (b1, d1)" "br_src src (b1, d1) = br_src src s" "br_pos b1 = br_cap b1 \<longrightarrow> br_src src s = []"
      using fill_buf_ok [OF i] by blast
    define rem where "rem = drop (br_pos b1) (take (br_cap b1) (br_buf b1))"
    define n where "n = min (length buf) (length rem)"
    have n: "n \<le> br_cap b1 - br_pos b1" by (simp add: n_def rem_def)
    note c = consume_ok [OF f(2) n]
    have run: "br_read rd buf s = Some (Inr ((Inr n, take n rem @ drop n buf), (b1\<lparr>br_pos := br_pos b1 + n\<rparr>, d1)))"
      using c(1) unfolding s br_read_def own_bind if_not_P [OF False]
      by (simp add: io_bind_ok [where c = "br_fill_buf rd", OF f(1) [folded rem_def, unfolded s]] Let_def
          io_then_ok [where c = "br_consume n", OF c(1)] io_return_def flip: n_def)
    have src: "br_src src s = rem @ src d1" using f(3) by (simp add: br_src_def rem_def)
    moreover have "rem = [] \<longrightarrow> br_src src s = []" using f(2,4) by (auto simp: rem_def br_inv_def)
    moreover have "n \<le> length buf" "n \<le> length rem" "n = 0 \<longrightarrow> buf = [] \<or> rem = []"
      by (auto simp: n_def min_def split: if_splits)
    ultimately show ?thesis using run c(2,3) f(3) by auto
  qed
qed

interpretation slice_buffered: buffered slice_read "\<lambda>_. True" "\<lambda>s. s"
  by unfold_locales

subsection \<open>BufWriter\<close>

text \<open>\<open>bw_inner\<close> says whether the writer still owns its inner writer; \<open>bw_capacity\<close> is the capacity of the vector.\<close>

record buf_writer =
  bw_inner :: bool
  bw_buf :: "u8 list"
  bw_capacity :: nat
  bw_panicked :: bool

type_synonym 'd bw_state = "buf_writer \<times> 'd"

definition bufwriter_with_capacity :: "nat \<Rightarrow> buf_writer" where
  "bufwriter_with_capacity cap = \<lparr>bw_inner = True, bw_buf = [], bw_capacity = cap, bw_panicked = False\<rparr>"

definition bufwriter_new :: buf_writer where
  "bufwriter_new = bufwriter_with_capacity DEFAULT_BUF_SIZE"

text \<open>One call of the inner writer with the flag set around it.\<close>

definition bw_inner_write :: "'d writer \<Rightarrow> u8 list \<Rightarrow> ('d bw_state, nat io_result) io" where
  "bw_inner_write wr bytes =
     io_then (on_own (\<lambda>b. b\<lparr>bw_panicked := True\<rparr>))
     (io_bind own (\<lambda>b.
        if bw_inner b
        then io_bind (on_inner (wr bytes)) (\<lambda>r. io_then (on_own (\<lambda>b. b\<lparr>bw_panicked := False\<rparr>)) (io_return r))
        else io_panic ''called `Option::unwrap()` on a `None` value''))"

partial_function (option) flush_loop :: "'d writer \<Rightarrow> u8 list \<Rightarrow> nat \<Rightarrow> ('d bw_state, unit io_result \<times> nat) io" where
  "flush_loop wr buf written s =
     (if written < length buf
      then io_bind (bw_inner_write wr (drop written buf)) (\<lambda>r s.
             case r of
               Inr n \<Rightarrow>
                 if n = 0 then io_return (Inl (error_new WriteZero ''failed to write the buffered data''), written) s
                 else flush_loop wr buf (written + n) s
             | Inl e \<Rightarrow> if kind e = Interrupted then flush_loop wr buf written s else io_return (Inl e, written) s) s
      else io_return (Inr (), written) s)"

definition flush_buf :: "'d writer \<Rightarrow> ('d bw_state, unit io_result) io" where
  "flush_buf wr = io_bind own (\<lambda>b.
     io_bind (flush_loop wr (bw_buf b) 0) (\<lambda>(ret, written).
       if written > length (bw_buf b) then slice_panic
       else io_then (on_own (\<lambda>b. b\<lparr>bw_buf := drop written (bw_buf b)\<rparr>)) (io_return ret)))"

definition bw_write :: "'d writer \<Rightarrow> ('d bw_state) writer" where
  "bw_write wr buf = io_bind own (\<lambda>b.
     io_bind (if length (bw_buf b) + length buf > bw_capacity b then flush_buf wr else io_return (Inr ())) (\<lambda>r.
       case r of
         Inl e \<Rightarrow> io_return (Inl e)
       | Inr _ \<Rightarrow>
           if length buf \<ge> bw_capacity b then bw_inner_write wr buf
           else io_then (on_own (\<lambda>b. b\<lparr>bw_buf := bw_buf b @ buf\<rparr>)) (io_return (Inr (length buf)))))"

definition bw_flush :: "'d writer \<Rightarrow> ('d, unit io_result) io \<Rightarrow> ('d bw_state, unit io_result) io" where
  "bw_flush wr fl =
     io_bind (flush_buf wr) (\<lambda>r.
       case r of
         Inl e \<Rightarrow> io_return (Inl e)
       | Inr _ \<Rightarrow> io_bind own (\<lambda>b.
           if bw_inner b then on_inner fl else io_panic ''called `Option::unwrap()` on a `None` value''))"

definition bw_into_inner :: "'d writer \<Rightarrow> ('d bw_state, unit io_result) io" where
  "bw_into_inner wr =
     io_bind (flush_buf wr) (\<lambda>r.
       case r of
         Inl e \<Rightarrow> io_return (Inl e)
       | Inr _ \<Rightarrow> io_then (on_own (\<lambda>b. b\<lparr>bw_inner := False\<rparr>)) (io_return (Inr ())))"

definition bw_drop :: "'d writer \<Rightarrow> ('d bw_state, unit) io" where
  "bw_drop wr = io_bind own (\<lambda>b.
     if bw_inner b \<and> \<not> bw_panicked b then io_then (flush_buf wr) (io_return ()) else io_return ())"

subsection \<open>LineWriter\<close>

type_synonym 'd lw_state = "bool \<times> 'd bw_state"

definition linewriter_with_capacity :: "nat \<Rightarrow> 'd \<Rightarrow> 'd lw_state" where
  "linewriter_with_capacity cap d = (False, (bufwriter_with_capacity cap, d))"

definition linewriter_new :: "'d \<Rightarrow> 'd lw_state" where
  "linewriter_new = linewriter_with_capacity 1024"

definition on_need_flush :: "bool \<Rightarrow> ('d lw_state, unit) io" where
  "on_need_flush b = on_own (\<lambda>_. b)"

definition lw_flush :: "'d writer \<Rightarrow> ('d, unit io_result) io \<Rightarrow> ('d lw_state, unit io_result) io" where
  "lw_flush wr fl =
     io_bind (on_inner (bw_flush wr fl)) (\<lambda>r.
       case r of
         Inl e \<Rightarrow> io_return (Inl e)
       | Inr _ \<Rightarrow> io_then (on_need_flush False) (io_return (Inr ())))"

text \<open>On an error the writer comes back without a pending flush.\<close>

definition lw_into_inner :: "'d writer \<Rightarrow> ('d lw_state, unit io_result) io" where
  "lw_into_inner wr =
     io_bind (on_inner (bw_into_inner wr)) (\<lambda>r.
       case r of
         Inl e \<Rightarrow> io_then (on_need_flush False) (io_return (Inl e))
       | Inr _ \<Rightarrow> io_return (Inr ()))"

text \<open>The part of \<open>write\<close> behind the first flush, with the position of the newline it found.\<close>

definition lw_write_line ::
  "'d writer \<Rightarrow> ('d, unit io_result) io \<Rightarrow> u8 list \<Rightarrow> nat \<Rightarrow> ('d lw_state, nat io_result) io" where
  "lw_write_line wr fl buf i =
     io_bind (on_inner (bw_write wr (take (i + 1) buf))) (\<lambda>r.
       case r of
         Inl e \<Rightarrow> io_return (Inl e)
       | Inr n \<Rightarrow>
           io_then (on_need_flush True)
           (io_bind (lw_flush wr fl) (\<lambda>f.
              case f of
                Inl _ \<Rightarrow> io_return (Inr n)
              | Inr _ \<Rightarrow>
                  if n \<noteq> i + 1 then io_return (Inr n)
                  else io_bind (on_inner (bw_write wr (drop (i + 1) buf))) (\<lambda>m.
                         io_return (Inr (case m of Inr m \<Rightarrow> n + m | Inl _ \<Rightarrow> n))))))"

definition lw_write :: "'d writer \<Rightarrow> ('d, unit io_result) io \<Rightarrow> ('d lw_state) writer" where
  "lw_write wr fl buf = io_bind own (\<lambda>need_flush.
     io_bind (if need_flush then lw_flush wr fl else io_return (Inr ())) (\<lambda>r.
       case r of
         Inl e \<Rightarrow> io_return (Inl e)
       | Inr _ \<Rightarrow>
           (case memrchr 10 buf of
              None \<Rightarrow> on_inner (bw_write wr buf)
            | Some i \<Rightarrow> lw_write_line wr fl buf i)))"

end
