(* ===== verification/IoSink.thy ===== *)
theory IoSink
  imports IoBuffered
begin

text \<open>
  The contract of \<open>io::Write\<close>: a writer takes a non-empty prefix of what it is given and appends it
  to an output. \<open>BufWriter\<close> and \<open>LineWriter\<close> keep it, with the buffered bytes counted as written, and
  flushing sends the buffered bytes on.
\<close>

locale byte_sink =
  fixes wr :: "'d writer" and inv :: "'d \<Rightarrow> bool" and out :: "'d \<Rightarrow> u8 list"
  assumes write_law: "inv d \<Longrightarrow> buf \<noteq> [] \<Longrightarrow>
    \<exists>n d'. wr buf d = Some (Inr (Inr n, d')) \<and> 0 < n \<and> n \<le> length buf \<and> out d' = out d @ take n buf \<and> inv d'"
begin

lemma write_all_sends:
  "inv d \<Longrightarrow> \<exists>d'. write_all wr buf d = Some (Inr (Inr (), d')) \<and> out d' = out d @ buf \<and> inv d'"
proof (induction "length buf" arbitrary: buf d rule: less_induct)
  case less
  show ?case
  proof (cases "buf = []")
    case True
    then show ?thesis using less.prems by (simp add: write_all.simps io_return_def)
  next
    case False
    obtain n d' where w: "wr buf d = Some (Inr (Inr n, d'))" "0 < n" "n \<le> length buf" "out d' = out d @ take n buf" "inv d'"
      using write_law [OF less.prems False] by blast
    have run: "write_all wr buf d = write_all wr (drop n buf) d'"
      using False w(2,3) by (simp add: write_all.simps [of wr buf d] io_bind_def w(1))
    have "length (drop n buf) < length buf" using w(2,3) by simp
    from less.hyps [OF this w(5)] show ?thesis by (simp add: run w(4))
  qed
qed

end

interpretation vec_sink: byte_sink vec_write "\<lambda>_. True" "\<lambda>s. s"
  by unfold_locales (auto simp: vec_write_def io_return_def)

subsection \<open>BufWriter\<close>

definition bw_content :: "('d \<Rightarrow> u8 list) \<Rightarrow> 'd bw_state \<Rightarrow> u8 list" where
  "bw_content out s = (case s of (b, d) \<Rightarrow> out d @ bw_buf b)"

definition bw_inv :: "('d \<Rightarrow> bool) \<Rightarrow> 'd bw_state \<Rightarrow> bool" where
  "bw_inv i s = (case s of (b, d) \<Rightarrow> bw_inner b \<and> \<not> bw_panicked b \<and> length (bw_buf b) \<le> bw_capacity b \<and>
     0 < bw_capacity b \<and> i d)"

locale write_buffered = inner: byte_sink wr inv out
  for wr :: "'d writer" and inv out
begin

lemma inner_write_ok:
  assumes "inv d" "bw_inner b" "\<not> bw_panicked b" "bytes \<noteq> []"
  shows "\<exists>n d'. bw_inner_write wr bytes (b, d) = Some (Inr (Inr n, (b, d'))) \<and> 0 < n \<and> n \<le> length bytes \<and>
    out d' = out d @ take n bytes \<and> inv d'"
proof -
  obtain n d' where w: "wr bytes d = Some (Inr (Inr n, d'))" "0 < n" "n \<le> length bytes" "out d' = out d @ take n bytes" "inv d'"
    using inner.write_law [OF assms(1,4)] by blast
  have "bw_inner_write wr bytes (b, d) = Some (Inr (Inr n, (b\<lparr>bw_panicked := False\<rparr>, d')))"
    using assms(2) by (simp add: bw_inner_write_def io_return_def
        io_bind_ok [where c = "on_inner (wr bytes)", OF on_inner_ok [where c = "wr bytes", OF w(1)]])
  moreover have "b\<lparr>bw_panicked := False\<rparr> = b" using assms(3) by simp
  ultimately show ?thesis using w by auto
qed

lemma flush_loop_ok:
  "inv d \<Longrightarrow> bw_inner b \<Longrightarrow> \<not> bw_panicked b \<Longrightarrow> written \<le> length buf \<Longrightarrow>
     \<exists>d'. flush_loop wr buf written (b, d) = Some (Inr ((Inr (), length buf), (b, d'))) \<and>
       out d' = out d @ drop written buf \<and> inv d'"
proof (induction "length buf - written" arbitrary: written d rule: less_induct)
  case less
  show ?case
  proof (cases "written < length buf")
    case False
    then show ?thesis using less.prems by (auto simp: flush_loop.simps io_return_def)
  next
    case True
    then have "drop written buf \<noteq> []" by simp
    from inner_write_ok [OF less.prems(1-3) this] obtain n d' where
      w: "bw_inner_write wr (drop written buf) (b, d) = Some (Inr (Inr n, (b, d')))" "0 < n" "n \<le> length buf - written"
        "out d' = out d @ take n (drop written buf)" "inv d'" by auto
    have run: "flush_loop wr buf written (b, d) = flush_loop wr buf (written + n) (b, d')"
      using True w(2) by (simp add: flush_loop.simps [of wr buf written "(b, d)"]
          io_bind_ok [where c = "bw_inner_write wr (drop written buf)", OF w(1)])
    have "take n (drop written buf) @ drop (written + n) buf = drop written buf"
      by (metis add.commute append_take_drop_id drop_drop)
    with less.hyps [of "written + n" d'] w less.prems True show ?thesis by (auto simp: run)
  qed
qed

lemma flush_buf_ok:
  assumes "bw_inv inv (b, d)"
  shows "\<exists>d'. flush_buf wr (b, d) = Some (Inr (Inr (), (b\<lparr>bw_buf := []\<rparr>, d'))) \<and>
    out d' = bw_content out (b, d) \<and> inv d'"
proof -
  have i: "inv d" "bw_inner b" "\<not> bw_panicked b" using assms by (auto simp: bw_inv_def)
  obtain d' where f: "flush_loop wr (bw_buf b) 0 (b, d) = Some (Inr ((Inr (), length (bw_buf b)), (b, d')))"
    "out d' = out d @ bw_buf b" "inv d'"
    using flush_loop_ok [OF i, of 0 "bw_buf b"] by auto
  then show ?thesis
    by (simp add: flush_buf_def bw_content_def io_return_def io_bind_ok [where c = "flush_loop wr (bw_buf b) 0", OF f(1)])
qed

lemma bw_write_ok:
  assumes i: "bw_inv inv s" and ne: "buf \<noteq> []"
  shows "\<exists>n s'. bw_write wr buf s = Some (Inr (Inr n, s')) \<and> 0 < n \<and> n \<le> length buf \<and>
    bw_content out s' = bw_content out s @ take n buf \<and> bw_inv inv s'"
proof -
  obtain b d where s: "s = (b, d)" by (cases s)
  have ib: "bw_inner b" "\<not> bw_panicked b" "0 < bw_capacity b" "length (bw_buf b) \<le> bw_capacity b" "inv d"
    using i by (auto simp: s bw_inv_def)
  define full where "full = (length (bw_buf b) + length buf > bw_capacity b)"
  obtain b1 d1 where f: "(if full then flush_buf wr else io_return (Inr ())) (b, d) = Some (Inr (Inr (), (b1, d1)))"
    "bw_content out (b1, d1) = bw_content out s" "bw_inv inv (b1, d1)" "bw_capacity b1 = bw_capacity b"
    "full \<longrightarrow> bw_buf b1 = []" "\<not> full \<longrightarrow> b1 = b"
  proof (cases full)
    case True
    from flush_buf_ok [OF i [unfolded s]] obtain d1 where
      "flush_buf wr (b, d) = Some (Inr (Inr (), (b\<lparr>bw_buf := []\<rparr>, d1)))" "out d1 = bw_content out (b, d)" "inv d1" by blast
    then show ?thesis using that [of "b\<lparr>bw_buf := []\<rparr>" d1] True ib by (auto simp: s bw_content_def bw_inv_def)
  next
    case False
    then show ?thesis using that [of b d] i by (auto simp: s io_return_def)
  qed
  have run: "bw_write wr buf s =
      (if length buf \<ge> bw_capacity b then bw_inner_write wr buf
       else io_then (on_own (\<lambda>b. b\<lparr>bw_buf := bw_buf b @ buf\<rparr>)) (io_return (Inr (length buf)))) (b1, d1)"
    unfolding s bw_write_def own_bind full_def [symmetric]
    by (simp add: io_bind_ok [where c = "if full then flush_buf wr else io_return (Inr ())", OF f(1)])
  show ?thesis
  proof (cases "length buf \<ge> bw_capacity b")
    case True
    have "bw_buf b1 = []" using True ib(3) f(5,6) by (cases full) (auto simp: full_def simp flip: length_0_conv)
    moreover from f(3) have "inv d1" "bw_inner b1" "\<not> bw_panicked b1" by (auto simp: bw_inv_def)
    moreover obtain n d2 where "bw_inner_write wr buf (b1, d1) = Some (Inr (Inr n, (b1, d2)))" "0 < n"
      "n \<le> length buf" "out d2 = out d1 @ take n buf" "inv d2"
      using inner_write_ok [OF calculation(2-4) ne] by blast
    ultimately show ?thesis using True f(2,3) by (auto simp: run bw_content_def bw_inv_def)
  next
    case False
    then have "length (bw_buf b1) + length buf \<le> bw_capacity b1" using f(4-6) by (auto simp: full_def)
    then show ?thesis
      using False f(2,3) ne by (auto simp: run io_return_def bw_content_def bw_inv_def)
  qed
qed

lemma bw_write_buffers:
  assumes "bw_inv inv (b, d)" "length (bw_buf b) + length buf \<le> bw_capacity b" "length buf < bw_capacity b"
  shows "bw_write wr buf (b, d) = Some (Inr (Inr (length buf), (b\<lparr>bw_buf := bw_buf b @ buf\<rparr>, d)))"
  using assms(2,3) by (simp add: bw_write_def io_return_def)

end

sublocale write_buffered \<subseteq> bw: byte_sink "bw_write wr" "bw_inv inv" "bw_content out"
  using bw_write_ok by unfold_locales

interpretation vec_buffered: write_buffered vec_write "\<lambda>_. True" "\<lambda>s. s"
  by unfold_locales

subsection \<open>LineWriter\<close>

definition lw_content :: "('d \<Rightarrow> u8 list) \<Rightarrow> 'd lw_state \<Rightarrow> u8 list" where
  "lw_content out s = bw_content out (snd s)"

definition lw_inv :: "('d \<Rightarrow> bool) \<Rightarrow> 'd lw_state \<Rightarrow> bool" where
  "lw_inv i s = bw_inv i (snd s)"

text \<open>\<open>memrchr\<close> counts from the end of the haystack.\<close>

lemma memrchr_from_end: "rposition (\<lambda>b. b = needle) hay = map_option (\<lambda>i. length hay - 1 - i) (memrchr needle hay)"
  by (simp add: rposition_def memrchr_def)

lemma memrchr_less: "memrchr needle hay = Some i \<Longrightarrow> i < length hay"
  using position_SomeD [of "\<lambda>b. b = needle" "rev hay" i] by (simp add: memrchr_def)

locale line_buffered = write_buffered wr inv out
  for wr :: "'d writer" and inv out +
  fixes fl :: "('d, unit io_result) io"
  assumes flush_law: "inv d \<Longrightarrow> \<exists>d'. fl d = Some (Inr (Inr (), d')) \<and> out d' = out d \<and> inv d'"
begin

lemma bw_flush_ok:
  assumes "bw_inv inv (b, d)"
  shows "\<exists>d'. bw_flush wr fl (b, d) = Some (Inr (Inr (), (b\<lparr>bw_buf := []\<rparr>, d'))) \<and>
    out d' = bw_content out (b, d) \<and> bw_inv inv (b\<lparr>bw_buf := []\<rparr>, d')"
proof -
  obtain d1 where f: "flush_buf wr (b, d) = Some (Inr (Inr (), (b\<lparr>bw_buf := []\<rparr>, d1)))"
    "out d1 = bw_content out (b, d)" "inv d1"
    using flush_buf_ok [OF assms] by blast
  obtain d2 where g: "fl d1 = Some (Inr (Inr (), d2))" "out d2 = out d1" "inv d2"
    using flush_law [OF f(3)] by blast
  have "bw_flush wr fl (b, d) = Some (Inr (Inr (), (b\<lparr>bw_buf := []\<rparr>, d2)))"
    using assms by (simp add: bw_flush_def io_bind_ok [where c = "flush_buf wr", OF f(1)] bw_inv_def
        on_inner_ok [where c = fl, OF g(1)])
  then show ?thesis using f g assms by (simp add: bw_inv_def)
qed

lemma lw_flush_ok:
  assumes "lw_inv inv (nf, (b, d))"
  shows "\<exists>d'. lw_flush wr fl (nf, (b, d)) = Some (Inr (Inr (), (False, (b\<lparr>bw_buf := []\<rparr>, d')))) \<and>
    out d' = bw_content out (b, d) \<and> lw_inv inv (False, (b\<lparr>bw_buf := []\<rparr>, d'))"
proof -
  obtain d' where f: "bw_flush wr fl (b, d) = Some (Inr (Inr (), (b\<lparr>bw_buf := []\<rparr>, d')))"
    "out d' = bw_content out (b, d)" "bw_inv inv (b\<lparr>bw_buf := []\<rparr>, d')"
    using bw_flush_ok [of b d] assms by (auto simp: lw_inv_def)
  then show ?thesis
    by (simp add: lw_flush_def lw_inv_def on_need_flush_def io_return_def
        io_bind_ok [where c = "on_inner (bw_flush wr fl)", OF on_inner_ok [where c = "bw_flush wr fl", OF f(1)]])
qed

lemma lw_bw_write:
  assumes "lw_inv inv (nf, s)" "buf \<noteq> []"
  shows "\<exists>n s'. on_inner (bw_write wr buf) (nf, s) = Some (Inr (Inr n, (nf, s'))) \<and> 0 < n \<and> n \<le> length buf \<and>
    lw_content out (nf, s') = lw_content out (nf, s) @ take n buf \<and> lw_inv inv (nf, s')"
proof -
  obtain n s' where w: "bw_write wr buf s = Some (Inr (Inr n, s'))" "0 < n" "n \<le> length buf"
    "bw_content out s' = bw_content out s @ take n buf" "bw_inv inv s'"
    using bw_write_ok [of s buf] assms by (auto simp: lw_inv_def)
  then show ?thesis by (simp add: on_inner_ok [where c = "bw_write wr buf", OF w(1)] lw_content_def lw_inv_def)
qed

lemma lw_write_line_ok:
  assumes "lw_inv inv s" "i < length buf"
  shows "\<exists>n s'. lw_write_line wr fl buf i s = Some (Inr (Inr n, s')) \<and> 0 < n \<and> n \<le> length buf \<and>
    lw_content out s' = lw_content out s @ take n buf \<and> lw_inv inv s'"
proof -
  obtain nf t where s: "s = (nf, t)" by (cases s)
  have ne: "take (i + 1) buf \<noteq> []" using assms(2) by auto
  obtain n b1 d1 where w: "on_inner (bw_write wr (take (i + 1) buf)) (nf, t) = Some (Inr (Inr n, (nf, (b1, d1))))"
    "0 < n" "n \<le> length (take (i + 1) buf)"
    "lw_content out (nf, (b1, d1)) = lw_content out s @ take n (take (i + 1) buf)" "lw_inv inv (nf, (b1, d1))"
    using lw_bw_write [OF _ ne, of nf t] assms(1) by (auto simp: s)
  have "lw_inv inv (True, (b1, d1))" using w(5) by (simp add: lw_inv_def)
  then obtain d2 where f: "lw_flush wr fl (True, (b1, d1)) = Some (Inr (Inr (), (False, (b1\<lparr>bw_buf := []\<rparr>, d2))))"
    "out d2 = bw_content out (b1, d1)" "lw_inv inv (False, (b1\<lparr>bw_buf := []\<rparr>, d2))"
    using lw_flush_ok by blast
  let ?s2 = "(False, (b1\<lparr>bw_buf := []\<rparr>, d2))"
  have c2: "lw_content out ?s2 = lw_content out s @ take n buf"
    using w(3,4) f(2) by (simp add: lw_content_def bw_content_def min_absorb2)
  have run: "lw_write_line wr fl buf i s =
      (if n \<noteq> i + 1 then io_return (Inr n)
       else io_bind (on_inner (bw_write wr (drop (i + 1) buf))) (\<lambda>m.
              io_return (Inr (case m of Inr m \<Rightarrow> n + m | Inl _ \<Rightarrow> n)))) ?s2"
    unfolding s lw_write_line_def
    by (simp add: io_bind_ok [where c = "on_inner (bw_write wr (take (Suc i) buf))", OF w(1)[simplified]] on_need_flush_def
        io_bind_ok [where c = "lw_flush wr fl", OF f(1)])
  show ?thesis
  proof (cases "n \<noteq> i + 1 \<or> drop (i + 1) buf = []")
    case False
    then have "drop (i + 1) buf \<noteq> []" by blast
    from lw_bw_write [OF f(3) this] obtain m t' where
      m: "on_inner (bw_write wr (drop (i + 1) buf)) ?s2 = Some (Inr (Inr m, (False, t')))" "m \<le> length (drop (i + 1) buf)"
        "lw_content out (False, t') = lw_content out ?s2 @ take m (drop (i + 1) buf)" "lw_inv inv (False, t')" by blast
    have "take n buf @ take m (drop (i + 1) buf) = take (n + m) buf" using False by (metis take_add)
    then show ?thesis
      unfolding run using False m w(2) assms(2) c2
      by (auto simp: io_bind_ok [where c = "on_inner (bw_write wr (drop (Suc i) buf))", OF m(1)[simplified]] io_return_def)
  next
    case True
    show ?thesis
    proof (cases "n = i + 1")
      case False
      then show ?thesis unfolding run using w(2,3) f(3) c2 assms(2) by (simp add: io_return_def)
    next
      case n: True
      then have e: "drop (i + 1) buf = []" using True by simp
      have "bw_write wr [] (b1\<lparr>bw_buf := []\<rparr>, d2) = Some (Inr (Inr 0, (b1\<lparr>bw_buf := []\<rparr>, d2)))"
        using bw_write_buffers [of "b1\<lparr>bw_buf := []\<rparr>" d2 "[]"] f(3) by (simp add: lw_inv_def bw_inv_def)
      then have "on_inner (bw_write wr (drop (i + 1) buf)) ?s2 = Some (Inr (Inr 0, ?s2))"
        unfolding e by (rule on_inner_ok)
      then show ?thesis
        unfolding run using n w(2,3) f(3) c2 assms(2)
        by (simp add: io_bind_ok [where c = "on_inner (bw_write wr (drop (Suc i) buf))"] io_return_def)
    qed
  qed
qed

lemma lw_write_ok:
  assumes i: "lw_inv inv s" and ne: "buf \<noteq> []"
  shows "\<exists>n s'. lw_write wr fl buf s = Some (Inr (Inr n, s')) \<and> 0 < n \<and> n \<le> length buf \<and>
    lw_content out s' = lw_content out s @ take n buf \<and> lw_inv inv s'"
proof -
  obtain nf b d where s: "s = (nf, (b, d))" by (cases s) auto
  obtain s1 where f: "(if nf then lw_flush wr fl else io_return (Inr ())) (nf, (b, d)) = Some (Inr (Inr (), s1))"
    "lw_content out s1 = lw_content out s" "lw_inv inv s1"
  proof (cases nf)
    case True
    obtain d' where "lw_flush wr fl (nf, (b, d)) = Some (Inr (Inr (), (False, (b\<lparr>bw_buf := []\<rparr>, d'))))"
      "out d' = bw_content out (b, d)" "lw_inv inv (False, (b\<lparr>bw_buf := []\<rparr>, d'))"
      using lw_flush_ok [OF i [unfolded s]] by blast
    then show ?thesis
      using True that [of "(False, (b\<lparr>bw_buf := []\<rparr>, d'))"] by (simp add: s lw_content_def bw_content_def)
  next
    case False
    then show ?thesis using that [of s] i by (simp add: s io_return_def)
  qed
  have run: "lw_write wr fl buf s =
      (case memrchr 10 buf of None \<Rightarrow> on_inner (bw_write wr buf) | Some i \<Rightarrow> lw_write_line wr fl buf i) s1"
    unfolding s lw_write_def own_bind
    by (simp add: io_bind_ok [where c = "if nf then lw_flush wr fl else io_return (Inr ())", OF f(1)])
  show ?thesis
  proof (cases "memrchr 10 buf")
    case None
    then show ?thesis
      using lw_bw_write [of "fst s1" "snd s1" buf] f(2,3) ne by (auto simp: run)
  next
    case (Some i)
    then show ?thesis using lw_write_line_ok [OF f(3) memrchr_less [OF Some]] f(2) by (auto simp: run)
  qed
qed

end

sublocale line_buffered \<subseteq> lw: byte_sink "lw_write wr fl" "lw_inv inv" "lw_content out"
  using lw_write_ok by unfold_locales

interpretation vec_lines: line_buffered vec_write "\<lambda>_. True" "\<lambda>s. s" "io_return (Inr ())"
  by unfold_locales (simp add: io_return_def)

subsection \<open>What the buffered writers do to a stream\<close>

text \<open>C22: Bytes written through a \<open>BufWriter\<close> and flushed arrive at the inner writer complete and in
  order, behind those that were already buffered, whatever pieces the inner writer takes; nothing
  stays in the buffer.\<close>

theorem bufwriter_delivers:
  assumes "line_buffered wr I out fl" and "bw_inv I s"
  shows "\<exists>s1 s2. write_all (bw_write wr) data s = Some (Inr (Inr (), s1)) \<and>
    bw_flush wr fl s1 = Some (Inr (Inr (), s2)) \<and> out (snd s2) = bw_content out s @ data \<and> bw_buf (fst s2) = []"
proof -
  from assms(1) have l: "write_buffered wr I out" by (rule line_buffered.axioms)
  then have "byte_sink (bw_write wr) (bw_inv I) (bw_content out)"
    using write_buffered.bw_write_ok [OF l] by unfold_locales
  from byte_sink.write_all_sends [OF this assms(2), of data] obtain b1 d1 where
    w: "write_all (bw_write wr) data s = Some (Inr (Inr (), (b1, d1)))"
      "bw_content out (b1, d1) = bw_content out s @ data" "bw_inv I (b1, d1)" by auto
  from line_buffered.bw_flush_ok [OF assms(1) w(3)] w(1,2) show ?thesis by auto
qed

theorem bufwriter_delivers_witness:
  "\<exists>s1 s2. write_all (bw_write vec_write) [1, 2, 3, 4, 5] (bufwriter_with_capacity 2, [0]) = Some (Inr (Inr (), s1)) \<and>
    bw_flush vec_write (io_return (Inr ())) s1 = Some (Inr (Inr (), s2)) \<and> snd s2 = [0, 1, 2, 3, 4, 5] \<and> bw_buf (fst s2) = []"
  using bufwriter_delivers [OF vec_lines.line_buffered_axioms, of "(bufwriter_with_capacity 2, [0])" "[1, 2, 3, 4, 5]"]
  by (simp add: bw_inv_def bw_content_def bufwriter_with_capacity_def)

text \<open>C23: Because \<open>memrchr\<close> counts from the end, a \<open>LineWriter\<close> given a line with its newline at the
  end reports the whole line written, but flushes only the first byte: the rest of the line, with the
  newline, stays in the buffer.\<close>

theorem line_writer_holds_newline:
  assumes "line_buffered wr I out fl" and "lw_inv I (False, (b, d))" and "bw_buf b = []"
    and "10 \<notin> set l" and "l \<noteq> []" and "length l + 1 < bw_capacity b"
  shows "\<exists>b' d'. lw_write wr fl (l @ [10]) (False, (b, d)) = Some (Inr (Inr (length l + 1), (False, (b', d')))) \<and>
    out d' = out d @ [hd l] \<and> bw_buf b' = tl l @ [10]"
proof -
  from assms(1) have wb: "write_buffered wr I out" by (rule line_buffered.axioms)
  have bi: "bw_inv I (b, d)" using assms(2) by (simp add: lw_inv_def)
  let ?b1 = "b\<lparr>bw_buf := [hd l]\<rparr>" and ?b2 = "b\<lparr>bw_buf := []\<rparr>" and ?rest = "tl l @ [10]"
  have i: "memrchr 10 (l @ [10]) = Some 0" by (simp add: memrchr_def)
  have hd: "take (0 + 1) (l @ [10]) = [hd l]" and tl: "drop (0 + 1) (l @ [10]) = ?rest"
    using assms(5) by (cases l; simp)+
  have w1: "bw_write wr [hd l] (b, d) = Some (Inr (Inr 1, (?b1, d)))"
    using write_buffered.bw_write_buffers [OF wb bi, of "[hd l]"] assms(3,6) by simp
  have "lw_inv I (True, (?b1, d))" using bi assms(6) by (simp add: lw_inv_def bw_inv_def)
  then obtain d2 where f: "lw_flush wr fl (True, (?b1, d)) = Some (Inr (Inr (), (False, (?b2, d2))))"
    "out d2 = out d @ [hd l]" "lw_inv I (False, (?b2, d2))"
    using line_buffered.lw_flush_ok [OF assms(1), of True ?b1 d] by (auto simp: bw_content_def)
  have n: "length ?rest = length l" using assms(5) by simp
  have w2: "bw_write wr ?rest (?b2, d2) = Some (Inr (Inr (length l), (?b2\<lparr>bw_buf := ?rest\<rparr>, d2)))"
    using write_buffered.bw_write_buffers [OF wb, of ?b2 d2 ?rest] f(3) n assms(6) by (simp add: lw_inv_def)
  have "lw_write wr fl (l @ [10]) (False, (b, d)) = lw_write_line wr fl (l @ [10]) 0 (False, (b, d))"
    by (simp add: lw_write_def i)
  also have "\<dots> = Some (Inr (Inr (length l + 1), (False, (?b2\<lparr>bw_buf := ?rest\<rparr>, d2))))"
    unfolding lw_write_line_def hd tl
    by (simp add: io_bind_ok [where c = "on_inner (bw_write wr [hd l])", OF on_inner_ok [where c = "bw_write wr [hd l]", OF w1]]
        on_need_flush_def io_bind_ok [where c = "lw_flush wr fl", OF f(1)] io_return_def
        io_bind_ok [where c = "on_inner (bw_write wr (tl l @ [10]))", OF on_inner_ok [where c = "bw_write wr (tl l @ [10])", OF w2]])
  finally show ?thesis using f(2) by auto
qed

theorem line_writer_holds_newline_witness:
  "\<exists>b' d'. lw_write vec_write (io_return (Inr ())) ([97, 98] @ [10]) (False, (bufwriter_with_capacity 1024, [])) =
      Some (Inr (Inr 3, (False, (b', d')))) \<and> d' = [97] \<and> bw_buf b' = [98, 10]"
  using line_writer_holds_newline [OF vec_lines.line_buffered_axioms, of "bufwriter_with_capacity 1024" "[]" "[97, 98]"]
  by (simp add: lw_inv_def bw_inv_def bufwriter_with_capacity_def numeral_3_eq_3)

end
