(* ===== verification/Bootloader.thy ===== *)
theory Bootloader
  imports Uart
begin

text \<open>
  The bootloader, \<open>bootloader/src/{kmain,lang_items}.rs\<close>: the memory functions it links, over memory as
  a function from addresses to bytes, and its main loop. \<open>Xmodem::receive\<close> is not part of the
  repository: it is an argument, and so is the text of the debug buffer of that crate.
\<close>

subsection \<open>Memory functions\<close>

type_synonym memory = "usize \<Rightarrow> u8"

function copy_up :: "usize \<Rightarrow> usize \<Rightarrow> nat \<Rightarrow> nat \<Rightarrow> memory \<Rightarrow> memory" where
  "copy_up dest src n i m =
     (if i < n then copy_up dest src n (i + 1) (m(dest + of_nat i := m (src + of_nat i))) else m)"
  by pat_completeness auto

termination
  by (relation "measure (\<lambda>(dest, src, n, i, m). n - i)") auto

primrec copy_down :: "usize \<Rightarrow> usize \<Rightarrow> nat \<Rightarrow> memory \<Rightarrow> memory" where
  "copy_down dest src 0 m = m"
| "copy_down dest src (Suc i) m = copy_down dest src i (m(dest + of_nat i := m (src + of_nat i)))"

definition memcpy :: "usize \<Rightarrow> usize \<Rightarrow> usize \<Rightarrow> memory \<Rightarrow> usize \<times> memory" where
  "memcpy dest src n m = (dest, copy_up dest src (unat n) 0 m)"

definition memmove :: "usize \<Rightarrow> usize \<Rightarrow> usize \<Rightarrow> memory \<Rightarrow> usize \<times> memory" where
  "memmove dest src n m =
     (if src < dest then (dest, copy_down dest src (unat n) m) else (dest, copy_up dest src (unat n) 0 m))"

function set_up :: "usize \<Rightarrow> u8 \<Rightarrow> nat \<Rightarrow> nat \<Rightarrow> memory \<Rightarrow> memory" where
  "set_up s c n i m = (if i < n then set_up s c n (i + 1) (m(s + of_nat i := c)) else m)"
  by pat_completeness auto

termination
  by (relation "measure (\<lambda>(s, c, n, i, m). n - i)") auto

definition memset :: "usize \<Rightarrow> i32 \<Rightarrow> usize \<Rightarrow> memory \<Rightarrow> usize \<times> memory" where
  "memset s c n m = (s, set_up s (ucast c) (unat n) 0 m)"

function cmp_from :: "usize \<Rightarrow> usize \<Rightarrow> nat \<Rightarrow> nat \<Rightarrow> memory \<Rightarrow> i32" where
  "cmp_from s1 s2 n i m =
     (if i < n
      then let a = m (s1 + of_nat i); b = m (s2 + of_nat i) in
           if a \<noteq> b then ucast a - ucast b else cmp_from s1 s2 n (i + 1) m
      else 0)"
  by pat_completeness auto

termination
  by (relation "measure (\<lambda>(s1, s2, n, i, m). n - i)") auto

definition memcmp :: "usize \<Rightarrow> usize \<Rightarrow> usize \<Rightarrow> memory \<Rightarrow> i32" where
  "memcmp s1 s2 n m = cmp_from s1 s2 (unat n) 0 m"

declare copy_up.simps [simp del] set_up.simps [simp del] cmp_from.simps [simp del]

subsection \<open>The main loop\<close>

definition BINARY_START_ADDR :: usize where
  "BINARY_START_ADDR = 0x80000"

definition BOOTLOADER_START_ADDR :: usize where
  "BOOTLOADER_START_ADDR = 0x4000000"

definition BINARY_START :: usize where
  "BINARY_START = BINARY_START_ADDR"

definition MAX_BINARY_SIZE :: usize where
  "MAX_BINARY_SIZE = BOOTLOADER_START_ADDR - BINARY_START_ADDR"

text \<open>
  \<open>receive u base len\<close> stores what it receives in the \<open>len\<close> bytes at \<open>base\<close>. The loop ends with the
  address it jumps to or with the error that is reported.
\<close>

partial_function (option) boot_loop ::
  "'d bus \<Rightarrow> (mini_uart \<Rightarrow> usize \<Rightarrow> usize \<Rightarrow> ('d, usize io_result) io) \<Rightarrow> ('d, io_error + usize) io" where
  "boot_loop bus receive d =
     io_bind (uart_new bus) (\<lambda>uart.
     io_bind (uart_read_byte bus uart) (\<lambda>_.
     io_bind (receive uart BINARY_START MAX_BINARY_SIZE) (\<lambda>r d.
       case r of
         Inl error \<Rightarrow> if kind error = TimedOut then boot_loop bus receive d else io_return (Inl error) d
       | Inr n \<Rightarrow>
           if n > 0 \<and> n < MAX_BINARY_SIZE then io_return (Inr BINARY_START) d
           else boot_loop bus receive d))) d"

partial_function (option) report_loop ::
  "'d bus \<Rightarrow> mini_uart \<Rightarrow> u8 list \<Rightarrow> u8 list \<Rightarrow> ('d, 'a) io" where
  "report_loop bus uart err_text debug_text d =
     io_then (spin_sleep_ms bus 1000)
     (io_then (uart_write_str bus uart (err_text @ [10]))
     (io_then (uart_write_str bus uart debug_text) (\<lambda>d. report_loop bus uart err_text debug_text d))) d"

text \<open>The result is the address that control is passed to.\<close>

definition boot_kmain ::
  "'d bus \<Rightarrow> (mini_uart \<Rightarrow> usize \<Rightarrow> usize \<Rightarrow> ('d, usize io_result) io) \<Rightarrow> (io_error \<Rightarrow> u8 list) \<Rightarrow> u8 list \<Rightarrow> ('d, usize) io" where
  "boot_kmain bus receive err_text debug_text =
     io_bind (boot_loop bus receive) (\<lambda>r.
       case r of
         Inr addr \<Rightarrow> io_return addr
       | Inl error \<Rightarrow> io_bind (uart_new bus) (\<lambda>uart. report_loop bus uart (err_text error) debug_text))"

subsection \<open>Copying\<close>

lemma unat_offset: "unat (a :: usize) + k < 2 ^ 64 \<Longrightarrow> unat (a + of_nat k) = unat a + k"
  by (simp add: unat_word_ariths unat_of_nat)

lemma offset_eq:
  assumes "unat (a :: usize) + j < 2 ^ 64" "unat b + k < 2 ^ 64"
  shows "a + of_nat j = b + of_nat k \<longleftrightarrow> unat a + j = unat b + k"
  using unat_offset [OF assms(1)] unat_offset [OF assms(2)] by (metis word_unat_eq_iff)

text \<open>\<open>moved\<close>: the bytes from \<open>i\<close> to \<open>n\<close> are those of the source in the old memory, and nothing else changed.\<close>

definition moved :: "usize \<Rightarrow> usize \<Rightarrow> nat \<Rightarrow> nat \<Rightarrow> memory \<Rightarrow> memory \<Rightarrow> bool" where
  "moved dest src i n m m' \<longleftrightarrow>
     (\<forall>k. i \<le> k \<and> k < n \<longrightarrow> m' (dest + of_nat k) = m (src + of_nat k)) \<and>
     (\<forall>x. (\<forall>k. i \<le> k \<and> k < n \<longrightarrow> x \<noteq> dest + of_nat k) \<longrightarrow> m' x = m x)"

lemma copy_up_moves:
  assumes "unat dest + n \<le> 2 ^ 64" "unat src + n \<le> 2 ^ 64"
    and "dest \<le> src \<or> (\<forall>j k. j < n \<longrightarrow> k < n \<longrightarrow> src + of_nat j \<noteq> dest + of_nat k)"
  shows "moved dest src i n m (copy_up dest src n i m)"
  using assms
proof (induction dest src n i m rule: copy_up.induct)
  case (1 dest src n i m)
  show ?case
  proof (cases "i < n")
    case False
    then show ?thesis by (auto simp: copy_up.simps moved_def)
  next
    case True
    let ?m = "m(dest + of_nat i := m (src + of_nat i))"
    have ih: "moved dest src (i + 1) n ?m (copy_up dest src n (i + 1) ?m)"
      using 1(1)[OF True 1(2-4)] .
    have run: "copy_up dest src n i m = copy_up dest src n (i + 1) ?m"
      using True by (subst copy_up.simps) simp
    have dst: "dest + of_nat i \<noteq> dest + of_nat k" if "i < k" "k < n" for k
      using that 1(2) offset_eq [of dest i dest k] by simp
    have source: "src + of_nat k \<noteq> dest + of_nat i" if "i < k" "k < n" for k
      using that 1(2-4) True offset_eq [of src k dest i] by (auto simp: word_le_nat_alt)
    show ?thesis
      unfolding run moved_def
    proof (intro conjI allI impI)
      fix k
      assume "i \<le> k \<and> k < n"
      then consider "k = i" | "i < k" "k < n" by linarith
      then show "copy_up dest src n (i + 1) ?m (dest + of_nat k) = m (src + of_nat k)"
      proof cases
        case 1
        then show ?thesis using ih dst by (simp add: moved_def)
      next
        case 2
        then show ?thesis using ih source by (simp add: moved_def)
      qed
    next
      fix x
      assume "\<forall>k. i \<le> k \<and> k < n \<longrightarrow> x \<noteq> dest + of_nat k"
      then show "copy_up dest src n (i + 1) ?m x = m x" using ih True by (simp add: moved_def)
    qed
  qed
qed

lemma copy_down_moves:
  assumes "unat dest + n \<le> 2 ^ 64" "src < dest"
  shows "moved dest src 0 n m (copy_down dest src n m)"
  using assms
proof (induction n arbitrary: m)
  case (Suc i)
  let ?m = "m(dest + of_nat i := m (src + of_nat i))"
  have ih: "moved dest src 0 i ?m (copy_down dest src i ?m)" using Suc by simp
  have dst: "dest + of_nat i \<noteq> dest + of_nat k" if "k < i" for k
    using that Suc.prems(1) offset_eq [of dest i dest k] by simp
  have source: "src + of_nat k \<noteq> dest + of_nat i" if "k < i" for k
    using that Suc.prems offset_eq [of src k dest i] by (simp add: word_less_nat_alt)
  show ?case
    unfolding moved_def
  proof (intro conjI allI impI)
    fix k
    assume "0 \<le> k \<and> k < Suc i"
    then consider "k = i" | "k < i" by linarith
    then show "copy_down dest src (Suc i) m (dest + of_nat k) = m (src + of_nat k)"
    proof cases
      case 1
      then show ?thesis using ih dst by (simp add: moved_def)
    next
      case 2
      then show ?thesis using ih source by (simp add: moved_def)
    qed
  next
    fix x
    assume "\<forall>k. 0 \<le> k \<and> k < Suc i \<longrightarrow> x \<noteq> dest + of_nat k"
    then show "copy_down dest src (Suc i) m x = m x" using ih by (simp add: moved_def)
  qed
qed (simp add: moved_def)

text \<open>C40: \<open>memmove\<close> copies correctly whatever the overlap of the two regions, as long as neither wraps
  around the address space: every destination byte is the source byte of the memory before the
  call, and no other byte changes.\<close>

theorem memmove_moves:
  assumes "unat dest + unat n \<le> 2 ^ 64" and "unat src + unat n \<le> 2 ^ 64"
  shows "fst (memmove dest src n m) = dest \<and>
    (\<forall>k < unat n. snd (memmove dest src n m) (dest + of_nat k) = m (src + of_nat k)) \<and>
    (\<forall>x. (\<forall>k < unat n. x \<noteq> dest + of_nat k) \<longrightarrow> snd (memmove dest src n m) x = m x)"
proof -
  have "moved dest src 0 (unat n) m (snd (memmove dest src n m))"
    using copy_down_moves [OF assms(1), of src m] copy_up_moves [OF assms, of 0 m] by (auto simp: memmove_def not_less)
  then show ?thesis by (simp add: moved_def memmove_def)
qed

theorem memmove_moves_witness:
  "snd (memmove 101 100 3 (\<lambda>x. ucast x)) 103 = 102 \<and> snd (memmove 101 100 3 (\<lambda>x. ucast x)) 104 = (104 :: u8)"
proof -
  note mv = memmove_moves [of 101 3 100 "\<lambda>x. ucast x", simplified]
  have "x \<noteq> 101 + of_nat k" if "x = 104" "k < 3" for x :: usize and k
    using that by (auto simp: numeral_3_eq_3 less_Suc_eq)
  then show ?thesis using mv [THEN conjunct2, THEN conjunct1, rule_format, of 2]
      mv [THEN conjunct2, THEN conjunct2, rule_format, of 104] by simp
qed

lemma memcpy_moves:
  assumes "unat dest + unat n \<le> 2 ^ 64" "unat src + unat n \<le> 2 ^ 64"
    and "\<forall>j k. j < unat n \<longrightarrow> k < unat n \<longrightarrow> src + of_nat j \<noteq> dest + of_nat k"
  shows "moved dest src 0 (unat n) m (snd (memcpy dest src n m))"
  using copy_up_moves [OF assms(1,2)] assms(3) by (simp add: memcpy_def)

lemma cmp_from_zero: "cmp_from s1 s2 n i m = 0 \<longleftrightarrow> (\<forall>k. i \<le> k \<and> k < n \<longrightarrow> m (s1 + of_nat k) = m (s2 + of_nat k))"
proof (induction s1 s2 n i m rule: cmp_from.induct)
  case (1 s1 s2 n i m)
  let ?a = "m (s1 + of_nat i)" and ?b = "m (s2 + of_nat i)"
  have z: "(ucast ?a - ucast ?b :: i32) = 0 \<longleftrightarrow> ?a = ?b"
    by (metis right_minus_eq ucast_byte)
  show ?case
  proof (cases "i < n \<and> ?a = ?b")
    case True
    have "(\<forall>k. i \<le> k \<and> k < n \<longrightarrow> m (s1 + of_nat k) = m (s2 + of_nat k)) \<longleftrightarrow>
        (\<forall>k. i + 1 \<le> k \<and> k < n \<longrightarrow> m (s1 + of_nat k) = m (s2 + of_nat k))"
      using True by (metis Suc_eq_plus1 Suc_leD le_antisym not_less_eq_eq)
    moreover have "cmp_from s1 s2 n i m = cmp_from s1 s2 n (i + 1) m"
      using True by (subst cmp_from.simps) (simp add: Let_def)
    ultimately show ?thesis using 1 True by simp
  next
    case False
    then show ?thesis using z by (subst cmp_from.simps) (auto simp: Let_def)
  qed
qed

lemma memcmp_zero_iff: "memcmp s1 s2 n m = 0 \<longleftrightarrow> (\<forall>k < unat n. m (s1 + of_nat k) = m (s2 + of_nat k))"
  by (simp add: memcmp_def cmp_from_zero)

subsection \<open>What the bootloader starts\<close>

text \<open>The loop leaves for the binary only behind a reception within bounds.\<close>

definition started ::
  "(mini_uart \<Rightarrow> usize \<Rightarrow> usize \<Rightarrow> ('d, usize io_result) io) \<Rightarrow> usize \<Rightarrow> 'd \<Rightarrow> bool" where
  "started receive addr d \<longleftrightarrow> addr = BINARY_START \<and>
     (\<exists>uart n d0. receive uart BINARY_START MAX_BINARY_SIZE d0 = Some (Inr (Inr n, d)) \<and> 0 < n \<and> n < MAX_BINARY_SIZE)"

lemma boot_loop_safe:
  fixes bus :: "'d bus" and d :: 'd
  assumes "boot_loop bus receive d = Some r"
  shows "\<forall>addr d'. r = Inr (Inr addr, d') \<longrightarrow> started receive addr d'"
  using assms
proof (rule boot_loop.raw_induct [where P = "\<lambda>_ receive _ r. \<forall>addr d'. r = Inr (Inr addr, d') \<longrightarrow> started receive addr d'", rotated])
  fix loop :: "'d bus \<Rightarrow> (mini_uart \<Rightarrow> usize \<Rightarrow> usize \<Rightarrow> ('d, usize io_result) io) \<Rightarrow> ('d, io_error + usize) io"
    and bus :: "'d bus" and receive :: "mini_uart \<Rightarrow> usize \<Rightarrow> usize \<Rightarrow> ('d, usize io_result) io" and d :: 'd
    and r :: "((io_error + usize) \<times> 'd) outcome"
  assume rec: "\<And>bus receive d r. loop bus receive d = Some r \<Longrightarrow> \<forall>addr d'. r = Inr (Inr addr, d') \<longrightarrow> started receive addr d'"
    and run: "io_bind (uart_new bus) (\<lambda>uart. io_bind (uart_read_byte bus uart) (\<lambda>_.
       io_bind (receive uart BINARY_START MAX_BINARY_SIZE) (\<lambda>r d.
         case r of
           Inl error \<Rightarrow> if kind error = TimedOut then loop bus receive d else io_return (Inl error) d
         | Inr n \<Rightarrow> if 0 < n \<and> n < MAX_BINARY_SIZE then io_return (Inr BINARY_START) d else loop bus receive d))) d = Some r"
  show "\<forall>addr d'. r = Inr (Inr addr, d') \<longrightarrow> started receive addr d'"
  proof (intro allI impI)
    fix addr d'
    assume r: "r = Inr (Inr addr, d')"
    from run [unfolded r] obtain uart d2 x d3 where
      x: "receive uart BINARY_START MAX_BINARY_SIZE d2 = Some (Inr (x, d3))"
      and k: "(case x of
           Inl error \<Rightarrow> if kind error = TimedOut then loop bus receive d3 else io_return (Inl error) d3
         | Inr n \<Rightarrow> if 0 < n \<and> n < MAX_BINARY_SIZE then io_return (Inr BINARY_START) d3 else loop bus receive d3) = Some (Inr (Inr addr, d'))"
      by (auto simp: io_bind_eq_ok_iff)
    show "started receive addr d'"
      using k rec x by (cases x) (auto simp: started_def split: if_splits)
  qed
qed

text \<open>The report of an error never ends, so control leaves the bootloader only for the binary.\<close>

lemma report_loop_forever:
  fixes bus :: "'d bus"
  assumes "report_loop bus uart e t d = Some (r :: ('a \<times> 'd) outcome)"
  shows "isl r"
  using assms
proof (rule report_loop.raw_induct [where P = "\<lambda>_ _ _ _ _ r. isl r", rotated])
  fix loop :: "'d bus \<Rightarrow> mini_uart \<Rightarrow> u8 list \<Rightarrow> u8 list \<Rightarrow> ('d, 'a) io" and bus :: "'d bus" and uart e t and d :: 'd
    and r :: "('a \<times> 'd) outcome"
  assume rec: "\<And>bus uart e t d r. loop bus uart e t d = Some r \<Longrightarrow> isl r"
    and "io_then (spin_sleep_ms bus 1000) (io_then (uart_write_str bus uart (e @ [10]))
       (io_then (uart_write_str bus uart t) (loop bus uart e t))) d = Some r"
  then show "isl r"
    by (auto simp: io_then_def io_bind_def split: option.splits sum.splits)
qed

lemma boot_starts_binary:
  assumes "boot_kmain bus receive err_text debug_text d = Some (Inr (addr, d'))"
  shows "started receive addr d'"
proof -
  from assms obtain x d1 where x: "boot_loop bus receive d = Some (Inr (x, d1))"
    and k: "(case x of Inr addr \<Rightarrow> io_return addr
        | Inl error \<Rightarrow> io_bind (uart_new bus) (\<lambda>uart. report_loop bus uart (err_text error) debug_text)) d1 = Some (Inr (addr, d'))"
    by (auto simp: boot_kmain_def io_bind_eq_ok_iff)
  show ?thesis
  proof (cases x)
    case (Inl error)
    with k obtain uart d2 where "report_loop bus uart (err_text error) debug_text d2 = Some (Inr (addr, d'))"
      by (auto simp: io_bind_eq_ok_iff)
    from report_loop_forever [OF this] show ?thesis by simp
  next
    case (Inr a)
    then show ?thesis using k x boot_loop_safe [of bus receive d] by simp
  qed
qed

text \<open>What is received within bounds ends below the bootloader.\<close>

lemma binary_below_bootloader:
  assumes "n < MAX_BINARY_SIZE"
  shows "unat BINARY_START + unat n < unat BOOTLOADER_START_ADDR"
  using assms
  by (simp add: word_less_nat_alt MAX_BINARY_SIZE_def BINARY_START_def BINARY_START_ADDR_def BOOTLOADER_START_ADDR_def)

end
