(* ===== verification/PathModel.thy ===== *)
theory PathModel
  imports Prelude
begin

text \<open>
  Paths of the kernel's standard library, \<open>std/src/path.rs\<close>, with the platform part for this
  kernel, \<open>std/src/sys/ros/mod.rs\<close>: a path is its bytes, \<open>/\<close> separates, and no path has a prefix
  (\<open>parse_prefix\<close> returns \<open>None\<close>). The target's family is \<open>unix\<close>. The double-ended iterator
  \<open>Components\<close> is modelled as written, with the two states of its ends.
\<close>

type_synonym os_str = "u8 list"

subsection \<open>The platform\<close>

text \<open>The target description has \<open>"target-family": "unix"\<close> and \<open>"os": "ros"\<close>.\<close>

definition cfg_unix :: bool where
  "cfg_unix = True"

definition cfg_redox :: bool where
  "cfg_redox = False"

definition is_sep_byte :: "u8 \<Rightarrow> bool" where
  "is_sep_byte b \<longleftrightarrow> b = 47"

definition is_verbatim_sep :: "u8 \<Rightarrow> bool" where
  "is_verbatim_sep b \<longleftrightarrow> b = 47"

definition MAIN_SEP_STR :: os_str where
  "MAIN_SEP_STR = [47]"

subsection \<open>Prefixes\<close>

datatype prefix =
    Verbatim os_str
  | VerbatimUNC os_str os_str
  | VerbatimDisk u8
  | DeviceNS os_str
  | UNC os_str os_str
  | Disk u8

definition parse_prefix :: "os_str \<Rightarrow> prefix option" where
  "parse_prefix p = None"

definition prefix_length :: "prefix \<Rightarrow> nat" where
  "prefix_length p =
     (case p of
        Verbatim x \<Rightarrow> 4 + length x
      | VerbatimUNC x y \<Rightarrow> 8 + length x + (if length y > 0 then 1 + length y else 0)
      | VerbatimDisk _ \<Rightarrow> 6
      | UNC x y \<Rightarrow> 2 + length x + (if length y > 0 then 1 + length y else 0)
      | DeviceNS x \<Rightarrow> 4 + length x
      | Disk _ \<Rightarrow> 2)"

definition is_verbatim :: "prefix \<Rightarrow> bool" where
  "is_verbatim p = (case p of Verbatim _ \<Rightarrow> True | VerbatimDisk _ \<Rightarrow> True | VerbatimUNC _ _ \<Rightarrow> True | _ \<Rightarrow> False)"

definition is_drive :: "prefix \<Rightarrow> bool" where
  "is_drive p = (case p of Disk _ \<Rightarrow> True | _ \<Rightarrow> False)"

definition has_implicit_root :: "prefix \<Rightarrow> bool" where
  "has_implicit_root p \<longleftrightarrow> \<not> is_drive p"

definition has_physical_root :: "os_str \<Rightarrow> prefix option \<Rightarrow> bool" where
  "has_physical_root s prefix =
     (let path = (case prefix of Some p \<Rightarrow> drop (prefix_length p) s | None \<Rightarrow> s)
      in case path of [] \<Rightarrow> False | b # _ \<Rightarrow> is_sep_byte b)"

subsection \<open>Components\<close>

datatype component =
    Prefix os_str prefix
  | RootDir
  | CurDir
  | ParentDir
  | Normal os_str

definition component_as_os_str :: "component \<Rightarrow> os_str" where
  "component_as_os_str c =
     (case c of
        Prefix raw _ \<Rightarrow> raw
      | RootDir \<Rightarrow> MAIN_SEP_STR
      | CurDir \<Rightarrow> [46]
      | ParentDir \<Rightarrow> [46, 46]
      | Normal path \<Rightarrow> path)"

text \<open>The states of the two ends, in their order.\<close>

datatype path_state = StPrefix | StStartDir | StBody | StDone

definition path_state_num :: "path_state \<Rightarrow> nat" where
  "path_state_num s = (case s of StPrefix \<Rightarrow> 0 | StStartDir \<Rightarrow> 1 | StBody \<Rightarrow> 2 | StDone \<Rightarrow> 3)"

instantiation path_state :: linorder
begin

definition less_eq_path_state :: "path_state \<Rightarrow> path_state \<Rightarrow> bool" where
  "less_eq_path_state a b \<longleftrightarrow> path_state_num a \<le> path_state_num b"

definition less_path_state :: "path_state \<Rightarrow> path_state \<Rightarrow> bool" where
  "less_path_state a b \<longleftrightarrow> path_state_num a < path_state_num b"

instance
proof
  fix a b :: path_state
  show "a \<le> b \<Longrightarrow> b \<le> a \<Longrightarrow> a = b"
    by (cases a; cases b) (simp_all add: less_eq_path_state_def path_state_num_def)
qed (auto simp: less_eq_path_state_def less_path_state_def)

end

lemma path_state_order [simp]:
  "StPrefix \<le> s" "StStartDir \<le> StStartDir" "\<not> StBody \<le> StStartDir" "\<not> StDone \<le> StStartDir"
  "StPrefix < StBody" "StStartDir < StBody" "\<not> s < StPrefix" "StPrefix < StStartDir"
  by (cases s; simp add: less_eq_path_state_def less_path_state_def path_state_num_def)+

record components =
  cp_path :: os_str
  cp_prefix :: "prefix option"
  cp_root :: bool
  cp_front :: path_state
  cp_back :: path_state

definition prefix_len :: "components \<Rightarrow> nat" where
  "prefix_len c = (case cp_prefix c of None \<Rightarrow> 0 | Some p \<Rightarrow> prefix_length p)"

definition prefix_verbatim :: "components \<Rightarrow> bool" where
  "prefix_verbatim c = (case cp_prefix c of None \<Rightarrow> False | Some p \<Rightarrow> is_verbatim p)"

definition prefix_remaining :: "components \<Rightarrow> nat" where
  "prefix_remaining c = (if cp_front c = StPrefix then prefix_len c else 0)"

definition comps_is_sep :: "components \<Rightarrow> u8 \<Rightarrow> bool" where
  "comps_is_sep c b = (if prefix_verbatim c then is_verbatim_sep b else is_sep_byte b)"

definition comps_has_root :: "components \<Rightarrow> bool" where
  "comps_has_root c =
     (if cp_root c then True
      else case cp_prefix c of Some p \<Rightarrow> has_implicit_root p | None \<Rightarrow> False)"

definition include_cur_dir :: "components \<Rightarrow> bool" where
  "include_cur_dir c =
     (if comps_has_root c then False
      else case drop (prefix_len c) (cp_path c) of
             [] \<Rightarrow> False
           | [a] \<Rightarrow> a = 46
           | a # b # _ \<Rightarrow> a = 46 \<and> comps_is_sep c b)"

definition len_before_body :: "components \<Rightarrow> nat" where
  "len_before_body c =
     prefix_remaining c
     + (if cp_front c \<le> StStartDir \<and> cp_root c then 1 else 0)
     + (if cp_front c \<le> StStartDir \<and> include_cur_dir c then 1 else 0)"

definition finished :: "components \<Rightarrow> bool" where
  "finished c \<longleftrightarrow> cp_front c = StDone \<or> cp_back c = StDone \<or> cp_front c > cp_back c"

definition parse_single_component :: "components \<Rightarrow> os_str \<Rightarrow> component option" where
  "parse_single_component c seg =
     (if seg = [46] then (if prefix_verbatim c then Some CurDir else None)
      else if seg = [46, 46] then Some ParentDir
      else if seg = [] then None
      else Some (Normal seg))"

definition parse_next_component :: "components \<Rightarrow> nat \<times> component option" where
  "parse_next_component c =
     (let (extra, seg) =
        (case position (comps_is_sep c) (cp_path c) of
           None \<Rightarrow> (0, cp_path c)
         | Some i \<Rightarrow> (1, take i (cp_path c)))
      in (length seg + extra, parse_single_component c seg))"

definition parse_next_component_back :: "components \<Rightarrow> nat \<times> component option" where
  "parse_next_component_back c =
     (let start = len_before_body c;
          (extra, seg) =
        (case rposition (comps_is_sep c) (drop start (cp_path c)) of
           None \<Rightarrow> (0, drop start (cp_path c))
         | Some i \<Rightarrow> (1, drop (start + i + 1) (cp_path c)))
      in (length seg + extra, parse_single_component c seg))"

lemma parse_next_shorter:
  assumes "(sz, seg) = parse_next_component c" and "cp_path c \<noteq> []"
  shows "length (cp_path c) - sz < length (cp_path c)"
  using assms by (auto simp: parse_next_component_def split: option.splits)

lemma parse_next_back_shorter:
  assumes "(sz, seg) = parse_next_component_back c" and "len_before_body c < length (cp_path c)"
  shows "length (cp_path c) - sz < length (cp_path c)"
  using assms by (auto simp: parse_next_component_back_def Let_def split: option.splits)

function trim_left :: "components \<Rightarrow> components" where
  "trim_left c =
     (if cp_path c = [] then c
      else case parse_next_component c of
             (sz, seg) \<Rightarrow>
               if seg \<noteq> None then c else trim_left (c\<lparr>cp_path := drop sz (cp_path c)\<rparr>))"
  by pat_completeness auto

termination
  by (relation "measure (\<lambda>c. length (cp_path c))") (auto dest: parse_next_shorter)

function trim_right :: "components \<Rightarrow> components" where
  "trim_right c =
     (if \<not> len_before_body c < length (cp_path c) then c
      else case parse_next_component_back c of
             (sz, seg) \<Rightarrow>
               if seg \<noteq> None then c
               else trim_right (c\<lparr>cp_path := take (length (cp_path c) - sz) (cp_path c)\<rparr>))"
  by pat_completeness auto

termination
  by (relation "measure (\<lambda>c. length (cp_path c))") (auto dest: parse_next_back_shorter)

definition comps_as_path :: "components \<Rightarrow> os_str" where
  "comps_as_path c =
     (let c1 = (if cp_front c = StBody then trim_left c else c);
          c2 = (if cp_back c1 = StBody then trim_right c1 else c1)
      in cp_path c2)"

text \<open>The two iterations; \<open>StDone\<close> is the unreachable arm of the source, excluded by \<open>finished\<close>.\<close>

function components_next :: "components \<Rightarrow> component option \<times> components" where
  "components_next c =
     (if finished c then (None, c)
      else case cp_front c of
        StPrefix \<Rightarrow>
          (if 0 < prefix_len c
           then (case cp_prefix c of
                   Some p \<Rightarrow> (Some (Prefix (take (prefix_len c) (cp_path c)) p),
                     c\<lparr>cp_front := StStartDir, cp_path := drop (prefix_len c) (cp_path c)\<rparr>)
                 | None \<Rightarrow> (None, c))
           else components_next (c\<lparr>cp_front := StStartDir\<rparr>))
      | StStartDir \<Rightarrow>
          (let c1 = c\<lparr>cp_front := StBody\<rparr> in
           if cp_root c then (Some RootDir, c1\<lparr>cp_path := drop 1 (cp_path c)\<rparr>)
           else case cp_prefix c of
                  Some p \<Rightarrow> if has_implicit_root p \<and> \<not> is_verbatim p then (Some RootDir, c1) else components_next c1
                | None \<Rightarrow> if include_cur_dir c1 then (Some CurDir, c1\<lparr>cp_path := drop 1 (cp_path c)\<rparr>)
                          else components_next c1)
      | StBody \<Rightarrow>
          (if cp_path c \<noteq> []
           then (case parse_next_component c of
                   (sz, seg) \<Rightarrow>
                     (let c1 = c\<lparr>cp_path := drop sz (cp_path c)\<rparr> in
                      if seg \<noteq> None then (seg, c1) else components_next c1))
           else components_next (c\<lparr>cp_front := StDone\<rparr>))
      | StDone \<Rightarrow> (None, c))"
  by pat_completeness auto

termination
  by (relation "measure (\<lambda>c. length (cp_path c) + (3 - path_state_num (cp_front c)))")
    (auto simp: path_state_num_def dest: parse_next_shorter)

function components_next_back :: "components \<Rightarrow> component option \<times> components" where
  "components_next_back c =
     (if finished c then (None, c)
      else case cp_back c of
        StBody \<Rightarrow>
          (if len_before_body c < length (cp_path c)
           then (case parse_next_component_back c of
                   (sz, seg) \<Rightarrow>
                     (let c1 = c\<lparr>cp_path := take (length (cp_path c) - sz) (cp_path c)\<rparr> in
                      if seg \<noteq> None then (seg, c1) else components_next_back c1))
           else components_next_back (c\<lparr>cp_back := StStartDir\<rparr>))
      | StStartDir \<Rightarrow>
          (let c1 = c\<lparr>cp_back := StPrefix\<rparr> in
           if cp_root c then (Some RootDir, c1\<lparr>cp_path := take (length (cp_path c) - 1) (cp_path c)\<rparr>)
           else case cp_prefix c of
                  Some p \<Rightarrow> if has_implicit_root p \<and> \<not> is_verbatim p then (Some RootDir, c1) else components_next_back c1
                | None \<Rightarrow> if include_cur_dir c1
                          then (Some CurDir, c1\<lparr>cp_path := take (length (cp_path c) - 1) (cp_path c)\<rparr>)
                          else components_next_back c1)
      | StPrefix \<Rightarrow>
          (let c1 = c\<lparr>cp_back := StDone\<rparr> in
           if 0 < prefix_len c
           then (case cp_prefix c of Some p \<Rightarrow> (Some (Prefix (cp_path c) p), c1) | None \<Rightarrow> (None, c1))
           else (None, c1))
      | StDone \<Rightarrow> (None, c))"
  by pat_completeness auto

termination
  by (relation "measure (\<lambda>c. length (cp_path c) + path_state_num (cp_back c))")
    (auto simp: path_state_num_def dest: parse_next_back_shorter)

text \<open>One step of the iterator, from the front or, for \<open>rev()\<close>, from the back.\<close>

definition comps_step :: "bool \<Rightarrow> components \<Rightarrow> component option \<times> components" where
  "comps_step rv c = (if rv then components_next_back c else components_next c)"

declare trim_left.simps [simp del] trim_right.simps [simp del]
  components_next.simps [simp del] components_next_back.simps [simp del]

definition comps_weight :: "components \<Rightarrow> nat" where
  "comps_weight c = length (cp_path c) + (3 - path_state_num (cp_front c))
     + Suc (path_state_num (cp_back c)) mod 4"

lemma components_next_less:
  "components_next c = (Some x, d) \<Longrightarrow> comps_weight d < comps_weight c"
proof (induction c rule: components_next.induct)
  case (1 c)
  show ?case
  proof (cases "finished c")
    case True
    then show ?thesis using 1(6) by (simp add: components_next.simps [of c])
  next
    case False
    note step = 1(6)[unfolded components_next.simps [of c] if_not_P [OF False]]
    show ?thesis
    proof (cases "cp_front c")
      case StPrefix
      then show ?thesis
        using step 1(1)[OF False StPrefix]
        by (auto simp: comps_weight_def path_state_num_def split: if_splits option.splits)
    next
      case StStartDir
      then show ?thesis
        using step 1(2,3)[OF False StStartDir refl]
        by (auto simp: comps_weight_def path_state_num_def Let_def split: if_splits option.splits)
    next
      case StBody
      obtain sz seg where nx: "parse_next_component c = (sz, seg)" by fastforce
      show ?thesis
        using step 1(4)[OF False StBody _ nx [symmetric] refl] 1(5)[OF False StBody]
          StBody nx parse_next_shorter [of sz seg c]
        by (auto simp: comps_weight_def path_state_num_def Let_def split: if_splits)
    next
      case StDone
      then show ?thesis using step by simp
    qed
  qed
qed

lemma components_next_back_less:
  "components_next_back c = (Some x, d) \<Longrightarrow> comps_weight d < comps_weight c"
proof (induction c rule: components_next_back.induct)
  case (1 c)
  show ?case
  proof (cases "finished c")
    case True
    then show ?thesis using 1(5) by (simp add: components_next_back.simps [of c])
  next
    case False
    note step = 1(5)[unfolded components_next_back.simps [of c] if_not_P [OF False]]
    show ?thesis
    proof (cases "cp_back c")
      case StPrefix
      then show ?thesis
        using step
        by (auto simp: comps_weight_def path_state_num_def Let_def split: if_splits option.splits)
    next
      case StStartDir
      then show ?thesis
        using step 1(1,2)[OF False StStartDir refl]
        by (auto simp: comps_weight_def path_state_num_def Let_def split: if_splits option.splits)
    next
      case StBody
      obtain sz seg where nx: "parse_next_component_back c = (sz, seg)" by fastforce
      show ?thesis
        using step 1(3)[OF False StBody _ nx [symmetric] refl] 1(4)[OF False StBody]
          StBody nx parse_next_back_shorter [of sz seg c]
        by (auto simp: comps_weight_def path_state_num_def Let_def split: if_splits)
    next
      case StDone
      then show ?thesis using step by simp
    qed
  qed
qed

subsection \<open>Matching two iterators\<close>

text \<open>
  \<open>iter_after\<close> on two component iterators running the same way (\<open>rv\<close>: both reversed): the
  iterator after having exhausted the prefix, if the prefix matches.
\<close>

function iter_after :: "bool \<Rightarrow> components \<Rightarrow> components \<Rightarrow> components option" where
  "iter_after rv iter pre =
     (case (comps_step rv iter, comps_step rv pre) of
        ((Some x, iter_next), (Some y, pre_next)) \<Rightarrow>
          if x = y then iter_after rv iter_next pre_next else None
      | ((Some _, _), (None, _)) \<Rightarrow> Some iter
      | ((None, _), (None, _)) \<Rightarrow> Some iter
      | ((None, _), (Some _, _)) \<Rightarrow> None)"
  by pat_completeness auto

termination
  by (relation "measure (\<lambda>(rv, iter, pre). comps_weight pre)")
    (auto simp: comps_step_def dest: components_next_less [OF sym] components_next_back_less [OF sym] split: if_splits)

declare iter_after.simps [simp del]

subsection \<open>Paths\<close>

definition has_redox_scheme :: "os_str \<Rightarrow> bool" where
  "has_redox_scheme s \<longleftrightarrow> cfg_redox \<and> 58 \<in> set (takeWhile (\<lambda>b. b \<noteq> 47) s)"

definition path_components :: "os_str \<Rightarrow> components" where
  "path_components p =
     (let prefix = parse_prefix p in
      \<lparr>cp_path = p, cp_prefix = prefix,
       cp_root = has_physical_root p prefix \<or> has_redox_scheme p,
       cp_front = StPrefix, cp_back = StBody\<rparr>)"

definition has_root :: "os_str \<Rightarrow> bool" where
  "has_root p = comps_has_root (path_components p)"

definition path_prefix :: "os_str \<Rightarrow> prefix option" where
  "path_prefix p = cp_prefix (path_components p)"

definition is_absolute :: "os_str \<Rightarrow> bool" where
  "is_absolute p =
     (if cfg_redox then has_root p \<or> has_redox_scheme p
      else has_root p \<and> (cfg_unix \<or> path_prefix p \<noteq> None))"

definition is_relative :: "os_str \<Rightarrow> bool" where
  "is_relative p \<longleftrightarrow> \<not> is_absolute p"

definition parent :: "os_str \<Rightarrow> os_str option" where
  "parent p =
     (case components_next_back (path_components p) of
        (Some (Normal _), comps) \<Rightarrow> Some (comps_as_path comps)
      | (Some CurDir, comps) \<Rightarrow> Some (comps_as_path comps)
      | (Some ParentDir, comps) \<Rightarrow> Some (comps_as_path comps)
      | _ \<Rightarrow> None)"

definition file_name :: "os_str \<Rightarrow> os_str option" where
  "file_name p =
     (case fst (components_next_back (path_components p)) of Some (Normal n) \<Rightarrow> Some n | _ \<Rightarrow> None)"

definition strip_prefix :: "os_str \<Rightarrow> os_str \<Rightarrow> os_str option" where
  "strip_prefix p base = map_option comps_as_path (iter_after False (path_components p) (path_components base))"

definition starts_with :: "os_str \<Rightarrow> os_str \<Rightarrow> bool" where
  "starts_with p base \<longleftrightarrow> iter_after False (path_components p) (path_components base) \<noteq> None"

definition ends_with :: "os_str \<Rightarrow> os_str \<Rightarrow> bool" where
  "ends_with p child \<longleftrightarrow> iter_after True (path_components p) (path_components child) \<noteq> None"

text \<open>
  \<open>rsplitn(2, '.')\<close>: the part after the last dot, then the part before it, if there is a dot.
\<close>

definition split_file_at_dot :: "os_str \<Rightarrow> os_str option \<times> os_str option" where
  "split_file_at_dot file =
     (if file = [46, 46] then (Some file, None)
      else let (after, before) =
             (case rposition (\<lambda>b. b = 46) file of
                None \<Rightarrow> (Some file, None)
              | Some i \<Rightarrow> (Some (drop (i + 1) file), Some (take i file)))
           in if before = Some [] then (Some file, None) else (before, after))"

definition file_stem :: "os_str \<Rightarrow> os_str option" where
  "file_stem p =
     Option.bind (file_name p) (\<lambda>f. case split_file_at_dot f of
       (Some before, _) \<Rightarrow> Some before
     | (None, after) \<Rightarrow> after)"

definition extension :: "os_str \<Rightarrow> os_str option" where
  "extension p =
     Option.bind (file_name p) (\<lambda>f. case split_file_at_dot f of
       (Some _, after) \<Rightarrow> after
     | (None, _) \<Rightarrow> None)"

text \<open>The iterator over the components as strings.\<close>

definition path_iter_next :: "components \<Rightarrow> os_str option \<times> components" where
  "path_iter_next c = (case components_next c of (x, d) \<Rightarrow> (map_option component_as_os_str x, d))"

definition path_iter_next_back :: "components \<Rightarrow> os_str option \<times> components" where
  "path_iter_next_back c = (case components_next_back c of (x, d) \<Rightarrow> (map_option component_as_os_str x, d))"

subsection \<open>Path buffers\<close>

definition path_push :: "os_str \<Rightarrow> os_str \<Rightarrow> os_str" where
  "path_push self path =
     (let need_sep = (self \<noteq> [] \<and> \<not> is_sep_byte (last self));
          comps = path_components self;
          need_sep' = (if 0 < prefix_len comps \<and> prefix_len comps = length (cp_path comps)
                          \<and> (case cp_prefix comps of Some p \<Rightarrow> is_drive p | None \<Rightarrow> False)
                       then False else need_sep);
          base = (if is_absolute path \<or> path_prefix path \<noteq> None then []
                  else if has_root path then take (prefix_remaining (path_components self)) self
                  else if need_sep' then self @ MAIN_SEP_STR
                  else self)
      in base @ path)"

definition path_pop :: "os_str \<Rightarrow> bool \<times> os_str" where
  "path_pop self =
     (case map_option length (parent self) of
        Some len \<Rightarrow> (True, take len self)
      | None \<Rightarrow> (False, self))"

definition set_file_name :: "os_str \<Rightarrow> os_str \<Rightarrow> os_str" where
  "set_file_name self name =
     (let self' = (if file_name self \<noteq> None then snd (path_pop self) else self)
      in path_push self' name)"

definition set_extension :: "os_str \<Rightarrow> os_str \<Rightarrow> bool \<times> os_str" where
  "set_extension self ext =
     (if file_name self = None then (False, self)
      else let stem = (case file_stem self of Some s \<Rightarrow> s | None \<Rightarrow> []);
               stem' = (if ext \<noteq> [] then stem @ [46] @ ext else stem)
           in (True, set_file_name self stem'))"

definition path_join :: "os_str \<Rightarrow> os_str \<Rightarrow> os_str" where
  "path_join self path = path_push self path"

definition with_file_name :: "os_str \<Rightarrow> os_str \<Rightarrow> os_str" where
  "with_file_name self name = set_file_name self name"

definition with_extension :: "os_str \<Rightarrow> os_str \<Rightarrow> os_str" where
  "with_extension self ext = snd (set_extension self ext)"

definition path_extend :: "os_str \<Rightarrow> os_str list \<Rightarrow> os_str" where
  "path_extend self ps = fold (\<lambda>p buf. path_push buf p) ps self"

definition path_from_iter :: "os_str list \<Rightarrow> os_str" where
  "path_from_iter ps = path_extend [] ps"

text \<open>Equality of paths is equality of the components their iterators yield.\<close>

function comps_eq :: "components \<Rightarrow> components \<Rightarrow> bool" where
  "comps_eq c d =
     (case (components_next c, components_next d) of
        ((None, _), (None, _)) \<Rightarrow> True
      | ((Some x, c'), (Some y, d')) \<Rightarrow> x = y \<and> comps_eq c' d'
      | _ \<Rightarrow> False)"
  by pat_completeness auto

termination
  by (relation "measure (\<lambda>(c, d). comps_weight c)") (auto dest: components_next_less [OF sym])

declare comps_eq.simps [simp del]

definition path_eq :: "os_str \<Rightarrow> os_str \<Rightarrow> bool" where
  "path_eq p q = comps_eq (path_components p) (path_components q)"

end
