(* ===== verification/PathSpec.thy ===== *)
theory PathSpec
  imports PathModel
begin

text \<open>
  What the component iterator of \<open>path.rs\<close> means. A path denotes a list of components, defined by
  splitting it at the separators; the double-ended iterator, whichever way its two ends are
  interleaved, pops exactly that list. The path operations are then read off the list.
\<close>

subsection \<open>The components of a path\<close>

fun segs :: "os_str \<Rightarrow> os_str list" where
  "segs [] = [[]]"
| "segs (b # bs) = (if b = 47 then [] # segs bs else (b # hd (segs bs)) # tl (segs bs))"

definition segment :: "os_str \<Rightarrow> component list" where
  "segment s = (if s = [] \<or> s = [46] then [] else if s = [46, 46] then [ParentDir] else [Normal s])"

definition body_comps :: "os_str \<Rightarrow> component list" where
  "body_comps p = concat (map segment (segs p))"

definition lead :: "os_str \<Rightarrow> component list" where
  "lead p =
     (case p of
        [] \<Rightarrow> []
      | b # bs \<Rightarrow> if b = 47 then [RootDir] else if b = 46 \<and> (bs = [] \<or> hd bs = 47) then [CurDir] else [])"

definition comps_of :: "os_str \<Rightarrow> component list" where
  "comps_of p = lead p @ body_comps p"

lemma segs_nonempty [simp]: "segs p \<noteq> []"
  by (cases p) auto

lemma segs_append_sep: "segs (x @ 47 # y) = segs x @ segs y"
  by (induction x) (auto simp: hd_append)

lemma segs_no_sep: "47 \<notin> set x \<Longrightarrow> segs x = [x]"
  by (induction x) auto

lemma body_comps_Nil [simp]: "body_comps [] = []"
  by (simp add: body_comps_def segment_def)

lemma body_comps_append_sep: "body_comps (x @ 47 # y) = body_comps x @ body_comps y"
  by (simp add: body_comps_def segs_append_sep)

lemma body_comps_sep [simp]: "body_comps (47 # y) = body_comps y"
  using body_comps_append_sep [of "[]" y] by simp

lemma body_comps_no_sep: "47 \<notin> set x \<Longrightarrow> body_comps x = segment x"
  by (simp add: body_comps_def segs_no_sep)

lemma body_comps_dot [simp]: "body_comps [46] = []"
  by (simp add: body_comps_no_sep segment_def)

lemma body_comps_dot_sep [simp]: "body_comps (46 # 47 # y) = body_comps y"
  using body_comps_append_sep [of "[46]" y] by simp

lemma segment_cases: "segment s = [] \<or> (\<exists>x. segment s = [x])"
  by (simp add: segment_def)

subsection \<open>Parsing one component\<close>

lemma no_prefix [simp]:
  assumes "cp_prefix c = None"
  shows "prefix_len c = 0" "\<not> prefix_verbatim c" "comps_is_sep c = (\<lambda>b. b = 47)"
    "comps_has_root c = cp_root c" "prefix_remaining c = 0"
  using assms
  by (auto simp: prefix_len_def prefix_verbatim_def comps_is_sep_def comps_has_root_def
      prefix_remaining_def is_sep_byte_def fun_eq_iff)

lemma single_segment:
  "cp_prefix c = None \<Longrightarrow> segment s = (case parse_single_component c s of None \<Rightarrow> [] | Some x \<Rightarrow> [x])"
  by (auto simp: parse_single_component_def segment_def)

lemma parse_next_split:
  assumes "cp_prefix c = None" and "parse_next_component c = (sz, x)"
  shows "body_comps (cp_path c) = (case x of None \<Rightarrow> [] | Some y \<Rightarrow> [y]) @ body_comps (drop sz (cp_path c))"
proof (cases "position (\<lambda>b. b = 47) (cp_path c)")
  case None
  then have "47 \<notin> set (cp_path c)" by (auto simp: position_None_iff)
  with assms None show ?thesis
    by (auto simp: parse_next_component_def body_comps_no_sep single_segment [OF assms(1)])
next
  case (Some i)
  let ?s = "take i (cp_path c)"
  have i: "i < length (cp_path c)" "cp_path c ! i = 47" "47 \<notin> set ?s"
    using position_SomeD [OF Some] by auto
  have p: "cp_path c = ?s @ 47 # drop (Suc i) (cp_path c)"
    using id_take_nth_drop [OF i(1)] i(2) by simp
  have "body_comps (cp_path c) = segment ?s @ body_comps (drop (Suc i) (cp_path c))"
    by (subst p) (simp add: body_comps_append_sep body_comps_no_sep i(3))
  with assms Some i(1) show ?thesis
    by (auto simp: parse_next_component_def single_segment [OF assms(1)] min_def)
qed

subsection \<open>The state of the iterator\<close>

definition comps_inv :: "components \<Rightarrow> bool" where
  "comps_inv c \<longleftrightarrow>
     cp_prefix c = None \<and>
     (cp_front c \<le> StStartDir \<and> StStartDir \<le> cp_back c \<and> cp_back c \<noteq> StDone \<longrightarrow>
        (cp_root c \<longleftrightarrow> lead (cp_path c) = [RootDir])) \<and>
     (cp_back c \<noteq> StBody \<longrightarrow>
        length (cp_path c) \<le> (if cp_front c \<le> StStartDir \<and> cp_back c = StStartDir then length (lead (cp_path c)) else 0)) \<and>
     (cp_front c = StDone \<longrightarrow> cp_path c = [])"

definition remaining :: "components \<Rightarrow> component list" where
  "remaining c =
     (if finished c then []
      else (if cp_front c \<le> StStartDir \<and> StStartDir \<le> cp_back c then lead (cp_path c) else [])
           @ (if cp_back c = StBody then body_comps (cp_path c) else []))"

lemma path_components_simps [simp]:
  "cp_path (path_components p) = p" "cp_prefix (path_components p) = None"
  "cp_root (path_components p) \<longleftrightarrow> lead p = [RootDir]"
  "cp_front (path_components p) = StPrefix" "cp_back (path_components p) = StBody"
  by (auto simp: path_components_def parse_prefix_def Let_def has_physical_root_def has_redox_scheme_def
      cfg_redox_def is_sep_byte_def lead_def split: list.splits)

lemma path_state_le_body [simp]: "StStartDir \<le> StBody" "StPrefix \<le> StBody" "\<not> StBody < StBody"
  "\<not> StStartDir \<le> StPrefix" "StStartDir \<le> StDone"
  by (simp_all add: less_eq_path_state_def path_state_num_def)

lemma comps_inv_start: "comps_inv (path_components p)"
  by (simp add: comps_inv_def)

lemma remaining_start: "remaining (path_components p) = comps_of p"
  by (simp add: remaining_def comps_of_def finished_def)

lemma include_cur_dir_lead:
  assumes "cp_prefix c = None" and "\<not> cp_root c" and "lead (cp_path c) \<noteq> [RootDir]"
  shows "include_cur_dir c \<longleftrightarrow> lead (cp_path c) = [CurDir]"
  using assms by (auto simp: include_cur_dir_def lead_def split: list.splits)

lemma include_cur_dir_root: "cp_root c \<Longrightarrow> \<not> include_cur_dir c"
  by (simp add: include_cur_dir_def comps_has_root_def)

lemma lead_cases: obtains "lead p = []" | "lead p = [RootDir]" | "lead p = [CurDir]"
proof -
  have "lead p = [] \<or> lead p = [RootDir] \<or> lead p = [CurDir]" by (cases p) (simp_all add: lead_def)
  then show ?thesis using that by blast
qed

lemma len_before_body_lead:
  assumes "comps_inv c" and "cp_back c = StBody"
  shows "len_before_body c = (if cp_front c \<le> StStartDir then length (lead (cp_path c)) else 0)"
proof (cases "cp_front c \<le> StStartDir")
  case True
  with assms have "cp_prefix c = None" "cp_root c \<longleftrightarrow> lead (cp_path c) = [RootDir]"
    by (simp_all add: comps_inv_def)
  with True show ?thesis
    using include_cur_dir_lead [of c] include_cur_dir_root [of c]
    by (cases rule: lead_cases [of "cp_path c"]) (auto simp: len_before_body_def)
next
  case False
  with assms show ?thesis by (simp add: len_before_body_def comps_inv_def)
qed

text \<open>Dropping the leading component's byte leaves the body's components.\<close>

lemma lead_simps [simp]:
  "lead [] = []" "lead (47 # q) = [RootDir]" "lead [46] = [CurDir]" "lead (46 # 47 # q) = [CurDir]"
  by (simp_all add: lead_def)

lemma lead_root: "lead p = [RootDir] \<longleftrightarrow> (\<exists>q. p = 47 # q)"
  by (auto simp: lead_def split: list.splits)

lemma lead_cur: "lead p = [CurDir] \<longleftrightarrow> p = [46] \<or> (\<exists>q. p = 46 # 47 # q)"
  by (cases p; cases "tl p") (auto simp: lead_def)

lemma body_comps_drop_lead: "body_comps (drop (length (lead p)) p) = body_comps p"
  by (cases rule: lead_cases [of p]) (auto simp: lead_root lead_cur)

lemma body_comps_take_lead: "body_comps (take (length (lead p)) p) = []"
  by (cases rule: lead_cases [of p]) (auto simp: lead_root lead_cur)

lemma lead_append: "lead (x @ 47 # y) = (if x = [] then [RootDir] else lead x)"
  by (cases x; cases "tl x") (auto simp: lead_def)

text \<open>
  Parsing from the back: what is cut off is the last component, if it is one, and the rest keeps
  its leading component.
\<close>

lemma back_cut:
  assumes "cp_prefix c = None"
    and "parse_next_component_back c = (sz, x)"
    and "len_before_body c = (if b then length (lead (cp_path c)) else 0)"
    and "len_before_body c < length (cp_path c)"
  defines "q \<equiv> take (length (cp_path c) - sz) (cp_path c)"
  shows "body_comps (cp_path c) = body_comps q @ (case x of None \<Rightarrow> [] | Some y \<Rightarrow> [y]) \<and> (b \<longrightarrow> lead q = lead (cp_path c))"
proof -
  let ?p = "cp_path c" and ?n = "len_before_body c"
  show ?thesis
  proof (cases "rposition (\<lambda>b. b = 47) (drop ?n ?p)")
    case None
    then have ns: "47 \<notin> set (drop ?n ?p)" by (auto simp: rposition_None_iff)
    have sz: "sz = length ?p - ?n" "x = parse_single_component c (drop ?n ?p)"
      using assms(1,2) None by (auto simp: parse_next_component_back_def Let_def)
    have q: "q = take ?n ?p" using assms(4) by (simp add: q_def sz(1))
    have bc: "body_comps ?p = body_comps (drop ?n ?p)" and tk: "body_comps (take ?n ?p) = []"
      using body_comps_drop_lead [of ?p] body_comps_take_lead [of ?p] assms(3) by (auto split: if_splits)
    have "b \<longrightarrow> lead (take ?n ?p) = lead ?p"
      using assms(3,4) ns by (cases rule: lead_cases [of ?p]) (auto simp: lead_root lead_cur)
    then show ?thesis
      using bc tk by (simp add: q sz(2) body_comps_no_sep [OF ns] single_segment [OF assms(1)])
  next
    case (Some i)
    let ?s = "drop (?n + i + 1) ?p" and ?x = "take (?n + i) ?p"
    have i: "?n + i < length ?p" "?p ! (?n + i) = 47" "47 \<notin> set ?s"
      using rposition_SomeD [OF Some] assms(4) by (auto simp: add.commute)
    have sz: "sz = length ?p - (?n + i)" "x = parse_single_component c ?s"
      using assms(1,2) Some i(1) by (auto simp: parse_next_component_back_def Let_def)
    have q: "q = ?x" using i(1) by (simp add: q_def sz(1))
    have p: "?p = ?x @ 47 # ?s" using id_take_nth_drop [OF i(1)] i(2) by simp
    have "body_comps ?p = body_comps ?x @ segment ?s"
      by (subst p) (simp only: body_comps_append_sep body_comps_no_sep [OF i(3)])
    moreover have "lead ?x = lead ?p" if b
    proof (cases "?x = []")
      case True
      then have "?n = 0" "?p = 47 # ?s" using p i(1) by auto
      then show ?thesis using assms(3) that by (metis lead_simps(2) length_0_conv list.distinct(1))
    next
      case False
      then show ?thesis by (subst p) (simp only: lead_append if_False)
    qed
    ultimately show ?thesis by (simp add: q sz(2) single_segment [OF assms(1)])
  qed
qed

subsection \<open>The iterator pops the list of components\<close>

lemma include_cur_dir_state [simp]:
  "include_cur_dir (c\<lparr>cp_front := s\<rparr>) = include_cur_dir c"
  "include_cur_dir (c\<lparr>cp_back := s\<rparr>) = include_cur_dir c"
proof -
  have "comps_is_sep (c\<lparr>cp_front := s\<rparr>) = comps_is_sep c" "comps_is_sep (c\<lparr>cp_back := s\<rparr>) = comps_is_sep c"
    by (simp_all add: fun_eq_iff comps_is_sep_def prefix_verbatim_def)
  then show "include_cur_dir (c\<lparr>cp_front := s\<rparr>) = include_cur_dir c"
    "include_cur_dir (c\<lparr>cp_back := s\<rparr>) = include_cur_dir c"
    by (simp_all add: include_cur_dir_def comps_has_root_def prefix_len_def split: list.split)
qed

lemma components_next_steps:
  "finished c \<Longrightarrow> components_next c = (None, c)"
  "\<not> finished c \<Longrightarrow> cp_prefix c = None \<Longrightarrow> cp_front c = StPrefix \<Longrightarrow>
     components_next c = components_next (c\<lparr>cp_front := StStartDir\<rparr>)"
  "\<not> finished c \<Longrightarrow> cp_prefix c = None \<Longrightarrow> cp_front c = StStartDir \<Longrightarrow>
     components_next c =
       (if cp_root c then (Some RootDir, c\<lparr>cp_front := StBody, cp_path := drop 1 (cp_path c)\<rparr>)
        else if include_cur_dir c then (Some CurDir, c\<lparr>cp_front := StBody, cp_path := drop 1 (cp_path c)\<rparr>)
        else components_next (c\<lparr>cp_front := StBody\<rparr>))"
  "\<not> finished c \<Longrightarrow> cp_front c = StBody \<Longrightarrow> cp_path c = [] \<Longrightarrow>
     components_next c = components_next (c\<lparr>cp_front := StDone\<rparr>)"
  "\<not> finished c \<Longrightarrow> cp_front c = StBody \<Longrightarrow> cp_path c \<noteq> [] \<Longrightarrow> parse_next_component c = (sz, x) \<Longrightarrow>
     components_next c =
       (if x \<noteq> None then (x, c\<lparr>cp_path := drop sz (cp_path c)\<rparr>)
        else components_next (c\<lparr>cp_path := drop sz (cp_path c)\<rparr>))"
  by (simp_all add: components_next.simps [of c] Let_def)

lemma components_next_back_steps:
  "finished c \<Longrightarrow> components_next_back c = (None, c)"
  "\<not> finished c \<Longrightarrow> cp_back c = StBody \<Longrightarrow> len_before_body c < length (cp_path c) \<Longrightarrow>
     parse_next_component_back c = (sz, x) \<Longrightarrow>
     components_next_back c =
       (if x \<noteq> None then (x, c\<lparr>cp_path := take (length (cp_path c) - sz) (cp_path c)\<rparr>)
        else components_next_back (c\<lparr>cp_path := take (length (cp_path c) - sz) (cp_path c)\<rparr>))"
  "\<not> finished c \<Longrightarrow> cp_back c = StBody \<Longrightarrow> \<not> len_before_body c < length (cp_path c) \<Longrightarrow>
     components_next_back c = components_next_back (c\<lparr>cp_back := StStartDir\<rparr>)"
  "\<not> finished c \<Longrightarrow> cp_prefix c = None \<Longrightarrow> cp_back c = StStartDir \<Longrightarrow>
     components_next_back c =
       (if cp_root c then (Some RootDir, c\<lparr>cp_back := StPrefix, cp_path := take (length (cp_path c) - 1) (cp_path c)\<rparr>)
        else if include_cur_dir c
        then (Some CurDir, c\<lparr>cp_back := StPrefix, cp_path := take (length (cp_path c) - 1) (cp_path c)\<rparr>)
        else components_next_back (c\<lparr>cp_back := StPrefix\<rparr>))"
  "\<not> finished c \<Longrightarrow> cp_prefix c = None \<Longrightarrow> cp_back c = StPrefix \<Longrightarrow>
     components_next_back c = (None, c\<lparr>cp_back := StDone\<rparr>)"
  by (simp_all add: components_next_back.simps [of c] Let_def)

text \<open>The contract of one step, from the front and from the back.\<close>

definition pops_front :: "components \<Rightarrow> component option \<times> components \<Rightarrow> bool" where
  "pops_front c r =
     (case r of
        (None, d) \<Rightarrow> comps_inv d \<and> remaining c = [] \<and> remaining d = []
      | (Some x, d) \<Rightarrow> comps_inv d \<and> remaining c = x # remaining d)"

definition pops_back :: "components \<Rightarrow> component option \<times> components \<Rightarrow> bool" where
  "pops_back c r =
     (case r of
        (None, d) \<Rightarrow> comps_inv d \<and> remaining c = [] \<and> remaining d = []
      | (Some x, d) \<Rightarrow> comps_inv d \<and> remaining c = remaining d @ [x])"

lemma pops_front_trans: "pops_front d r \<Longrightarrow> remaining d = remaining c \<Longrightarrow> pops_front c r"
  by (simp add: pops_front_def split: prod.splits option.splits)

lemma pops_back_trans: "pops_back d r \<Longrightarrow> remaining d = remaining c \<Longrightarrow> pops_back c r"
  by (simp add: pops_back_def split: prod.splits option.splits)

lemma comps_inv_prefix: "comps_inv c \<Longrightarrow> cp_prefix c = None"
  by (simp add: comps_inv_def)

lemma start_advance:
  assumes "comps_inv c" "\<not> finished c" "cp_front c = StPrefix"
  shows "comps_inv (c\<lparr>cp_front := StStartDir\<rparr>)" "remaining (c\<lparr>cp_front := StStartDir\<rparr>) = remaining c"
  using assms by (cases "cp_back c"; auto simp: comps_inv_def remaining_def finished_def less_path_state_def
      path_state_num_def)+

lemma start_leave:
  assumes "comps_inv c" "\<not> finished c" "cp_front c = StStartDir"
  shows "cp_root c \<or> include_cur_dir c \<Longrightarrow>
           comps_inv (c\<lparr>cp_front := StBody, cp_path := drop 1 (cp_path c)\<rparr>) \<and>
           remaining c = (if cp_root c then RootDir else CurDir)
                         # remaining (c\<lparr>cp_front := StBody, cp_path := drop 1 (cp_path c)\<rparr>)"
    and "\<not> (cp_root c \<or> include_cur_dir c) \<Longrightarrow>
           comps_inv (c\<lparr>cp_front := StBody\<rparr>) \<and> remaining (c\<lparr>cp_front := StBody\<rparr>) = remaining c"
proof -
  have b: "cp_back c = StStartDir \<or> cp_back c = StBody"
    using assms(2,3) by (cases "cp_back c") (auto simp: finished_def less_path_state_def path_state_num_def)
  have r: "cp_prefix c = None" "cp_root c \<longleftrightarrow> lead (cp_path c) = [RootDir]"
    and e: "cp_back c = StStartDir \<Longrightarrow> length (cp_path c) \<le> length (lead (cp_path c))"
    using assms(1,3) b by (auto simp: comps_inv_def)
  have i: "\<not> cp_root c \<Longrightarrow> include_cur_dir c \<longleftrightarrow> lead (cp_path c) = [CurDir]"
    using include_cur_dir_lead r by blast
  show "comps_inv (c\<lparr>cp_front := StBody, cp_path := drop 1 (cp_path c)\<rparr>) \<and>
           remaining c = (if cp_root c then RootDir else CurDir)
                         # remaining (c\<lparr>cp_front := StBody, cp_path := drop 1 (cp_path c)\<rparr>)"
    if "cp_root c \<or> include_cur_dir c"
  proof -
    from that r i have l: "lead (cp_path c) = [if cp_root c then RootDir else CurDir]" by auto
    show ?thesis
      using b e assms(3) r(1) body_comps_drop_lead [of "cp_path c"]
      by (elim disjE) (simp_all add: comps_inv_def remaining_def finished_def less_path_state_def path_state_num_def l)
  qed
  show "comps_inv (c\<lparr>cp_front := StBody\<rparr>) \<and> remaining (c\<lparr>cp_front := StBody\<rparr>) = remaining c"
    if "\<not> (cp_root c \<or> include_cur_dir c)"
  proof -
    from that r i have l: "lead (cp_path c) = []" by (cases rule: lead_cases [of "cp_path c"]) auto
    show ?thesis
      using b e assms(3) r(1)
      by (elim disjE) (simp_all add: comps_inv_def remaining_def finished_def less_path_state_def path_state_num_def l)
  qed
qed

lemma body_step:
  assumes "comps_inv c" "\<not> finished c" "cp_front c = StBody"
  shows "cp_back c = StBody"
    and "parse_next_component c = (sz, x) \<Longrightarrow> comps_inv (c\<lparr>cp_path := drop sz (cp_path c)\<rparr>)"
    and "parse_next_component c = (sz, x) \<Longrightarrow>
           remaining c = (case x of None \<Rightarrow> [] | Some y \<Rightarrow> [y]) @ remaining (c\<lparr>cp_path := drop sz (cp_path c)\<rparr>)"
    and "cp_path c = [] \<Longrightarrow> comps_inv (c\<lparr>cp_front := StDone\<rparr>) \<and> remaining (c\<lparr>cp_front := StDone\<rparr>) = remaining c"
proof -
  show b: "cp_back c = StBody"
    using assms(2,3) by (cases "cp_back c") (auto simp: finished_def less_path_state_def path_state_num_def)
  show "parse_next_component c = (sz, x) \<Longrightarrow> comps_inv (c\<lparr>cp_path := drop sz (cp_path c)\<rparr>)"
    using assms b by (simp add: comps_inv_def)
  show "parse_next_component c = (sz, x) \<Longrightarrow>
           remaining c = (case x of None \<Rightarrow> [] | Some y \<Rightarrow> [y]) @ remaining (c\<lparr>cp_path := drop sz (cp_path c)\<rparr>)"
    using assms(1,3) b parse_next_split [of c sz x] by (simp add: remaining_def finished_def comps_inv_prefix)
  show "cp_path c = [] \<Longrightarrow> comps_inv (c\<lparr>cp_front := StDone\<rparr>) \<and> remaining (c\<lparr>cp_front := StDone\<rparr>) = remaining c"
    using assms(1,3) b by (simp add: comps_inv_def remaining_def finished_def)
qed

lemma components_next_pops: "comps_inv c \<Longrightarrow> pops_front c (components_next c)"
proof (induction c rule: components_next.induct)
  case (1 c)
  note pre = comps_inv_prefix [OF 1(6)]
  show ?case
  proof (cases "finished c")
    case True
    then show ?thesis using 1(6) by (simp add: components_next_steps(1) pops_front_def remaining_def)
  next
    case nf: False
    show ?thesis
    proof (cases "cp_front c")
      case StPrefix
      then show ?thesis
        using pops_front_trans [OF 1(1)[OF nf StPrefix]] start_advance [OF 1(6) nf StPrefix] pre
        by (simp add: components_next_steps(2)[OF nf pre StPrefix])
    next
      case StStartDir
      show ?thesis
      proof (cases "cp_root c \<or> include_cur_dir c")
        case True
        then show ?thesis
          using start_leave(1)[OF 1(6) nf StStartDir True]
          by (auto simp: components_next_steps(3)[OF nf pre StStartDir] pops_front_def)
      next
        case False
        then show ?thesis
          using pops_front_trans [OF 1(2)[OF nf StStartDir refl]] start_leave(2)[OF 1(6) nf StStartDir] pre
          by (simp add: components_next_steps(3)[OF nf pre StStartDir])
      qed
    next
      case StBody
      obtain sz x where nx: "parse_next_component c = (sz, x)" by fastforce
      note bs = body_step [OF 1(6) nf StBody]
      show ?thesis
      proof (cases "cp_path c = []")
        case True
        then show ?thesis
          using pops_front_trans [OF 1(5)[OF nf StBody]] bs(4)
          by (simp add: components_next_steps(4)[OF nf StBody])
      next
        case False
        show ?thesis
        proof (cases x)
          case None
          then show ?thesis
            using pops_front_trans [OF 1(4)[OF nf StBody False nx [symmetric] refl]] bs(2,3)[OF nx]
            by (simp add: components_next_steps(5)[OF nf StBody False nx])
        next
          case (Some y)
          then show ?thesis
            using bs(2,3)[OF nx] by (simp add: components_next_steps(5)[OF nf StBody False nx] pops_front_def)
        qed
      qed
    next
      case StDone
      then show ?thesis using nf by (simp add: finished_def)
    qed
  qed
qed

lemma front_le_of_back:
  assumes "\<not> finished c" "cp_back c = StStartDir"
  shows "cp_front c \<le> StStartDir"
  using assms by (auto simp: finished_def)

lemma back_step:
  assumes "comps_inv c" "\<not> finished c" "cp_back c = StBody" "len_before_body c < length (cp_path c)"
    and "parse_next_component_back c = (sz, x)"
  defines "d \<equiv> c\<lparr>cp_path := take (length (cp_path c) - sz) (cp_path c)\<rparr>"
  shows "comps_inv d" "remaining c = remaining d @ (case x of None \<Rightarrow> [] | Some y \<Rightarrow> [y])"
proof -
  have cut: "body_comps (cp_path c) = body_comps (cp_path d) @ (case x of None \<Rightarrow> [] | Some y \<Rightarrow> [y])"
    and l: "cp_front c \<le> StStartDir \<longrightarrow> lead (cp_path d) = lead (cp_path c)"
    using back_cut [OF comps_inv_prefix [OF assms(1)] assms(5) len_before_body_lead [OF assms(1,3)] assms(4)]
    by (simp_all add: d_def)
  show "comps_inv d" using assms(1,3) l by (auto simp: comps_inv_def d_def)
  show "remaining c = remaining d @ (case x of None \<Rightarrow> [] | Some y \<Rightarrow> [y])"
    using assms(2,3) cut l by (simp add: remaining_def finished_def d_def)
qed

lemma back_leave_body:
  assumes "comps_inv c" "\<not> finished c" "cp_back c = StBody" "\<not> len_before_body c < length (cp_path c)"
  shows "comps_inv (c\<lparr>cp_back := StStartDir\<rparr>)" "remaining (c\<lparr>cp_back := StStartDir\<rparr>) = remaining c"
proof -
  have n: "length (cp_path c) \<le> (if cp_front c \<le> StStartDir then length (lead (cp_path c)) else 0)"
    using assms(4) len_before_body_lead [OF assms(1,3)] by simp
  then have b: "body_comps (cp_path c) = []"
    using body_comps_take_lead [of "cp_path c"] by (auto split: if_splits)
  show "comps_inv (c\<lparr>cp_back := StStartDir\<rparr>)" using assms(1,3) n by (auto simp: comps_inv_def)
  show "remaining (c\<lparr>cp_back := StStartDir\<rparr>) = remaining c"
    using assms(2,3) b by (cases "cp_front c") (simp_all add: remaining_def finished_def less_path_state_def
        path_state_num_def)
qed

lemma back_leave_start:
  assumes "comps_inv c" "\<not> finished c" "cp_back c = StStartDir"
  shows "cp_root c \<or> include_cur_dir c \<Longrightarrow>
           comps_inv (c\<lparr>cp_back := StPrefix, cp_path := take (length (cp_path c) - 1) (cp_path c)\<rparr>) \<and>
           remaining c = [if cp_root c then RootDir else CurDir] \<and>
           remaining (c\<lparr>cp_back := StPrefix, cp_path := take (length (cp_path c) - 1) (cp_path c)\<rparr>) = []"
    and "\<not> (cp_root c \<or> include_cur_dir c) \<Longrightarrow>
           comps_inv (c\<lparr>cp_back := StPrefix\<rparr>) \<and> remaining (c\<lparr>cp_back := StPrefix\<rparr>) = remaining c"
proof -
  note f = front_le_of_back [OF assms(2,3)]
  have r: "cp_prefix c = None" "cp_root c \<longleftrightarrow> lead (cp_path c) = [RootDir]"
    and e: "length (cp_path c) \<le> length (lead (cp_path c))" and nd: "cp_front c \<noteq> StDone"
    using assms(1,3) f by (auto simp: comps_inv_def)
  have i: "\<not> cp_root c \<Longrightarrow> include_cur_dir c \<longleftrightarrow> lead (cp_path c) = [CurDir]"
    using include_cur_dir_lead r by blast
  show "comps_inv (c\<lparr>cp_back := StPrefix, cp_path := take (length (cp_path c) - 1) (cp_path c)\<rparr>) \<and>
           remaining c = [if cp_root c then RootDir else CurDir] \<and>
           remaining (c\<lparr>cp_back := StPrefix, cp_path := take (length (cp_path c) - 1) (cp_path c)\<rparr>) = []"
    if "cp_root c \<or> include_cur_dir c"
  proof -
    from that r i have l: "lead (cp_path c) = [if cp_root c then RootDir else CurDir]" by auto
    show ?thesis using assms(2,3) f e nd r(1) by (simp add: comps_inv_def remaining_def l)
  qed
  show "comps_inv (c\<lparr>cp_back := StPrefix\<rparr>) \<and> remaining (c\<lparr>cp_back := StPrefix\<rparr>) = remaining c"
    if "\<not> (cp_root c \<or> include_cur_dir c)"
  proof -
    from that r i have l: "lead (cp_path c) = []" by (cases rule: lead_cases [of "cp_path c"]) auto
    show ?thesis using assms(2,3) f e nd r(1) by (simp add: comps_inv_def remaining_def l)
  qed
qed

lemma components_next_back_pops: "comps_inv c \<Longrightarrow> pops_back c (components_next_back c)"
proof (induction c rule: components_next_back.induct)
  case (1 c)
  note pre = comps_inv_prefix [OF 1(5)]
  show ?case
  proof (cases "finished c")
    case True
    then show ?thesis using 1(5) by (simp add: components_next_back_steps(1) pops_back_def remaining_def)
  next
    case nf: False
    show ?thesis
    proof (cases "cp_back c")
      case StPrefix
      then show ?thesis
        using 1(5) nf
        by (auto simp: components_next_back_steps(5)[OF nf pre StPrefix] pops_back_def remaining_def
            comps_inv_def finished_def)
    next
      case StStartDir
      show ?thesis
      proof (cases "cp_root c \<or> include_cur_dir c")
        case True
        then show ?thesis
          using back_leave_start(1)[OF 1(5) nf StStartDir True]
          by (auto simp: components_next_back_steps(4)[OF nf pre StStartDir] pops_back_def)
      next
        case False
        then show ?thesis
          using pops_back_trans [OF 1(1)[OF nf StStartDir refl]] back_leave_start(2)[OF 1(5) nf StStartDir] pre
          by (simp add: components_next_back_steps(4)[OF nf pre StStartDir])
      qed
    next
      case StBody
      obtain sz x where nx: "parse_next_component_back c = (sz, x)" by fastforce
      show ?thesis
      proof (cases "len_before_body c < length (cp_path c)")
        case False
        then show ?thesis
          using pops_back_trans [OF 1(4)[OF nf StBody]] back_leave_body [OF 1(5) nf StBody]
          by (simp add: components_next_back_steps(3)[OF nf StBody])
      next
        case True
        note bs = back_step [OF 1(5) nf StBody True nx]
        show ?thesis
        proof (cases x)
          case None
          then show ?thesis
            using pops_back_trans [OF 1(3)[OF nf StBody True nx [symmetric] refl]] bs
            by (simp add: components_next_back_steps(2)[OF nf StBody True nx])
        next
          case (Some y)
          then show ?thesis
            using bs by (simp add: components_next_back_steps(2)[OF nf StBody True nx] pops_back_def)
        qed
      qed
    next
      case StDone
      then show ?thesis using nf by (simp add: finished_def)
    qed
  qed
qed

subsection \<open>Double-ended iterators\<close>

text \<open>
  The contract of a double-ended iterator: its state stands for a list, and a step from either end
  pops that end. \<open>run_ends\<close> interleaves steps from the two ends, \<open>pop_ends\<close> does it on the list.
\<close>

primrec run_ends :: "(bool \<Rightarrow> 's \<Rightarrow> 'a option \<times> 's) \<Rightarrow> bool list \<Rightarrow> 's \<Rightarrow> 'a option list \<times> 's" where
  "run_ends step [] s = ([], s)"
| "run_ends step (rv # rvs) s =
     (let (x, s1) = step rv s; (xs, s2) = run_ends step rvs s1 in (x # xs, s2))"

primrec pop_ends :: "bool list \<Rightarrow> 'a list \<Rightarrow> 'a option list \<times> 'a list" where
  "pop_ends [] xs = ([], xs)"
| "pop_ends (rv # rvs) xs =
     (if xs = [] then (None # fst (pop_ends rvs []), [])
      else if rv then (Some (last xs) # fst (pop_ends rvs (butlast xs)), snd (pop_ends rvs (butlast xs)))
      else (Some (hd xs) # fst (pop_ends rvs (tl xs)), snd (pop_ends rvs (tl xs))))"

lemma pop_ends_Nil [simp]: "snd (pop_ends rvs []) = []"
  by (induction rvs) simp_all

definition ends :: "bool \<Rightarrow> 'a list \<Rightarrow> 'a list" where
  "ends rv xs = (if rv then rev xs else xs)"

locale double_ended =
  fixes inv :: "'s \<Rightarrow> bool" and rest :: "'s \<Rightarrow> 'a list" and step :: "bool \<Rightarrow> 's \<Rightarrow> 'a option \<times> 's"
  assumes step_empty: "inv s \<Longrightarrow> rest s = [] \<Longrightarrow> fst (step rv s) = None \<and> inv (snd (step rv s)) \<and> rest (snd (step rv s)) = []"
    and step_front: "inv s \<Longrightarrow> rest s = x # xs \<Longrightarrow>
          fst (step False s) = Some x \<and> inv (snd (step False s)) \<and> rest (snd (step False s)) = xs"
    and step_back: "inv s \<Longrightarrow> rest s = xs @ [x] \<Longrightarrow>
          fst (step True s) = Some x \<and> inv (snd (step True s)) \<and> rest (snd (step True s)) = xs"
begin

lemma step_pop:
  assumes "inv s"
  shows "inv (snd (step rv s))"
    "fst (step rv s) = (if rest s = [] then None else Some (if rv then last (rest s) else hd (rest s)))"
    "rest (snd (step rv s)) = (if rv then butlast (rest s) else tl (rest s))"
proof -
  have front: "rest s \<noteq> [] \<Longrightarrow> inv (snd (step False s)) \<and> fst (step False s) = Some (hd (rest s))
      \<and> rest (snd (step False s)) = tl (rest s)"
    using step_front [OF assms, of "hd (rest s)" "tl (rest s)"] by simp
  have last: "rest s \<noteq> [] \<Longrightarrow> inv (snd (step True s)) \<and> fst (step True s) = Some (last (rest s))
      \<and> rest (snd (step True s)) = butlast (rest s)"
    using step_back [OF assms, of "butlast (rest s)" "last (rest s)"] by simp
  show "inv (snd (step rv s))"
    "fst (step rv s) = (if rest s = [] then None else Some (if rv then last (rest s) else hd (rest s)))"
    "rest (snd (step rv s)) = (if rv then butlast (rest s) else tl (rest s))"
    using step_empty [OF assms] front last by (cases "rest s = []"; cases rv; simp)+
qed

lemma step_ends:
  assumes "inv s"
  shows "ends rv (rest s) = [] \<Longrightarrow> fst (step rv s) = None"
    and "ends rv (rest s) = x # xs \<Longrightarrow>
      fst (step rv s) = Some x \<and> inv (snd (step rv s)) \<and> ends rv (rest (snd (step rv s))) = xs"
  using step_empty [OF assms] step_front [OF assms] step_back [OF assms, of "rev xs" x]
  by (auto simp: ends_def rev_swap split: if_splits)

lemma run_ends_pop:
  "inv s \<Longrightarrow> fst (run_ends step rvs s) = fst (pop_ends rvs (rest s)) \<and>
     rest (snd (run_ends step rvs s)) = snd (pop_ends rvs (rest s)) \<and> inv (snd (run_ends step rvs s))"
proof (induction rvs arbitrary: s)
  case (Cons rv rvs)
  note sp = step_pop [OF Cons.prems, of rv]
  show ?case
    using Cons.IH [OF sp(1)] sp(2,3)
    by (cases "rest s = []"; cases rv) (simp_all add: Let_def case_prod_beta)
qed simp

end

interpretation path_ends: double_ended comps_inv remaining comps_step
proof
  fix c x xs rv
  assume c: "comps_inv c"
  note nx = components_next_pops [OF c] and bk = components_next_back_pops [OF c]
  show "remaining c = [] \<Longrightarrow>
      fst (comps_step rv c) = None \<and> comps_inv (snd (comps_step rv c)) \<and> remaining (snd (comps_step rv c)) = []"
    using nx bk by (auto simp: comps_step_def pops_front_def pops_back_def split: prod.splits option.splits)
  show "remaining c = x # xs \<Longrightarrow> fst (comps_step False c) = Some x \<and>
      comps_inv (snd (comps_step False c)) \<and> remaining (snd (comps_step False c)) = xs"
    using nx by (auto simp: comps_step_def pops_front_def split: prod.splits option.splits)
  show "remaining c = xs @ [x] \<Longrightarrow> fst (comps_step True c) = Some x \<and>
      comps_inv (snd (comps_step True c)) \<and> remaining (snd (comps_step True c)) = xs"
    using bk by (auto simp: comps_step_def pops_back_def split: prod.splits option.splits)
qed

text \<open>C19: The component iterator refines the list of the path's components: whatever the order in
  which \<open>next\<close> and \<open>next_back\<close> are called, each call returns what popping the first or the last
  component of that list returns, and \<open>None\<close> once it is empty.\<close>

theorem components_iterator_refines:
  "fst (run_ends comps_step rvs (path_components p)) = fst (pop_ends rvs (comps_of p)) \<and>
   remaining (snd (run_ends comps_step rvs (path_components p))) = snd (pop_ends rvs (comps_of p))"
  using path_ends.run_ends_pop [OF comps_inv_start] by (simp add: remaining_start)

subsection \<open>Matching and equality\<close>

lemma iter_after_ends:
  assumes "comps_inv c" "comps_inv d"
  shows "case iter_after rv c d of
        None \<Rightarrow> \<not> (\<exists>zs. ends rv (remaining c) = ends rv (remaining d) @ zs)
      | Some r \<Rightarrow> comps_inv r \<and> ends rv (remaining c) = ends rv (remaining d) @ ends rv (remaining r)"
  using assms
proof (induction rv c d rule: iter_after.induct)
  case (1 rv c d)
  obtain x c' y d' where st: "comps_step rv c = (x, c')" "comps_step rv d = (y, d')" by fastforce
  note ec = path_ends.step_ends [OF 1(2), of rv] and ed = path_ends.step_ends [OF 1(3), of rv]
  show ?case
  proof (cases "ends rv (remaining c)"; cases "ends rv (remaining d)")
    fix a as b bs
    assume c: "ends rv (remaining c) = a # as" and d: "ends rv (remaining d) = b # bs"
    have s: "x = Some a" "y = Some b" "comps_inv c'" "comps_inv d'"
      "ends rv (remaining c') = as" "ends rv (remaining d') = bs"
      using ec(2)[OF c] ed(2)[OF d] st by auto
    have n: "iter_after rv c d = (if a = b then iter_after rv c' d' else None)"
      by (simp add: iter_after.simps [of rv c d] st s(1,2))
    show ?thesis
    proof (cases "a = b")
      case True
      then show ?thesis
        using 1(1)[OF refl st(1)[symmetric] s(1) st(2)[symmetric] s(2) True s(3,4)]
        by (simp add: n c d s(5,6) split: option.splits)
    next
      case False
      then show ?thesis by (simp add: n c d)
    qed
  qed (use ec ed st 1(2) in \<open>auto simp: iter_after.simps [of rv c d] ends_def split: if_splits\<close>)
qed

lemma comps_eq_remaining: "comps_inv c \<Longrightarrow> comps_inv d \<Longrightarrow> comps_eq c d \<longleftrightarrow> remaining c = remaining d"
proof (induction c d rule: comps_eq.induct)
  case (1 c d)
  obtain x c' y d' where st: "components_next c = (x, c')" "components_next d = (y, d')" by fastforce
  have pc: "pops_front c (x, c')" "pops_front d (y, d')"
    using components_next_pops 1(2,3) st by metis+
  show ?case
  proof (cases x; cases y)
    fix a b
    assume xy: "x = Some a" "y = Some b"
    then show ?thesis
      using pc 1(1)[OF refl st(1)[symmetric] xy(1) st(2)[symmetric] xy(2)]
      by (simp add: comps_eq.simps [of c d] st pops_front_def)
  qed (use pc in \<open>simp_all add: comps_eq.simps [of c d] st pops_front_def\<close>)
qed

subsection \<open>What is left as a path\<close>

lemma trim_left_done:
  assumes "comps_inv c" "cp_front c = StBody" "cp_back c = StBody"
  shows "comps_inv (trim_left c) \<and> remaining (trim_left c) = remaining c
       \<and> cp_front (trim_left c) = StBody \<and> cp_back (trim_left c) = StBody \<and> lead (cp_path (trim_left c)) = []"
  using assms
proof (induction c rule: trim_left.induct)
  case (1 c)
  have nf: "\<not> finished c" using 1(3,4) by (simp add: finished_def)
  obtain sz x where nx: "parse_next_component c = (sz, x)" by fastforce
  note bs = body_step [OF 1(2) nf 1(3)]
  show ?case
  proof (cases "cp_path c = []")
    case True
    then show ?thesis using 1(2-4) by (simp add: trim_left.simps [of c])
  next
    case False
    show ?thesis
    proof (cases x)
      case None
      then show ?thesis
        using 1(1)[OF False nx [symmetric]] bs(2,3)[OF nx] 1(3,4) False nx
        by (simp add: trim_left.simps [of c])
    next
      case (Some y)
      have "lead (cp_path c) = []"
        using nx Some comps_inv_prefix [OF 1(2)]
        by (cases rule: lead_cases [of "cp_path c"])
          (auto simp: lead_root lead_cur parse_next_component_def parse_single_component_def)
      then show ?thesis using 1(2-4) False nx Some by (simp add: trim_left.simps [of c])
    qed
  qed
qed

lemma trim_right_done:
  assumes "comps_inv c" "cp_back c = StBody" "\<not> finished c"
  shows "comps_inv (trim_right c) \<and> remaining (trim_right c) = remaining c \<and> \<not> finished (trim_right c)
       \<and> cp_front (trim_right c) = cp_front c \<and> cp_back (trim_right c) = StBody
       \<and> (cp_front c = StBody \<longrightarrow> lead (cp_path c) = [] \<longrightarrow> lead (cp_path (trim_right c)) = [])
       \<and> (\<exists>n. cp_path (trim_right c) = take n (cp_path c))"
  using assms
proof (induction c rule: trim_right.induct)
  case (1 c)
  obtain sz x where nx: "parse_next_component_back c = (sz, x)" by fastforce
  let ?d = "c\<lparr>cp_path := take (length (cp_path c) - sz) (cp_path c)\<rparr>"
  show ?case
  proof (cases "len_before_body c < length (cp_path c) \<and> x = None")
    case False
    then show ?thesis using 1(2-4) nx by (auto simp: trim_right.simps [of c] intro: exI [of _ "length (cp_path c)"])
  next
    case True
    then have len: "len_before_body c < length (cp_path c)" and x: "x = None" by auto
    note bs = back_step [OF 1(2,4,3) len nx]
    have l: "lead (cp_path c) = [] \<longrightarrow> lead (cp_path ?d) = []" if "cp_front c = StBody"
      using back_cut [OF comps_inv_prefix [OF 1(2)] nx, of True] len_before_body_lead [OF 1(2,3)] that len by auto
    show ?thesis
      using 1(1)[of sz x] bs 1(3,4) len nx x l
      by (auto simp: trim_right.simps [of c] finished_def)
  qed
qed

lemma trim_empty: "cp_path c = [] \<Longrightarrow> trim_left c = c" "cp_path c = [] \<Longrightarrow> trim_right c = c"
  by (simp_all add: trim_left.simps [of c] trim_right.simps [of c])

lemma comps_of_Nil [simp]: "comps_of [] = []"
  by (simp add: comps_of_def)

lemma as_path_remaining:
  assumes inv: "comps_inv c"
  shows "comps_of (comps_as_path c) = remaining c"
proof (cases "cp_back c = StBody \<and> cp_front c \<noteq> StDone")
  case body: True
  then have b: "cp_back c = StBody" by simp
  show ?thesis
  proof (cases "cp_front c = StBody")
    case True
    let ?d = "trim_left c"
    have l: "comps_inv ?d" "remaining ?d = remaining c" "cp_front ?d = StBody" "cp_back ?d = StBody" "lead (cp_path ?d) = []"
      using trim_left_done [OF inv True b] by auto
    have nf: "\<not> finished ?d" using l(3,4) by (simp add: finished_def)
    have "remaining (trim_right ?d) = remaining c" "cp_front (trim_right ?d) = StBody"
      "cp_back (trim_right ?d) = StBody" "lead (cp_path (trim_right ?d)) = []" "\<not> finished (trim_right ?d)"
      using trim_right_done [OF l(1,4) nf] l by auto
    then show ?thesis
      using True l(4) by (simp add: comps_as_path_def Let_def comps_of_def remaining_def)
  next
    case False
    then have f: "cp_front c \<le> StStartDir"
      using body by (cases "cp_front c") simp_all
    then have nf: "\<not> finished c"
      using b by (cases "cp_front c") (simp_all add: finished_def less_path_state_def path_state_num_def)
    have "remaining (trim_right c) = remaining c" "cp_front (trim_right c) = cp_front c"
      "cp_back (trim_right c) = StBody" "\<not> finished (trim_right c)"
      using trim_right_done [OF inv b nf] by auto
    then show ?thesis
      using False b f by (simp add: comps_as_path_def Let_def comps_of_def remaining_def)
  qed
next
  case False
  show ?thesis
  proof (cases "cp_path c = []")
    case True
    then show ?thesis by (simp add: comps_as_path_def Let_def trim_empty remaining_def)
  next
    case ne: False
    then have f: "cp_front c \<le> StStartDir" "cp_back c = StStartDir" "length (cp_path c) \<le> length (lead (cp_path c))"
      using inv False by (auto simp: comps_inv_def split: if_splits)
    then have "\<not> finished c" "cp_front c \<noteq> StBody"
      by (cases "cp_front c"; simp add: finished_def less_path_state_def path_state_num_def)+
    then show ?thesis
      using f body_comps_take_lead [of "cp_path c"]
      by (simp add: comps_as_path_def Let_def comps_of_def remaining_def)
  qed
qed

lemma as_path_take:
  assumes "comps_inv c" "cp_front c = StPrefix"
  shows "\<exists>n. comps_as_path c = take n (cp_path c)"
proof (cases "cp_back c = StBody")
  case True
  then have "\<not> finished c" using assms(2) by (simp add: finished_def)
  then show ?thesis
    using trim_right_done [OF assms(1) True] assms(2) True by (simp add: comps_as_path_def Let_def)
next
  case False
  then show ?thesis using assms(2) by (auto simp: comps_as_path_def Let_def intro: exI [of _ "length (cp_path c)"])
qed

text \<open>\<open>strip_prefix\<close> succeeds exactly when the components of the base are the first ones of the
  path, and what it returns is a path with the other components.\<close>

theorem strip_prefix_components:
  "case strip_prefix p base of
     None \<Rightarrow> (\<nexists>cs. comps_of p = comps_of base @ cs)
   | Some r \<Rightarrow> comps_of p = comps_of base @ comps_of r"
  using iter_after_ends [OF comps_inv_start [of p] comps_inv_start [of base], of False]
  by (auto simp: strip_prefix_def remaining_start ends_def as_path_remaining split: option.splits)

lemma starts_with_components: "starts_with p base \<longleftrightarrow> (\<exists>cs. comps_of p = comps_of base @ cs)"
  using iter_after_ends [OF comps_inv_start [of p] comps_inv_start [of base], of False]
  by (auto simp: starts_with_def remaining_start ends_def split: option.splits)

lemma ends_with_components: "ends_with p child \<longleftrightarrow> (\<exists>cs. comps_of p = cs @ comps_of child)"
proof -
  have "(\<exists>cs. comps_of p = cs @ comps_of child) \<longleftrightarrow> (\<exists>zs. rev (comps_of p) = rev (comps_of child) @ zs)"
    by (metis rev_append rev_rev_ident)
  then show ?thesis
    using iter_after_ends [OF comps_inv_start [of p] comps_inv_start [of child], of True]
    by (auto simp: ends_with_def remaining_start ends_def split: option.splits)
qed

lemma path_eq_components: "path_eq p q \<longleftrightarrow> comps_of p = comps_of q"
  by (simp add: path_eq_def comps_eq_remaining comps_inv_start remaining_start)

subsection \<open>The last component\<close>

definition cuts_back :: "components \<Rightarrow> components \<Rightarrow> bool" where
  "cuts_back c d \<longleftrightarrow> cp_front d = cp_front c \<and> (\<exists>n. cp_path d = take n (cp_path c))"

lemma cuts_back_refl: "cp_front d = cp_front c \<Longrightarrow> cp_path d = cp_path c \<Longrightarrow> cuts_back c d"
  by (auto simp: cuts_back_def intro: exI [of _ "length (cp_path c)"])

lemma cuts_back_take: "cp_front d = cp_front c \<Longrightarrow> cp_path d = take n (cp_path c) \<Longrightarrow> cuts_back c d"
  by (auto simp: cuts_back_def)

lemma cuts_back_trans: "cuts_back c d \<Longrightarrow> cuts_back d e \<Longrightarrow> cuts_back c e"
  by (auto simp: cuts_back_def)

lemma next_back_cuts: "cp_prefix c = None \<Longrightarrow> cuts_back c (snd (components_next_back c))"
proof (induction c rule: components_next_back.induct)
  case (1 c)
  note pre = 1(5)
  show ?case
  proof (cases "finished c")
    case True
    then show ?thesis by (simp add: components_next_back_steps(1) cuts_back_refl)
  next
    case nf: False
    show ?thesis
    proof (cases "cp_back c")
      case StPrefix
      then show ?thesis by (simp add: components_next_back_steps(5)[OF nf pre StPrefix] cuts_back_refl)
    next
      case StStartDir
      then show ?thesis
        using cuts_back_trans [OF _ 1(1)[OF nf StStartDir refl], of c]  pre
        by (simp add: components_next_back_steps(4)[OF nf pre StStartDir] cuts_back_refl
            cuts_back_take [where n = "length (cp_path c) - Suc 0"])
    next
      case StBody
      obtain sz x where nx: "parse_next_component_back c = (sz, x)" by fastforce
      have t: "cuts_back c (c\<lparr>cp_path := take (length (cp_path c) - sz) (cp_path c)\<rparr>)"
        by (simp add: cuts_back_take [where n = "length (cp_path c) - sz"])
      show ?thesis
      proof (cases "len_before_body c < length (cp_path c)")
        case True
        then show ?thesis
          using cuts_back_trans [OF t 1(3)[OF nf StBody True nx [symmetric] refl]] t pre
          by (simp add: components_next_back_steps(2)[OF nf StBody True nx])
      next
        case False
        then show ?thesis
          using cuts_back_trans [OF _ 1(4)[OF nf StBody False], of c] pre
          by (simp add: components_next_back_steps(3)[OF nf StBody False] cuts_back_refl)
      qed
    next
      case StDone
      then show ?thesis using nf by (simp add: finished_def)
    qed
  qed
qed

lemma next_back_start:
  "(comps_of p = [] \<and> fst (components_next_back (path_components p)) = None) \<or>
   (\<exists>x d. components_next_back (path_components p) = (Some x, d) \<and> comps_of p = comps_of (comps_as_path d) @ [x] \<and>
      (\<exists>n. comps_as_path d = take n p))"
proof -
  obtain x d where st: "components_next_back (path_components p) = (x, d)" by fastforce
  have pb: "pops_back (path_components p) (x, d)"
    using components_next_back_pops [OF comps_inv_start] st by metis
  have cb: "cp_front d = StPrefix" "\<exists>n. cp_path d = take n p"
    using next_back_cuts [of "path_components p"] st by (auto simp: cuts_back_def)
  show ?thesis
  proof (cases x)
    case None
    then show ?thesis using pb st by (simp add: pops_back_def remaining_start)
  next
    case (Some y)
    then have "comps_inv d" using pb by (simp add: pops_back_def)
    with as_path_take [OF this cb(1)] cb(2) have "\<exists>n. comps_as_path d = take n p" by auto
    then show ?thesis using Some pb st by (simp add: pops_back_def remaining_start as_path_remaining)
  qed
qed

lemma body_comps_kinds: "x \<in> set (body_comps p) \<Longrightarrow> x = ParentDir \<or> (\<exists>n. x = Normal n)"
  by (auto simp: body_comps_def segment_def split: if_splits)

lemma comps_of_last_kinds:
  assumes "comps_of p = xs @ [x]"
  shows "x = RootDir \<and> xs = [] \<or> x = CurDir \<and> xs = [] \<or> x = ParentDir \<or> (\<exists>n. x = Normal n)"
proof (cases "body_comps p = []")
  case True
  then show ?thesis using assms by (cases rule: lead_cases [of p]) (auto simp: comps_of_def)
next
  case False
  then have "x \<in> set (body_comps p)" using assms by (metis comps_of_def last_appendR last_in_set last_snoc)
  then show ?thesis using body_comps_kinds by blast
qed

lemma parent_components:
  "case parent p of
     None \<Rightarrow> comps_of p = [] \<or> comps_of p = [RootDir]
   | Some q \<Rightarrow> comps_of p \<notin> {[], [RootDir]} \<and> comps_of q = butlast (comps_of p) \<and> (\<exists>n. q = take n p)"
  using next_back_start [of p]
proof (elim disjE conjE exE)
  fix x d n
  assume st: "components_next_back (path_components p) = (Some x, d)"
    and co: "comps_of p = comps_of (comps_as_path d) @ [x]" and n: "comps_as_path d = take n p"
  from comps_of_last_kinds [OF co] show ?thesis
    by (elim disjE exE conjE) (simp_all add: parent_def st co, auto simp: n)
qed (auto simp: parent_def split: prod.splits)

lemma file_name_components:
  "file_name p = (case rev (comps_of p) of Normal n # _ \<Rightarrow> Some n | _ \<Rightarrow> None)"
  using next_back_start [of p]
  by (auto simp: file_name_def split: component.splits)

lemma path_pop_body:
  "fst (path_pop p) = (comps_of p \<notin> {[], [RootDir]}) \<and>
   comps_of (snd (path_pop p)) = (if fst (path_pop p) then butlast (comps_of p) else comps_of p) \<and>
   (\<exists>n. snd (path_pop p) = take n p)"
proof (cases "parent p")
  case None
  then show ?thesis
    using parent_components [of p] by (auto simp: path_pop_def intro: exI [of _ "length p"])
next
  case (Some q)
  then obtain n where n: "q = take n p" and "comps_of q = butlast (comps_of p)" "comps_of p \<notin> {[], [RootDir]}"
    using parent_components [of p] by auto
  moreover have "take (length q) p = q" using n by (simp add: min_def)
  ultimately show ?thesis using Some by (auto simp: path_pop_def)
qed

text \<open>C21: \<open>pop\<close> removes the last component and only cuts bytes off the end; it reports false, and
  leaves the path alone, exactly when there is nothing above it: no component, or only the root.\<close>

theorem path_pop_components:
  "fst (path_pop p) = (comps_of p \<notin> {[], [RootDir]}) \<and>
   comps_of (snd (path_pop p)) = (if fst (path_pop p) then butlast (comps_of p) else comps_of p) \<and>
   (\<exists>n. snd (path_pop p) = take n p)"
  by (rule path_pop_body)

lemma is_absolute_lead: "is_absolute p \<longleftrightarrow> lead p = [RootDir]" "has_root p \<longleftrightarrow> lead p = [RootDir]"
  by (simp_all add: is_absolute_def has_root_def cfg_redox_def cfg_unix_def)

lemma path_push_eq:
  "path_push p q =
     (if lead q = [RootDir] then q else if p = [] \<or> last p = 47 then p @ q else p @ 47 # q)"
  by (auto simp: path_push_def Let_def is_absolute_lead path_prefix_def MAIN_SEP_STR_def is_sep_byte_def)

lemma path_push_body:
  "comps_of (path_push p q) =
     (if is_absolute q \<or> p = [] then comps_of q else comps_of p @ body_comps q)"
proof (cases "lead q = [RootDir] \<or> p = []")
  case True
  then show ?thesis by (auto simp: path_push_eq is_absolute_lead)
next
  case False
  show ?thesis
  proof (cases "last p = 47")
    case True
    then obtain x where "p = x @ [47]" using False by (metis append_butlast_last_id)
    then show ?thesis
      using False body_comps_append_sep [of x "[]"]
      by (simp add: path_push_eq is_absolute_lead comps_of_def body_comps_append_sep lead_append)
  next
    case last: False
    then show ?thesis
      using False by (simp add: path_push_eq is_absolute_lead comps_of_def body_comps_append_sep lead_append)
  qed
qed

text \<open>Pushing an absolute path, or pushing onto the empty path, gives the pushed path; any other
  push appends the components of the pushed path, a leading \<open>.\<close> apart.\<close>

theorem path_push_components:
  "comps_of (path_push p q) =
     (if is_absolute q \<or> p = [] then comps_of q else comps_of p @ body_comps q)"
  by (rule path_push_body)

end
