(* ===== verification/ShellPath.thy ===== *)
theory ShellPath
  imports PathSpec
begin

text \<open>
  How the shell resolves paths, \<open>kernel/src/shell.rs\<close>: \<open>Reset\<close> and \<open>CanonicalJoin\<close> for path
  buffers, and the working directory they keep canonical: absolute, and without \<open>.\<close>, \<open>..\<close> or
  repeated separators.
\<close>

record path_error =
  pe_path :: os_str
  pe_message :: string

lemma path_pop_shorter: "fst (path_pop p) \<Longrightarrow> length (snd (path_pop p)) < length p"
proof -
  assume f: "fst (path_pop p)"
  obtain n where n: "snd (path_pop p) = take n p" and c: "comps_of (snd (path_pop p)) = butlast (comps_of p)"
    and "comps_of p \<noteq> []"
    using path_pop_body [of p] f by auto
  then have "butlast (comps_of p) \<noteq> comps_of p"
    by (metis append_butlast_last_id not_Cons_self2 self_append_conv)
  with c have "take n p \<noteq> p" unfolding n by metis
  then show ?thesis by (auto simp: n not_le)
qed

function reset :: "os_str \<Rightarrow> os_str" where
  "reset p = (case path_pop p of (popped, q) \<Rightarrow> if popped then reset q else q)"
  by pat_completeness auto

termination
  using path_pop_shorter by (relation "measure length") (auto, metis fst_conv snd_conv)

declare reset.simps [simp del]

text \<open>
  The loop over the components of \<open>other\<close>; \<open>dbg\<close> is the text that \<open>{:?}\<close> prints for a prefix
  component, which no path of this platform has.
\<close>

function canonical_join_loop ::
  "(os_str \<Rightarrow> prefix \<Rightarrow> string) \<Rightarrow> os_str \<Rightarrow> components \<Rightarrow> os_str \<Rightarrow> path_error + os_str" where
  "canonical_join_loop dbg other comps pathbuf =
     (case components_next comps of
        (None, _) \<Rightarrow> Inr pathbuf
      | (Some component, comps) \<Rightarrow>
          (case component of
             Prefix raw parsed \<Rightarrow> Inl \<lparr>pe_path = other, pe_message = ''prefix not supported: '' @ dbg raw parsed\<rparr>
           | RootDir \<Rightarrow> canonical_join_loop dbg other comps (reset pathbuf)
           | ParentDir \<Rightarrow>
               if parent pathbuf = None then Inl \<lparr>pe_path = other, pe_message = ''invalid target directory''\<rparr>
               else canonical_join_loop dbg other comps (snd (path_pop pathbuf))
           | CurDir \<Rightarrow> canonical_join_loop dbg other comps pathbuf
           | Normal normal \<Rightarrow> canonical_join_loop dbg other comps (path_push pathbuf normal)))"
  by pat_completeness auto

termination
  by (relation "measure (\<lambda>(dbg, other, comps, pathbuf). comps_weight comps)")
    (auto dest: components_next_less [OF sym])

declare canonical_join_loop.simps [simp del]

definition canonical_join :: "(os_str \<Rightarrow> prefix \<Rightarrow> string) \<Rightarrow> os_str \<Rightarrow> os_str \<Rightarrow> path_error + os_str" where
  "canonical_join dbg self other = canonical_join_loop dbg other (path_components other) self"

subsection \<open>Canonical absolute paths\<close>

definition dir_name :: "os_str \<Rightarrow> bool" where
  "dir_name n \<longleftrightarrow> n \<noteq> [] \<and> 47 \<notin> set n \<and> n \<noteq> [46] \<and> n \<noteq> [46, 46]"

definition render :: "os_str list \<Rightarrow> os_str" where
  "render ns = (if ns = [] then [47] else concat (map (\<lambda>n. 47 # n) ns))"

text \<open>What following the components means for the names from the root: \<open>None\<close> above the root.\<close>

fun walk :: "os_str list \<Rightarrow> component list \<Rightarrow> os_str list option" where
  "walk ns [] = Some ns"
| "walk ns (RootDir # cs) = walk [] cs"
| "walk ns (CurDir # cs) = walk ns cs"
| "walk ns (ParentDir # cs) = (if ns = [] then None else walk (butlast ns) cs)"
| "walk ns (Normal n # cs) = walk (ns @ [n]) cs"
| "walk ns (Prefix _ _ # cs) = None"

lemma render_simps:
  "render [] = [47]" "render [n] = 47 # n" "ns \<noteq> [] \<Longrightarrow> render (ns @ [n]) = render ns @ 47 # n"
  by (simp_all add: render_def)

lemma render_not_Nil [simp]: "render ns \<noteq> []"
  by (cases ns) (auto simp: render_def)

lemma render_lead [simp]: "lead (render ns) = [RootDir]"
  by (cases ns) (auto simp: render_def)

lemma render_last:
  assumes "\<forall>n\<in>set ns. dir_name n" and "ns \<noteq> []"
  shows "last (render ns) \<noteq> 47" and "1 < length (render ns)"
proof -
  obtain ms m where ns: "ns = ms @ [m]" using assms(2) by (metis append_butlast_last_id)
  then have "m \<noteq> []" "47 \<notin> set m" using assms(1) by (auto simp: dir_name_def)
  moreover from this have "last m \<noteq> 47" by (metis last_in_set)
  ultimately show "last (render ns) \<noteq> 47" "1 < length (render ns)"
    by (auto simp: ns render_def)
qed

lemma push_render:
  assumes "\<forall>n\<in>set ns. dir_name n" and "dir_name n"
  shows "path_push (render ns) n = render (ns @ [n])"
proof -
  have "lead n \<noteq> [RootDir]" using assms(2) by (auto simp: lead_root dir_name_def)
  then show ?thesis
    using render_last(1)[OF assms(1)] by (cases "ns = []") (auto simp: path_push_eq render_simps)
qed

subsection \<open>Going up\<close>

text \<open>The iterator over a rendered path, seen from the back.\<close>

definition at_render :: "os_str list \<Rightarrow> components" where
  "at_render ns = \<lparr>cp_path = render ns, cp_prefix = None, cp_root = True, cp_front = StPrefix, cp_back = StBody\<rparr>"

lemma at_render_sel [simp]:
  "cp_path (at_render ns) = render ns" "cp_prefix (at_render ns) = None" "cp_root (at_render ns)"
  "cp_front (at_render ns) = StPrefix" "cp_back (at_render ns) = StBody"
  "(at_render ns)\<lparr>cp_path := render ms\<rparr> = at_render ms"
  by (simp_all add: at_render_def)

lemma path_components_render: "path_components (render ns) = at_render ns"
  by (rule components.equality) simp_all

lemma at_render_start: "len_before_body (at_render ns) = 1" "\<not> finished (at_render ns)"
  by (simp_all add: at_render_def len_before_body_def include_cur_dir_def comps_has_root_def
      prefix_remaining_def prefix_len_def finished_def)

lemma parse_back_render:
  assumes "dir_name n"
  shows "\<exists>sz. parse_next_component_back (at_render (ns @ [n])) = (sz, Some (Normal n)) \<and>
    take (length (render (ns @ [n])) - sz) (render (ns @ [n])) = render ns"
proof -
  let ?c = "at_render (ns @ [n])"
  have sep: "comps_is_sep ?c = (\<lambda>b. b = 47)" by simp
  have single: "parse_single_component ?c n = Some (Normal n)"
    using assms by (simp add: parse_single_component_def dir_name_def)
  have n: "\<forall>b\<in>set n. b \<noteq> 47" using assms by (auto simp: dir_name_def)
  show ?thesis
  proof (cases "ns = []")
    case True
    then have "rposition (\<lambda>b. b = 47) (drop 1 (cp_path ?c)) = None"
      using n by (simp add: rposition_None_iff render_simps)
    then show ?thesis
      using True single by (simp add: parse_next_component_back_def Let_def at_render_start sep render_simps)
  next
    case False
    obtain r where r: "render ns = 47 # r" using render_lead [of ns, unfolded lead_root] by blast
    have "rposition (\<lambda>b. b = 47) (drop 1 (cp_path ?c)) = Some (length r)"
      using False n r rposition_append [of n _ 47 r] by (simp add: render_simps)
    then show ?thesis
      using False single r
      by (simp add: parse_next_component_back_def Let_def at_render_start sep render_simps)
  qed
qed

lemma trim_render:
  assumes "\<forall>n\<in>set ns. dir_name n"
  shows "trim_right (at_render ns) = at_render ns"
proof (cases "ns = []")
  case True
  then show ?thesis by (simp add: trim_right.simps at_render_start) (simp add: render_simps)
next
  case False
  then obtain ms m where ns: "ns = ms @ [m]" by (metis append_butlast_last_id)
  then have "dir_name m" using assms by simp
  then show ?thesis
    using parse_back_render [of m ms] by (auto simp: ns trim_right.simps [of "at_render (ms @ [m])"])
qed

lemma next_back_render:
  assumes "\<forall>n\<in>set ns. dir_name n" and "dir_name n"
  shows "components_next_back (at_render (ns @ [n])) = (Some (Normal n), at_render ns)"
proof -
  let ?c = "at_render (ns @ [n])"
  obtain sz where p: "parse_next_component_back ?c = (sz, Some (Normal n))"
    "take (length (render (ns @ [n])) - sz) (render (ns @ [n])) = render ns"
    using parse_back_render [OF assms(2)] by blast
  have "len_before_body ?c < length (cp_path ?c)"
    using render_last(2)[of "ns @ [n]"] assms by (simp add: at_render_start)
  from components_next_back_steps(2)[OF at_render_start(2) _ this p(1)] p(2)
  show ?thesis by simp
qed

lemma parent_render:
  assumes "\<forall>n\<in>set ns. dir_name n"
  shows "parent (render ns) = (if ns = [] then None else Some (render (butlast ns)))"
proof (cases "ns = []")
  case True
  then show ?thesis
    using parent_components [of "[47]"] by (auto simp: render_simps comps_of_def split: option.splits)
next
  case False
  then obtain ms m where ns: "ns = ms @ [m]" by (metis append_butlast_last_id)
  with assms have m: "\<forall>n\<in>set ms. dir_name n" "dir_name m" by auto
  have "comps_as_path (at_render ms) = render ms"
    using trim_render [OF m(1)] by (simp add: comps_as_path_def Let_def)
  then show ?thesis
    using next_back_render [OF m] by (simp add: ns parent_def path_components_render)
qed

lemma pop_render:
  assumes "\<forall>n\<in>set ns. dir_name n"
  shows "path_pop (render ns) = (ns \<noteq> [], render (butlast ns))"
proof (cases "ns = []")
  case False
  then obtain ms m where ns: "ns = ms @ [m]" by (metis append_butlast_last_id)
  then have "take (length (render ms)) (render ns) = render ms"
    by (cases "ms = []") (simp_all add: render_simps)
  then show ?thesis using parent_render [OF assms] by (simp add: path_pop_def ns)
qed (use parent_render [OF assms] in \<open>simp add: path_pop_def\<close>)

lemma reset_render: "\<forall>n\<in>set ns. dir_name n \<Longrightarrow> reset (render ns) = render []"
proof (induction ns rule: rev_induct)
  case (snoc n ns)
  then show ?case using pop_render [of "ns @ [n]"] by (simp add: reset.simps [of "render (ns @ [n])"])
qed (use pop_render [of "[]"] in \<open>simp add: reset.simps [of "render []"]\<close>)

subsection \<open>Joining\<close>

lemma comps_of_names:
  assumes "Normal n \<in> set (comps_of p)"
  shows "dir_name n"
proof -
  have seg: "s \<in> set (segs p) \<Longrightarrow> 47 \<notin> set s" for s
    by (induction p arbitrary: s) (auto split: if_splits dest: list.set_sel(2)[OF segs_nonempty])
  have "Normal n \<in> set (body_comps p)"
    using assms by (cases rule: lead_cases [of p]) (auto simp: comps_of_def)
  then show ?thesis using seg by (auto simp: body_comps_def segment_def dir_name_def split: if_splits)
qed

lemma comps_of_no_prefix: "Prefix raw parsed \<notin> set (comps_of p)"
  using body_comps_kinds [of "Prefix raw parsed" p]
  by (cases rule: lead_cases [of p]) (auto simp: comps_of_def)

lemma canonical_join_walk:
  assumes "comps_inv c" and "\<forall>n\<in>set ns. dir_name n" and "\<forall>n. Normal n \<in> set (remaining c) \<longrightarrow> dir_name n"
    and "\<forall>raw parsed. Prefix raw parsed \<notin> set (remaining c)"
  shows "canonical_join_loop dbg other c (render ns) =
    (case walk ns (remaining c) of
       None \<Rightarrow> Inl \<lparr>pe_path = other, pe_message = ''invalid target directory''\<rparr>
     | Some ms \<Rightarrow> Inr (render ms))"
  using assms
proof (induction "remaining c" arbitrary: c ns)
  case Nil
  then show ?case
    using path_ends.step_empty [of c False]
    by (auto simp: comps_step_def canonical_join_loop.simps [of dbg other c] split: prod.splits)
next
  case (Cons x cs)
  obtain d where d: "components_next c = (Some x, d)" "comps_inv d" "remaining d = cs"
    using path_ends.step_front [OF Cons.prems(1) Cons.hyps(2)[symmetric]]
    by (cases "components_next c") (auto simp: comps_step_def)
  have x: "\<And>n. x = Normal n \<Longrightarrow> dir_name n" "\<And>raw parsed. x \<noteq> Prefix raw parsed"
    using Cons.prems(3,4) Cons.hyps(2) by (metis list.set_intros(1))+
  have rest: "\<forall>n. Normal n \<in> set (remaining d) \<longrightarrow> dir_name n" "\<forall>raw parsed. Prefix raw parsed \<notin> set (remaining d)"
    using Cons.prems(3,4) Cons.hyps(2) d(3) by (metis list.set_intros(2))+
  note ih = Cons.hyps(1)[OF d(3)[symmetric] d(2) _ rest, unfolded d(3)]
  note rc = Cons.hyps(2)[symmetric] and ns = Cons.prems(2)
  have up: "\<forall>n\<in>set (butlast ns). dir_name n" using ns by (meson in_set_butlastD)
  show ?case
  proof (cases x)
    case (Prefix raw parsed)
    then show ?thesis using x(2) by blast
  next
    case RootDir
    then show ?thesis
      using ih [of "[]"] by (simp add: canonical_join_loop.simps [of dbg other c] d(1) rc reset_render [OF ns])
  next
    case CurDir
    then show ?thesis using ih [OF ns] by (simp add: canonical_join_loop.simps [of dbg other c] d(1) rc)
  next
    case ParentDir
    then show ?thesis
      using ih [OF up]
      by (simp add: canonical_join_loop.simps [of dbg other c] d(1) rc parent_render [OF ns] pop_render [OF ns])
  next
    case (Normal n)
    then show ?thesis
      using ih [of "ns @ [n]"] ns x(1)[OF Normal]
      by (simp add: canonical_join_loop.simps [of dbg other c] d(1) rc push_render)
  qed
qed

lemma walk_names:
  "walk ns cs = Some ms \<Longrightarrow> \<forall>n\<in>set ns. dir_name n \<Longrightarrow> \<forall>n. Normal n \<in> set cs \<longrightarrow> dir_name n \<Longrightarrow> \<forall>n\<in>set ms. dir_name n"
  by (induction ns cs rule: walk.induct) (auto split: if_splits dest: in_set_butlastD)

text \<open>C34: From a canonical working directory, \<open>canonical_join\<close> walks the components of the other path:
  it reports the path exactly when the walk leaves the root upwards, and otherwise returns the
  canonical absolute path of the directory reached, byte for byte.\<close>

theorem canonical_join_canonical:
  assumes "\<forall>n\<in>set ns. dir_name n"
  shows "case walk ns (comps_of other) of
      None \<Rightarrow> canonical_join dbg (render ns) other = Inl \<lparr>pe_path = other, pe_message = ''invalid target directory''\<rparr>
    | Some ms \<Rightarrow> canonical_join dbg (render ns) other = Inr (render ms) \<and> (\<forall>n\<in>set ms. dir_name n)"
  using canonical_join_walk [OF comps_inv_start [of other] assms] comps_of_names comps_of_no_prefix
    walk_names [of ns "comps_of other"] assms
  by (auto simp: canonical_join_def remaining_start split: option.splits)

theorem canonical_join_canonical_witness:
  "canonical_join (\<lambda>_ _. []) (render [[97]]) [46, 46, 47, 98] = Inr (render [[98]]) \<and>
   canonical_join (\<lambda>_ _. []) (render []) [46, 46] = Inl \<lparr>pe_path = [46, 46], pe_message = ''invalid target directory''\<rparr>"
proof
  have "comps_of [46, 46, 47, 98] = [ParentDir, Normal [98]]" "comps_of [46, 46] = [ParentDir]"
    by (simp_all add: comps_of_def lead_def body_comps_def segment_def)
  then show "canonical_join (\<lambda>_ _. []) (render [[97]]) [46, 46, 47, 98] = Inr (render [[98]])"
    "canonical_join (\<lambda>_ _. []) (render []) [46, 46] = Inl \<lparr>pe_path = [46, 46], pe_message = ''invalid target directory''\<rparr>"
    using canonical_join_canonical [where ns = "[[97]]" and other = "[46, 46, 47, 98]" and dbg = "\<lambda>_ _. []"]
      canonical_join_canonical [where ns = "[]" and other = "[46, 46]" and dbg = "\<lambda>_ _. []"]
    by (simp_all add: dir_name_def)
qed

end
