(* ===== verification/Shell.thy ===== *)
theory Shell
  imports Console ShellPath IoBuffered Traps
begin

text \<open>
  The shell, \<open>kernel/src/shell.rs\<close>: line editing on the console, parsing of commands, the commands, and
  the read-evaluate-print loop. Not part of the repository, and therefore arguments, are the
  \<open>StackVec\<close> of the line and of the arguments, and the directories, files and entries of the FAT32 crate; the system
  call that the sleep command makes is an argument too. The machine is the console and the rest of the system, \<open>'d\<close>.
\<close>

subsection \<open>Errors\<close>

datatype shell_error =
    Empty
  | TooManyArgs
  | InvalidArgs string
  | LineTooLong
  | UnknownCommand os_str
  | InvalidUtf8
  | Io io_error
  | PathError path_error
  | Syscall syscall_error

text \<open>\<open>Display\<close>: the text of an error. An I/O error is shown by \<open>std/src/io/error.rs\<close>.\<close>

definition io_error_text :: "io_error \<Rightarrow> string outcome" where
  "io_error_text e =
     (case e of
        Os code \<Rightarrow> Inr (error_string code @ '' (os error '' @ show_i32 code @ '')'')
      | Custom c \<Rightarrow> Inr (cu_error c)
      | Simple k \<Rightarrow> as_str k)"

definition path_display :: "os_str \<Rightarrow> u8 list" where
  "path_display p = utf8_lossy p"

definition shell_error_text :: "shell_error \<Rightarrow> (u8 list) outcome" where
  "shell_error_text e =
     (case e of
        Empty \<Rightarrow> Inr (bytes_of ''empty command'')
      | TooManyArgs \<Rightarrow> Inr (bytes_of ''too many arguments'')
      | InvalidArgs message \<Rightarrow> Inr (bytes_of (''invalid arguments -- '' @ message))
      | LineTooLong \<Rightarrow> Inr (bytes_of ''line too long'')
      | UnknownCommand command \<Rightarrow> Inr (bytes_of ''unknown command -- '' @ command)
      | InvalidUtf8 \<Rightarrow> Inr (bytes_of ''invalid utf8'')
      | Io error \<Rightarrow> and_then (io_error_text error) (\<lambda>t. Inr (bytes_of t))
      | PathError p \<Rightarrow> Inr (path_display (pe_path p) @ bytes_of ('': '' @ pe_message p))
      | Syscall error \<Rightarrow> Inr (bytes_of ''syscall: Error''))"

subsection \<open>Stack vectors\<close>

text \<open>
  \<open>StackVec\<close>, a vector over a borrowed array. \<open>sv_storage\<close> is the borrowed array, which the borrower
  reads again when the vector is gone.
\<close>

record ('t, 's) stack_vec =
  sv_new :: "'t list \<Rightarrow> 's"
  sv_push :: "'t \<Rightarrow> 's \<Rightarrow> (unit + unit) \<times> 's"
  sv_pop :: "'s \<Rightarrow> 't option \<times> 's"
  sv_len :: "'s \<Rightarrow> nat"
  sv_storage :: "'s \<Rightarrow> 't list"

definition sv_slice :: "('t, 's) stack_vec \<Rightarrow> 's \<Rightarrow> 't list" where
  "sv_slice sv s = take (sv_len sv s) (sv_storage sv s)"

text \<open>Its documented behaviour.\<close>

definition stack_vec_laws :: "('t, 's) stack_vec \<Rightarrow> bool" where
  "stack_vec_laws sv \<longleftrightarrow>
     (\<forall>buf. sv_storage sv (sv_new sv buf) = buf \<and> sv_len sv (sv_new sv buf) = 0) \<and>
     (\<forall>x s. sv_len sv s < length (sv_storage sv s) \<longrightarrow>
        fst (sv_push sv x s) = Inr () \<and> sv_len sv (snd (sv_push sv x s)) = sv_len sv s + 1 \<and>
        sv_storage sv (snd (sv_push sv x s)) = (sv_storage sv s)[sv_len sv s := x]) \<and>
     (\<forall>x s. length (sv_storage sv s) \<le> sv_len sv s \<longrightarrow> sv_push sv x s = (Inl (), s)) \<and>
     (\<forall>s. sv_len sv s = 0 \<longrightarrow> sv_pop sv s = (None, s)) \<and>
     (\<forall>s. 0 < sv_len sv s \<longrightarrow>
        fst (sv_pop sv s) = Some (sv_storage sv s ! (sv_len sv s - 1)) \<and>
        sv_len sv (snd (sv_pop sv s)) = sv_len sv s - 1 \<and> sv_storage sv (snd (sv_pop sv s)) = sv_storage sv s)"

subsection \<open>Reading a line\<close>

definition bufferedio_push :: "(u8, 's) stack_vec \<Rightarrow> u8 \<Rightarrow> 's \<Rightarrow> (shell_error + unit) \<times> 's" where
  "bufferedio_push sv b st =
     (case sv_push sv b st of (Inl _, st) \<Rightarrow> (Inl LineTooLong, st) | (Inr _, st) \<Rightarrow> (Inr (), st))"

text \<open>One pass of the loop, with the console locked: the byte read decides; \<open>None\<close> goes on.\<close>

definition readline_byte ::
  "'d bus \<Rightarrow> (u8, 's) stack_vec \<Rightarrow> 's \<Rightarrow> u8 \<Rightarrow> console \<Rightarrow> ('d, ((shell_error + nat) option \<times> 's) \<times> console) io" where
  "readline_byte bus sv line_stack b console =
     (if b = 13 \<or> b = 10
      then io_bind (console_write_byte bus 13 console) (\<lambda>console.
           io_bind (console_write_byte bus 10 console) (\<lambda>console.
           io_return ((Some (Inr (sv_len sv line_stack)), line_stack), console)))
      else if b = 8 \<or> b = 127
      then (case sv_pop sv line_stack of
              (Some _, line_stack) \<Rightarrow>
                io_bind (console_write_byte bus 8 console) (\<lambda>console.
                io_bind (console_write_byte bus 32 console) (\<lambda>console.
                io_bind (console_write_byte bus 8 console) (\<lambda>console.
                io_return ((None, line_stack), console))))
            | (None, line_stack) \<Rightarrow> io_return ((None, line_stack), console))
      else if 32 \<le> b \<and> b \<le> 126
      then io_bind (console_write_byte bus b console) (\<lambda>console.
           (case bufferedio_push sv b line_stack of
              (Inl e, line_stack) \<Rightarrow> io_return ((Some (Inl e), line_stack), console)
            | (Inr _, line_stack) \<Rightarrow> io_return ((None, line_stack), console)))
      else io_bind (console_write_byte bus 7 console) (\<lambda>console.
           io_return ((None, line_stack), console)))"

definition readline_step ::
  "'d bus \<Rightarrow> (u8, 's) stack_vec \<Rightarrow> 's \<Rightarrow> ('d cmachine, (shell_error + nat) option \<times> 's) io" where
  "readline_step bus sv line_stack =
     on_console (\<lambda>console.
       io_bind (console_read_byte bus console) (\<lambda>(b, console). readline_byte bus sv line_stack b console))"

partial_function (option) readline_loop ::
  "'d bus \<Rightarrow> (u8, 's) stack_vec \<Rightarrow> 's \<Rightarrow> ('d cmachine, (shell_error + nat) \<times> u8 list) io" where
  "readline_loop bus sv line_stack s =
     io_bind (readline_step bus sv line_stack) (\<lambda>(r, line_stack) s.
       case r of
         Some res \<Rightarrow> io_return (res, sv_storage sv line_stack) s
       | None \<Rightarrow> readline_loop bus sv line_stack s) s"

definition readline :: "'d bus \<Rightarrow> (u8, 's) stack_vec \<Rightarrow> u8 list \<Rightarrow> ('d cmachine, (shell_error + nat) \<times> u8 list) io" where
  "readline bus sv line = readline_loop bus sv (sv_new sv line)"

subsection \<open>Parsing a command\<close>

text \<open>\<open>str::split\<close> at a space, and the pieces that are not empty.\<close>

fun split_space :: "u8 list \<Rightarrow> u8 list list" where
  "split_space [] = [[]]"
| "split_space (b # bs) = (if b = 32 then [] # split_space bs else (b # hd (split_space bs)) # tl (split_space bs))"

record 's command =
  cmd_args :: 's

fun push_args :: "(u8 list, 's) stack_vec \<Rightarrow> u8 list list \<Rightarrow> 's \<Rightarrow> shell_error + 's" where
  "push_args sv [] args = Inr args"
| "push_args sv (arg # rest) args =
     (case sv_push sv arg args of (Inl _, _) \<Rightarrow> Inl TooManyArgs | (Inr _, args) \<Rightarrow> push_args sv rest args)"

definition command_parse :: "(u8 list, 's) stack_vec \<Rightarrow> u8 list \<Rightarrow> u8 list list \<Rightarrow> shell_error + 's command" where
  "command_parse sv s buf =
     and_then (push_args sv (filter (\<lambda>a. a \<noteq> []) (split_space s)) (sv_new sv buf)) (\<lambda>args.
       if sv_len sv args = 0 then Inl Empty else Inr \<lparr>cmd_args = args\<rparr>)"

definition command_path :: "(u8 list, 's) stack_vec \<Rightarrow> 's command \<Rightarrow> (u8 list) outcome" where
  "command_path sv c =
     (case sv_slice sv (cmd_args c) of [] \<Rightarrow> Inl (Panic ''index out of bounds'') | a # _ \<Rightarrow> Inr a)"

subsection \<open>The shell\<close>

text \<open>
  The file system as the shell sees it: \<open>open_dir\<close> and \<open>open_file\<close> are default methods of the
  crate's trait over \<open>open\<close> of \<open>fs/mod.rs\<close>; entries are iterated, shown and asked whether they are hidden; a
  file is read through \<open>io::Read\<close>.
\<close>

record ('m, 'dir, 'file, 'it, 'entry) fs_ops =
  fo_open_dir :: "os_str \<Rightarrow> ('m, 'dir io_result) io"
  fo_open_file :: "os_str \<Rightarrow> ('m, 'file io_result) io"
  fo_entries :: "'dir \<Rightarrow> ('m, 'it io_result) io"
  fo_next :: "'it \<Rightarrow> ('m, 'entry option \<times> 'it) io"
  fo_hidden :: "'entry \<Rightarrow> bool"
  fo_text :: "'entry \<Rightarrow> u8 list"
  fo_read :: "('file \<times> 'm) reader"

datatype eval_status = Continue | Terminate

record shell =
  sh_prefix :: "u8 list"
  sh_cwd :: os_str

definition shell_new :: "u8 list \<Rightarrow> shell" where
  "shell_new prefix = \<lparr>sh_prefix = prefix, sh_cwd = [47]\<rparr>"

text \<open>Results of the commands, and the question mark on them.\<close>

type_synonym ('m, 'a) sh = "('m, shell_error + 'a) io"

definition sh_bind :: "('m, 'a) sh \<Rightarrow> ('a \<Rightarrow> ('m, 'b) sh) \<Rightarrow> ('m, 'b) sh" where
  "sh_bind c f = io_bind c (\<lambda>r. case r of Inl e \<Rightarrow> io_return (Inl e) | Inr a \<Rightarrow> f a)"

definition sh_io :: "('m, 'a io_result) io \<Rightarrow> ('m, 'a) sh" where
  "sh_io c = io_bind c (\<lambda>r. io_return (case r of Inl e \<Rightarrow> Inl (Io e) | Inr a \<Rightarrow> Inr a))"

definition sh_path :: "path_error + 'a \<Rightarrow> shell_error + 'a" where
  "sh_path r = (case r of Inl e \<Rightarrow> Inl (PathError e) | Inr a \<Rightarrow> Inr a)"

definition kprintln :: "'d bus \<Rightarrow> u8 list \<Rightarrow> ('d cmachine, unit) io" where
  "kprintln bus text = print_str bus (text @ [10])"

definition join_space :: "u8 list list \<Rightarrow> u8 list" where
  "join_space args = concat (if args = [] then [] else hd args # map (\<lambda>a. 32 # a) (tl args))"

definition echo :: "'d bus \<Rightarrow> u8 list list \<Rightarrow> ('d cmachine, unit) sh" where
  "echo bus args = io_then (kprintln bus (join_space args)) (io_return (Inr ()))"

definition pwd :: "'d bus \<Rightarrow> shell \<Rightarrow> u8 list list \<Rightarrow> ('d cmachine, unit) sh" where
  "pwd bus sh args =
     (if length args > 0 then io_return (Inl (InvalidArgs ''usage: pwd''))
      else io_then (kprintln bus (path_display (sh_cwd sh))) (io_return (Inr ())))"

definition cd ::
  "(os_str \<Rightarrow> prefix \<Rightarrow> string) \<Rightarrow> ('d cmachine, 'dir, 'file, 'it, 'entry) fs_ops \<Rightarrow> shell \<Rightarrow> u8 list list \<Rightarrow>
   ('d cmachine, shell) sh" where
  "cd dbg fs sh args =
     (if length args \<noteq> 1 then io_return (Inl (InvalidArgs ''usage: cd <directory>''))
      else sh_bind (io_return (sh_path (canonical_join dbg (sh_cwd sh) (hd args)))) (\<lambda>cwd.
           sh_bind (sh_io (fo_open_dir fs cwd)) (\<lambda>_.
           io_return (Inr (sh\<lparr>sh_cwd := cwd\<rparr>)))))"

partial_function (option) list_entries ::
  "'d bus \<Rightarrow> ('d cmachine, 'dir, 'file, 'it, 'entry) fs_ops \<Rightarrow> bool \<Rightarrow> 'it \<Rightarrow> ('d cmachine, unit) io" where
  "list_entries bus fs show_hidden entries s =
     io_bind (fo_next fs entries) (\<lambda>(e, entries) s.
       case e of
         None \<Rightarrow> io_return () s
       | Some entry \<Rightarrow>
           io_then (if show_hidden \<or> \<not> fo_hidden fs entry then kprintln bus (fo_text fs entry) else io_return ())
             (\<lambda>s. list_entries bus fs show_hidden entries s) s) s"

definition ls_usage :: "shell_error + 'a" where
  "ls_usage = Inl (InvalidArgs ''usage: ls [-a] [directory]'')"

definition ls_args :: "shell \<Rightarrow> u8 list list \<Rightarrow> shell_error + (os_str \<times> bool)" where
  "ls_args sh args =
     (case args of
        [] \<Rightarrow> Inr (sh_cwd sh, False)
      | [a] \<Rightarrow> Inr (a, False)
      | [a, b] \<Rightarrow> if a \<noteq> bytes_of ''-a'' then ls_usage else Inr (b, True)
      | _ \<Rightarrow> ls_usage)"

definition ls ::
  "'d bus \<Rightarrow> (os_str \<Rightarrow> prefix \<Rightarrow> string) \<Rightarrow> ('d cmachine, 'dir, 'file, 'it, 'entry) fs_ops \<Rightarrow> shell \<Rightarrow> u8 list list \<Rightarrow>
   ('d cmachine, unit) sh" where
  "ls bus dbg fs sh args =
     sh_bind (io_return (ls_args sh args)) (\<lambda>(path, show_hidden).
     sh_bind (io_return (if is_relative path then sh_path (canonical_join dbg (sh_cwd sh) path) else Inr path)) (\<lambda>path.
     sh_bind (sh_io (fo_open_dir fs path)) (\<lambda>dir.
     sh_bind (sh_io (fo_entries fs dir)) (\<lambda>entries.
     io_then (list_entries bus fs show_hidden entries) (io_return (Inr ()))))))"

text \<open>\<open>cat\<close>: the loop over the lines of one file, then the files in turn. The state of the loop is the buffer, the file and the machine.\<close>

definition on_machine :: "('m, 'a) io \<Rightarrow> (('file \<times> 'm) br_state, 'a) io" where
  "on_machine c = on_inner (on_inner c)"

partial_function (option) cat_lines ::
  "'d bus \<Rightarrow> ('file \<times> 'd cmachine) reader \<Rightarrow> (('file \<times> 'd cmachine) br_state, unit io_result) io" where
  "cat_lines bus rd s =
     io_bind (lines_next (bufreader rd)) (\<lambda>line s.
       case line of
         None \<Rightarrow> io_return (Inr ()) s
       | Some (Inl e) \<Rightarrow> io_return (Inl e) s
       | Some (Inr text) \<Rightarrow> io_then (on_machine (kprintln bus text)) (\<lambda>s. cat_lines bus rd s) s) s"

definition cat_file :: "'d bus \<Rightarrow> ('file \<times> 'd cmachine) reader \<Rightarrow> 'file \<Rightarrow> ('d cmachine, unit io_result) io" where
  "cat_file bus rd file s =
     map_option (\<lambda>r. and_then r (\<lambda>(x, (_, (_, s))). Inr (x, s))) (cat_lines bus rd (bufreader_new, (file, s)))"

fun cat_files ::
  "'d bus \<Rightarrow> ('d cmachine, 'dir, 'file, 'it, 'entry) fs_ops \<Rightarrow> os_str list \<Rightarrow> ('d cmachine, unit) sh" where
  "cat_files bus fs [] = io_return (Inr ())"
| "cat_files bus fs (path # paths) =
     io_bind (fo_open_file fs path) (\<lambda>r.
       case r of
         Inl err \<Rightarrow>
           io_bind (io_lift (io_error_text err)) (\<lambda>t.
           io_then (kprintln bus (path_display path @ bytes_of ('': '' @ t))) (cat_files bus fs paths))
       | Inr file \<Rightarrow> sh_bind (sh_io (cat_file bus (fo_read fs) file)) (\<lambda>_. cat_files bus fs paths))"

fun join_all :: "(os_str \<Rightarrow> prefix \<Rightarrow> string) \<Rightarrow> os_str \<Rightarrow> os_str list \<Rightarrow> shell_error + os_str list" where
  "join_all dbg cwd [] = Inr []"
| "join_all dbg cwd (a # as) =
     and_then (sh_path (canonical_join dbg cwd a)) (\<lambda>p. and_then (join_all dbg cwd as) (\<lambda>ps. Inr (p # ps)))"

definition cat ::
  "'d bus \<Rightarrow> (os_str \<Rightarrow> prefix \<Rightarrow> string) \<Rightarrow> ('d cmachine, 'dir, 'file, 'it, 'entry) fs_ops \<Rightarrow> shell \<Rightarrow> u8 list list \<Rightarrow>
   ('d cmachine, unit) sh" where
  "cat bus dbg fs sh args =
     (if length args = 0 then io_return (Inl (InvalidArgs ''usage: cat <file> [file]..''))
      else sh_bind (io_return (join_all dbg (sh_cwd sh) args)) (cat_files bus fs))"

text \<open>\<open>u32::from_str\<close>: an optional plus sign and decimal digits, without overflow.\<close>

fun u32_digits :: "u8 list \<Rightarrow> nat \<Rightarrow> nat option" where
  "u32_digits [] acc = Some acc"
| "u32_digits (b # bs) acc =
     (if 48 \<le> b \<and> b \<le> 57 \<and> acc * 10 + unat (b - 48) < 2 ^ 32 then u32_digits bs (acc * 10 + unat (b - 48)) else None)"

definition u32_from_str :: "u8 list \<Rightarrow> u32 option" where
  "u32_from_str s =
     (let digits = (case s of b # bs \<Rightarrow> if b = 43 then bs else s | [] \<Rightarrow> []) in
      if digits = [] then None else map_option of_nat (u32_digits digits 0))"

definition sleep_command :: "(u32 \<Rightarrow> ('m, syscall_error + u32) io) \<Rightarrow> u8 list list \<Rightarrow> ('m, unit) sh" where
  "sleep_command syscall args =
     (if length args \<noteq> 1 then io_return (Inl (InvalidArgs ''usage: sleep <duration>''))
      else case u32_from_str (hd args) of
             None \<Rightarrow> io_return (Inl (InvalidArgs ''invalid u32''))
           | Some ms \<Rightarrow> io_bind (syscall ms) (\<lambda>r. io_return (case r of Inl e \<Rightarrow> Inl (Syscall e) | Inr _ \<Rightarrow> Inr ())))"

text \<open>\<open>dispatch\<close>: every command but \<open>cd\<close> leaves the shell as it is.\<close>

definition keep :: "'a \<Rightarrow> ('m, unit) sh \<Rightarrow> ('m, 'a) sh" where
  "keep sh c = sh_bind c (\<lambda>_. io_return (Inr sh))"

definition dispatch ::
  "'d bus \<Rightarrow> (os_str \<Rightarrow> prefix \<Rightarrow> string) \<Rightarrow> ('d cmachine, 'dir, 'file, 'it, 'entry) fs_ops \<Rightarrow>
   (u32 \<Rightarrow> ('d cmachine, syscall_error + u32) io) \<Rightarrow> (u8 list, 's) stack_vec \<Rightarrow> shell \<Rightarrow> 's command \<Rightarrow> ('d cmachine, shell) sh" where
  "dispatch bus dbg fs syscall sv sh cmd =
     (let args = drop 1 (sv_slice sv (cmd_args cmd)) in
      io_bind (io_lift (command_path sv cmd)) (\<lambda>path.
        if path = bytes_of ''echo'' then keep sh (echo bus args)
        else if path = bytes_of ''pwd'' then keep sh (pwd bus sh args)
        else if path = bytes_of ''cd'' then cd dbg fs sh args
        else if path = bytes_of ''ls'' then keep sh (ls bus dbg fs sh args)
        else if path = bytes_of ''cat'' then keep sh (cat bus dbg fs sh args)
        else if path = bytes_of ''sleep'' then keep sh (sleep_command syscall args)
        else io_return (Inl (UnknownCommand path))))"

text \<open>\<open>eval\<close>: the shell after an error is the shell before the command.\<close>

definition eval ::
  "'d bus \<Rightarrow> (os_str \<Rightarrow> prefix \<Rightarrow> string) \<Rightarrow> ('d cmachine, 'dir, 'file, 'it, 'entry) fs_ops \<Rightarrow>
   (u32 \<Rightarrow> ('d cmachine, syscall_error + u32) io) \<Rightarrow> (u8, 'l) stack_vec \<Rightarrow> (u8 list, 's) stack_vec \<Rightarrow> shell \<Rightarrow>
   ('d cmachine, eval_status \<times> shell) sh" where
  "eval bus dbg fs syscall lv av sh =
     io_bind (readline bus lv (replicate 512 0)) (\<lambda>(res, line).
       case res of
         Inl e \<Rightarrow> io_return (Inl e)
       | Inr n \<Rightarrow>
           if n = 0 then io_return (Inr (Continue, sh))
           else sh_bind (io_return (case from_utf8 (take n line) of None \<Rightarrow> Inl InvalidUtf8 | Some s \<Rightarrow> Inr s)) (\<lambda>cmd_str.
                sh_bind (io_return (command_parse av cmd_str (replicate 64 []))) (\<lambda>cmd.
                io_bind (io_lift (command_path av cmd)) (\<lambda>path.
                  if path = bytes_of ''exit'' then io_return (Inr (Terminate, sh))
                  else sh_bind (dispatch bus dbg fs syscall av sh cmd) (\<lambda>sh. io_return (Inr (Continue, sh)))))))"

partial_function (option) repl ::
  "'d bus \<Rightarrow> (os_str \<Rightarrow> prefix \<Rightarrow> string) \<Rightarrow> ('d cmachine, 'dir, 'file, 'it, 'entry) fs_ops \<Rightarrow>
   (u32 \<Rightarrow> ('d cmachine, syscall_error + u32) io) \<Rightarrow> (u8, 'l) stack_vec \<Rightarrow> (u8 list, 's) stack_vec \<Rightarrow> shell \<Rightarrow>
   ('d cmachine, unit) io" where
  "repl bus dbg fs syscall lv av sh s =
     io_then (print_str bus ([91] @ path_display (sh_cwd sh) @ [93, 32] @ sh_prefix sh @ [32]))
     (io_bind (eval bus dbg fs syscall lv av sh) (\<lambda>r s.
        case r of
          Inr (Terminate, _) \<Rightarrow> io_return () s
        | Inr (Continue, sh) \<Rightarrow> repl bus dbg fs syscall lv av sh s
        | Inl err \<Rightarrow>
            io_bind (io_lift (shell_error_text err)) (\<lambda>t.
            io_then (kprintln bus t) (\<lambda>s. repl bus dbg fs syscall lv av sh s)) s)) s"

definition run_shell ::
  "'d bus \<Rightarrow> (os_str \<Rightarrow> prefix \<Rightarrow> string) \<Rightarrow> ('d cmachine, 'dir, 'file, 'it, 'entry) fs_ops \<Rightarrow>
   (u32 \<Rightarrow> ('d cmachine, syscall_error + u32) io) \<Rightarrow> (u8, 'l) stack_vec \<Rightarrow> (u8 list, 's) stack_vec \<Rightarrow> u8 list \<Rightarrow>
   ('d cmachine, unit) io" where
  "run_shell bus dbg fs syscall lv av prefix = repl bus dbg fs syscall lv av (shell_new prefix)"

end
