(* ===== verification/ShellSpec.thy ===== *)
theory ShellSpec
  imports Shell
begin

text \<open>
  What the shell does: the line editor computes the edited line and echoes it, a command is the words of
  the line, and the working directory stays canonical whatever is typed.
\<close>

subsection \<open>Stack vectors\<close>

definition sv_ok :: "('t, 's) stack_vec \<Rightarrow> nat \<Rightarrow> 't list \<Rightarrow> 's \<Rightarrow> bool" where
  "sv_ok sv cap xs s \<longleftrightarrow> length (sv_storage sv s) = cap \<and> sv_len sv s = length xs \<and> length xs \<le> cap \<and> sv_slice sv s = xs"

lemma sv_ok_new: "stack_vec_laws sv \<Longrightarrow> sv_ok sv (length buf) [] (sv_new sv buf)"
  by (simp add: stack_vec_laws_def sv_ok_def sv_slice_def)

lemma sv_ok_push:
  assumes "stack_vec_laws sv" "sv_ok sv cap xs s"
  shows "length xs < cap \<Longrightarrow> fst (sv_push sv x s) = Inr () \<and> sv_ok sv cap (xs @ [x]) (snd (sv_push sv x s))"
    and "\<not> length xs < cap \<Longrightarrow> sv_push sv x s = (Inl (), s)"
proof -
  have s: "length (sv_storage sv s) = cap" "sv_len sv s = length xs" "length xs \<le> cap"
    "take (length xs) (sv_storage sv s) = xs"
    using assms(2) by (auto simp: sv_ok_def sv_slice_def)
  show "fst (sv_push sv x s) = Inr () \<and> sv_ok sv cap (xs @ [x]) (snd (sv_push sv x s))" if l: "length xs < cap"
  proof -
    have "fst (sv_push sv x s) = Inr ()" "sv_len sv (snd (sv_push sv x s)) = length xs + 1"
      "sv_storage sv (snd (sv_push sv x s)) = (sv_storage sv s)[length xs := x]"
      using assms(1) l s(1,2) by (auto simp: stack_vec_laws_def)
    moreover have "take (Suc (length xs)) ((sv_storage sv s)[length xs := x]) = xs @ [x]"
      using l s(1,4) by (simp add: take_Suc_conv_app_nth)
    ultimately show ?thesis using l s(1) by (simp add: sv_ok_def sv_slice_def)
  qed
  show "\<not> length xs < cap \<Longrightarrow> sv_push sv x s = (Inl (), s)"
    using assms(1) s by (simp add: stack_vec_laws_def)
qed

lemma sv_ok_pop:
  assumes "stack_vec_laws sv" "sv_ok sv cap xs s"
  shows "xs = [] \<Longrightarrow> sv_pop sv s = (None, s)"
    and "xs \<noteq> [] \<Longrightarrow> \<exists>x. fst (sv_pop sv s) = Some x \<and> sv_ok sv cap (butlast xs) (snd (sv_pop sv s))"
  using assms by (auto simp: stack_vec_laws_def sv_ok_def sv_slice_def butlast_take simp flip: butlast_conv_take)

subsection \<open>Editing a line\<close>

text \<open>What one typed byte does to the line: the outcome if it ends the line, the line, and the echo.\<close>

definition edit_step :: "nat \<Rightarrow> u8 list \<Rightarrow> u8 \<Rightarrow> (shell_error + u8 list) option \<times> u8 list \<times> u8 list" where
  "edit_step cap line b =
     (if b = 13 \<or> b = 10 then (Some (Inr line), line, [13, 10])
      else if b = 8 \<or> b = 127 then (None, butlast line, if line = [] then [] else [8, 32, 8])
      else if 32 \<le> b \<and> b \<le> 126
      then if length line < cap then (None, line @ [b], [b]) else (Some (Inl LineTooLong), line, [b])
      else (None, line, [7]))"

fun edit :: "nat \<Rightarrow> u8 list \<Rightarrow> u8 list \<Rightarrow> ((shell_error + u8 list) \<times> u8 list \<times> u8 list) option" where
  "edit cap line [] = None"
| "edit cap line (b # bs) =
     (case edit_step cap line b of
        (Some r, _, out) \<Rightarrow> Some (r, out, bs)
      | (None, line', out) \<Rightarrow> map_option (\<lambda>(r, more, rest). (r, out @ more, rest)) (edit cap line' bs))"

definition console_ready :: "mini_uart \<Rightarrow> console mutex \<Rightarrow> bool" where
  "console_ready u x \<longleftrightarrow> mx_data x = \<lparr>con_inner = Some u\<rparr> \<and> (mx_lock x \<longrightarrow> mx_owner x = 0)"

lemma on_console_ok:
  assumes "console_ready u x" and "f \<lparr>con_inner = Some u\<rparr> d = Some (Inr ((a, \<lparr>con_inner = Some u\<rparr>), d'))"
  shows "\<exists>x'. on_console f (x, d) = Some (Inr (a, (x', d'))) \<and> console_ready u x'"
  using assms by (auto simp: console_ready_def on_console_def with_lock_idle)

lemma put_byte:
  assumes "uart_device bus (mu_registers u) rx tx busy lag"
  shows "\<exists>d'. console_write_byte bus b \<lparr>con_inner = Some u\<rparr> d = Some (Inr (\<lparr>con_inner = Some u\<rparr>, d')) \<and>
    rx d' = rx d \<and> tx d' = tx d @ [b]"
  using uart_write_byte_sends [OF assms, of b d] by (auto simp: with_console io_defs)

lemma get_byte:
  assumes "uart_device bus (mu_registers u) rx tx busy lag" "rx d = b # bs"
  shows "\<exists>d'. console_read_byte bus \<lparr>con_inner = Some u\<rparr> d = Some (Inr ((b, \<lparr>con_inner = Some u\<rparr>), d')) \<and>
    rx d' = bs \<and> tx d' = tx d"
  using uart_read_byte_ready [OF assms] by (auto simp: with_console io_defs)

text \<open>Writing a few bytes one after the other.\<close>

lemma put_bytes:
  assumes "uart_device bus (mu_registers u) rx tx busy lag"
  shows "\<exists>d'. io_bind (console_write_byte bus a \<lparr>con_inner = Some u\<rparr>) (\<lambda>c.
            io_bind (console_write_byte bus b c) k) d = k \<lparr>con_inner = Some u\<rparr> d' \<and>
          rx d' = rx d \<and> tx d' = tx d @ [a, b]"
    and "\<exists>d'. io_bind (console_write_byte bus a \<lparr>con_inner = Some u\<rparr>) k d = k \<lparr>con_inner = Some u\<rparr> d' \<and>
          rx d' = rx d \<and> tx d' = tx d @ [a]"
proof -
  let ?c = "\<lparr>con_inner = Some u\<rparr>"
  obtain d1 where p1: "console_write_byte bus a ?c d = Some (Inr (?c, d1))" "rx d1 = rx d" "tx d1 = tx d @ [a]"
    using put_byte [OF assms] by blast
  obtain d2 where p2: "console_write_byte bus b ?c d1 = Some (Inr (?c, d2))" "rx d2 = rx d1" "tx d2 = tx d1 @ [b]"
    using put_byte [OF assms] by blast
  show "\<exists>d'. io_bind (console_write_byte bus a ?c) (\<lambda>c. io_bind (console_write_byte bus b c) k) d = k ?c d' \<and>
      rx d' = rx d \<and> tx d' = tx d @ [a, b]"
    using p1 p2 by (auto simp: io_bind_def)
  show "\<exists>d'. io_bind (console_write_byte bus a ?c) k d = k ?c d' \<and> rx d' = rx d \<and> tx d' = tx d @ [a]"
    using p1 by (auto simp: io_bind_def)
qed

lemma readline_byte_edits:
  assumes dev: "uart_device bus (mu_registers u) rx tx busy lag" and laws: "stack_vec_laws sv"
    and ok: "sv_ok sv cap line st" and step: "edit_step cap line b = (r, line', out)"
  shows "\<exists>st' d'. readline_byte bus sv st b \<lparr>con_inner = Some u\<rparr> d =
      Some (Inr (((map_option (map_sum id length) r, st'), \<lparr>con_inner = Some u\<rparr>), d')) \<and>
    sv_ok sv cap line' st' \<and> rx d' = rx d \<and> tx d' = tx d @ out"
proof -
  note put = put_bytes [OF dev]
  let ?no = "None :: (shell_error + nat) option"
  consider (eol) "b = 13 \<or> b = 10" | (del) "b \<noteq> 13" "b \<noteq> 10" "b = 8 \<or> b = 127"
    | (print) "b \<noteq> 13" "b \<noteq> 10" "\<not> (b = 8 \<or> b = 127)" "32 \<le> b \<and> b \<le> 126"
    | (bell) "b \<noteq> 13" "b \<noteq> 10" "\<not> (b = 8 \<or> b = 127)" "\<not> (32 \<le> b \<and> b \<le> 126)" by blast
  then show ?thesis
  proof cases
    case eol
    obtain d1 where d1: "io_bind (console_write_byte bus 13 \<lparr>con_inner = Some u\<rparr>) (\<lambda>c.
          io_bind (console_write_byte bus 10 c) (\<lambda>c. io_return ((Some (Inr (sv_len sv st)) :: (shell_error + nat) option, st), c))) d =
        io_return ((Some (Inr (sv_len sv st)) :: (shell_error + nat) option, st), \<lparr>con_inner = Some u\<rparr>) d1" "rx d1 = rx d" "tx d1 = tx d @ [13, 10]"
      using put(1)[of 13 10 "\<lambda>c. io_return ((Some (Inr (sv_len sv st)) :: (shell_error + nat) option, st), c)" d] by blast
    have "readline_byte bus sv st b \<lparr>con_inner = Some u\<rparr> d = io_return ((Some (Inr (sv_len sv st)), st), \<lparr>con_inner = Some u\<rparr>) d1"
      unfolding readline_byte_def using eol d1(1) by (simp only: if_True simp_thms)
    moreover have "sv_len sv st = length line" using ok by (simp add: sv_ok_def)
    ultimately show ?thesis using eol step ok d1(2,3) by (auto simp: edit_step_def io_return_def)
  next
    case del
    show ?thesis
    proof (cases "line = []")
      case True
      then show ?thesis
        using del step ok sv_ok_pop(1)[OF laws ok]
        by (auto simp: readline_byte_def edit_step_def io_return_def)
    next
      case False
      obtain y st' where pop: "sv_pop sv st = (Some y, st')" "sv_ok sv cap (butlast line) st'"
        using sv_ok_pop(2)[OF laws ok False] by (metis prod.collapse)
      obtain d1 where d1: "\<And>k. True \<Longrightarrow> io_bind (console_write_byte bus 8 \<lparr>con_inner = Some u\<rparr>) (\<lambda>c.
            io_bind (console_write_byte bus 32 c) (\<lambda>c. io_bind (console_write_byte bus 8 c) (\<lambda>c. io_return ((?no, st'), c)))) d =
            io_bind (console_write_byte bus 8 \<lparr>con_inner = Some u\<rparr>) (\<lambda>c. io_return ((?no, st'), c)) d1"
        "rx d1 = rx d" "tx d1 = tx d @ [8, 32]"
        using put(1)[of 8 32 "\<lambda>c. io_bind (console_write_byte bus 8 c) (\<lambda>c. io_return ((?no, st'), c))" d] by blast
      obtain d2 where d2: "io_bind (console_write_byte bus 8 \<lparr>con_inner = Some u\<rparr>) (\<lambda>c. io_return ((?no, st'), c)) d1 =
            io_return ((?no, st'), \<lparr>con_inner = Some u\<rparr>) d2" "rx d2 = rx d1" "tx d2 = tx d1 @ [8]"
        using put(2)[of 8 "\<lambda>c. io_return ((?no, st'), c)" d1] by blast
      have "readline_byte bus sv st b \<lparr>con_inner = Some u\<rparr> d = Some (Inr (((?no, st'), \<lparr>con_inner = Some u\<rparr>), d2))"
        using del d1(1) d2(1) by (auto simp: readline_byte_def pop(1) io_return_def)
      then show ?thesis
        using del False step pop(2) d1(2,3) d2(2,3) by (auto simp: edit_step_def)
    qed
  next
    case print
    let ?k = "\<lambda>c. case bufferedio_push sv b st of
              (Inl e, st) \<Rightarrow> io_return ((Some (Inl e), st), c)
            | (Inr _, st) \<Rightarrow> io_return ((?no, st), c)"
    obtain d1 where d1: "io_bind (console_write_byte bus b \<lparr>con_inner = Some u\<rparr>) ?k d = ?k \<lparr>con_inner = Some u\<rparr> d1"
      "rx d1 = rx d" "tx d1 = tx d @ [b]"
      using put(2)[of b ?k d] by blast
    have run: "readline_byte bus sv st b \<lparr>con_inner = Some u\<rparr> d = ?k \<lparr>con_inner = Some u\<rparr> d1"
      unfolding readline_byte_def using print d1(1) by (simp only: if_False if_True simp_thms)
    show ?thesis
    proof (cases "length line < cap")
      case True
      obtain st' where "sv_push sv b st = (Inr (), st')" "sv_ok sv cap (line @ [b]) st'"
        using sv_ok_push(1)[OF laws ok True, of b] by (metis prod.collapse)
      then show ?thesis
        using print True step d1(2,3) by (auto simp: run bufferedio_push_def edit_step_def io_return_def)
    next
      case False
      then show ?thesis
        using print step ok d1(2,3) sv_ok_push(2)[OF laws ok False, of b]
        by (auto simp: run bufferedio_push_def edit_step_def io_return_def)
    qed
  next
    case bell
    obtain d1 where d1: "io_bind (console_write_byte bus 7 \<lparr>con_inner = Some u\<rparr>) (\<lambda>c. io_return ((?no, st), c)) d =
        io_return ((?no, st), \<lparr>con_inner = Some u\<rparr>) d1" "rx d1 = rx d" "tx d1 = tx d @ [7]"
      using put(2)[of 7 "\<lambda>c. io_return ((?no, st), c)" d] by blast
    have "readline_byte bus sv st b \<lparr>con_inner = Some u\<rparr> d = io_return ((?no, st), \<lparr>con_inner = Some u\<rparr>) d1"
      unfolding readline_byte_def using bell d1(1) by (simp only: if_False simp_thms)
    then show ?thesis using bell step ok d1(2,3) by (auto simp: edit_step_def io_return_def)
  qed
qed

lemma readline_step_edits:
  assumes dev: "uart_device bus (mu_registers u) rx tx busy lag" and laws: "stack_vec_laws sv"
    and ready: "console_ready u x" and rx: "rx d = b # bs" and ok: "sv_ok sv cap line st"
    and step: "edit_step cap line b = (r, line', out)"
  shows "\<exists>st' x' d'. readline_step bus sv st (x, d) = Some (Inr ((map_option (map_sum id length) r, st'), (x', d'))) \<and>
    sv_ok sv cap line' st' \<and> console_ready u x' \<and> rx d' = bs \<and> tx d' = tx d @ out"
proof -
  let ?c = "\<lparr>con_inner = Some u\<rparr>"
  obtain d1 where g: "console_read_byte bus ?c d = Some (Inr ((b, ?c), d1))" "rx d1 = bs" "tx d1 = tx d"
    using get_byte [OF dev rx] by blast
  obtain st' d2 where e: "readline_byte bus sv st b ?c d1 = Some (Inr (((map_option (map_sum id length) r, st'), ?c), d2))"
    "sv_ok sv cap line' st'" "rx d2 = rx d1" "tx d2 = tx d1 @ out"
    using readline_byte_edits [OF dev laws ok step] by blast
  have "io_bind (console_read_byte bus ?c) (\<lambda>(b, console). readline_byte bus sv st b console) d =
      Some (Inr (((map_option (map_sum id length) r, st'), ?c), d2))"
    by (simp add: io_bind_ok [where c = "console_read_byte bus ?c", OF g(1)] e(1))
  from on_console_ok [where f = "\<lambda>console. io_bind (console_read_byte bus console) (\<lambda>(b, console). readline_byte bus sv st b console)",
      OF ready this]
  show ?thesis using g e(2-4) by (auto simp: readline_step_def)
qed

lemma readline_loop_edits:
  assumes dev: "uart_device bus (mu_registers u) rx tx busy lag" and laws: "stack_vec_laws sv"
  shows "console_ready u x \<Longrightarrow> sv_ok sv cap line st \<Longrightarrow> edit cap line (rx d) = Some (res, out, rest) \<Longrightarrow>
    \<exists>storage x' d'. readline_loop bus sv st (x, d) = Some (Inr ((map_sum id length res, storage), (x', d'))) \<and>
      (\<forall>l. res = Inr l \<longrightarrow> take (length l) storage = l) \<and> console_ready u x' \<and> rx d' = rest \<and> tx d' = tx d @ out"
proof (induction "rx d" arbitrary: x d line st out)
  case Nil
  then show ?case by (metis edit.simps(1) option.distinct(1))
next
  case (Cons b bs)
  note rx = Cons.hyps(2)[symmetric]
  obtain r line' out1 where step: "edit_step cap line b = (r, line', out1)" by (metis prod_cases3)
  obtain st' x' d' where s: "readline_step bus sv st (x, d) = Some (Inr ((map_option (map_sum id length) r, st'), (x', d')))"
    "sv_ok sv cap line' st'" "console_ready u x'" "rx d' = bs" "tx d' = tx d @ out1"
    using readline_step_edits [OF dev laws Cons.prems(1) rx Cons.prems(2) step] by blast
  have run: "readline_loop bus sv st (x, d) =
      (case map_option (map_sum id length) r of
         Some res \<Rightarrow> io_return (res, sv_storage sv st') (x', d') | None \<Rightarrow> readline_loop bus sv st' (x', d'))"
    by (subst readline_loop.simps) (simp add: io_bind_ok [where c = "readline_step bus sv st", OF s(1)] split: option.splits)
  show ?case
  proof (cases r)
    case None
    obtain out2 where e: "edit cap line' (rx d') = Some (res, out2, rest)" "out = out1 @ out2"
      using Cons.prems(3) step None s(4) by (auto simp: rx)
    show ?thesis
      using Cons.hyps(1)[OF s(4)[symmetric] s(3,2) e(1)] s(5) e(2) by (auto simp: run None)
  next
    case (Some v)
    then have v: "res = v" "out = out1" "rest = bs" using Cons.prems(3) step by (auto simp: rx)
    have "line' = l" if "res = Inr l" for l
      using that step v(1) Some by (auto simp: edit_step_def split: if_splits)
    then show ?thesis
      using s v by (auto simp: run Some io_return_def sv_ok_def sv_slice_def)
  qed
qed

text \<open>C35: Reading a line from the console, typed before or while it is read. When what is typed ends a line, \<open>readline\<close> returns: with the
  length of the edited line, whose bytes are in the front of the buffer, or with \<open>LineTooLong\<close> for
  a printable byte that does not fit; the input behind is left unread and everything is echoed as the editor prescribes.\<close>

theorem readline_edits:
  assumes "uart_device bus (mu_registers u) rx tx busy lag" and "stack_vec_laws sv" and "console_ready u x"
    and "edit (length buf) [] (rx d) = Some (res, out, rest)"
  shows "\<exists>line x' d'. readline bus sv buf (x, d) = Some (Inr ((map_sum id length res, line), (x', d'))) \<and>
    (\<forall>l. res = Inr l \<longrightarrow> take (length l) line = l) \<and> console_ready u x' \<and> rx d' = rest \<and> tx d' = tx d @ out"
  using readline_loop_edits [OF assms(1-3) sv_ok_new [OF assms(2)] assms(4)] by (simp add: readline_def)

text \<open>A stack vector over its array, as its documentation has it.\<close>

definition list_sv :: "('t, 't list \<times> nat) stack_vec" where
  "list_sv = \<lparr>sv_new = (\<lambda>buf. (buf, 0)),
     sv_push = (\<lambda>x (buf, n). if n < length buf then (Inr (), (buf[n := x], n + 1)) else (Inl (), (buf, n))),
     sv_pop = (\<lambda>(buf, n). if n = 0 then (None, (buf, n)) else (Some (buf ! (n - 1)), (buf, n - 1))),
     sv_len = snd, sv_storage = fst\<rparr>"

lemma list_sv_laws: "stack_vec_laws list_sv"
  by (auto simp: stack_vec_laws_def list_sv_def split: prod.splits)

definition ex_console :: "console mutex" where
  "ex_console = \<lparr>mx_data = \<lparr>con_inner = Some ex_uart\<rparr>, mx_lock = False, mx_owner = 0\<rparr>"

lemma ex_console_ready: "console_ready ex_uart ex_console"
  by (simp add: console_ready_def ex_console_def)

lemma ex_uart_device: "uart_device port_bus (mu_registers ex_uart) pt_rx pt_tx pt_busy pt_lag"
  using port_device by (simp add: ex_uart_def)

theorem readline_edits_witness:
  "\<exists>line x' d'. readline port_bus list_sv [0, 0, 0] (ex_console, ex_port [97, 98, 127, 99, 13, 100]) =
      Some (Inr ((Inr 2, line), (x', d'))) \<and> take 2 line = [97, 99] \<and> pt_rx d' = [100] \<and>
      pt_tx d' = [97, 98, 8, 32, 8, 99, 13, 10]"
proof -
  have "edit (length [0, 0, 0]) [] (pt_rx (ex_port [97, 98, 127, 99, 13, 100])) =
      Some (Inr [97, 99], [97, 98, 8, 32, 8, 99, 13, 10], [100])"
    by (simp add: ex_port_def edit_step_def)
  from readline_edits [OF ex_uart_device list_sv_laws ex_console_ready this]
  show ?thesis by (auto simp: ex_port_def numeral_2_eq_2)
qed

subsection \<open>Parsing\<close>

definition words :: "u8 list \<Rightarrow> u8 list list" where
  "words s = filter (\<lambda>a. a \<noteq> []) (split_space s)"

lemma push_args_words:
  assumes "stack_vec_laws sv" "sv_ok sv cap xs st"
  shows "if length xs + length ws \<le> cap then \<exists>st'. push_args sv ws st = Inr st' \<and> sv_ok sv cap (xs @ ws) st'
    else push_args sv ws st = Inl TooManyArgs"
  using assms(2)
proof (induction ws arbitrary: xs st)
  case Nil
  then show ?case by (simp add: sv_ok_def)
next
  case (Cons w ws)
  show ?case
  proof (cases "length xs < cap")
    case True
    obtain st' where p: "sv_push sv w st = (Inr (), st')" "sv_ok sv cap (xs @ [w]) st'"
      using sv_ok_push(1)[OF assms(1) Cons.prems True, of w] by (metis prod.collapse)
    from Cons.IH [OF p(2)] show ?thesis by (auto simp: p(1))
  next
    case False
    then show ?thesis using sv_ok_push(2)[OF assms(1) Cons.prems False, of w] by simp
  qed
qed

text \<open>A command is the words of the line; it is refused when there are none, or more than the buffer holds.\<close>

lemma command_parse_words:
  assumes "stack_vec_laws sv"
  shows "if words s = [] then command_parse sv s buf = Inl Empty
    else if length (words s) \<le> length buf
    then \<exists>c. command_parse sv s buf = Inr c \<and> sv_slice sv (cmd_args c) = words s \<and> command_path sv c = Inr (hd (words s))
    else command_parse sv s buf = Inl TooManyArgs"
proof -
  have p: "command_parse sv s buf =
      and_then (push_args sv (words s) (sv_new sv buf)) (\<lambda>args. if sv_len sv args = 0 then Inl Empty else Inr \<lparr>cmd_args = args\<rparr>)"
    by (simp add: command_parse_def words_def)
  note w = push_args_words [OF assms sv_ok_new [OF assms, of buf], of "words s"]
  show ?thesis
  proof (cases "length (words s) \<le> length buf")
    case True
    then obtain st where st: "push_args sv (words s) (sv_new sv buf) = Inr st" "sv_ok sv (length buf) (words s) st"
      using w by auto
    then show ?thesis using True by (cases "words s") (auto simp: p sv_ok_def command_path_def)
  next
    case False
    then show ?thesis using w by (auto simp: p)
  qed
qed

subsection \<open>The working directory\<close>

definition cwd_ok :: "shell \<Rightarrow> bool" where
  "cwd_ok sh \<longleftrightarrow> (\<exists>ns. sh_cwd sh = render ns \<and> (\<forall>n\<in>set ns. dir_name n))"

lemma cwd_ok_new: "cwd_ok (shell_new prefix)"
  unfolding cwd_ok_def by (rule exI [of _ "[]"]) (simp add: shell_new_def render_simps)

lemma canonical_join_keeps:
  assumes "cwd_ok sh" "canonical_join dbg (sh_cwd sh) other = Inr p"
  shows "cwd_ok (sh\<lparr>sh_cwd := p\<rparr>)"
proof -
  obtain ns where ns: "sh_cwd sh = render ns" "\<forall>n\<in>set ns. dir_name n" using assms(1) by (auto simp: cwd_ok_def)
  obtain ms where ms: "walk ns (comps_of other) = Some ms" "p = render ms"
    using canonical_join_walk [OF comps_inv_start [of other] ns(2)] comps_of_names comps_of_no_prefix assms(2) ns(1)
    by (auto simp: canonical_join_def remaining_start split: option.splits)
  have "\<forall>n\<in>set ms. dir_name n" using walk_names [OF ms(1) ns(2)] comps_of_names by blast
  then show ?thesis using ms(2) by (auto simp: cwd_ok_def)
qed

lemma sh_bind_ok_iff:
  "sh_bind c f s = Some (Inr (Inr b, s')) \<longleftrightarrow> (\<exists>a s1. c s = Some (Inr (Inr a, s1)) \<and> f a s1 = Some (Inr (Inr b, s')))"
proof
  assume "sh_bind c f s = Some (Inr (Inr b, s'))"
  then obtain r s1 where "c s = Some (Inr (r, s1))"
    "(case r of Inl e \<Rightarrow> io_return (Inl e) | Inr a \<Rightarrow> f a) s1 = Some (Inr (Inr b, s'))"
    unfolding sh_bind_def io_bind_eq_ok_iff by blast
  then show "\<exists>a s1. c s = Some (Inr (Inr a, s1)) \<and> f a s1 = Some (Inr (Inr b, s'))"
    by (cases r) (auto simp: io_return_def)
next
  assume "\<exists>a s1. c s = Some (Inr (Inr a, s1)) \<and> f a s1 = Some (Inr (Inr b, s'))"
  then obtain a s1 where "c s = Some (Inr (Inr a, s1))" "f a s1 = Some (Inr (Inr b, s'))" by blast
  then show "sh_bind c f s = Some (Inr (Inr b, s'))"
    by (simp add: sh_bind_def io_bind_ok [where c = c])
qed

lemma keep_ok: "keep sh c s = Some (Inr (Inr sh', s')) \<Longrightarrow> sh' = sh"
  by (auto simp: keep_def sh_bind_ok_iff io_return_def)

lemma cd_keeps: "cd dbg fs sh args s = Some (Inr (Inr sh', s')) \<Longrightarrow> cwd_ok sh \<Longrightarrow> cwd_ok sh'"
  by (auto simp: cd_def sh_bind_ok_iff io_return_def sh_path_def intro: canonical_join_keeps split: if_splits sum.splits)

lemma dispatch_keeps:
  assumes "dispatch bus dbg fs syscall sv sh cmd s = Some (Inr (Inr sh', s'))" "cwd_ok sh"
  shows "cwd_ok sh'"
  using assms unfolding dispatch_def Let_def io_bind_eq_ok_iff
  by (auto split: if_splits dest: keep_ok cd_keeps simp: io_return_def)

text \<open>What the shell does with a line that was read.\<close>

definition eval_line ::
  "'d bus \<Rightarrow> (os_str \<Rightarrow> prefix \<Rightarrow> string) \<Rightarrow> ('d cmachine, 'dir, 'file, 'it, 'entry) fs_ops \<Rightarrow>
   (u32 \<Rightarrow> ('d cmachine, syscall_error + u32) io) \<Rightarrow> (u8 list, 's) stack_vec \<Rightarrow> shell \<Rightarrow> nat \<Rightarrow> u8 list \<Rightarrow>
   ('d cmachine, eval_status \<times> shell) sh" where
  "eval_line bus dbg fs syscall av sh n line =
     (if n = 0 then io_return (Inr (Continue, sh))
      else sh_bind (io_return (case from_utf8 (take n line) of None \<Rightarrow> Inl InvalidUtf8 | Some s \<Rightarrow> Inr s)) (\<lambda>cmd_str.
           sh_bind (io_return (command_parse av cmd_str (replicate 64 []))) (\<lambda>cmd.
           io_bind (io_lift (command_path av cmd)) (\<lambda>path.
             if path = bytes_of ''exit'' then io_return (Inr (Terminate, sh))
             else sh_bind (dispatch bus dbg fs syscall av sh cmd) (\<lambda>sh. io_return (Inr (Continue, sh)))))))"

lemma eval_line_keeps:
  assumes "eval_line bus dbg fs syscall av sh n line s = Some (Inr (Inr (status, sh'), s'))" and "cwd_ok sh"
  shows "cwd_ok sh'"
  using assms dispatch_keeps [of bus dbg fs syscall av sh]
  by (auto simp: eval_line_def sh_bind_ok_iff io_bind_eq_ok_iff io_return_def split: if_splits)

lemma eval_read:
  assumes "readline bus lv (replicate 512 0) s = Some (Inr ((Inr n, line), s1))"
  shows "eval bus dbg fs syscall lv av sh s = eval_line bus dbg fs syscall av sh n line s1"
  unfolding eval_def eval_line_def io_bind_ok [where c = "readline bus lv (replicate 512 0)", OF assms] by simp

text \<open>C36: Whatever is typed, the shell's working directory stays canonical: it starts at the root, and a
  command that succeeds leaves an absolute path without \<open>.\<close>, \<open>..\<close> or empty names (one that fails leaves the shell as it was).\<close>

theorem eval_keeps_cwd:
  assumes "eval bus dbg fs syscall lv av sh s = Some (Inr (Inr (status, sh'), s'))" and "cwd_ok sh"
  shows "cwd_ok (shell_new prefix) \<and> cwd_ok sh'"
proof
  show "cwd_ok (shell_new prefix)" by (rule cwd_ok_new)
  obtain res line s1 where r: "readline bus lv (replicate 512 0) s = Some (Inr ((res, line), s1))"
    and k: "(case res of Inl e \<Rightarrow> io_return (Inl e) | Inr n \<Rightarrow> eval_line bus dbg fs syscall av sh n line) s1 =
      Some (Inr (Inr (status, sh'), s'))"
    using assms(1) unfolding eval_def eval_line_def io_bind_eq_ok_iff by (auto simp only: prod.case)
  then show "cwd_ok sh'" using assms(2) by (cases res) (auto simp: io_return_def intro: eval_line_keeps)
qed

definition ex_fs :: "(port cmachine, unit, unit, unit, unit) fs_ops" where
  "ex_fs = \<lparr>fo_open_dir = (\<lambda>_. io_return (Inr ())), fo_open_file = (\<lambda>_. io_return (Inr ())), fo_entries = (\<lambda>_. io_return (Inr ())),
     fo_next = (\<lambda>_. io_return (None, ())), fo_hidden = (\<lambda>_. False), fo_text = (\<lambda>_. []), fo_read = (\<lambda>buf. io_return (Inr 0, buf))\<rparr>"

theorem eval_keeps_cwd_witness:
  "\<exists>s'. eval port_bus (\<lambda>_ _. []) ex_fs (\<lambda>_. io_return (Inr 0)) list_sv list_sv (shell_new [62])
      (ex_console, ex_port [99, 100, 32, 97, 13]) =
      Some (Inr (Inr (Continue, \<lparr>sh_prefix = [62], sh_cwd = render [[97]]\<rparr>), s')) \<and>
    cwd_ok \<lparr>sh_prefix = [62], sh_cwd = render [[97]]\<rparr>"
proof -
  let ?l = "[99, 100, 32, 97] :: u8 list" and ?z = "replicate 512 (0 :: u8)" and ?ab = "replicate 64 ([] :: u8 list)"
  have e0: "edit (length ?z) [] (pt_rx (ex_port [99, 100, 32, 97, 13])) = Some (Inr ?l, [99, 100, 32, 97, 13, 10], [])"
    unfolding length_replicate by (simp add: ex_port_def edit_step_def)
  obtain line s1 where r: "readline port_bus list_sv ?z (ex_console, ex_port [99, 100, 32, 97, 13]) =
      Some (Inr ((map_sum id length (Inr ?l), line), s1))" "take (length ?l) line = ?l"
    using readline_loop_edits [OF ex_uart_device list_sv_laws ex_console_ready sv_ok_new [OF list_sv_laws, of ?z] e0]
    unfolding readline_def by blast
  have r1: "readline port_bus list_sv ?z (ex_console, ex_port [99, 100, 32, 97, 13]) = Some (Inr ((Inr 4, line), s1))"
    using r(1) unfolding map_sum.simps by (simp only: id_apply list.size) simp
  have r2: "take 4 line = ?l" using r(2) by (simp add: eval_nat_numeral)
  have w: "words ?l = [[99, 100], [97]]" by (simp add: words_def)
  obtain c where c: "command_parse list_sv ?l ?ab = Inr c" "sv_slice list_sv (cmd_args c) = [[99, 100], [97]]"
    "command_path list_sv c = Inr [99, 100]"
    using command_parse_words [OF list_sv_laws, of ?l ?ab] by (auto simp: w)
  have j: "canonical_join (\<lambda>_ _. []) [47] [97] = Inr (render [[97]])"
  proof -
    have "comps_of [97] = [Normal [97]]" by (simp add: comps_of_def lead_def body_comps_def segment_def)
    then show ?thesis
      using canonical_join_walk [OF comps_inv_start [of "[97]"], of "[]" "\<lambda>_ _. []" "[97]"]
      by (simp add: canonical_join_def remaining_start render_simps dir_name_def)
  qed
  have u: "from_utf8 ?l = Some ?l" using utf8_valid_ascii [of ?l] by (simp add: from_utf8_def)
  have "dispatch port_bus (\<lambda>_ _. []) ex_fs (\<lambda>_. io_return (Inr 0)) list_sv (shell_new [62]) c s1 =
      Some (Inr (Inr \<lparr>sh_prefix = [62], sh_cwd = render [[97]]\<rparr>, s1))"
    by (simp add: dispatch_def c io_lift_def io_bind_def bytes_of_def cd_def sh_bind_def sh_io_def ex_fs_def io_return_def
        shell_new_def j sh_path_def)
  then have e: "eval port_bus (\<lambda>_ _. []) ex_fs (\<lambda>_. io_return (Inr 0)) list_sv list_sv (shell_new [62])
      (ex_console, ex_port [99, 100, 32, 97, 13]) = Some (Inr (Inr (Continue, \<lparr>sh_prefix = [62], sh_cwd = render [[97]]\<rparr>), s1))"
    unfolding eval_read [OF r1]
    by (simp add: eval_line_def r2 u c sh_bind_def io_lift_def io_bind_def io_return_def bytes_of_def)
  from eval_keeps_cwd [OF e cwd_ok_new, where prefix = "[]"] e show ?thesis by blast
qed

end
