(* ===== verification/ShellCat.thy ===== *)
theory ShellCat
  imports ShellSpec
begin

text \<open>
  What the command \<open>cat\<close> of \<open>kernel/src/shell.rs\<close> prints: the buffered reader, its lines, the console and the
  loop over the files, together. Files are what the interface \<open>open_file\<close> promises.
\<close>

subsection \<open>One file\<close>

text \<open>
  The text of a file on the console: its lines with the line ending of the console, up to a line that is not UTF-8,
  which is reported.
\<close>

function cat_text :: "u8 list \<Rightarrow> u8 list \<times> io_error option" where
  "cat_text s =
     (if s = [] then ([], None)
      else let line = through 10 s in
        if utf8_valid line
        then (case cat_text (drop (length line) s) of (out, e) \<Rightarrow> (crlf (strip_newline line @ [10]) @ out, e))
        else ([], Some (error_new InvalidData ''stream did not contain valid UTF-8'')))"
  by pat_completeness auto

termination
  by (relation "measure length") auto

declare cat_text.simps [simp del]

text \<open>
  A file that can be read: a read delivers the next bytes and, whatever it does to the card, leaves the console
  ready and its output as it was. \<open>out\<close> is what the console has sent when the file is read.
\<close>

locale open_file =
  fixes rd :: "('file \<times> 'd cmachine) reader" and ok :: "'file \<Rightarrow> bool" and content :: "'file \<Rightarrow> u8 list"
    and u :: mini_uart and tx :: "'d \<Rightarrow> u8 list" and out :: "u8 list"
  assumes file_read: "ok f \<Longrightarrow> console_ready u x \<Longrightarrow>
    \<exists>n buf' f' x' d'. rd buf (f, (x, d)) = Some (Inr ((Inr n, buf'), (f', (x', d')))) \<and> length buf' = length buf \<and>
      n \<le> length buf \<and> n \<le> length (content f) \<and> take n buf' = take n (content f) \<and>
      (n = 0 \<longrightarrow> content f = [] \<or> buf = []) \<and> content f' = drop n (content f) \<and> ok f' \<and>
      console_ready u x' \<and> tx d' = tx d"

definition file_inv ::
  "('file \<Rightarrow> bool) \<Rightarrow> mini_uart \<Rightarrow> ('d \<Rightarrow> u8 list) \<Rightarrow> u8 list \<Rightarrow> 'file \<times> 'd cmachine \<Rightarrow> bool" where
  "file_inv ok u tx out s \<longleftrightarrow> (case s of (f, (x, d)) \<Rightarrow> ok f \<and> console_ready u x \<and> tx d = out)"

definition file_src :: "('file \<Rightarrow> u8 list) \<Rightarrow> 'file \<times> 'm \<Rightarrow> u8 list" where
  "file_src content s = content (fst s)"

sublocale open_file \<subseteq> buffered rd "file_inv ok u tx out" "file_src content"
proof
  fix s :: "'file \<times> 'd cmachine" and buf :: "u8 list"
  assume i: "file_inv ok u tx out s"
  obtain f x d where s: "s = (f, (x, d))" by (metis prod_cases3)
  have "ok f" "console_ready u x" "tx d = out" using i by (simp_all add: s file_inv_def)
  then show "\<exists>n buf' d'. rd buf s = Some (Inr ((Inr n, buf'), d')) \<and> length buf' = length buf \<and>
      n \<le> length buf \<and> n \<le> length (file_src content s) \<and> take n buf' = take n (file_src content s) \<and>
      (n = 0 \<longrightarrow> file_src content s = [] \<or> buf = []) \<and> file_src content d' = drop n (file_src content s) \<and>
      file_inv ok u tx out d'"
    using file_read [of f x buf d] by (fastforce simp: s file_inv_def file_src_def)
qed

context open_file
begin

lemma next_line:
  assumes "br_inv (file_inv ok u tx out) s"
  shows "\<exists>s'. lines_next (bufreader rd) s =
      Some (Inr (if br_src (file_src content) s = [] then None
         else if utf8_valid (through 10 (br_src (file_src content) s))
         then Some (Inr (strip_newline (through 10 (br_src (file_src content) s))))
         else Some (Inl (error_new InvalidData ''stream did not contain valid UTF-8'')), s')) \<and>
    br_src (file_src content) s' = drop (length (through 10 (br_src (file_src content) s))) (br_src (file_src content) s) \<and>
    br_inv (file_inv ok u tx out) s'"
  using assms by (rule buf.lines_next_source)

lemma buffer_start:
  assumes "ok f" "console_ready u x" "tx d = out"
  shows "br_inv (file_inv ok u tx out) (bufreader_new, (f, (x, d)))" "br_src (file_src content) (bufreader_new, (f, (x, d))) = content f"
  using assms by (simp_all add: br_inv_def file_inv_def br_src_def file_src_def bufreader_new_def bufreader_with_capacity_def DEFAULT_BUF_SIZE_def)

end

lemma kprintln_sends:
  assumes "uart_device bus (mu_registers u) rx tx busy lag" and "console_ready u x"
  shows "\<exists>x' d'. kprintln bus line (x, d) = Some (Inr ((), (x', d'))) \<and> tx d' = tx d @ crlf (line @ [10]) \<and> console_ready u x'"
  using print_str_sends [OF assms(1), of x "line @ [10]" d] assms(2) by (auto simp: kprintln_def console_ready_def)

text \<open>A line printed between two reads: the file and the buffer stay, the output grows.\<close>

lemma on_machine_print:
  assumes "uart_device bus (mu_registers u) rx tx busy lag" and "br_inv (file_inv ok u tx out) s"
  shows "\<exists>s'. on_machine (kprintln bus line) s = Some (Inr ((), s')) \<and> br_inv (file_inv ok u tx (out @ crlf (line @ [10]))) s' \<and>
    br_src (file_src content) s' = br_src (file_src content) s"
proof -
  obtain b f x d where s: "s = (b, (f, (x, d)))" by (metis prod_cases4)
  have i: "console_ready u x" "tx d = out" "ok f" using assms(2) by (auto simp: s br_inv_def file_inv_def)
  obtain x' d' where p: "kprintln bus line (x, d) = Some (Inr ((), (x', d')))" "tx d' = out @ crlf (line @ [10])" "console_ready u x'"
    using kprintln_sends [OF assms(1) i(1), of line d] i(2) by blast
  have "on_machine (kprintln bus line) s = Some (Inr ((), (b, (f, (x', d')))))"
    unfolding s on_machine_def
    by (intro on_inner_ok [where c = "on_inner (kprintln bus line)"] on_inner_ok [where c = "kprintln bus line"] p(1))
  then show ?thesis
    using assms(2) p i(3) by (auto simp: s br_inv_def file_inv_def br_src_def file_src_def)
qed

lemma cat_lines_prints:
  assumes dev: "uart_device bus (mu_registers u) rx tx busy lag" and opened: "open_file rd ok content u tx"
  shows "br_inv (file_inv ok u tx out) s \<Longrightarrow>
    \<exists>s'. cat_lines bus rd s =
        Some (Inr (case snd (cat_text (br_src (file_src content) s)) of None \<Rightarrow> Inr () | Some e \<Rightarrow> Inl e, s')) \<and>
      br_inv (file_inv ok u tx (out @ fst (cat_text (br_src (file_src content) s)))) s'"
proof (induction "length (br_src (file_src content) s)" arbitrary: s out rule: less_induct)
  case less
  let ?src = "br_src (file_src content) s" and ?line = "through 10 (br_src (file_src content) s)"
  obtain s1 where s1: "lines_next (bufreader rd) s =
      Some (Inr (if ?src = [] then None else if utf8_valid ?line then Some (Inr (strip_newline ?line))
         else Some (Inl (error_new InvalidData ''stream did not contain valid UTF-8'')), s1))"
    "br_src (file_src content) s1 = drop (length ?line) ?src" "br_inv (file_inv ok u tx out) s1"
    using open_file.next_line [OF opened less.prems] by blast
  note run = cat_lines.simps [of bus rd s, unfolded io_bind_ok [where c = "lines_next (bufreader rd)", OF s1(1)]]
  show ?case
  proof (cases "?src \<noteq> [] \<and> utf8_valid ?line")
    case False
    then show ?thesis
      using s1(3) by (intro exI [of _ s1]) (auto simp: run io_return_def cat_text.simps [of ?src] Let_def)
  next
    case True
    obtain s2 where s2: "on_machine (kprintln bus (strip_newline ?line)) s1 = Some (Inr ((), s2))"
      "br_inv (file_inv ok u tx (out @ crlf (strip_newline ?line @ [10]))) s2"
      "br_src (file_src content) s2 = drop (length ?line) ?src"
      using on_machine_print [OF dev s1(3), of "strip_newline ?line" content] s1(2) by auto
    have "length (br_src (file_src content) s2) < length ?src" using True by (simp add: s2(3))
    from less.hyps [OF this s2(2)] obtain s3 where s3:
      "cat_lines bus rd s2 = Some (Inr (case snd (cat_text (drop (length ?line) ?src)) of None \<Rightarrow> Inr () | Some e \<Rightarrow> Inl e, s3))"
      "br_inv (file_inv ok u tx ((out @ crlf (strip_newline ?line @ [10])) @ fst (cat_text (drop (length ?line) ?src)))) s3"
      unfolding s2(3) by blast
    have "cat_lines bus rd s = cat_lines bus rd s2"
      using True by (simp add: run io_then_ok [where c = "on_machine (kprintln bus (strip_newline ?line))", OF s2(1)])
    then show ?thesis using True s3 by (simp add: cat_text.simps [of ?src] Let_def split_beta)
  qed
qed

lemma cat_file_prints:
  assumes "uart_device bus (mu_registers u) rx tx busy lag" and "open_file rd ok content u tx"
    and "ok f" and "console_ready u x"
  shows "\<exists>x' d'. cat_file bus rd f (x, d) = Some (Inr (case snd (cat_text (content f)) of None \<Rightarrow> Inr () | Some e \<Rightarrow> Inl e, (x', d'))) \<and>
    tx d' = tx d @ fst (cat_text (content f)) \<and> console_ready u x'"
proof -
  note st = open_file.buffer_start [OF assms(2-4) refl, of d]
  obtain s' where s': "cat_lines bus rd (bufreader_new, (f, (x, d))) =
      Some (Inr (case snd (cat_text (content f)) of None \<Rightarrow> Inr () | Some e \<Rightarrow> Inl e, s'))"
    "br_inv (file_inv ok u tx (tx d @ fst (cat_text (content f)))) s'"
    using cat_lines_prints [OF assms(1,2) st(1)] unfolding st(2) by blast
  obtain b f' x' d' where "s' = (b, (f', (x', d')))" by (metis prod_cases4)
  then show ?thesis using s' by (auto simp: cat_file_def br_inv_def file_inv_def)
qed

subsection \<open>The command\<close>

text \<open>
  What the file system answers: a path opens as a file with a content, or with an error that has a text. Opening leaves
  the console as it was.
\<close>

definition serves ::
  "('d cmachine, 'dir, 'file, 'it, 'entry) fs_ops \<Rightarrow> ('file \<Rightarrow> bool) \<Rightarrow> ('file \<Rightarrow> u8 list) \<Rightarrow> mini_uart \<Rightarrow> ('d \<Rightarrow> u8 list) \<Rightarrow>
   (os_str \<Rightarrow> io_error + u8 list) \<Rightarrow> bool" where
  "serves fs ok content u tx files \<longleftrightarrow>
     (\<forall>p x d. console_ready u x \<longrightarrow>
        (\<exists>r x' d'. fo_open_file fs p (x, d) = Some (Inr (r, (x', d'))) \<and> console_ready u x' \<and> tx d' = tx d \<and>
           (case files p of
              Inl e \<Rightarrow> r = Inl e \<and> (\<exists>t. io_error_text e = Inr t)
            | Inr c \<Rightarrow> \<exists>f. r = Inr f \<and> ok f \<and> content f = c)))"

definition error_line :: "os_str \<Rightarrow> io_error \<Rightarrow> u8 list" where
  "error_line p e = path_display p @ bytes_of ('': '' @ (case io_error_text e of Inr t \<Rightarrow> t | Inl _ \<Rightarrow> []))"

fun cat_output :: "(os_str \<Rightarrow> io_error + u8 list) \<Rightarrow> os_str list \<Rightarrow> u8 list \<times> io_error option" where
  "cat_output files [] = ([], None)"
| "cat_output files (p # ps) =
     (case files p of
        Inl e \<Rightarrow> (crlf (error_line p e @ [10]) @ fst (cat_output files ps), snd (cat_output files ps))
      | Inr c \<Rightarrow>
          (case cat_text c of
             (out, Some e) \<Rightarrow> (out, Some e)
           | (out, None) \<Rightarrow> (out @ fst (cat_output files ps), snd (cat_output files ps))))"

lemma sh_bind_ok: "c s = Some (Inr (Inr a, s')) \<Longrightarrow> sh_bind c f s = f a s'"
  by (simp add: sh_bind_def io_bind_def)

lemma cat_files_prints:
  assumes dev: "uart_device bus (mu_registers u) rx tx busy lag" and opened: "open_file (fo_read fs) ok content u tx"
    and serves: "serves fs ok content u tx files"
  shows "console_ready u x \<Longrightarrow>
    \<exists>x' d'. cat_files bus fs ps (x, d) =
        Some (Inr (case snd (cat_output files ps) of None \<Rightarrow> Inr () | Some e \<Rightarrow> Inl (Io e), (x', d'))) \<and>
      tx d' = tx d @ fst (cat_output files ps) \<and> console_ready u x'"
proof (induction ps arbitrary: x d)
  case Nil
  then show ?case by (simp add: io_return_def)
next
  case (Cons p ps)
  obtain r x1 d1 where r: "fo_open_file fs p (x, d) = Some (Inr (r, (x1, d1)))" "console_ready u x1" "tx d1 = tx d"
    and f: "case files p of Inl e \<Rightarrow> r = Inl e \<and> (\<exists>t. io_error_text e = Inr t) | Inr c \<Rightarrow> \<exists>f. r = Inr f \<and> ok f \<and> content f = c"
    using serves Cons.prems unfolding serves_def by blast
  note run = cat_files.simps(2) [of bus fs p ps] io_bind_ok [where c = "fo_open_file fs p", OF r(1)]
  show ?case
  proof (cases "files p")
    case (Inl e)
    then obtain t where t: "r = Inl e" "io_error_text e = Inr t" using f by auto
    obtain x2 d2 where p: "kprintln bus (error_line p e) (x1, d1) = Some (Inr ((), (x2, d2)))"
      "tx d2 = tx d @ crlf (error_line p e @ [10])" "console_ready u x2"
      using kprintln_sends [OF dev r(2), of "error_line p e" d1] r(3) by auto
    have "cat_files bus fs (p # ps) (x, d) = cat_files bus fs ps (x2, d2)"
      using io_then_ok [where c = "kprintln bus (error_line p e)", OF p(1)]
      by (simp add: run t error_line_def)
    then show ?thesis using Cons.IH [OF p(3), of d2] p(2) by (simp add: Inl)
  next
    case (Inr c)
    then obtain g where g: "r = Inr g" "ok g" "content g = c" using f by auto
    obtain x2 d2 where p: "cat_file bus (fo_read fs) g (x1, d1) =
        Some (Inr (case snd (cat_text c) of None \<Rightarrow> Inr () | Some e \<Rightarrow> Inl e, (x2, d2)))"
      "tx d2 = tx d @ fst (cat_text c)" "console_ready u x2"
      using cat_file_prints [OF dev opened g(2) r(2), of d1] r(3) g(3) by auto
    obtain out e where ct: "cat_text c = (out, e)" by (cases "cat_text c")
    have io: "sh_io (cat_file bus (fo_read fs) g) (x1, d1) =
        Some (Inr (case e of None \<Rightarrow> Inr () | Some e \<Rightarrow> Inl (Io e), (x2, d2)))"
      using p(1) ct by (cases e) (simp_all add: sh_io_def io_bind_def io_return_def)
    show ?thesis
    proof (cases e)
      case None
      have "cat_files bus fs (p # ps) (x, d) = cat_files bus fs ps (x2, d2)"
        by (simp add: run g(1) sh_bind_ok [where c = "sh_io (cat_file bus (fo_read fs) g)", OF io [unfolded None option.case]])
      then show ?thesis using Cons.IH [OF p(3), of d2] p(2) ct None by (simp add: Inr)
    next
      case (Some err)
      then show ?thesis
        using io p(2,3) ct by (simp add: run(1) io_bind_def r(1) g(1) Inr sh_bind_def io_return_def)
    qed
  qed
qed

text \<open>C37: What \<open>cat\<close> prints. Each path joined to the working directory is opened in turn: the lines of a file appear on the
  console complete and in order with the console's line ending, whatever the sizes of the reads behind the buffer; a path
  that does not open is reported and skipped; a line that is not UTF-8 ends the command with its error. The
  command always returns.\<close>

theorem cat_prints:
  assumes "uart_device bus (mu_registers u) rx tx busy lag" and "open_file (fo_read fs) ok content u tx"
    and "serves fs ok content u tx files" and "console_ready u x"
    and "args \<noteq> []" and "join_all dbg (sh_cwd sh) args = Inr paths"
  shows "\<exists>x' d'. cat bus dbg fs sh args (x, d) =
      Some (Inr (case snd (cat_output files paths) of None \<Rightarrow> Inr () | Some e \<Rightarrow> Inl (Io e), (x', d'))) \<and>
    tx d' = tx d @ fst (cat_output files paths) \<and> console_ready u x'"
proof -
  have "cat bus dbg fs sh args (x, d) = cat_files bus fs paths (x, d)"
    using assms(5,6) by (simp add: cat_def sh_bind_ok [where c = "io_return (Inr paths)"] io_return_def)
  then show ?thesis using cat_files_prints [OF assms(1-4), of paths d] by simp
qed

text \<open>Files held as byte slices.\<close>

definition slice_file_read :: "(u8 list \<times> 'd cmachine) reader" where
  "slice_file_read buf = io_zoom fst (\<lambda>f (_, m). (f, m)) (slice_read buf)"

interpretation slice_file: open_file slice_file_read "\<lambda>_. True" "\<lambda>f. f" u tx out for u tx out
proof
  fix f :: "u8 list" and x and buf :: "u8 list" and d
  assume "console_ready u x"
  then show "\<exists>n buf' f' x' d'. slice_file_read buf (f, (x, d)) = Some (Inr ((Inr n, buf'), (f', (x', d')))) \<and> length buf' = length buf \<and>
      n \<le> length buf \<and> n \<le> length f \<and> take n buf' = take n f \<and> (n = 0 \<longrightarrow> f = [] \<or> buf = []) \<and> f' = drop n f \<and> True \<and>
      console_ready u x' \<and> tx d' = tx d"
    using slice_source.read_law [of buf f] by (fastforce simp: slice_file_read_def io_zoom_def)
qed

definition ex_files :: "os_str \<Rightarrow> io_error + u8 list" where
  "ex_files p = (if p = [47, 97] then Inr [104, 105, 13, 10, 111, 107] else Inl (Simple NotFound))"

definition ex_slice_fs :: "(port cmachine, unit, u8 list, unit, unit) fs_ops" where
  "ex_slice_fs = \<lparr>fo_open_dir = (\<lambda>_. io_return (Inr ())), fo_open_file = (\<lambda>p. io_return (ex_files p)), fo_entries = (\<lambda>_. io_return (Inr ())),
     fo_next = (\<lambda>_. io_return (None, ())), fo_hidden = (\<lambda>_. False), fo_text = (\<lambda>_. []), fo_read = slice_file_read\<rparr>"

theorem cat_prints_witness:
  "\<exists>x' d'. cat port_bus (\<lambda>_ _. []) ex_slice_fs (shell_new [62]) [[97]] (ex_console, ex_port []) = Some (Inr (Inr (), (x', d'))) \<and>
    pt_tx d' = [104, 105, 13, 10, 111, 107, 13, 10]"
proof -
  have s: "serves ex_slice_fs (\<lambda>_. True) (\<lambda>f. f) ex_uart pt_tx ex_files"
    unfolding serves_def by (auto simp: ex_slice_fs_def io_return_def ex_files_def io_error_text_def as_str_def split: sum.splits)
  have o: "open_file (fo_read ex_slice_fs) (\<lambda>_. True) (\<lambda>f. f) ex_uart pt_tx"
    using slice_file.open_file_axioms by (simp add: ex_slice_fs_def)
  have c: "comps_of [97] = [Normal [97]]" by (simp add: comps_of_def lead_def body_comps_def segment_def)
  have j: "join_all (\<lambda>_ _. []) (sh_cwd (shell_new [62])) [[97]] = Inr [[47, 97]]"
    using canonical_join_walk [OF comps_inv_start [of "[97]"], of "[]" "\<lambda>_ _. []" "[97]"] c
    by (simp add: canonical_join_def remaining_start render_simps dir_name_def shell_new_def sh_path_def)
  have v: "utf8_valid [104, 105, 13, 10]" "utf8_valid [111, 107]" by (simp_all add: utf8_valid_ascii)
  have t: "cat_text [104, 105, 13, 10, 111, 107] = ([104, 105, 13, 10, 111, 107, 13, 10], None)"
    using v by (simp add: cat_text.simps through_def strip_newline_def crlf_def Let_def)
  have "cat_output ex_files [[47, 97]] = ([104, 105, 13, 10, 111, 107, 13, 10], None)"
    by (simp add: ex_files_def t)
  then show ?thesis
    using cat_prints [OF ex_uart_device o s ex_console_ready _ j, of "ex_port []"] by (auto simp: ex_port_def)
qed

end
