(* ===== verification/Fs.thy ===== *)
theory Fs
  imports Timer IoError MutexModel
begin

text \<open>
  The SD card and the file system of the kernel, \<open>kernel/src/fs/{sd,mod}.rs\<close>. The controller's C
  functions (\<open>sd_init\<close>, \<open>sd_readsector\<close>, \<open>sd_err\<close>) and the FAT32 crate (\<open>VFat::from\<close>, \<open>open\<close>) are
  not part of the repository: they are arguments.
\<close>

subsection \<open>The SD card\<close>

definition wait_micros :: "'d bus \<Rightarrow> u32 \<Rightarrow> ('d, unit) io" where
  "wait_micros bus us = spin_sleep_us bus (ucast (100 * us))"

datatype sd_error = Timeout | Control | Unknown i32

definition sd_error_from :: "i32 \<Rightarrow> sd_error option" where
  "sd_error_from n =
     (if 0 <=s n then None
      else if n = - 1 then Some Timeout
      else if n = - 2 then Some Control
      else Some (Unknown n))"

datatype sd = Sd

definition sd_new :: "('d, i32) io \<Rightarrow> ('d, sd_error + sd) io" where
  "sd_new sd_init =
     io_bind sd_init (\<lambda>r. io_return (case sd_error_from r of Some err \<Rightarrow> Inl err | None \<Rightarrow> Inr Sd))"

definition read_sector ::
  "(i32 \<Rightarrow> u8 list \<Rightarrow> ('d, i32 \<times> u8 list) io) \<Rightarrow> ('d \<Rightarrow> i64) \<Rightarrow> sd \<Rightarrow> u64 \<Rightarrow> u8 list \<Rightarrow>
   ('d, usize io_result \<times> u8 list) io" where
  "read_sector sd_readsector sd_err sd sector buf =
     (if sector > 0x7FFFFFFF \<or> length buf < 512 then io_return (Inl (error_from_kind InvalidInput), buf)
      else io_bind (sd_readsector (ucast sector) buf) (\<lambda>(n, buf).
        if n = 0
        then io_bind (io_state (\<lambda>d. (sd_err d, d))) (\<lambda>code.
               case sd_error_from (scast code) of
                 None \<Rightarrow> io_panic ''internal error: entered unreachable code: error code must be less than 0''
               | Some Timeout \<Rightarrow> io_return (Inl (error_from_kind TimedOut), buf)
               | Some Control \<Rightarrow> io_return (Inl (error_new OtherKind ''control error''), buf)
               | Some (Unknown n) \<Rightarrow> io_return (Inl (error_new OtherKind (''unknown error code: '' @ show_i32 n)), buf))
        else io_return (Inr (scast n), buf)))"

definition write_sector :: "sd \<Rightarrow> u64 \<Rightarrow> u8 list \<Rightarrow> ('d, usize io_result) io" where
  "write_sector sd n buf = io_panic ''not yet implemented: SD card and file system are read only''"

subsection \<open>The file system\<close>

type_synonym ('v, 'd) fs_state = "('v option) mutex \<times> 'd"

definition fs_uninitialized :: "('v option) mutex" where
  "fs_uninitialized = mutex_new None"

text \<open>A statement with a guard of the file system's mutex.\<close>

definition on_fs :: "('v option \<Rightarrow> ('d, 'a \<times> 'v option) io) \<Rightarrow> (('v, 'd) fs_state, 'a) io" where
  "on_fs f s =
     map_option (\<lambda>r. and_then r (\<lambda>((a, d), x). Inr (a, (x, d))))
       (with_lock (\<lambda>v. map_option (\<lambda>r. and_then r (\<lambda>((a, v), d). Inr ((a, d), v))) (f v (snd s))) (fst s))"

definition on_sd :: "('d, 'a) io \<Rightarrow> (('v, 'd) fs_state, 'a) io" where
  "on_sd = io_zoom snd (\<lambda>d (x, _). (x, d))"

definition fs_initialize :: "('d, i32) io \<Rightarrow> (sd \<Rightarrow> ('d, 'e + 'v) io) \<Rightarrow> (('v, 'd) fs_state, unit) io" where
  "fs_initialize sd_init vfat_from =
     io_bind (on_sd (sd_new sd_init)) (\<lambda>r.
       case r of
         Inl _ \<Rightarrow> io_panic ''sd init''
       | Inr sd \<Rightarrow> io_bind (on_sd (vfat_from sd)) (\<lambda>v.
           case v of
             Inl _ \<Rightarrow> io_panic ''vfat init''
           | Inr vfat \<Rightarrow> on_fs (\<lambda>opt. io_return ((), case opt of None \<Rightarrow> Some vfat | Some v \<Rightarrow> Some v))))"

definition fs_open :: "('p \<Rightarrow> 'v \<Rightarrow> ('d, 'entry io_result) io) \<Rightarrow> 'p \<Rightarrow> (('v, 'd) fs_state, 'entry io_result) io" where
  "fs_open vfat_open path =
     on_fs (\<lambda>opt.
       case opt of
         None \<Rightarrow> io_panic ''called `Option::unwrap()` on a `None` value''
       | Some v \<Rightarrow> io_bind (vfat_open path v) (\<lambda>r. io_return (r, Some v)))"

definition fs_create_file :: "'p \<Rightarrow> (('v, 'd) fs_state, 'file io_result) io" where
  "fs_create_file path = io_panic ''not yet implemented: read only file system''"

definition fs_create_dir :: "'p \<Rightarrow> bool \<Rightarrow> (('v, 'd) fs_state, 'dir io_result) io" where
  "fs_create_dir path parents = io_panic ''not yet implemented: read only file system''"

definition fs_rename :: "'p \<Rightarrow> 'p \<Rightarrow> (('v, 'd) fs_state, unit io_result) io" where
  "fs_rename from to = io_panic ''not yet implemented: read only file system''"

definition fs_remove :: "'p \<Rightarrow> bool \<Rightarrow> (('v, 'd) fs_state, unit io_result) io" where
  "fs_remove path children = io_panic ''not yet implemented: read only file system''"

subsection \<open>Reading a sector\<close>

text \<open>
  What the controller's documentation promises of \<open>sd_readsector\<close>: given at least 512 bytes it
  returns a positive count with the buffer's length kept, or 0 with a negative error code in \<open>sd_err\<close>. That
  the code fits in 32 bits is not promised.
\<close>

definition sd_contract ::
  "(i32 \<Rightarrow> u8 list \<Rightarrow> ('d, i32 \<times> u8 list) io) \<Rightarrow> ('d \<Rightarrow> i64) \<Rightarrow> bool" where
  "sd_contract sd_readsector sd_err \<longleftrightarrow>
     (\<forall>n buf d. 0 <=s n \<longrightarrow> 512 \<le> length buf \<longrightarrow>
        (\<exists>r buf' d'. sd_readsector n buf d = Some (Inr ((r, buf'), d')) \<and> length buf' = length buf \<and>
           (0 <s r \<or> r = 0 \<and> sd_err d' <s 0)))"

lemma sint_shift: "sint (w :: i32) = (uint w + 2 ^ 31) mod 2 ^ 32 - 2 ^ 31"
  by (simp add: sint_uint signed_take_bit_eq_take_bit_shift take_bit_eq_mod)

lemma sint_small: "uint (w :: i32) < 2 ^ 31 \<Longrightarrow> sint w = uint w"
  by (simp add: sint_shift)

lemma sint_large: "\<not> uint (w :: i32) < 2 ^ 31 \<Longrightarrow> sint w = uint w - 2 ^ 32"
proof -
  assume a: "\<not> uint w < 2 ^ 31"
  have "uint w < 2 ^ 32" using uint_lt2p [of w] by simp
  then have "(uint w + 2 ^ 31) mod 2 ^ 32 = uint w + 2 ^ 31 - 2 ^ 32" using a by (simp add: mod_pos_geq)
  then show ?thesis by (simp add: sint_shift)
qed

lemma count_fits:
  assumes "0 <s (r :: i32)"
  shows "uint (scast r :: usize) = sint r"
proof -
  have "sint r = uint r"
    using assms sint_small [of r] sint_large [of r] uint_lt2p [of r]
    by (cases "uint r < 2 ^ 31") (auto simp: word_sless_alt)
  moreover have "0 \<le> sint r" "sint r < 2 ^ 31" using assms sint_lt [of r] by (simp_all add: word_sless_alt)
  ultimately show ?thesis by (simp add: scast_eq unsigned_ucast_eq uint_word_of_int take_bit_int_eq_self)
qed

lemma sector_fits:
  assumes "sector \<le> (0x7FFFFFFF :: u64)"
  shows "uint (ucast sector :: i32) = uint sector" "0 <=s (ucast sector :: i32)"
proof -
  show u: "uint (ucast sector :: i32) = uint sector"
    using assms by (simp add: word_le_def unsigned_ucast_eq take_bit_int_eq_self)
  show "0 <=s (ucast sector :: i32)"
    using sint_small [of "ucast sector"] assms u by (simp add: word_sle_eq word_le_def)
qed

lemma code_fits:
  "- (2 ^ 31) \<le> sint code \<Longrightarrow> code <s (0 :: i64) \<Longrightarrow> sint (scast code :: i32) = sint code"
  by (simp add: signed_scast_eq word_sless_alt signed_take_bit_int_eq_self)

lemma code_kind:
  assumes "- (2 ^ 31) \<le> sint (code :: i64)" "code <s 0"
  shows "\<exists>e. sd_error_from (scast code) = Some e \<and> (e = Timeout \<longleftrightarrow> code = - 1)"
proof -
  have s: "sint (scast code :: i32) = sint code" by (rule code_fits [OF assms])
  then have "\<not> 0 <=s (scast code :: i32)" using assms(2) by (simp add: word_sle_eq word_sless_alt)
  moreover have "(scast code :: i32) = - 1 \<longleftrightarrow> code = - 1"
  proof
    assume "(scast code :: i32) = - 1"
    then have "sint code = sint (- 1 :: i64)" using s by simp
    then show "code = - 1" by (rule signed_word_eqI)
  qed simp
  ultimately show ?thesis by (auto simp: sd_error_from_def)
qed

text \<open>C39: Reading a sector. A sector number beyond \<open>i32::MAX\<close> or a buffer below 512 bytes is refused as
  invalid input without touching the card. Otherwise the card is asked for that very sector; a
  positive count is returned as it is, and a failure, whose code fits in 32 bits, becomes a
  time-out exactly for the code -1 and another error for every other code.\<close>

theorem read_sector_outcome:
  assumes "sd_contract sd_readsector sd_err"
  shows "if sector > 0x7FFFFFFF \<or> length buf < 512
    then read_sector sd_readsector sd_err sd sector buf d = Some (Inr ((Inl (Simple InvalidInput), buf), d))
    else \<exists>r buf' d'. sd_readsector (ucast sector) buf d = Some (Inr ((r, buf'), d')) \<and>
      uint (ucast sector :: i32) = uint sector \<and> length buf' = length buf \<and>
      (0 <s r \<longrightarrow> (\<exists>n. read_sector sd_readsector sd_err sd sector buf d = Some (Inr ((Inr n, buf'), d')) \<and> uint n = sint r)) \<and>
      (\<not> 0 <s r \<and> - (2 ^ 31) \<le> sint (sd_err d') \<longrightarrow>
         (\<exists>e. read_sector sd_readsector sd_err sd sector buf d = Some (Inr ((Inl e, buf'), d')) \<and>
              kind e = (if sd_err d' = - 1 then TimedOut else OtherKind)))"
proof (cases "sector > 0x7FFFFFFF \<or> length buf < 512")
  case True
  then show ?thesis by (auto simp: read_sector_def io_return_def error_from_kind_def)
next
  case False
  then have s: "sector \<le> 0x7FFFFFFF" "512 \<le> length buf" by auto
  obtain r buf' d' where r: "sd_readsector (ucast sector) buf d = Some (Inr ((r, buf'), d'))"
    "length buf' = length buf" "0 <s r \<or> r = 0 \<and> sd_err d' <s 0"
    using assms sector_fits(2)[OF s(1)] s(2) unfolding sd_contract_def by blast
  note run = io_bind_ok [where c = "sd_readsector (ucast sector) buf", OF r(1)]
  have ok: "read_sector sd_readsector sd_err sd sector buf d = Some (Inr ((Inr (scast r), buf'), d'))" if "0 <s r"
    using False that by (auto simp: read_sector_def run io_return_def)
  have err: "\<exists>e. read_sector sd_readsector sd_err sd sector buf d = Some (Inr ((Inl e, buf'), d')) \<and>
      kind e = (if sd_err d' = - 1 then TimedOut else OtherKind)"
    if neg: "\<not> 0 <s r" and fits: "- (2 ^ 31) \<le> sint (sd_err d')"
  proof -
    from neg r(3) have z: "r = 0" "sd_err d' <s 0" by auto
    obtain e where e: "sd_error_from (scast (sd_err d')) = Some e" "e = Timeout \<longleftrightarrow> sd_err d' = - 1"
      using code_kind [OF fits z(2)] by blast
    then show ?thesis
      using False z(1) by (cases e) (auto simp: read_sector_def run io_return_def)
  qed
  show ?thesis
    using False r(1,2) sector_fits(1)[OF s(1)] ok err count_fits [of r] by auto
qed

definition ex_block :: "u8 \<Rightarrow> u8 list" where
  "ex_block b = replicate 512 b"

definition ex_readsector :: "i32 \<Rightarrow> u8 list \<Rightarrow> (u8, i32 \<times> u8 list) io" where
  "ex_readsector n buf d = (if n = 0 then Some (Inr ((512, ex_block d @ drop 512 buf), d)) else Some (Inr ((0, buf), 0)))"

lemma length_ex_block: "length (ex_block b) = 512"
  unfolding ex_block_def by (rule length_replicate)

theorem read_sector_outcome_witness:
  "read_sector ex_readsector (\<lambda>_. - 1) Sd 0 (ex_block 0) 7 = Some (Inr ((Inr 512, ex_block 7), 7)) \<and>
   (\<exists>e. read_sector ex_readsector (\<lambda>_. - 1) Sd 5 (ex_block 0) 7 = Some (Inr ((Inl e, ex_block 0), 0)) \<and> kind e = TimedOut)"
proof -
  have c: "sd_contract ex_readsector (\<lambda>_. - 1)"
    unfolding sd_contract_def
  proof (intro allI impI)
    fix n :: i32 and buf :: "u8 list" and d :: u8
    assume "512 \<le> length buf"
    then show "\<exists>r buf' d'. ex_readsector n buf d = Some (Inr ((r, buf'), d')) \<and> length buf' = length buf \<and>
        (0 <s r \<or> r = 0 \<and> (- 1 :: i64) <s 0)"
      by (cases "n = 0") (simp_all add: ex_readsector_def length_ex_block word_sless_alt)
  qed
  have n: "uint n = sint (512 :: i32) \<Longrightarrow> n = 512" for n :: usize by (auto intro: word_uint_eqI)
  have e: "ex_readsector 5 (ex_block 0) 7 = Some (Inr ((0, ex_block 0), 0))"
    "ex_readsector 0 (ex_block 0) 7 = Some (Inr ((512, ex_block 7), 7))"
    by (simp_all add: ex_readsector_def length_ex_block)
  show ?thesis
    using read_sector_outcome [OF c, of 0 "ex_block 0" Sd 7] read_sector_outcome [OF c, of 5 "ex_block 0" Sd 7] n
    by (auto simp: e word_sless_alt length_ex_block)
qed

end
