(* ===== verification/Kernel.thy ===== *)
theory Kernel
  imports Scheduler Fs Shell
begin

text \<open>
  The kernel as a whole, \<open>kernel/src/kmain.rs\<close>: the globals (allocator, file system, scheduler) and the
  devices are one state, and \<open>kmain\<close> composes the initializations of the components up to the jump
  into the first process. The processes are shells, \<open>start_shell_1\<close> and \<open>start_shell_2\<close> of
  \<open>kernel/src/process/scheduler.rs\<close>. Mounting the file system (\<open>VFat::from\<close>, not part of the repository) uses the
  kernel heap and the devices.
\<close>

record ('v, 'w, 'd) kernel =
  kn_fs :: "('v option) mutex"
  kn_scheduler :: "'w gscheduler"
  kn_heap :: kernel_heap
  kn_dev :: 'd

definition kmain ::
  "'d bus \<Rightarrow> usize \<Rightarrow> usize \<Rightarrow> bytes \<Rightarrow> ('d, i32) io \<Rightarrow> (sd \<Rightarrow> (kernel_heap \<times> 'd, 'e + 'v) io) \<Rightarrow> u64 \<Rightarrow> u64 \<Rightarrow>
   (('v, 'w, 'd) kernel, trap_frame) io" where
  "kmain bus end_sym loc tags sd_init vfat_from shell_1 shell_2 =
     io_then (io_zoom kn_dev (\<lambda>d k. k\<lparr>kn_dev := d\<rparr>) (spin_sleep_ms bus 1000))
     (io_then (\<lambda>k. map_option (\<lambda>r. and_then r (\<lambda>h. Inr ((), k\<lparr>kn_heap := h\<rparr>))) (initialize end_sym loc tags (kn_heap k)))
     (io_then (io_zoom (\<lambda>k. (kn_fs k, (kn_heap k, kn_dev k))) (\<lambda>(f, (h, d)) k. k\<lparr>kn_fs := f, kn_heap := h, kn_dev := d\<rparr>)
        (fs_initialize (io_zoom snd (\<lambda>d (h, _). (h, d)) sd_init) vfat_from))
     (io_zoom (\<lambda>k. (kn_scheduler k, kn_heap k, kn_dev k)) (\<lambda>(g, h, d) k. k\<lparr>kn_scheduler := g, kn_heap := h, kn_dev := d\<rparr>)
        (gs_start bus shell_1 shell_2))))"

text \<open>The globals before \<open>kmain\<close> runs.\<close>

definition kernel_static :: "mem \<Rightarrow> 'd \<Rightarrow> ('v, 'w, 'd) kernel" where
  "kernel_static m d = \<lparr>kn_fs = fs_uninitialized, kn_scheduler = gs_uninitialized, kn_heap = (uninitialized, m), kn_dev = d\<rparr>"

partial_function (option) start_shell ::
  "'d bus \<Rightarrow> (os_str \<Rightarrow> prefix \<Rightarrow> string) \<Rightarrow> ('d cmachine, 'dir, 'file, 'it, 'entry) fs_ops \<Rightarrow>
   (u32 \<Rightarrow> ('d cmachine, syscall_error + u32) io) \<Rightarrow> (u8, 'l) stack_vec \<Rightarrow> (u8 list, 's) stack_vec \<Rightarrow> u8 list \<Rightarrow>
   ('d cmachine, 'a) io" where
  "start_shell bus dbg fs syscall lv av prefix s =
     io_then (run_shell bus dbg fs syscall lv av prefix) (\<lambda>s. start_shell bus dbg fs syscall lv av prefix s) s"

definition start_shell_1 ::
  "'d bus \<Rightarrow> (os_str \<Rightarrow> prefix \<Rightarrow> string) \<Rightarrow> ('d cmachine, 'dir, 'file, 'it, 'entry) fs_ops \<Rightarrow>
   (u32 \<Rightarrow> ('d cmachine, syscall_error + u32) io) \<Rightarrow> (u8, 'l) stack_vec \<Rightarrow> (u8 list, 's) stack_vec \<Rightarrow> ('d cmachine, 'a) io" where
  "start_shell_1 bus dbg fs syscall lv av = start_shell bus dbg fs syscall lv av (bytes_of ''user1> '')"

definition start_shell_2 ::
  "'d bus \<Rightarrow> (os_str \<Rightarrow> prefix \<Rightarrow> string) \<Rightarrow> ('d cmachine, 'dir, 'file, 'it, 'entry) fs_ops \<Rightarrow>
   (u32 \<Rightarrow> ('d cmachine, syscall_error + u32) io) \<Rightarrow> (u8, 'l) stack_vec \<Rightarrow> (u8 list, 's) stack_vec \<Rightarrow> ('d cmachine, 'a) io" where
  "start_shell_2 bus dbg fs syscall lv av = start_shell bus dbg fs syscall lv av (bytes_of ''user2> '')"

subsection \<open>Processes against the allocator's specification\<close>

lemma kernel_alloc_spec:
  assumes "kernel_repr s bs" and "bin_ok l" and "spec_alloc (inner_size l) (inner_align l) bs = Some (p, r)"
  shows "\<exists>w s'. kernel_alloc l s = Some (Inr (Inr w, s')) \<and> kernel_allocf l s = Some (w, s') \<and> unat w = p \<and> kernel_repr s' r"
proof -
  obtain a where a: "mx_data (fst s) = Some a" "bin_repr (a, snd s) bs" "idle (fst s)"
    using assms(1) by (auto simp: kernel_repr_def split: option.splits)
  have run: "kernel_alloc l s =
      map_option (\<lambda>r. and_then r (\<lambda>(res, m). Inr (res, (\<lparr>mx_data = Some a, mx_lock = False, mx_owner = 0\<rparr>, m))))
        (bin_alloc a l (snd s))"
    using a(1,3) by (auto simp: kernel_alloc_def with_lock_idle idle_def and_then_def split: option.splits sum.splits)
  obtain w m' where w: "bin_alloc a l (snd s) = Some (Inr (Inr w, m'))" "unat w = p" "bin_repr (a, m') r"
    using bin_alloc_refines [OF a(2) [unfolded bin_repr_def fst_conv snd_conv] assms(2)] assms(3)
    by (auto simp: bin_repr_def)
  then show ?thesis using run by (auto simp: kernel_allocf_def kernel_repr_def idle_def)
qed

lemma spec_alloc_correct:
  assumes "wf_blocks lo hi bs" and "16 dvd sz" "0 < sz" and "spec_alloc sz al bs = Some (p, r)"
  shows "block p sz \<subseteq> free_bytes bs" "free_bytes r = free_bytes bs - block p sz"
proof -
  obtain r0 where r0: "take_block sz al bs = Some (p, r0)" "r = divide_blocks r0"
    using assms(4) by (auto simp: spec_alloc_def)
  from take_block_correct(2,3) [OF assms(1-3) r0(1)] r0(2)
  show "block p sz \<subseteq> free_bytes bs" "free_bytes r = free_bytes bs - block p sz" by simp_all
qed

lemma kernel_repr_wf: "kernel_repr s bs \<Longrightarrow> \<exists>lo hi. wf_blocks lo hi bs"
  by (auto simp: kernel_repr_def bin_repr_def bin_rep_def split: option.splits)

lemma kernel_repr_write:
  assumes "kernel_repr s bs" and "\<And>x. unat x \<in> free_bytes bs \<Longrightarrow> m x = snd s x"
    and "\<And>a. mx_data (fst s) = Some a \<Longrightarrow> m (bin_head a) = snd s (bin_head a)"
  shows "kernel_repr (fst s, m) bs"
  using assms bin_rep_frame by (auto simp: kernel_repr_def bin_repr_def split: option.splits)

lemma layouts_ok:
  "inner_align stack_layout = 16" "bin_ok trap_frame_layout" "inner_size trap_frame_layout = 2 ^ 10" "inner_align trap_frame_layout = 16"
proof -
  show "inner_align stack_layout = 16" using stack_layout_ok(3) by (simp add: inner_align_def)
  have "is_power_of_two (16::usize)"
    using npot_pow2 [of 4] by (simp add: is_power_of_two_def is_pow2_def)
  then show "bin_ok trap_frame_layout"
    by (simp add: bin_ok_def layout_ok_def from_size_align_def trap_frame_layout_def from_size_align_unchecked_def
        TRAP_FRAME_SIZE_def TRAP_FRAME_ALIGN_def)
  show "inner_size trap_frame_layout = 2 ^ 10"
    by (simp add: inner_size_def trap_frame_layout_def from_size_align_unchecked_def TRAP_FRAME_SIZE_def npot.simps)
  show "inner_align trap_frame_layout = 16"
    by (simp add: inner_align_def trap_frame_layout_def from_size_align_unchecked_def TRAP_FRAME_ALIGN_def)
qed

lemma stack_new_spec:
  assumes "kernel_repr s bs" and "spec_alloc (2 ^ 20) 16 bs = Some (p, r)"
  shows "\<exists>st s'. stack_new s = Some (Inr (Some st, s')) \<and> unat (st_ptr st) = p \<and> kernel_repr s' r"
proof -
  note inv = kernel_reprD(1) [OF assms(1)]
  obtain w s' where w: "kernel_alloc stack_layout s = Some (Inr (Inr w, s'))" "kernel_allocf stack_layout s = Some (w, s')"
    "unat w = p" "kernel_repr s' r"
    using kernel_alloc_spec [OF assms(1) stack_layout_ok(1), of p r] assms(2) by (auto simp: stack_layout_ok layouts_ok)
  let ?m = "write_zeros w STACK_SIZE (snd s')"
  have size: "unat STACK_SIZE = 2 ^ 20" by (simp add: STACK_SIZE_def)
  note fresh = kheap.alloc_fresh [OF inv stack_layout_ok(1) w(2), unfolded stack_layout_ok(2)]
  have "unat w \<in> kernel_free s" using fresh by (auto simp: mem_block)
  then have "w \<noteq> 0" using kernel_free_pos(1) [OF inv] by fastforce
  then have run: "stack_new s = Some (Inr (Some \<lparr>st_ptr = w\<rparr>, (fst s', ?m)))"
    by (cases s') (simp add: stack_new_def io_defs w(1) unique_new_def)
  have "kernel_repr (fst s', ?m) r"
  proof (rule kernel_repr_write [OF w(4)])
    show "?m x = snd s' x" if "unat x \<in> free_bytes r" for x
      using that fresh kernel_reprD(2) [OF w(4)] by (auto simp: write_zeros_def size)
    show "?m (bin_head a) = snd s' (bin_head a)" if "mx_data (fst s') = Some a" for a
    proof -
      obtain a' where a': "mx_data (fst s) = Some a'" "idle (fst s)" using inv by (rule kernel_invarE)
      then have "a' = a" using kernel_allocf_Some(2) [OF w(2) a'(2,1)] that by simp
      then have "unat (bin_head a) \<notin> block (unat w) (2 ^ 20)" using kernel_head_not_free [OF inv a'(1)] fresh by blast
      then show ?thesis by (simp add: write_zeros_def size)
    qed
  qed
  with run w(3) show ?thesis by auto
qed

text \<open>What a process takes from the free list: its stack, then the box of its trap frame.\<close>

definition process_room :: "fblock list \<Rightarrow> (nat \<times> nat \<times> fblock list) option" where
  "process_room bs =
     (case spec_alloc (2 ^ 20) 16 bs of
        None \<Rightarrow> None
      | Some (p, r) \<Rightarrow> map_option (\<lambda>(q, r). (p, q, r)) (spec_alloc (2 ^ 10) 16 r))"

definition footprint :: "'w process \<Rightarrow> nat set" where
  "footprint p = block (unat (st_ptr (pr_stack p))) (2 ^ 20) \<union> block (unat (pr_box p)) (2 ^ 10)"

text \<open>A process that has not run: it will start at \<open>fn\<close> with an empty stack of its own.\<close>

definition fresh_process :: "u64 \<Rightarrow> 'w process \<Rightarrow> bool" where
  "fresh_process fn p \<longleftrightarrow> pr_state p = Ready \<and> tf_elr (pr_trap_frame p) = fn \<and>
     unat (tf_sp (pr_trap_frame p)) = unat (st_ptr (pr_stack p)) + 2 ^ 20 \<and>
     block (unat (st_ptr (pr_stack p))) (2 ^ 20) \<inter> block (unat (pr_box p)) (2 ^ 10) = {}"

lemma new_process_spec:
  assumes "kernel_repr h bs" and "process_room bs = Some (p, q, r)"
  shows "\<exists>proc h'. new_process fn h = Some (Inr (proc, h')) \<and> fresh_process fn proc \<and> kernel_repr h' r \<and>
    footprint proc \<subseteq> free_bytes bs \<and> free_bytes r = free_bytes bs - footprint proc"
proof -
  obtain r1 where r1: "spec_alloc (2 ^ 20) 16 bs = Some (p, r1)" "spec_alloc (2 ^ 10) 16 r1 = Some (q, r)"
    using assms(2) by (auto simp: process_room_def split: option.splits)
  obtain st h1 where st: "stack_new h = Some (Inr (Some st, h1))" "unat (st_ptr st) = p" "kernel_repr h1 r1"
    using stack_new_spec [OF assms(1) r1(1)] by blast
  obtain b h2 where b: "kernel_alloc trap_frame_layout h1 = Some (Inr (Inr b, h2))" "unat b = q" "kernel_repr h2 r"
    using kernel_alloc_spec [OF st(3) layouts_ok(2), of q r] r1(2) by (auto simp: layouts_ok)
  obtain lo hi lo' hi' where wf: "wf_blocks lo hi bs" "wf_blocks lo' hi' r1"
    using kernel_repr_wf [OF assms(1)] kernel_repr_wf [OF st(3)] by blast
  have s1: "block p (2 ^ 20) \<subseteq> free_bytes bs" "free_bytes r1 = free_bytes bs - block p (2 ^ 20)"
    using spec_alloc_correct [OF wf(1) _ _ r1(1)] by simp_all
  have s2: "block q (2 ^ 10) \<subseteq> free_bytes r1" "free_bytes r = free_bytes r1 - block q (2 ^ 10)"
    using spec_alloc_correct [OF wf(2) _ _ r1(2)] by simp_all
  let ?tf = "trap_frame_default\<lparr>tf_sp := as_u64 (stack_top st), tf_elr := fn\<rparr>"
  let ?proc = "\<lparr>pr_trap_frame = ?tf, pr_box = b, pr_stack = st, pr_state = Ready\<rparr>"
  have run: "new_process fn h = Some (Inr (?proc, h2))"
    by (simp add: new_process_def process_new_def box_new_def io_defs st(1) b(1))
  have "p \<in> kernel_free h" using s1(1) kernel_reprD(2) [OF assms(1)] by (auto simp: block_def)
  then have "p < 2 ^ 63" by (rule kernel_free_pos(2) [OF kernel_reprD(1) [OF assms(1)]])
  then have "unat (st_ptr st + STACK_SIZE) = p + 2 ^ 20"
    using st(2) by (simp add: unat_word_ariths STACK_SIZE_def)
  then have "fresh_process fn ?proc"
    using s1 s2 st(2) b(2)
    by (auto simp: fresh_process_def as_u64_def stack_top_def physical_from_def stack_as_mut_ptr_def)
  moreover have "footprint ?proc = block p (2 ^ 20) \<union> block q (2 ^ 10)" by (simp add: footprint_def st(2) b(2))
  then have "footprint ?proc \<subseteq> free_bytes bs" "free_bytes r = free_bytes bs - footprint ?proc" using s1 s2 by auto
  ultimately show ?thesis using run b(3) by blast
qed

text \<open>Two processes: their memory is disjoint, and was free before.\<close>

definition two_rooms :: "fblock list \<Rightarrow> bool" where
  "two_rooms bs = (case process_room bs of None \<Rightarrow> False | Some (_, _, r) \<Rightarrow> process_room r \<noteq> None)"

definition queued :: "u64 \<Rightarrow> u64 \<Rightarrow> nat set \<Rightarrow> nat set \<Rightarrow> 'w scheduler \<Rightarrow> bool" where
  "queued fn1 fn2 area free s \<longleftrightarrow>
     (\<exists>p1 p2. sc_processes s = [p1, p2] \<and> fresh_process fn1 p1 \<and> fresh_process fn2 p2 \<and>
        footprint p1 \<inter> footprint p2 = {} \<and> footprint p1 \<union> footprint p2 \<subseteq> area \<and> (footprint p1 \<union> footprint p2) \<inter> free = {})"

lemma gs_start_spec:
  fixes g :: "'w gscheduler"
  assumes "idle g" "mx_data g = None" and "kernel_repr h bs" and "two_rooms bs"
  shows "\<exists>s g' h' d'. gs_start bus fn1 fn2 (g, h, d) = Some (Inr (pr_trap_frame (hd (sc_processes s)), (g', h', d'))) \<and>
    mx_data g' = Some s \<and> queued fn1 fn2 (kernel_free h) (kernel_free h') s \<and> kernel_invar h' \<and> idle g'"
proof -
  obtain p1 q1 r1 p2 q2 r2 where r: "process_room bs = Some (p1, q1, r1)" "process_room r1 = Some (p2, q2, r2)"
    using assms(4) by (auto simp: two_rooms_def split: option.splits)
  obtain a :: "'w process" and h1 where a: "new_process fn1 h = Some (Inr (a, h1))" "fresh_process fn1 a" "kernel_repr h1 r1"
    "footprint a \<subseteq> free_bytes bs" "free_bytes r1 = free_bytes bs - footprint a"
    using new_process_spec [OF assms(3) r(1), of fn1] by blast
  obtain b :: "'w process" and h2 where b: "new_process fn2 h1 = Some (Inr (b, h2))" "fresh_process fn2 b" "kernel_repr h2 r2"
    "footprint b \<subseteq> free_bytes r1" "free_bytes r2 = free_bytes r1 - footprint b"
    using new_process_spec [OF a(3) r(2), of fn2] by blast
  let ?tag = "\<lambda>p :: 'w process. p\<lparr>pr_trap_frame := (pr_trap_frame p)\<lparr>tf_tpidr := 1\<rparr>\<rparr>"
  have tag: "fresh_process fn (?tag p) = fresh_process fn p" "footprint (?tag p) = footprint p" for fn p
    by (simp_all add: fresh_process_def footprint_def)
  let ?s = "\<lparr>sc_processes = [?tag a, ?tag b], sc_current_id = Some 1, sc_last_id = Some 1\<rparr>"
  obtain d1 where d1: "enable bus Timer1 controller_new d = Some (Inr ((), d1))"
    by (simp add: irq_defs)
  have "gs_start bus fn1 fn2 (g, h, d) = Some (Inr (pr_trap_frame (hd (sc_processes ?s)),
      (g\<lparr>mx_lock := True, mx_owner := 0, mx_data := Some ?s\<rparr>, h2, tick_in bus TICK d1)))"
    using assms(1,2) mutex_lock_free [of g]
    by (simp add: gs_start_def io_zoom_def io_defs d1 idle_def a(1) b(1) mutex_defs add_def scheduler_new_def)
  moreover have "queued fn1 fn2 (kernel_free h) (kernel_free h2) ?s"
    using a(2,4,5) b(2,4,5) kernel_reprD(2) [OF assms(3)] kernel_reprD(2) [OF b(3)]
    by (auto simp: queued_def tag)
  moreover have "idle (g\<lparr>mx_lock := True, mx_owner := 0, mx_data := Some ?s\<rparr>)" by (simp add: idle_def)
  ultimately show ?thesis using kernel_reprD(1) [OF b(3)] by fastforce
qed

subsection \<open>Booting\<close>

text \<open>
  What is asked of the card: \<open>sd_init\<close> succeeds, and mounting it succeeds, uses the heap only through the allocator and
  leaves room for two processes.
\<close>

definition mounts ::
  "('d, i32) io \<Rightarrow> (sd \<Rightarrow> (kernel_heap \<times> 'd, 'e + 'v) io) \<Rightarrow> fblock list \<Rightarrow> bool" where
  "mounts sd_init vfat_from bs \<longleftrightarrow>
     (\<forall>d. \<exists>r d'. sd_init d = Some (Inr (r, d')) \<and> 0 <=s r) \<and>
     (\<forall>h d. kernel_repr h bs \<longrightarrow>
        (\<exists>v h' d' bs'. vfat_from Sd (h, d) = Some (Inr (Inr v, (h', d'))) \<and>
           kernel_repr h' bs' \<and> free_bytes bs' \<subseteq> free_bytes bs \<and> two_rooms bs'))"

lemma fs_initialize_mounts:
  assumes "mounts sd_init vfat_from bs" and "kernel_repr h bs"
  shows "\<exists>x v h' d' bs'. fs_initialize (io_zoom snd (\<lambda>d (h, _). (h, d)) sd_init) vfat_from (fs_uninitialized, (h, d)) =
      Some (Inr ((), (x, (h', d')))) \<and> mx_data x = Some v \<and> kernel_repr h' bs' \<and> free_bytes bs' \<subseteq> free_bytes bs \<and> two_rooms bs'"
proof -
  obtain r d1 where r: "sd_init d = Some (Inr (r, d1))" "0 <=s r"
    using assms(1) unfolding mounts_def by blast
  obtain v h' d' bs' where v: "vfat_from Sd (h, d1) = Some (Inr (Inr v, (h', d')))"
    "kernel_repr h' bs'" "free_bytes bs' \<subseteq> free_bytes bs" "two_rooms bs'"
    using assms unfolding mounts_def by blast
  let ?x = "\<lparr>mx_data = Some v, mx_lock = False, mx_owner = 0\<rparr>"
  have "fs_initialize (io_zoom snd (\<lambda>d (h, _). (h, d)) sd_init) vfat_from (fs_uninitialized, (h, d)) = Some (Inr ((), (?x, (h', d'))))"
    using r(2) by (simp add: fs_initialize_def sd_new_def on_sd_def io_zoom_def io_defs r(1) v(1) sd_error_from_def
        on_fs_def fs_uninitialized_def mutex_new_def with_lock_idle)
  then show ?thesis using v by fastforce
qed

lemma kmain_reaches:
  fixes end_sym :: usize
  defines "start \<equiv> ucast (ucast end_sym :: u32) :: usize"
  assumes "free_running bus cnt" and "cnt d + 2 ^ 36 < 2 ^ 64"
    and "tag_chain tags ATAG_BASE (c # ps) q" and "decoded tags (ps @ [q]) ts" and "find is_mem_tag ts = Some (Mem x)"
    and "end' = (ucast (mem_start x + mem_size x) :: usize)"
    and "0 < unat start" and "up16 (unat start) < down16 (unat end')"
    and "unat loc \<notin> {up16 (unat start) ..< down16 (unat end')}"
    and "mounts sd_init vfat_from (divide_blocks [(up16 (unat start), down16 (unat end') - up16 (unat start))])"
  shows "\<exists>(s :: 'w scheduler) k. kmain bus end_sym loc tags sd_init vfat_from shell_1 shell_2 (kernel_static m d) =
      Some (Inr (pr_trap_frame (hd (sc_processes s)), k)) \<and>
    mx_data (kn_fs k) \<noteq> None \<and> mx_data (kn_scheduler k) = Some s \<and>
    queued shell_1 shell_2 {unat start ..< unat end'} (kernel_free (kn_heap k)) s \<and> kernel_invar (kn_heap k) \<and> idle (kn_scheduler k)"
proof -
  let ?lo = "up16 (unat start)" and ?hi = "down16 (unat end')"
  let ?bs = "divide_blocks [(?lo, ?hi - ?lo)]"
  have "cnt d + unat (1000 * 1000 :: u64) + 2 ^ 35 < 2 ^ 64" using assms(3) by simp
  from spin_sleep_us_ends [OF assms(2) this] obtain d1 where d1: "spin_sleep_ms bus 1000 d = Some (Inr ((), d1))"
    by (auto simp: spin_sleep_ms_def)
  obtain h where h: "initialize end_sym loc tags (uninitialized, m) = Some (Inr h)" "kernel_repr h ?bs"
    using initialize_repr [OF assms(4-7), of end_sym loc m] assms(8-10) unfolding start_def by blast
  obtain x v h2 d2 bs where f:
    "fs_initialize (io_zoom snd (\<lambda>d (h, _). (h, d)) sd_init) vfat_from (fs_uninitialized, (h, d1)) = Some (Inr ((), (x, (h2, d2))))"
    "mx_data x = Some v" "kernel_repr h2 bs" "free_bytes bs \<subseteq> free_bytes ?bs" "two_rooms bs"
    using fs_initialize_mounts [OF assms(11) h(2), of d1] by blast
  have g0: "idle gs_uninitialized" "mx_data gs_uninitialized = None"
    by (simp_all add: gs_uninitialized_def mutex_new_def idle_def)
  obtain s :: "'w scheduler" and g h3 d3 where g: "gs_start bus shell_1 shell_2 (gs_uninitialized, h2, d2) =
      Some (Inr (pr_trap_frame (hd (sc_processes s)), (g, h3, d3)))"
    "mx_data g = Some s" "queued shell_1 shell_2 (kernel_free h2) (kernel_free h3) s" "kernel_invar h3" "idle g"
    using gs_start_spec [OF g0 f(3,5), of bus shell_1 shell_2 d2] by blast
  let ?k = "\<lparr>kn_fs = x, kn_scheduler = g, kn_heap = h3, kn_dev = d3\<rparr>"
  have "kmain bus end_sym loc tags sd_init vfat_from shell_1 shell_2 (kernel_static m d) =
      Some (Inr (pr_trap_frame (hd (sc_processes s)), ?k))"
    by (simp add: kmain_def kernel_static_def io_then_def io_bind_def io_zoom_def d1 h(1) f(1) g(1))
  moreover have "kernel_free h2 \<subseteq> {unat start ..< unat end'}"
  proof -
    have "unat start \<le> ?lo" "?hi \<le> unat end'" unfolding up16_def down16_def by linarith+
    then show ?thesis using f(4) kernel_reprD(2) [OF f(3)] assms(9) by (fastforce simp: block_def)
  qed
  then have "queued shell_1 shell_2 {unat start ..< unat end'} (kernel_free h3) s"
    using g(3) unfolding queued_def by blast
  ultimately show ?thesis using f(2) g(2,4,5) by fastforce
qed

text \<open>C38: Booting. With a running timer, a memory tag that leaves a region above the kernel image, and a card that mounts and
  leaves room for two processes, \<open>kmain\<close> reaches the jump into the first process: the file system is mounted, the
  scheduler holds exactly the two shells, both ready to start at their functions, each with an empty stack
  and a trap frame in memory of its own, inside the region and no longer free, and the frame
  that is loaded is that of the first.\<close>

theorem kmain_boots:
  fixes end_sym :: usize
  defines "start \<equiv> ucast (ucast end_sym :: u32) :: usize"
  assumes "free_running bus cnt" and "cnt d + 2 ^ 36 < 2 ^ 64"
    and "tag_chain tags ATAG_BASE (c # ps) q" and "decoded tags (ps @ [q]) ts" and "find is_mem_tag ts = Some (Mem x)"
    and "end' = (ucast (mem_start x + mem_size x) :: usize)"
    and "0 < unat start" and "up16 (unat start) < down16 (unat end')"
    and "unat loc \<notin> {up16 (unat start) ..< down16 (unat end')}"
    and "mounts sd_init vfat_from (divide_blocks [(up16 (unat start), down16 (unat end') - up16 (unat start))])"
  shows "\<exists>(s :: 'w scheduler) k. kmain bus end_sym loc tags sd_init vfat_from shell_1 shell_2 (kernel_static m d) =
      Some (Inr (pr_trap_frame (hd (sc_processes s)), k)) \<and>
    mx_data (kn_fs k) \<noteq> None \<and> mx_data (kn_scheduler k) = Some s \<and>
    queued shell_1 shell_2 {unat start ..< unat end'} (kernel_free (kn_heap k)) s \<and> kernel_invar (kn_heap k)"
  using kmain_reaches [OF assms(2-7) assms(8-11) [unfolded start_def]] unfolding start_def by blast

lemma split_at_num:
  "split_at (numeral a) (numeral n) =
     (let p = npot (numeral n) div 2; up = (numeral a + p - 1) div p * p
      in if numeral a \<noteq> up then up - numeral a else if npot (numeral n) \<noteq> numeral n then p else 0)"
  by (simp add: split_at_def is_pow2_def Let_def)

lemma ex_divided: "divide_blocks [(0x80000, 0x3F80000)] =
    [(0x80000, 0x80000), (0x100000, 0x100000), (0x200000, 0x200000), (0x400000, 0x400000), (0x800000, 0x800000),
     (0x1000000, 0x1000000), (0x2000000, 0x2000000)]"
  by (simp add: divide_blocks.simps split_at_num npot.simps)

lemma ex_rooms: "two_rooms (divide_blocks [(0x80000, 0x3F80000)])"
  unfolding ex_divided
  by (simp add: two_rooms_def process_room_def spec_alloc_def take_block_def divide_blocks.simps split_at_num npot.simps)

theorem kmain_boots_witness:
  "\<exists>(s :: unit scheduler) k. kmain board_bus 0x80000 8 ex_boot (io_return 0) (\<lambda>_. io_return (Inr () :: unit + unit)) 0x90000 0x91000
      (kernel_static (\<lambda>_. 0) \<lparr>bd_time = 0, bd_regs = (\<lambda>_. 0)\<rparr>) = Some (Inr (pr_trap_frame (hd (sc_processes s)), k)) \<and>
    mx_data (kn_fs k) \<noteq> None \<and> mx_data (kn_scheduler k) = Some s \<and> queued 0x90000 0x91000 {0x80000 ..< 0x4000000} (kernel_free (kn_heap k)) s"
proof -
  let ?x = "\<lparr>mem_size = 0x4000000, mem_start = 0\<rparr>" and ?d = "\<lparr>bd_time = 0, bd_regs = (\<lambda>_. 0)\<rparr>"
  have dec: "decoded ex_boot ([0x114, 0x124] @ [0x130]) [Mem ?x, Cmd [0x68, 0x69], NoneTag]"
    using ex_boot_decoded by (simp only: append_Cons append_Nil)
  have mem: "find is_mem_tag [Mem ?x, Cmd [0x68, 0x69], NoneTag] = Some (Mem ?x)"
    by (simp add: is_mem_tag_def)
  let ?bs = "divide_blocks [(0x80000, 0x3F80000)]"
  have mnt: "mounts (io_return 0) (\<lambda>_. io_return (Inr () :: unit + unit)) ?bs"
    using ex_rooms unfolding mounts_def io_return_def by auto
  have "\<exists>(s :: unit scheduler) k. kmain board_bus 0x80000 8 ex_boot (io_return 0) (\<lambda>_. io_return (Inr () :: unit + unit)) 0x90000 0x91000
      (kernel_static (\<lambda>_. 0) ?d) = Some (Inr (pr_trap_frame (hd (sc_processes s)), k)) \<and>
    mx_data (kn_fs k) \<noteq> None \<and> mx_data (kn_scheduler k) = Some s \<and>
    queued 0x90000 0x91000 {unat (ucast (ucast (0x80000 :: usize) :: u32) :: usize) ..< unat (0x4000000 :: usize)} (kernel_free (kn_heap k)) s \<and>
    kernel_invar (kn_heap k)"
    by (rule kmain_boots [OF board_free_running _ ex_boot_chain dec mem]) (use mnt in \<open>simp_all add: up16_def down16_def\<close>)
  then obtain s :: "unit scheduler" and k where "kmain board_bus 0x80000 8 ex_boot (io_return 0) (\<lambda>_. io_return (Inr () :: unit + unit)) 0x90000 0x91000
      (kernel_static (\<lambda>_. 0) ?d) = Some (Inr (pr_trap_frame (hd (sc_processes s)), k))" "mx_data (kn_fs k) \<noteq> None"
    "mx_data (kn_scheduler k) = Some s" "queued 0x90000 0x91000 {unat (ucast (ucast (0x80000 :: usize) :: u32) :: usize) ..< unat (0x4000000 :: usize)} (kernel_free (kn_heap k)) s"
    by blast
  moreover have "unat (ucast (ucast (0x80000 :: usize) :: u32) :: usize) = 0x80000" "unat (0x4000000 :: usize) = 0x4000000" by simp_all
  ultimately show ?thesis by metis
qed

subsection \<open>The shells never return\<close>

lemma start_shell_forever:
  fixes bus :: "'d bus"
  assumes "start_shell bus dbg fs syscall lv av prefix s = Some (r :: ('a \<times> 'd cmachine) outcome)"
  shows "isl r"
  using assms
proof (rule start_shell.raw_induct [where P = "\<lambda>_ _ _ _ _ _ _ _ r. isl r", rotated])
qed (auto simp: io_then_def io_bind_def split: option.splits sum.splits)

end
