(* ===== verification/Multitask.thy ===== *)
theory Multitask
  imports Traps
begin

text \<open>
  Processes over time. After boot the machine runs a process until an exception, handles it
  (\<open>kernel/src/traps/mod.rs\<close>) and resumes the process whose registers the handler leaves in the trap frame. Every
  process is meant to have a register file of its own: the abstract system has one per process, of which
  only that of the current process changes, and the kernel is shown to implement it over any sequence of steps.
\<close>

subsection \<open>Simulations\<close>

locale simulation =
  fixes cstep :: "'c \<Rightarrow> 'c \<Rightarrow> bool" and astep :: "'a \<Rightarrow> 'a \<Rightarrow> bool" and inv :: "'c \<Rightarrow> bool" and view :: "'c \<Rightarrow> 'a"
  assumes step_law: "inv s \<Longrightarrow> cstep s s' \<Longrightarrow> inv s' \<and> astep (view s) (view s')"
begin

lemma runs_simulate:
  assumes "cstep\<^sup>*\<^sup>* s s'" "inv s"
  shows "inv s' \<and> astep\<^sup>*\<^sup>* (view s) (view s')"
  using assms(1)
proof induction
  case (step t u)
  then show ?case using step_law [of t u] by (auto intro: rtranclp.rtrancl_into_rtrancl)
qed (simp add: assms(2))

end

subsection \<open>Processes with registers of their own\<close>

record vproc =
  vp_frame :: trap_frame
  vp_sleep :: "sleep_fn option"

record vsys =
  vs_procs :: "stack \<Rightarrow> vproc option"
  vs_cur :: stack

text \<open>A process that is awake resumes as it is. One that sleeps resumes when more than its time has passed since its start
  time, and finds the elapsed time in two of its registers.\<close>

definition resumes :: "vproc \<Rightarrow> vproc \<Rightarrow> bool" where
  "resumes p p' \<longleftrightarrow>
     (case vp_sleep p of
        None \<Rightarrow> p' = p
      | Some f \<Rightarrow> \<exists>now. sl_us f < now - sl_start_time f \<and>
          p' = \<lparr>vp_frame = woken (vp_frame p) (now - sl_start_time f), vp_sleep = None\<rparr>)"

text \<open>The time that a process asks for in \<open>x0\<close>, in microseconds.\<close>

definition asked :: "trap_frame \<Rightarrow> u64" where
  "asked tf = ucast (ucast (tf_x0 tf) :: u32) * 1000"

inductive vstep :: "vsys \<Rightarrow> vsys \<Rightarrow> bool" where
  run: "vs_procs v (vs_cur v) = Some p \<Longrightarrow>
    vstep v (v\<lparr>vs_procs := (vs_procs v)(vs_cur v \<mapsto> p\<lparr>vp_frame := tf\<rparr>)\<rparr>)"
| switch: "vs_procs v (vs_cur v) = Some p \<Longrightarrow>
    sl = None \<or> (\<exists>start. sl = Some \<lparr>sl_start_time = start, sl_us = asked (vp_frame p)\<rparr>) \<Longrightarrow>
    procs = (vs_procs v)(vs_cur v \<mapsto> p\<lparr>vp_sleep := sl\<rparr>) \<Longrightarrow> procs n = Some q \<Longrightarrow> resumes q q' \<Longrightarrow>
    vstep v \<lparr>vs_procs = procs(n \<mapsto> q'), vs_cur = n\<rparr>"

inductive_cases vstepE: "vstep v v'"

subsection \<open>The machine\<close>

text \<open>A step of the process on the CPU changes its registers, the console and the devices; an exception is handled. The
  scheduler is kernel memory that only the handlers use.\<close>

inductive kstep ::
  "'d bus \<Rightarrow> ('d, unit) io \<Rightarrow> (info \<Rightarrow> u32 \<Rightarrow> trap_frame \<Rightarrow> u8 list list) \<Rightarrow> ('d kmachine, unit) io \<Rightarrow>
   trap_frame \<times> 'd kmachine \<Rightarrow> trap_frame \<times> 'd kmachine \<Rightarrow> bool"
  for bus wfi debug_lines shell where
  user: "kstep bus wfi debug_lines shell (tf, (c, g, d)) (tf', (c', g, d'))"
| trap: "handle_exception bus wfi debug_lines shell einfo esr tf m = Some (Inr (tf', m')) \<Longrightarrow>
    kstep bus wfi debug_lines shell (tf, m) (tf', m')"

text \<open>The shell that a breakpoint opens leaves the scheduler alone.\<close>

definition keeps_scheduler :: "('d kmachine, unit) io \<Rightarrow> bool" where
  "keeps_scheduler shell \<longleftrightarrow> (\<forall>m m'. shell m = Some (Inr ((), m')) \<longrightarrow> fst (snd m') = fst (snd m))"

definition sched_ok :: "sleep_fn gscheduler \<Rightarrow> bool" where
  "sched_ok g \<longleftrightarrow> (mx_lock g \<longrightarrow> mx_owner g = 0) \<and>
     (case mx_data g of
        None \<Rightarrow> False
      | Some s \<Rightarrow> sc_processes s \<noteq> [] \<and> distinct (map pr_stack (sc_processes s)) \<and>
          pr_state (hd (sc_processes s)) = Ready)"

definition kinv :: "trap_frame \<times> 'd kmachine \<Rightarrow> bool" where
  "kinv s = sched_ok (fst (snd (snd s)))"

definition vp_of :: "sleep_fn process \<Rightarrow> vproc" where
  "vp_of p = \<lparr>vp_frame = pr_trap_frame p, vp_sleep = (case pr_state p of Waiting f \<Rightarrow> Some f | _ \<Rightarrow> None)\<rparr>"

definition vprocs :: "sleep_fn process list \<Rightarrow> stack \<Rightarrow> vproc option" where
  "vprocs ps = map_of (map (\<lambda>p. (pr_stack p, vp_of p)) ps)"

text \<open>The registers of the process at the front are on the CPU.\<close>

definition vview :: "trap_frame \<Rightarrow> sleep_fn process list \<Rightarrow> vsys" where
  "vview tf ps = \<lparr>vs_procs = vprocs ((hd ps)\<lparr>pr_trap_frame := tf\<rparr> # tl ps), vs_cur = pr_stack (hd ps)\<rparr>"

definition kview :: "trap_frame \<times> 'd kmachine \<Rightarrow> vsys" where
  "kview s = vview (fst s) (case mx_data (fst (snd (snd s))) of Some s \<Rightarrow> sc_processes s | None \<Rightarrow> [])"

subsection \<open>Register files\<close>

lemma vprocs_append: "vprocs (xs @ ys) = vprocs ys ++ vprocs xs"
  by (simp add: vprocs_def)

lemma dom_vprocs: "dom (vprocs ps) = pr_stack ` set ps"
  by (simp add: vprocs_def dom_map_of_conv_image_fst image_image)

lemma vprocs_rotate:
  assumes "distinct (map pr_stack (xs @ ys))"
  shows "vprocs (ys @ xs) = vprocs (xs @ ys)"
proof -
  have "dom (vprocs xs) \<inter> dom (vprocs ys) = {}" using assms by (auto simp: dom_vprocs)
  then show ?thesis unfolding vprocs_append by (rule map_add_comm)
qed

lemma vprocs_front: "vprocs (p # ps) = (vprocs ps)(pr_stack p \<mapsto> vp_of p)"
  by (simp add: vprocs_def)

lemma vprocs_replace: "pr_stack p' = pr_stack p \<Longrightarrow> vprocs (p' # ps) = (vprocs (p # ps))(pr_stack p \<mapsto> vp_of p')"
  by (simp add: vprocs_front)

subsection \<open>What a switch does\<close>

definition picked :: "sleep_fn process \<Rightarrow> sleep_fn process \<Rightarrow> bool" where
  "picked q q' \<longleftrightarrow>
     (case pr_state q of
        Ready \<Rightarrow> q' = q
      | Running \<Rightarrow> False
      | Waiting f \<Rightarrow> \<exists>now. sl_us f < now - sl_start_time f \<and>
          q' = q\<lparr>pr_state := Ready, pr_trap_frame := woken (pr_trap_frame q) (now - sl_start_time f)\<rparr>)"

lemma pickedD:
  assumes "picked q q'"
  shows "pr_stack q' = pr_stack q" "pr_state q' = Ready" "resumes (vp_of q) (vp_of q')"
  using assms by (cases "pr_state q"; auto simp: picked_def resumes_def vp_of_def)+

lemma is_ready_sleep:
  assumes "is_ready (sleep_poll bus) p d = Some (Inr ((b, p'), d'))"
  shows "if b then picked p p' else p' = p"
proof (cases "pr_state p")
  case (Waiting f)
  obtain now d1 where t: "timer_read bus d = (now, d1)" by (cases "timer_read bus d")
  let ?p = "p\<lparr>pr_state := Ready\<rparr>" and ?now = "now - sl_start_time f"
  have "sleep_poll bus f ?p d = Some (Inr ((sl_us f < ?now, f,
      (if sl_us f < ?now then ?p\<lparr>pr_trap_frame := woken (pr_trap_frame p) ?now\<rparr> else ?p)), d1))"
    by (simp add: sleep_poll_def io_bind_def io_state_def io_return_def t Let_def woken_def)
  then show ?thesis using assms Waiting
    by (cases "sl_us f < ?now") (auto simp: is_ready_def io_bind_def io_return_def picked_def)
qed (use assms in \<open>auto simp: is_ready_def io_return_def picked_def\<close>)

lemma position_ready_sleep:
  "position_ready (sleep_poll bus) ps d = Some (Inr ((i, ps'), d')) \<Longrightarrow>
     case i of
       None \<Rightarrow> ps' = ps
     | Some k \<Rightarrow> \<exists>xs q q' ys. ps = xs @ q # ys \<and> ps' = xs @ q' # ys \<and> length xs = k \<and> picked q q'"
proof (induction ps arbitrary: i ps' d)
  case Nil
  then show ?case by (auto simp: io_return_def)
next
  case (Cons p ps)
  from Cons.prems obtain b p1 d1 where r: "is_ready (sleep_poll bus) p d = Some (Inr ((b, p1), d1))"
    and k: "(if b then io_return (Some 0, p1 # ps)
      else io_bind (position_ready (sleep_poll bus) ps) (\<lambda>(i, ps'). io_return (map_option Suc i, p1 # ps'))) d1 = Some (Inr ((i, ps'), d'))"
    by (auto simp: io_bind_eq_ok_iff split: prod.splits)
  note p = is_ready_sleep [OF r]
  show ?case
  proof (cases b)
    case True
    then show ?thesis using k p by (auto simp: io_return_def intro!: exI [of _ "[]"])
  next
    case False
    then obtain j ps1 where j: "position_ready (sleep_poll bus) ps d1 = Some (Inr ((j, ps1), d'))" "i = map_option Suc j" "ps' = p # ps1"
      using k p by (auto simp: io_bind_eq_ok_iff split: prod.splits)
    show ?thesis
    proof (cases j)
      case (Some n)
      then obtain xs q q' ys where "ps = xs @ q # ys" "ps1 = xs @ q' # ys" "length xs = n" "picked q q'"
        using Cons.IH [OF j(1)] by auto
      then show ?thesis using Some j(2,3) by (auto intro!: exI [of _ "p # xs"])
    qed (use Cons.IH [OF j(1)] j(2,3) in simp)
  qed
qed

text \<open>The result of choosing from the queue \<open>ps\<close>: some process at which the queue is cut, ready or awake now.\<close>

definition chosen :: "sleep_fn process list \<Rightarrow> trap_frame \<Rightarrow> sleep_fn process list \<Rightarrow> bool" where
  "chosen ps tf ps' \<longleftrightarrow>
     (\<exists>xs q q' ys. ps = xs @ q # ys \<and> ps' = q' # ys @ xs \<and> picked q q' \<and> tf = pr_trap_frame q')"

lemma next_process_sleep:
  assumes "next_process (sleep_poll bus) s d = Some (Inr ((r, s'), d'))"
  shows "case r of
      None \<Rightarrow> sc_processes s' = sc_processes s
    | Some p \<Rightarrow> chosen (sc_processes s) (pr_trap_frame p) (sc_processes s')"
proof -
  from assms obtain i ps d1 where i: "position_ready (sleep_poll bus) (sc_processes s) d = Some (Inr ((i, ps), d1))"
    and k: "(case i of None \<Rightarrow> io_return (None, s\<lparr>sc_processes := ps\<rparr>)
      | Some k \<Rightarrow> (let s' = s\<lparr>sc_processes := drop k ps @ take k ps\<rparr> in io_return (current s', s'))) d1 = Some (Inr ((r, s'), d'))"
    by (auto simp: next_process_def io_bind_eq_ok_iff)
  show ?thesis
  proof (cases i)
    case (Some n)
    then obtain xs q q' ys where "sc_processes s = xs @ q # ys" "ps = xs @ q' # ys" "length xs = n" "picked q q'"
      using position_ready_sleep [OF i] by auto
    moreover from this have "r = Some q'" "sc_processes s' = q' # ys @ xs" using k Some by (auto simp: io_return_def current_def Let_def)
    ultimately show ?thesis unfolding chosen_def by auto
  qed (use k position_ready_sleep [OF i] in \<open>auto simp: io_return_def\<close>)
qed


lemma switch_loop_sleep:
  fixes bus :: "'d bus"
  assumes "switch_loop (sleep_poll bus) wfi s d = Some (Inr ((pid, tf, s'), d'))"
  shows "chosen (sc_processes s) tf (sc_processes s')"
proof -
  let ?P = "\<lambda>(poll :: ('d, sleep_fn) poller) (wfi :: ('d, unit) io) (s :: sleep_fn scheduler) (d :: 'd)
    (r :: ((id \<times> trap_frame \<times> sleep_fn scheduler) \<times> 'd) outcome). poll = sleep_poll bus \<longrightarrow>
    (\<forall>pid tf s' d'. r = Inr ((pid, tf, s'), d') \<longrightarrow> chosen (sc_processes s) tf (sc_processes s'))"
  have "?P (sleep_poll bus) wfi s d (Inr ((pid, tf, s'), d'))"
    using assms
  proof (rule switch_loop.raw_induct [where P = ?P, rotated])
    fix loop :: "('d, sleep_fn) poller \<Rightarrow> ('d, unit) io \<Rightarrow> sleep_fn scheduler \<Rightarrow> ('d, id \<times> trap_frame \<times> sleep_fn scheduler) io"
      and poll :: "('d, sleep_fn) poller" and wfi :: "('d, unit) io" and s :: "sleep_fn scheduler" and d :: 'd and r
    assume rec: "\<And>poll wfi s d r. loop poll wfi s d = Some r \<Longrightarrow> ?P poll wfi s d r"
      and run: "io_bind (next_process poll s) (\<lambda>r d. case fst r of
           None \<Rightarrow> io_then wfi (loop poll wfi (snd r)) d
         | Some p \<Rightarrow> io_return (tf_tpidr (pr_trap_frame p), pr_trap_frame p, snd r) d) d = Some r"
    show "?P poll wfi s d r"
    proof (intro impI allI)
      fix pid tf s' d'
      assume poll: "poll = sleep_poll bus" and r: "r = Inr ((pid, tf, s'), d')"
      from run r obtain c s1 d1 where c: "next_process (sleep_poll bus) s d = Some (Inr ((c, s1), d1))"
        and k: "(case c of
             None \<Rightarrow> io_then wfi (loop poll wfi s1) d1
           | Some p \<Rightarrow> io_return (tf_tpidr (pr_trap_frame p), pr_trap_frame p, s1) d1) = Some (Inr ((pid, tf, s'), d'))"
        unfolding poll by (auto simp: io_bind_eq_ok_iff cong: option.case_cong)
      note n = next_process_sleep [OF c]
      show "chosen (sc_processes s) tf (sc_processes s')"
      proof (cases c)
        case None
        with k obtain d2 where "loop poll wfi s1 d2 = Some (Inr ((pid, tf, s'), d'))"
          by (auto simp: io_then_def io_bind_eq_ok_iff)
        from rec [OF this] poll n None show ?thesis by simp
      next
        case (Some p)
        with k n show ?thesis by (auto simp: io_return_def)
      qed
    qed
  qed
  then show ?thesis by blast
qed

text \<open>A switch of the scheduler under its lock, as the handlers call it.\<close>

lemma gs_switch_sleep:
  assumes "sched_ok g" "gs_switch (sleep_poll bus) wfi st tf (g, d) = Some (Inr ((i, tf'), (g', d')))"
  obtains s cur rest s' where "mx_data g = Some s" "sc_processes s = cur # rest" "distinct (map pr_stack (cur # rest))"
    "pr_state cur = Ready" "mx_data g' = Some s'" "\<not> mx_lock g'"
    "chosen (rest @ [cur\<lparr>pr_trap_frame := tf, pr_state := st\<rparr>]) tf' (sc_processes s')"
proof -
  obtain s where s: "mx_data g = Some s" "mx_lock g \<longrightarrow> mx_owner g = 0" "sc_processes s \<noteq> []"
    "distinct (map pr_stack (sc_processes s))" "pr_state (hd (sc_processes s)) = Ready"
    using assms(1) by (auto simp: sched_ok_def split: option.splits)
  then obtain cur rest where q: "sc_processes s = cur # rest" by (cases "sc_processes s") auto
  let ?s = "s\<lparr>sc_processes := rest @ [cur\<lparr>pr_trap_frame := tf, pr_state := st\<rparr>]\<rparr>"
  obtain s' where g': "switch (sleep_poll bus) wfi st tf s d = Some (Inr ((i, tf', s'), d'))" "mx_data g' = Some s'" "\<not> mx_lock g'"
    using assms(2) s(1) by (auto simp: gs_switch_def with_lock_idle [OF s(2)] and_then_def split: option.splits sum.splits)
  then obtain pid where "switch_loop (sleep_poll bus) wfi ?s d = Some (Inr ((pid, tf', s'), d'))"
    using q by (auto simp: switch_def io_bind_eq_ok_iff split: prod.splits)
  from switch_loop_sleep [OF this] show thesis using that [of s cur rest s'] s q g' by simp
qed

lemma chosen_view:
  assumes "distinct (map pr_stack (cur # rest))" "pr_state cur = Ready"
    and "chosen (rest @ [cur\<lparr>pr_trap_frame := tf, pr_state := st\<rparr>]) tf' ps'"
    and "st = Ready \<or> (\<exists>start. st = Waiting \<lparr>sl_start_time = start, sl_us = asked tf\<rparr>)"
  shows "vstep (vview tf (cur # rest)) (vview tf' ps')" "ps' \<noteq> [] \<and> distinct (map pr_stack ps') \<and> pr_state (hd ps') = Ready"
proof -
  let ?cur = "cur\<lparr>pr_trap_frame := tf, pr_state := st\<rparr>" and ?run = "cur\<lparr>pr_trap_frame := tf\<rparr>"
  obtain xs q q' ys where c: "rest @ [?cur] = xs @ q # ys" "ps' = q' # ys @ xs" "picked q q'" "tf' = pr_trap_frame q'"
    using assms(3) by (auto simp: chosen_def)
  note p = pickedD [OF c(3)]
  have d: "distinct (map pr_stack (rest @ [?cur]))" using assms(1) by auto
  then have d': "distinct (map pr_stack (q # ys @ xs))" unfolding c(1) by auto
  then show "ps' \<noteq> [] \<and> distinct (map pr_stack ps') \<and> pr_state (hd ps') = Ready" using c(2) p(1,2) by simp
  let ?procs = "vprocs (q # ys @ xs)"
  have "?procs = vprocs (rest @ [?cur])" using vprocs_rotate [of xs "q # ys"] d unfolding c(1) by simp
  also have "\<dots> = vprocs (?cur # rest)" using vprocs_rotate [of "[?cur]" rest] assms(1) by simp
  also have "\<dots> = (vprocs (?run # rest))(pr_stack cur \<mapsto> vp_of ?cur)" using vprocs_replace [of ?cur ?run rest] by simp
  finally have procs: "?procs = (vs_procs (vview tf (cur # rest)))(vs_cur (vview tf (cur # rest)) \<mapsto> vp_of ?cur)"
    by (simp add: vview_def)
  have cur: "vs_procs (vview tf (cur # rest)) (vs_cur (vview tf (cur # rest))) = Some (vp_of ?run)"
    by (simp add: vview_def vprocs_front)
  have vp: "vp_of ?cur = (vp_of ?run)\<lparr>vp_sleep := vp_sleep (vp_of ?cur)\<rparr>" "vp_frame (vp_of ?run) = tf" by (simp_all add: vp_of_def)
  have sl: "vp_sleep (vp_of ?cur) = None \<or> (\<exists>start. vp_sleep (vp_of ?cur) = Some \<lparr>sl_start_time = start, sl_us = asked (vp_frame (vp_of ?run))\<rparr>)"
    using assms(4) by (auto simp: vp_of_def)
  have "vview tf' ps' = \<lparr>vs_procs = ?procs(pr_stack q \<mapsto> vp_of q'), vs_cur = pr_stack q\<rparr>"
    using c(2,4) p(1) vprocs_replace [of q' q "ys @ xs"] by (simp add: vview_def)
  moreover have "?procs (pr_stack q) = Some (vp_of q)" by (simp add: vprocs_front)
  ultimately show "vstep (vview tf (cur # rest)) (vview tf' ps')"
    using vstep.switch [OF cur sl _ _ p(3), of ?procs "pr_stack q"] procs vp(1) by (simp only:)
qed

subsection \<open>What an exception does\<close>

lemma on_cmachine_scheduler: "on_cmachine a m = Some (Inr (r, m')) \<Longrightarrow> fst (snd m') = fst (snd m)"
  by (auto simp: on_cmachine_def io_zoom_def split: option.splits sum.splits prod.splits)

lemma print_lines_scheduler:
  "io_for (\<lambda>line. on_cmachine (print_str bus line)) ls m = Some (Inr (r, m')) \<Longrightarrow> fst (snd m') = fst (snd m)"
proof (induction ls arbitrary: m)
  case (Cons l ls)
  then obtain a m1 where "on_cmachine (print_str bus l) m = Some (Inr (a, m1))"
    "io_for (\<lambda>line. on_cmachine (print_str bus line)) ls m1 = Some (Inr (r, m'))"
    by (auto simp: io_then_def io_bind_eq_ok_iff)
  then show ?case using Cons.IH on_cmachine_scheduler by metis
qed (simp add: io_return_def)

lemma sys_sleep_switches:
  assumes "sys_sleep bus wfi ms tf (g, d) = Some (Inr (tf', (g', d')))"
  obtains start i d1 where "gs_switch (sleep_poll bus) wfi (Waiting \<lparr>sl_start_time = start, sl_us = ucast ms * 1000\<rparr>) tf (g, d1) =
    Some (Inr ((i, tf'), (g', d')))"
proof -
  obtain start d1 where "timer_read bus d = (start, d1)" by (cases "timer_read bus d")
  then show thesis using assms that
    by (auto simp: sys_sleep_def on_device_def io_zoom_def io_state_def io_bind_eq_ok_iff io_return_def Let_def split: prod.splits)
qed

lemma handle_irq_switches:
  assumes "handle_irq bus wfi Timer1 tf (g, d) = Some (Inr (tf', (g', d')))"
  obtains i d1 where "gs_switch (sleep_poll bus) wfi Ready tf (g, d) = Some (Inr ((i, tf'), (g', d1)))"
  using assms that
  by (auto simp: handle_irq_def on_device_def io_zoom_def io_state_def io_then_def io_bind_eq_ok_iff io_return_def split: prod.splits)

lemma io_lift_ok: "io_lift r d = Some (Inr (a, d')) \<longleftrightarrow> r = Inr a \<and> d' = d"
  by (cases r) (auto simp: io_lift_def and_then_def)

lemma handle_exception_cases:
  assumes "handle_exception bus wfi debug_lines shell einfo esr tf (c, g, d) = Some (Inr (tf', (c', g', d')))"
    and "keeps_scheduler shell"
  obtains (resume) "g' = g"
  | (switch) st i d1 d2 where "gs_switch (sleep_poll bus) wfi st tf (g, d1) = Some (Inr ((i, tf'), (g', d2)))"
      "st = Ready \<or> (\<exists>start. st = Waiting \<lparr>sl_start_time = start, sl_us = asked tf\<rparr>)"
proof -
  let ?out = "io_for (\<lambda>line. on_cmachine (print_str bus line)) (debug_lines einfo esr tf)"
  let ?h = "\<lambda>syn. case (in_kind einfo, syn) of
      (Synchronous, Brk x) \<Rightarrow> io_then shell (io_return (tf\<lparr>tf_elr := tf_elr tf + 4\<rparr>))
    | (Synchronous, Svc x) \<Rightarrow> on_smachine (handle_syscall bus wfi x tf)
    | (Irq, _) \<Rightarrow>
        io_bind (on_smachine (on_device (is_pending bus Timer1 controller_new))) (\<lambda>pending.
          if pending then on_smachine (handle_irq bus wfi Timer1 tf)
          else io_panic ''unexpected interrupt'')
    | _ \<Rightarrow> io_panic ''unexpected syndrome''"
  have "io_bind ?out (\<lambda>_. io_bind (io_lift (syndrome_from esr)) ?h) (c, g, d) = Some (Inr (tf', (c', g', d')))"
    using assms(1) unfolding handle_exception_def io_then_def [of ?out] .
  then obtain m1 syn where m1: "?out (c, g, d) = Some (Inr ((), m1))" "?h syn m1 = Some (Inr (tf', (c', g', d')))"
    by (auto simp only: io_bind_eq_ok_iff io_lift_ok)
  obtain c1 d1 where "m1 = (c1, g, d1)" using print_lines_scheduler [OF m1(1)] by (cases m1) auto
  with m1(2) have h: "?h syn (c1, g, d1) = Some (Inr (tf', (c', g', d')))" by simp
  consider (brk) x where "in_kind einfo = Synchronous" "syn = Brk x" | (svc) x where "in_kind einfo = Synchronous" "syn = Svc x"
    | (irq) "in_kind einfo = Irq"
    using h by (cases "in_kind einfo"; cases syn) (auto simp: io_panic_def)
  then show thesis
  proof cases
    case brk
    then have "shell (c1, g, d1) = Some (Inr ((), (c', g', d')))" using h by (auto simp: io_then_def io_bind_eq_ok_iff io_return_def)
    then show thesis using assms(2) resume unfolding keeps_scheduler_def by fastforce
  next
    case svc
    then have "handle_syscall bus wfi x tf (g, d1) = Some (Inr (tf', (g', d')))"
      using h by (auto simp: on_smachine_def io_zoom_def split: option.splits sum.splits)
    then have "sys_sleep bus wfi (ucast (tf_x0 tf)) tf (g, d1) = Some (Inr (tf', (g', d')))"
      by (auto simp: handle_syscall_def io_panic_def split: if_splits)
    then show thesis using switch by (elim sys_sleep_switches) (auto simp: asked_def)
  next
    case irq
    then obtain d2 where "handle_irq bus wfi Timer1 tf (g, d2) = Some (Inr (tf', (g', d')))"
      using h by (auto simp: on_smachine_def on_device_def io_zoom_def io_bind_eq_ok_iff io_panic_def split: option.splits sum.splits if_splits)
    then show thesis using switch by (elim handle_irq_switches) blast
  qed
qed

subsection \<open>The kernel implements the processes\<close>

lemma kview_run:
  assumes "kinv (tf, m)" "fst (snd m') = fst (snd m)"
  shows "kinv (tf', m')" "vstep (kview (tf, m)) (kview (tf', m'))"
proof -
  show "kinv (tf', m')" using assms by (simp add: kinv_def)
  obtain s cur rest where s: "mx_data (fst (snd m)) = Some s" "sc_processes s = cur # rest" "pr_state cur = Ready"
    using assms(1) by (cases "mx_data (fst (snd m))") (auto simp: kinv_def sched_ok_def neq_Nil_conv)
  let ?run = "\<lambda>tf. cur\<lparr>pr_trap_frame := tf\<rparr>"
  have "kview (tf', m') = (kview (tf, m))\<lparr>vs_procs := (vs_procs (kview (tf, m)))(vs_cur (kview (tf, m)) \<mapsto> (vp_of (?run tf))\<lparr>vp_frame := tf'\<rparr>)\<rparr>"
    using s assms(2) by (simp add: kview_def vview_def vprocs_front vp_of_def)
  moreover have "vs_procs (kview (tf, m)) (vs_cur (kview (tf, m))) = Some (vp_of (?run tf))"
    using s by (simp add: kview_def vview_def vprocs_front)
  ultimately show "vstep (kview (tf, m)) (kview (tf', m'))" using vstep.run by simp
qed

lemma kview_switch:
  assumes "kinv (tf, (c, g, d))" "gs_switch (sleep_poll bus) wfi st tf (g, d1) = Some (Inr ((i, tf'), (g', d2)))"
    and "st = Ready \<or> (\<exists>start. st = Waiting \<lparr>sl_start_time = start, sl_us = asked tf\<rparr>)"
  shows "kinv (tf', (c', g', d'))" "vstep (kview (tf, (c, g, d))) (kview (tf', (c', g', d')))"
proof -
  have "sched_ok g" using assms(1) by (simp add: kinv_def)
  from this assms(2) obtain s cur rest s' where s: "mx_data g = Some s" "sc_processes s = cur # rest"
    "distinct (map pr_stack (cur # rest))" "pr_state cur = Ready" "mx_data g' = Some s'" "\<not> mx_lock g'"
    "chosen (rest @ [cur\<lparr>pr_trap_frame := tf, pr_state := st\<rparr>]) tf' (sc_processes s')"
    by (rule gs_switch_sleep)
  note c = chosen_view [OF s(3,4,7) assms(3)]
  show "kinv (tf', (c', g', d'))" using c(2) s(5,6) by (simp add: kinv_def sched_ok_def)
  show "vstep (kview (tf, (c, g, d))) (kview (tf', (c', g', d')))" using c(1) s(1,2,5) by (simp add: kview_def)
qed

lemma kstep_simulated:
  assumes "keeps_scheduler shell" "kinv s" "kstep bus wfi debug_lines shell s s'"
  shows "kinv s' \<and> vstep (kview s) (kview s')"
  using assms(3)
proof cases
  case (user tf c g d tf' c' d')
  then show ?thesis using kview_run [of tf "(c, g, d)" "(c', g, d')" tf'] assms(2) by simp
next
  case (trap einfo esr tf m tf' m')
  obtain c g d c' g' d' where m: "m = (c, g, d)" "m' = (c', g', d')" by (cases m; cases m')
  note t = trap(3) [unfolded m]
  from t assms(1) show ?thesis
  proof (cases rule: handle_exception_cases)
    case resume
    then show ?thesis using kview_run [of tf m m' tf'] assms(2) trap(1,2) m by simp
  next
    case (switch st i d1 d2)
    then show ?thesis using kview_switch [of tf c g d bus wfi st d1 i tf' g' d2 c' d'] assms(2) trap(1,2) m by simp
  qed
qed

lemma kernel_simulation: "keeps_scheduler shell \<Longrightarrow> simulation (kstep bus wfi debug_lines shell) vstep kinv kview"
  by unfold_locales (rule kstep_simulated)

text \<open>Whatever shell a breakpoint opens on the console and the devices.\<close>

interpretation multitask: simulation "kstep bus wfi debug_lines (on_cmachine shell)" vstep kinv kview for bus wfi debug_lines shell
  by (rule kernel_simulation) (simp add: keeps_scheduler_def on_cmachine_scheduler)

text \<open>In the abstract system no process appears or disappears, and one that is not resumed keeps its registers.\<close>

lemma vstep_isolates:
  assumes "vstep v v'"
  shows "dom (vs_procs v') = dom (vs_procs v) \<and>
    (\<forall>n. n \<noteq> vs_cur v \<longrightarrow>
       (if n = vs_cur v' then \<exists>p p'. vs_procs v n = Some p \<and> vs_procs v' n = Some p' \<and> resumes p p'
        else vs_procs v' n = vs_procs v n))"
  using assms
proof cases
  case (run p tf)
  then have "dom (vs_procs v') = dom (vs_procs v)" by auto
  then show ?thesis using run by simp
next
  case (switch p sl procs k q q')
  have "dom procs = dom (vs_procs v)" using switch(2,4) by auto
  moreover have "dom (vs_procs v') = dom procs" using switch(1,5) by auto
  moreover have "k \<noteq> vs_cur v \<Longrightarrow> vs_procs v k = Some q" using switch(4,5) by simp
  ultimately show ?thesis using switch(1,4,6) by auto
qed

subsection \<open>The handlers return\<close>

text \<open>One round of polling: it reads the clock at most once per process, and it finds nobody only when nobody is ready and
  no time that has begun to run is over, or a reading was torn.\<close>

definition asleep :: "nat \<Rightarrow> nat \<Rightarrow> sleep_fn process \<Rightarrow> bool" where
  "asleep now after p \<longleftrightarrow> pr_state p \<noteq> Ready \<and>
     (\<forall>f. pr_state p = Waiting f \<longrightarrow> now < after \<and>
        (unat (sl_start_time f) \<le> now \<longrightarrow> now < unat (sl_start_time f) + unat (sl_us f) + 2 ^ 32))"

lemma is_ready_returns:
  assumes "free_running bus cnt" "wakes bus wfi cnt armed w" "armed d" "cnt d < 2 ^ 64"
  shows "\<exists>b p' d'. is_ready (sleep_poll bus) p d = Some (Inr ((b, p'), d')) \<and> armed d' \<and> cnt d \<le> cnt d' \<and> cnt d' \<le> cnt d + 2 ^ 32 \<and>
    (\<not> b \<longrightarrow> asleep (cnt d) (cnt d') p)"
proof (cases "pr_state p")
  case (Waiting f)
  obtain v d1 where t: "timer_read bus d = (v, d1)" by fastforce
  note b = timer_read_le [OF assms(1,4) t]
  let ?el = "v - sl_start_time f"
  have early: "cnt d < unat (sl_start_time f) + unat (sl_us f) + 2 ^ 32" if "\<not> sl_us f < ?el"
  proof (rule ccontr)
    assume late: "\<not> cnt d < unat (sl_start_time f) + unat (sl_us f) + 2 ^ 32"
    have "cnt d mod 2 ^ 32 < 2 ^ 32" by simp
    then have v: "unat (sl_start_time f) + unat (sl_us f) < unat v"
      using late b(1) div_mult_mod_eq [of "cnt d" "2 ^ 32"] by linarith
    then have "unat ?el = unat v - unat (sl_start_time f)" by (subst unat_sub) (simp_all add: word_le_nat_alt)
    then show False using that v by (simp add: word_less_nat_alt)
  qed
  have "\<exists>p'. is_ready (sleep_poll bus) p d = Some (Inr ((sl_us f < ?el, p'), d1))"
    by (simp add: is_ready_def Waiting sleep_poll_def io_bind_def io_state_def io_return_def t Let_def)
  then show ?thesis using b(3,4) early Waiting wakes_read(1) [OF assms(2,3) t] by (auto simp: asleep_def)
qed (use assms in \<open>auto simp: is_ready_def io_return_def asleep_def\<close>)

lemma asleep_mono: "asleep now after p \<Longrightarrow> after \<le> after' \<Longrightarrow> asleep now after' p"
  "asleep now after p \<Longrightarrow> now' \<le> now \<Longrightarrow> asleep now' after p"
  by (fastforce simp: asleep_def)+

lemma position_ready_returns:
  assumes "free_running bus cnt" "wakes bus wfi cnt armed w"
  shows "armed d \<Longrightarrow> cnt d + length ps * 2 ^ 32 < 2 ^ 64 \<Longrightarrow>
    \<exists>i ps' d'. position_ready (sleep_poll bus) ps d = Some (Inr ((i, ps'), d')) \<and> armed d' \<and> cnt d \<le> cnt d' \<and>
      cnt d' \<le> cnt d + length ps * 2 ^ 32 \<and> (i = None \<longrightarrow> (\<forall>p \<in> set ps. asleep (cnt d) (cnt d') p))"
proof (induction ps arbitrary: d)
  case (Cons p ps)
  have "cnt d < 2 ^ 64" using Cons.prems by simp
  from is_ready_returns [OF assms Cons.prems(1) this, of p] obtain b p' d1 where r: "is_ready (sleep_poll bus) p d = Some (Inr ((b, p'), d1))"
    "armed d1" "cnt d \<le> cnt d1" "cnt d1 \<le> cnt d + 2 ^ 32" "\<not> b \<longrightarrow> asleep (cnt d) (cnt d1) p" by blast
  show ?case
  proof (cases b)
    case True
    then show ?thesis using r(1-4) by (simp add: io_bind_def io_return_def)
  next
    case False
    have "cnt d1 + length ps * 2 ^ 32 < 2 ^ 64" using Cons.prems(2) r(4) by simp
    from Cons.IH [OF r(2) this] obtain i ps' d' where i: "position_ready (sleep_poll bus) ps d1 = Some (Inr ((i, ps'), d'))" "armed d'"
      "cnt d1 \<le> cnt d'" "cnt d' \<le> cnt d1 + length ps * 2 ^ 32" "i = None \<longrightarrow> (\<forall>p \<in> set ps. asleep (cnt d1) (cnt d') p)"
      by blast
    have "position_ready (sleep_poll bus) (p # ps) d = Some (Inr ((map_option Suc i, p' # ps'), d'))"
      using False r(1) i(1) by (simp add: io_bind_def io_return_def)
    moreover have "cnt d \<le> cnt d'" "cnt d' \<le> cnt d + length (p # ps) * 2 ^ 32" using r(3,4) i(3,4) by simp_all
    moreover have "\<forall>q \<in> set (p # ps). asleep (cnt d) (cnt d') q" if "i = None"
      using that i(3,5) r(3,5) False by (auto intro: asleep_mono)
    ultimately show ?thesis using i(2) by auto
  qed
qed (simp add: io_return_def)

text \<open>What the scheduler waits for: some process is ready, or has a time that has begun and ends while the counter is far from
  its end.\<close>

definition will_wake :: "nat \<Rightarrow> nat \<Rightarrow> nat \<Rightarrow> sleep_fn process \<Rightarrow> bool" where
  "will_wake now n w p \<longleftrightarrow>
     (case pr_state p of
        Ready \<Rightarrow> True
      | Running \<Rightarrow> False
      | Waiting f \<Rightarrow> unat (sl_start_time f) \<le> now \<and>
          unat (sl_start_time f) + unat (sl_us f) + (2 * n + 1) * 2 ^ 32 + w < 2 ^ 64)"

lemma switch_loop_returns:
  assumes "free_running bus cnt" "wakes bus wfi cnt armed w" "p \<in> set (sc_processes s)"
  shows "armed d \<Longrightarrow> cnt d + length (sc_processes s) * 2 ^ 32 < 2 ^ 64 \<Longrightarrow> will_wake (cnt d) (length (sc_processes s)) w p \<Longrightarrow>
    \<exists>r. switch_loop (sleep_poll bus) wfi s d = Some (Inr r)"
proof (induction "2 ^ 64 - cnt d" arbitrary: d rule: less_induct)
  case less
  let ?n = "length (sc_processes s)"
  from position_ready_returns [OF assms(1,2) less.prems(1,2)] obtain i ps' d1 where
    i: "position_ready (sleep_poll bus) (sc_processes s) d = Some (Inr ((i, ps'), d1))" "armed d1" "cnt d \<le> cnt d1"
    "cnt d1 \<le> cnt d + ?n * 2 ^ 32" "i = None \<longrightarrow> (\<forall>p \<in> set (sc_processes s). asleep (cnt d) (cnt d1) p)" by blast
  show ?case
  proof (cases i)
    case None
    have "ps' = sc_processes s" using position_ready_sleep [OF i(1)] None by simp
    then have "next_process (sleep_poll bus) s d = Some (Inr ((None, s), d1))"
      using i(1) None by (simp add: next_process_def io_bind_def io_return_def)
    moreover obtain d2 where d2: "wfi d1 = Some (Inr ((), d2))" "armed d2" "cnt d1 \<le> cnt d2" "cnt d2 \<le> cnt d1 + w"
      using assms(2) i(2) by (rule wakes_wfi)
    ultimately have run: "switch_loop (sleep_poll bus) wfi s d = switch_loop (sleep_poll bus) wfi s d2"
      by (subst switch_loop_step) (simp add: io_bind_def io_then_def)
    have "asleep (cnt d) (cnt d1) p" using i(5) None assms(3) by simp
    then obtain f where f: "pr_state p = Waiting f" "unat (sl_start_time f) \<le> cnt d" "cnt d < cnt d1"
      "unat (sl_start_time f) + unat (sl_us f) + (2 * ?n + 1) * 2 ^ 32 + w < 2 ^ 64"
      "cnt d < unat (sl_start_time f) + unat (sl_us f) + 2 ^ 32"
      using less.prems(3) by (auto simp: will_wake_def asleep_def split: state.splits)
    have "cnt d2 + ?n * 2 ^ 32 < 2 ^ 64" using f(4,5) i(4) d2(4) by (simp add: algebra_simps)
    moreover have "will_wake (cnt d2) ?n w p" using f(1,2,4) i(3) d2(3) by (simp add: will_wake_def)
    ultimately show ?thesis using less.hyps [of d2] d2(2) run f(3) d2(3) less.prems(2) by simp
  next
    case (Some k)
    then obtain xs q q' ys where "ps' = xs @ q' # ys" "length xs = k" using position_ready_sleep [OF i(1)] by auto
    then have "next_process (sleep_poll bus) s d = Some (Inr ((Some q', s\<lparr>sc_processes := q' # ys @ xs\<rparr>), d1))"
      using i(1) Some by (simp add: next_process_def io_bind_def io_return_def current_def)
    then show ?thesis by (subst switch_loop_step) (simp add: io_bind_def io_return_def)
  qed
qed

lemma gs_switch_returns:
  assumes "free_running bus cnt" "wakes bus wfi cnt armed w" "mx_data g = Some s" "mx_lock g \<longrightarrow> mx_owner g = 0" "sc_processes s = cur # rest"
    and "armed d" and "cnt d + length (sc_processes s) * 2 ^ 32 < 2 ^ 64"
    and "will_wake (cnt d) (length (sc_processes s)) w (cur\<lparr>pr_trap_frame := tf, pr_state := st\<rparr>)"
  shows "\<exists>i tf' g' d'. gs_switch (sleep_poll bus) wfi st tf (g, d) = Some (Inr ((i, tf'), (g', d')))"
proof -
  let ?cur = "cur\<lparr>pr_trap_frame := tf, pr_state := st\<rparr>"
  let ?s = "s\<lparr>sc_processes := rest @ [?cur]\<rparr>"
  have "\<exists>r. switch_loop (sleep_poll bus) wfi ?s d = Some (Inr r)"
    by (rule switch_loop_returns [OF assms(1,2), of ?cur]) (use assms(5-8) in simp_all)
  then obtain pid tf' s' d' where "switch_loop (sleep_poll bus) wfi ?s d = Some (Inr ((pid, tf', s'), d'))" by auto
  then have "switch (sleep_poll bus) wfi st tf s d = Some (Inr ((Some pid, tf', s'), d'))"
    using assms(5) by (simp add: switch_def io_bind_def io_return_def)
  then show ?thesis using assms(3) by (simp add: gs_switch_def with_lock_idle [OF assms(4)])
qed

text \<open>C11: The kernel does not hang. Whatever the other processes are doing, all of them asleep included, the sleep
  system call comes back with some process to run, at the latest the caller itself, and so does the handler of a timer
  interrupt, which needs no waiting. This holds on the running counter of the hardware, whose readings may be torn, as long as an armed
  timer ends each wait, after any time \<open>w\<close>, and the counter is far from its end.\<close>

theorem handlers_return:
  assumes "free_running bus cnt" "wakes bus wfi cnt armed w" "armed d"
    and "mx_data g = Some s" "mx_lock g \<longrightarrow> mx_owner g = 0" "sc_processes s = cur # rest"
    and "cnt d + unat ms * 1000 + (2 * length (sc_processes s) + 2) * 2 ^ 32 + w < 2 ^ 64"
  shows "(\<exists>tf' m'. sys_sleep bus wfi ms tf (g, d) = Some (Inr (tf', m'))) \<and>
    (\<exists>tf' m'. handle_irq bus wfi Timer1 tf (g, d) = Some (Inr (tf', m')))"
proof
  have "unat (ucast ms :: u64) = unat ms" using unat_lt_len [of ms] by (simp add: unsigned_ucast_eq take_bit_nat_eq_self)
  then have us: "unat (ucast ms * 1000 :: u64) = unat ms * 1000"
    using unat_lt_len [of ms] by (simp add: unat_word_ariths)
  have lt: "cnt d < 2 ^ 64" using assms(7) by simp
  obtain v d1 where t: "timer_read bus d = (v, d1)" by fastforce
  note b = timer_read_le [OF assms(1) lt t]
  let ?st = "Waiting \<lparr>sl_start_time = v, sl_us = ucast ms * 1000\<rparr>"
  have w: "will_wake (cnt d1) (length (sc_processes s)) w (cur\<lparr>pr_trap_frame := tf, pr_state := ?st\<rparr>)"
    using b(2,4) assms(7) us by (simp add: will_wake_def algebra_simps)
  have "cnt d1 + length (sc_processes s) * 2 ^ 32 < 2 ^ 64" using b(4) assms(7) by (simp add: algebra_simps)
  from gs_switch_returns [OF assms(1,2,4-6) wakes_read(1) [OF assms(2,3) t] this w] obtain i tf' g' d' where
    "gs_switch (sleep_poll bus) wfi ?st tf (g, d1) = Some (Inr ((i, tf'), (g', d')))" by blast
  then have "sys_sleep bus wfi ms tf (g, d) = Some (Inr (tf', (g', d')))"
    using t by (simp add: sys_sleep_def on_device_def io_zoom_def io_state_def io_bind_def io_return_def Let_def)
  then show "\<exists>tf' m'. sys_sleep bus wfi ms tf (g, d) = Some (Inr (tf', m'))" by blast
  have "cnt d + length (sc_processes s) * 2 ^ 32 < 2 ^ 64" using assms(7) by (simp add: algebra_simps)
  from gs_switch_returns [OF assms(1,2,4-6,3) this, where st = Ready and tf = tf] obtain i tf' g' d' where
    "gs_switch (sleep_poll bus) wfi Ready tf (g, d) = Some (Inr ((i, tf'), (g', d')))" by (auto simp: will_wake_def)
  then show "\<exists>tf' m'. handle_irq bus wfi Timer1 tf (g, d) = Some (Inr (tf', m'))"
    by (simp add: handle_irq_def on_device_def io_zoom_def io_state_def io_bind_def io_then_def io_return_def)
qed

lemma vsteps_dom: "vstep\<^sup>*\<^sup>* v v' \<Longrightarrow> dom (vs_procs v') = dom (vs_procs v)"
  by (induction rule: rtranclp.induct) (use vstep_isolates in auto)

text \<open>C10: The kernel implements processes with registers of their own. Over any sequence of user steps, timer
  interrupts, system calls and breakpoints, in any order, the registers on the CPU and those saved in the queue
  are the registers of the abstract processes: only the current process changes its own, a process that is
  resumed finds what it had when it was suspended, after a sleep also the elapsed time, which exceeds what it asked for, and
  no process is lost or made.\<close>

theorem kernel_isolates:
  assumes "kinv s" "(kstep bus wfi debug_lines (on_cmachine shell))\<^sup>*\<^sup>* s s'"
  shows "kinv s' \<and> vstep\<^sup>*\<^sup>* (kview s) (kview s') \<and> dom (vs_procs (kview s')) = dom (vs_procs (kview s))"
  using multitask.runs_simulate [OF assms(2,1)] vsteps_dom by blast

subsection \<open>Examples\<close>

definition ex_task :: "usize \<Rightarrow> sleep_fn process" where
  "ex_task n = \<lparr>pr_trap_frame = ex_frame n, pr_box = 0, pr_stack = \<lparr>st_ptr = n\<rparr>, pr_state = Ready\<rparr>"

definition ex_start :: "trap_frame \<times> nat kmachine" where
  "ex_start = (ex_frame 16, (CONSOLE, ex_sched [ex_task 16, ex_task 32], 7))"

lemma ex_start_ok: "kinv ex_start"
  by (simp add: kinv_def ex_start_def sched_ok_def ex_sched_def ex_task_def)

text \<open>The first process runs, then the timer interrupts it.\<close>

lemma ex_run:
  "\<exists>m'. (kstep clock_bus clock_wfi (\<lambda>_ _ _. []) (on_cmachine shell))\<^sup>*\<^sup>* ex_start (ex_frame 32, m')"
proof -
  let ?step = "kstep clock_bus clock_wfi (\<lambda>_ _ _. []) (on_cmachine shell)"
  let ?g = "ex_sched [ex_task 16, ex_task 32]"
  have g: "mx_data ?g = Some \<lparr>sc_processes = [ex_task 16, ex_task 32], sc_current_id = Some 1, sc_last_id = Some 1\<rparr>"
    "mx_lock ?g \<longrightarrow> mx_owner ?g = 0" by (simp_all add: ex_sched_def)
  have irq: "is_pending clock_bus Timer1 controller_new 7 = Some (Inr (True, 7))"
    by (simp add: is_pending_def index_and_offset_def irqno_def irq_reg_def IRQ_PENDING_def volatile_defs clock_bus_def
      io_bind_def io_state_def io_return_def timer_addrs controller_new_def INT_BASE_def IO_BASE_def)
  obtain s0 where s0: "syndrome_from 0 = Inr s0" using syndrome_panics_cases(1) [of 0] by (auto simp: exception_class_def)
  obtain g' where "handle_irq clock_bus clock_wfi Timer1 (ex_frame 99) (?g, 7) = Some (Inr (ex_frame 32, (g', tick_in clock_bus TICK 7)))"
    using handle_irq_timer [OF g, of "ex_task 16" "ex_task 32" "[]" clock_bus clock_wfi "ex_frame 99" 7] by (auto simp: ex_task_def)
  then have "handle_exception clock_bus clock_wfi (\<lambda>_ _ _. []) (on_cmachine shell) \<lparr>in_source = LowerAArch64, in_kind = Irq\<rparr> 0 (ex_frame 99)
      (CONSOLE, ?g, 7) = Some (Inr (ex_frame 32, (CONSOLE, g', tick_in clock_bus TICK 7)))"
    by (simp add: handle_exception_def io_then_def io_bind_def io_return_def io_lift_def s0 on_smachine_def on_device_def io_zoom_def irq)
  then have "?step (ex_frame 99, (CONSOLE, ?g, 7)) (ex_frame 32, (CONSOLE, g', tick_in clock_bus TICK 7))" by (rule kstep.trap)
  moreover have "?step ex_start (ex_frame 99, (CONSOLE, ?g, 7))" unfolding ex_start_def by (rule kstep.user)
  ultimately show ?thesis by (meson converse_rtranclp_into_rtranclp r_into_rtranclp)
qed

theorem kernel_isolates_witness:
  "\<exists>m'. (kstep clock_bus clock_wfi (\<lambda>_ _ _. []) (on_cmachine (io_return ())))\<^sup>*\<^sup>* ex_start (ex_frame 32, m') \<and>
     kinv (ex_frame 32, m') \<and> vstep\<^sup>*\<^sup>* (kview ex_start) (kview (ex_frame 32, m'))"
  using ex_run [of "io_return ()"] kernel_isolates [OF ex_start_ok] by blast

text \<open>Both processes asleep, the other one for more than a quarter of an hour.\<close>

definition ex_asleep :: "sleep_fn process" where
  "ex_asleep = (ex_task 32)\<lparr>pr_state := Waiting \<lparr>sl_start_time = 7, sl_us = 1000000000\<rparr>\<rparr>"

theorem handlers_return_witness:
  "(\<exists>tf' m'. sys_sleep clock_bus clock_wfi 5 (ex_frame 16) (ex_sched [ex_task 16, ex_asleep], 100) = Some (Inr (tf', m'))) \<and>
   (\<exists>tf' m'. handle_irq clock_bus clock_wfi Timer1 (ex_frame 16) (ex_sched [ex_task 16, ex_asleep], 100) = Some (Inr (tf', m')))"
proof -
  let ?s = "\<lparr>sc_processes = [ex_task 16, ex_asleep], sc_current_id = Some 1, sc_last_id = Some 1\<rparr>"
  have "mx_data (ex_sched [ex_task 16, ex_asleep]) = Some ?s" by (simp add: ex_sched_def)
  from handlers_return [OF clock_free_running clock_wakes TrueI this, of "ex_task 16" "[ex_asleep]" 100 5 "ex_frame 16"] show ?thesis
    by (simp add: ex_sched_def)
qed

end
