(* ===== verification/KernelRun.thy ===== *)
theory KernelRun
  imports Kernel Multitask
begin

text \<open>
  From power-on: the processes that \<open>kmain\<close> leaves (\<open>kernel/src/kmain.rs\<close>, \<open>kernel/src/process/scheduler.rs\<close>) and
  whatever happens to them afterwards (\<open>kernel/src/traps/\<close>), as one run.
\<close>

text \<open>The processes before the first has run: each at the start of its function, with the whole of a stack of its own.\<close>

definition boot_view :: "sleep_fn process \<Rightarrow> sleep_fn process \<Rightarrow> vsys" where
  "boot_view p1 p2 = \<lparr>vs_procs = [pr_stack p1 \<mapsto> vp_of p1, pr_stack p2 \<mapsto> vp_of p2], vs_cur = pr_stack p1\<rparr>"

lemma footprints_apart:
  assumes "footprint p1 \<inter> footprint p2 = {}"
  shows "pr_stack p1 \<noteq> pr_stack p2"
proof
  assume "pr_stack p1 = pr_stack p2"
  then have "unat (st_ptr (pr_stack p1)) \<in> footprint p1 \<inter> footprint p2" by (simp add: footprint_def block_def)
  with assms show False by simp
qed

lemma queued_kinv:
  assumes "queued fn1 fn2 area free s" "mx_data g = Some s" "idle g" "tf = pr_trap_frame (hd (sc_processes s))"
  obtains p1 p2 where "sc_processes s = [p1, p2]" "fresh_process fn1 p1" "fresh_process fn2 p2" "footprint p1 \<inter> footprint p2 = {}"
    "kinv (tf, (c, g, d))" "kview (tf, (c, g, d)) = boot_view p1 p2"
proof -
  obtain p1 p2 where p: "sc_processes s = [p1, p2]" "fresh_process fn1 p1" "fresh_process fn2 p2" "footprint p1 \<inter> footprint p2 = {}"
    using assms(1) by (auto simp: queued_def)
  note ne = footprints_apart [OF p(4)]
  have "kinv (tf, (c, g, d))" using assms(2,3) p(1,2) ne by (simp add: kinv_def sched_ok_def idle_def fresh_process_def)
  moreover have "kview (tf, (c, g, d)) = boot_view p1 p2"
    using assms(2,4) p(1) ne by (simp add: kview_def vview_def boot_view_def vprocs_def fun_upd_twist)
  ultimately show thesis using that p by blast
qed

text \<open>C9: From power-on to any later moment. Under the conditions of booting, \<open>kmain\<close> hands over to two shells, and every
  state that user steps, interrupts, system calls and breakpoints reach from there is one of two processes
  with registers of their own, started at their functions with disjoint stacks: the scheduler is never left inconsistent, and
  neither process ever runs with registers of the other.\<close>

theorem boot_isolates:
  fixes end_sym :: usize
  defines "start \<equiv> ucast (ucast end_sym :: u32) :: usize"
  assumes "free_running bus cnt" and "cnt d + 2 ^ 36 < 2 ^ 64"
    and "tag_chain tags ATAG_BASE (c # ps) q" and "decoded tags (ps @ [q]) ts" and "find is_mem_tag ts = Some (Mem x)"
    and "end' = (ucast (mem_start x + mem_size x) :: usize)"
    and "0 < unat start" and "up16 (unat start) < down16 (unat end')"
    and "unat loc \<notin> {up16 (unat start) ..< down16 (unat end')}"
    and "mounts sd_init vfat_from (divide_blocks [(up16 (unat start), down16 (unat end') - up16 (unat start))])"
  shows "\<exists>tf k p1 p2. kmain bus end_sym loc tags sd_init vfat_from shell_1 shell_2 (kernel_static m d) = Some (Inr (tf, k)) \<and>
    fresh_process shell_1 p1 \<and> fresh_process shell_2 p2 \<and> footprint p1 \<inter> footprint p2 = {} \<and>
    (\<forall>console st. (kstep bus wfi debug_lines (on_cmachine shell))\<^sup>*\<^sup>* (tf, (console, kn_scheduler k, kn_dev k)) st \<longrightarrow>
       kinv st \<and> vstep\<^sup>*\<^sup>* (boot_view p1 p2) (kview st))"
proof -
  obtain s :: "sleep_fn scheduler" and k where k: "kmain bus end_sym loc tags sd_init vfat_from shell_1 shell_2 (kernel_static m d) =
      Some (Inr (pr_trap_frame (hd (sc_processes s)), k))" "mx_data (kn_scheduler k) = Some s"
    "queued shell_1 shell_2 {unat start ..< unat end'} (kernel_free (kn_heap k)) s" "idle (kn_scheduler k)"
    using kmain_reaches [OF assms(2-7) assms(8-11) [unfolded start_def]] unfolding start_def by blast
  let ?tf = "pr_trap_frame (hd (sc_processes s))"
  obtain p1 p2 where p: "sc_processes s = [p1, p2]" "fresh_process shell_1 p1" "fresh_process shell_2 p2" "footprint p1 \<inter> footprint p2 = {}"
    using k(3) by (auto simp: queued_def)
  have "kinv (?tf, (con, kn_scheduler k, kn_dev k)) \<and> kview (?tf, (con, kn_scheduler k, kn_dev k)) = boot_view p1 p2" for con
    by (rule queued_kinv [OF k(3,2,4) refl, of con "kn_dev k"]) (use p(1) in simp)
  then have "kinv st \<and> vstep\<^sup>*\<^sup>* (boot_view p1 p2) (kview st)"
    if "(kstep bus wfi debug_lines (on_cmachine shell))\<^sup>*\<^sup>* (?tf, (con, kn_scheduler k, kn_dev k)) st" for con st
    using multitask.runs_simulate [OF that] by metis
  then show ?thesis using k(1) p(2-4) by blast
qed

theorem boot_isolates_witness:
  "\<exists>tf k p1 p2. kmain board_bus 0x80000 8 ex_boot (io_return 0) (\<lambda>_. io_return (Inr () :: unit + unit)) 0x90000 0x91000
      (kernel_static (\<lambda>_. 0) \<lparr>bd_time = 0, bd_regs = (\<lambda>_. 0)\<rparr>) = Some (Inr (tf, k)) \<and>
    fresh_process 0x90000 p1 \<and> fresh_process 0x91000 p2 \<and> footprint p1 \<inter> footprint p2 = {} \<and>
    (\<forall>console st. (kstep board_bus (io_return ()) (\<lambda>_ _ _. []) (on_cmachine (io_return ())))\<^sup>*\<^sup>* (tf, (console, kn_scheduler k, kn_dev k)) st \<longrightarrow>
       kinv st \<and> vstep\<^sup>*\<^sup>* (boot_view p1 p2) (kview st))"
proof -
  let ?x = "\<lparr>mem_size = 0x4000000, mem_start = 0\<rparr>"
  have dec: "decoded ex_boot ([0x114, 0x124] @ [0x130]) [Mem ?x, Cmd [0x68, 0x69], NoneTag]"
    using ex_boot_decoded by (simp only: append_Cons append_Nil)
  have mem: "find is_mem_tag [Mem ?x, Cmd [0x68, 0x69], NoneTag] = Some (Mem ?x)"
    by (simp add: is_mem_tag_def)
  have mnt: "mounts (io_return 0) (\<lambda>_. io_return (Inr () :: unit + unit)) (divide_blocks [(0x80000, 0x3F80000)])"
    using ex_rooms unfolding mounts_def io_return_def by auto
  show ?thesis
    by (rule boot_isolates [OF board_free_running _ ex_boot_chain dec mem, where end' = "0x4000000"]) (use mnt in \<open>simp_all add: up16_def down16_def\<close>)
qed

end
