(* ===== verification/IoString.thy ===== *)
theory IoString
  imports IoSource
begin

text \<open>
  Reading into strings: a \<open>String\<close> is always valid UTF-8, whatever the reader does. And the methods that slices
  override do what the default methods do.
\<close>

subsection \<open>Concatenation of valid strings\<close>

lemma utf8_seq_append: "utf8_seq a \<noteq> 0 \<Longrightarrow> utf8_seq (a @ b) = utf8_seq a"
  by (cases a; cases "tl a"; cases "tl (tl a)"; cases "tl (tl (tl a))") (auto simp: utf8_seq_def split: if_splits)

lemma utf8_seq_length: "utf8_seq a \<le> length a"
  by (cases a; cases "tl a"; cases "tl (tl a)"; cases "tl (tl (tl a))") (auto simp: utf8_seq_def)

lemma utf8_valid_append: "utf8_valid a \<Longrightarrow> utf8_valid b \<Longrightarrow> utf8_valid (a @ b)"
proof (induction a rule: utf8_valid.induct)
  case (1 a)
  show ?case
  proof (cases "a = []")
    case False
    then have s: "utf8_seq a \<noteq> 0" "utf8_valid (drop (utf8_seq a) a)"
      using 1(2) by (auto simp: utf8_valid.simps [of a] split: if_splits)
    then have "utf8_valid (drop (utf8_seq a) a @ b)" using 1(1,3) False by simp
    then show ?thesis using s False utf8_seq_length [of a]
      by (simp add: utf8_valid.simps [of "a @ b"] utf8_seq_append)
  qed (use 1 in simp)
qed

subsection \<open>Appending only\<close>

text \<open>A computation that only appends to the vector it is given.\<close>

definition appends :: "(u8 list \<Rightarrow> ('d, nat io_result \<times> u8 list) io) \<Rightarrow> bool" where
  "appends f \<longleftrightarrow> (\<forall>buf d r vec d'. f buf d = Some (Inr ((r, vec), d')) \<longrightarrow> (\<exists>new. vec = buf @ new))"

lemma read_until_loop_appends:
  assumes "read_until_loop r delim n buf d = Some y" "y = Inr ((res, vec), d')"
  shows "\<exists>new. vec = buf @ new"
  using assms
proof (induction rule: read_until_loop.raw_induct [rotated 1, consumes 1, case_names step])
  case (step loop r delim n buf d y)
  obtain a e where f: "fill_buf r d = Some (Inr (a, e))"
    "(case a of
        Inl x \<Rightarrow> if kind x = Interrupted then loop r delim n buf e else io_return (Inl x, buf) e
      | Inr available \<Rightarrow>
          (case memchr delim available of
             Some i \<Rightarrow> io_then (consume r (i + 1)) (io_return (Inr (n + (i + 1)), buf @ take (i + 1) available)) e
           | None \<Rightarrow>
               io_then (consume r (length available)) (\<lambda>d.
                 if length available = 0 then io_return (Inr n, buf) d
                 else loop r delim (n + length available) (buf @ available) d) e)) = Some (Inr ((res, vec), d'))"
    using step(2) unfolding step(3) io_bind_eq_ok_iff by blast
  show ?case
  proof (cases a)
    case (Inl x)
    then show ?thesis using f(2) step(1) [of r delim n buf e] by (auto simp: io_return_def split: if_splits)
  next
    case (Inr av)
    then show ?thesis
      using f(2) step(1) [of r delim "n + length av" "buf @ av"]
      by (auto simp: io_then_def io_bind_eq_ok_iff io_return_def split: option.splits if_splits)
  qed
qed

lemma read_to_end_loop_appends:
  assumes "read_to_end_loop rd reserve n buf space d = Some y" "y = Inr ((res, vec), d')"
  shows "\<exists>new. vec = buf @ new"
  using assms
proof (induction rule: read_to_end_loop.raw_induct [rotated 1, consumes 1, case_names step])
  case (step loop rd reserve n buf space d y)
  let ?s = "if space = [] then replicate (reserve (length buf) - length buf) 0 else space"
  obtain a sp e where f: "rd ?s d = Some (Inr ((a, sp), e))"
    "(case a of
        Inr k \<Rightarrow>
          if k = 0 then io_return (Inr (length buf - n), buf) e
          else if k > length sp then slice_panic e
          else loop rd reserve n (buf @ take k sp) (drop k sp) e
      | Inl x \<Rightarrow> if kind x = Interrupted then loop rd reserve n buf sp e else io_return (Inl x, buf) e) =
      Some (Inr ((res, vec), d'))"
    using step(2) unfolding step(3) Let_def io_bind_eq_ok_iff by auto
  show ?case
  proof (cases a)
    case (Inl x)
    then show ?thesis using f(2) step(1) [of rd reserve n buf sp e] by (auto simp: io_return_def split: if_splits)
  next
    case (Inr k)
    then show ?thesis
      using f(2) step(1) [of rd reserve n "buf @ take k sp" "drop k sp" e]
      by (auto simp: io_return_def slice_panic_def io_panic_def split: if_splits)
  qed
qed

lemma read_appends: "appends (\<lambda>b. read_until r delim b)" "appends (\<lambda>b. read_to_end rd reserve b)"
  using read_until_loop_appends read_to_end_loop_appends by (fastforce simp: appends_def read_until_def read_to_end_def)+

lemma append_to_string_valid:
  assumes "appends f" "utf8_valid buf" "append_to_string buf f d = Some (Inr ((res, text'), d'))"
  shows "\<exists>new. text' = buf @ new \<and> utf8_valid new \<and> utf8_valid text'"
proof -
  obtain r vec e where f0: "f buf d = Some (Inr ((r, vec), e))"
    "(if from_utf8 (drop (length buf) vec) = None
       then io_return (case r of Inr _ \<Rightarrow> Inl (error_new InvalidData ''stream did not contain valid UTF-8'')
                                 | Inl e \<Rightarrow> Inl e, take (length buf) vec)
       else io_return (r, vec)) e = Some (Inr ((res, text'), d'))"
    using assms(3) by (auto simp: append_to_string_def io_bind_eq_ok_iff)
  then have f: "f buf d = Some (Inr ((r, vec), d'))"
    "text' = (if utf8_valid (drop (length buf) vec) then vec else take (length buf) vec)"
    by (simp_all add: io_return_def from_utf8_def split: if_splits)
  obtain new where "vec = buf @ new" using assms(1) f(1) unfolding appends_def by blast
  then show ?thesis using f(2) utf8_valid_append [OF assms(2)] assms(2) by (auto split: if_splits)
qed

text \<open>C31: A string stays valid UTF-8 under \<open>read_line\<close> and \<open>read_to_string\<close>, whatever the reader returns, errors in the
  middle included: what is there is kept, and only valid text is added.\<close>

theorem string_stays_valid:
  assumes "utf8_valid buf"
  shows "(case read_line r buf d of
      Some (Inr ((res, text'), d')) \<Rightarrow> \<exists>new. text' = buf @ new \<and> utf8_valid text' | _ \<Rightarrow> True) \<and>
    (case read_to_string rd reserve buf d of
      Some (Inr ((res, text'), d')) \<Rightarrow> \<exists>new. text' = buf @ new \<and> utf8_valid text' | _ \<Rightarrow> True)"
  using append_to_string_valid [OF read_appends(1) assms] append_to_string_valid [OF read_appends(2) assms]
  by (fastforce simp: read_line_def read_to_string_def split: option.splits sum.splits)

text \<open>A reader that returns one byte that is not UTF-8 and then the end.\<close>

theorem string_stays_valid_witness:
  "(case read_to_string slice_read (\<lambda>n. n + 32) [65] [255] of
      Some (Inr ((res, text'), d')) \<Rightarrow> \<exists>new. text' = [65] @ new \<and> utf8_valid text' | _ \<Rightarrow> True)"
proof -
  have "utf8_valid [65]" by (rule utf8_valid_ascii) simp
  then show ?thesis using string_stays_valid [of "[65]" slice_buf_read "[255]" slice_read "\<lambda>n. n + 32"] by blast
qed

text \<open>The methods that slices override for speed agree with the default methods built on \<open>read\<close>: \<open>read_to_end\<close> in
  value and state, \<open>read_exact\<close> too when the slice is long enough, and otherwise in the error they report.\<close>

theorem slice_methods_agree:
  assumes "\<And>n. n < reserve n"
  shows "read_to_end slice_read reserve buf s = slice_read_to_end buf s \<and>
    (length buf \<le> length s \<longrightarrow> read_exact slice_read buf s = slice_read_exact buf s) \<and>
    (length s < length buf \<longrightarrow>
      (\<exists>e b b' s'. read_exact slice_read buf s = Some (Inr ((Inl e, b), s')) \<and> slice_read_exact buf s = Some (Inr ((Inl e, b'), s))))"
  using slice_read_to_end_default [of reserve, OF assms] slice_read_exact_default [of buf s]
    slice_source.read_exact_eof [where d = s and buf = buf and pre = "[]"]
  by (auto simp: read_exact_def slice_read_exact_def io_return_def)

theorem slice_methods_agree_witness:
  "read_to_end slice_read (\<lambda>n. n + 32) [1] [2, 3] = slice_read_to_end [1] [2, 3] \<and>
    read_exact slice_read [0] [2, 3] = slice_read_exact [0] [2, 3]"
  using slice_methods_agree [of "\<lambda>n. n + 32" "[1]" "[2, 3]"] slice_methods_agree [of "\<lambda>n. n + 32" "[0]" "[2, 3]"] by simp

end
