(* ===== verification/HashTable.thy ===== *)
theory HashTable
  imports HeapApi IoMonad
begin

text \<open>
  The raw hash table of the standard library, \<open>std/src/collections/hash/table.rs\<close>: buckets, the tag of
  the table and the moves between buckets. A bucket is empty (its stored hash is \<open>EMPTY_BUCKET\<close>)
  or holds a hash, a key and a value; a safe hash is never \<open>EMPTY_BUCKET\<close>, so the empty bucket is \<open>None\<close>.
  The size and alignment of a pair and the heap, which is asked for the memory of a table, are arguments.
\<close>

subsection \<open>Hashes\<close>

definition EMPTY_BUCKET :: usize where
  "EMPTY_BUCKET = 0"

definition safe_hash :: "u64 \<Rightarrow> usize" where
  "safe_hash hash = push_bit 63 1 OR hash"

definition make_hash :: "('k \<Rightarrow> u64) \<Rightarrow> 'k \<Rightarrow> usize" where
  "make_hash hasher k = safe_hash (hasher k)"

lemma safe_hash_nonzero: "safe_hash h \<noteq> EMPTY_BUCKET"
proof
  assume "safe_hash h = EMPTY_BUCKET"
  then have "bit (safe_hash h) 63 = bit EMPTY_BUCKET 63" by simp
  then show False by (simp add: safe_hash_def EMPTY_BUCKET_def bit_simps)
qed

subsection \<open>Tables\<close>

type_synonym ('k, 'v) slot = "(usize \<times> 'k \<times> 'v) option"

record ('k, 'v) raw_table =
  rt_mask :: usize
  rt_size :: usize
  rt_slots :: "('k, 'v) slot list"
  rt_tag :: bool

definition rt_capacity :: "('k, 'v) raw_table \<Rightarrow> usize" where
  "rt_capacity t = rt_mask t + 1"

definition set_tag :: "bool \<Rightarrow> ('k, 'v) raw_table \<Rightarrow> ('k, 'v) raw_table" where
  "set_tag value t = t\<lparr>rt_tag := value\<rparr>"

definition round_up_to_next :: "usize \<Rightarrow> usize \<Rightarrow> usize outcome" where
  "round_up_to_next unrounded target_alignment =
     (if \<not> is_power_of_two target_alignment
      then Inl (Panic ''assertion failed: target_alignment.is_power_of_two()'')
      else Inr ((unrounded + target_alignment - 1) AND NOT (target_alignment - 1)))"

definition overflowing_add :: "usize \<Rightarrow> usize \<Rightarrow> usize \<times> bool" where
  "overflowing_add a b = (a + b, unat a + unat b \<ge> 2 ^ 64)"

definition calculate_offsets :: "usize \<Rightarrow> usize \<Rightarrow> usize \<Rightarrow> (usize \<times> usize \<times> bool) outcome" where
  "calculate_offsets hashes_size pairs_size pairs_align =
     and_then (round_up_to_next hashes_size pairs_align) (\<lambda>pairs_offset.
       let (end_of_pairs, oflo) = overflowing_add pairs_offset pairs_size in Inr (pairs_offset, end_of_pairs, oflo))"

definition calculate_allocation :: "usize \<Rightarrow> usize \<Rightarrow> usize \<Rightarrow> usize \<Rightarrow> (usize \<times> usize \<times> bool) outcome" where
  "calculate_allocation hash_size hash_align pairs_size pairs_align =
     and_then (calculate_offsets hash_size pairs_size pairs_align) (\<lambda>(_, end_of_pairs, oflo).
       Inr (max hash_align pairs_align, end_of_pairs, oflo))"

text \<open>The types of the pairs, as far as memory is concerned, and the answers of the heap.\<close>

record table_env =
  te_size :: usize
  te_align :: usize
  te_heap :: "layout \<Rightarrow> bool"

definition checked_mul :: "usize \<Rightarrow> usize \<Rightarrow> usize option" where
  "checked_mul a b = (if unat a * unat b < 2 ^ 64 then Some (a * b) else None)"

text \<open>The request for the memory of a table, with every assertion.\<close>

definition table_layout :: "table_env \<Rightarrow> usize \<Rightarrow> layout outcome" where
  "table_layout env capacity =
     and_then (calculate_allocation (capacity * 8) 8 (capacity * te_size env) (te_align env)) (\<lambda>(alignment, sz, oflo).
       if oflo then Inl (Panic ''capacity overflow'')
       else and_then (expect ''called `Option::unwrap()` on a `None` value'' (checked_add 8 (te_size env))) (\<lambda>size_of_bucket.
            and_then (expect ''capacity overflow'' (checked_mul capacity size_of_bucket)) (\<lambda>need.
              if \<not> sz \<ge> need then Inl (Panic ''capacity overflow'')
              else expect ''called `Option::unwrap()` on a `None` value'' (from_size_align sz alignment))))"

definition raw_table_new :: "table_env \<Rightarrow> usize \<Rightarrow> (('k, 'v) raw_table) outcome" where
  "raw_table_new env capacity =
     (if capacity = 0 then Inr \<lparr>rt_mask = capacity - 1, rt_size = 0, rt_slots = [], rt_tag = True\<rparr>
      else and_then (table_layout env capacity) (\<lambda>l.
             if te_heap env l
             then Inr \<lparr>rt_mask = capacity - 1, rt_size = 0, rt_slots = replicate (unat capacity) None, rt_tag = False\<rparr>
             else Inl (Panic ''out of memory'')))"

text \<open>Where the hash and the pair of a bucket stand, as offsets into the memory of the table.\<close>

definition raw_bucket_at :: "table_env \<Rightarrow> usize \<Rightarrow> usize \<Rightarrow> (usize \<times> usize) outcome" where
  "raw_bucket_at env capacity idx =
     and_then (calculate_offsets (capacity * 8) (capacity * te_size env) (te_align env)) (\<lambda>(pairs_offset, _, _).
       Inr (idx * 8, pairs_offset + idx * te_size env))"

subsection \<open>Buckets\<close>

definition at_index :: "('k, 'v) raw_table \<Rightarrow> usize \<Rightarrow> usize" where
  "at_index t ib_index = ib_index AND rt_mask t"

definition bucket_new :: "('k, 'v) raw_table \<Rightarrow> usize \<Rightarrow> usize" where
  "bucket_new t hash = at_index t hash"

definition bucket_next :: "('k, 'v) raw_table \<Rightarrow> usize \<Rightarrow> usize" where
  "bucket_next t idx = (idx + 1) AND rt_mask t"

definition bucket_prev :: "('k, 'v) raw_table \<Rightarrow> usize \<Rightarrow> usize" where
  "bucket_prev t idx = (idx - 1) AND rt_mask t"

definition bucket_peek :: "('k, 'v) raw_table \<Rightarrow> usize \<Rightarrow> ('k, 'v) slot" where
  "bucket_peek t idx = rt_slots t ! unat idx"

definition displacement :: "('k, 'v) raw_table \<Rightarrow> usize \<Rightarrow> usize \<Rightarrow> usize" where
  "displacement t idx hash = (idx - hash) AND rt_mask t"

definition bucket_put :: "usize \<Rightarrow> usize \<Rightarrow> 'k \<Rightarrow> 'v \<Rightarrow> ('k, 'v) raw_table \<Rightarrow> ('k, 'v) raw_table" where
  "bucket_put idx hash key val t =
     t\<lparr>rt_slots := (rt_slots t)[unat idx := Some (hash, key, val)], rt_size := rt_size t + 1\<rparr>"

definition bucket_take :: "usize \<Rightarrow> ('k, 'v) raw_table \<Rightarrow> ('k, 'v) raw_table" where
  "bucket_take idx t = t\<lparr>rt_size := rt_size t - 1, rt_slots := (rt_slots t)[unat idx := None]\<rparr>"

definition bucket_replace :: "usize \<Rightarrow> usize \<Rightarrow> 'k \<Rightarrow> 'v \<Rightarrow> ('k, 'v) raw_table \<Rightarrow> ('k, 'v) raw_table" where
  "bucket_replace idx hash key val t = t\<lparr>rt_slots := (rt_slots t)[unat idx := Some (hash, key, val)]\<rparr>"

text \<open>The full bucket moves into the gap before it.\<close>

definition gap_shift :: "usize \<Rightarrow> usize \<Rightarrow> ('k, 'v) raw_table \<Rightarrow> ('k, 'v) raw_table" where
  "gap_shift gap full t = t\<lparr>rt_slots := (rt_slots t)[unat gap := bucket_peek t full, unat full := None]\<rparr>"

partial_function (option) head_loop :: "('k, 'v) raw_table \<Rightarrow> usize \<Rightarrow> usize option" where
  "head_loop t idx =
     (case bucket_peek t idx of
        None \<Rightarrow> head_loop t (bucket_next t idx)
      | Some (h, _, _) \<Rightarrow> if displacement t idx h = 0 then Some idx else head_loop t (bucket_next t idx))"

definition head_bucket :: "('k, 'v) raw_table \<Rightarrow> usize option" where
  "head_bucket t = head_loop t 0"

subsection \<open>Iteration\<close>

text \<open>\<open>RawBuckets\<close>: the index and the number of elements left; the buckets are visited in index order.\<close>

record raw_buckets =
  rb_idx :: usize
  rb_left :: usize

definition raw_buckets_of :: "('k, 'v) raw_table \<Rightarrow> raw_buckets" where
  "raw_buckets_of t = \<lparr>rb_idx = 0, rb_left = rt_size t\<rparr>"

partial_function (option) next_full :: "('k, 'v) raw_table \<Rightarrow> usize \<Rightarrow> usize option" where
  "next_full t idx = (if bucket_peek t idx \<noteq> None then Some idx else next_full t (idx + 1))"

definition raw_buckets_next :: "('k, 'v) raw_table \<Rightarrow> raw_buckets \<Rightarrow> (usize option \<times> raw_buckets) option" where
  "raw_buckets_next t rb =
     (if rb_left rb = 0 then Some (None, rb)
      else map_option (\<lambda>i. (Some i, \<lparr>rb_idx = i + 1, rb_left = rb_left rb - 1\<rparr>)) (next_full t (rb_idx rb)))"

text \<open>\<open>Drain\<close> empties each bucket it returns; dropping the iterator drains the rest.\<close>

definition drain_next ::
  "('k, 'v) raw_table \<times> raw_buckets \<Rightarrow> ((usize \<times> 'k \<times> 'v) option \<times> (('k, 'v) raw_table \<times> raw_buckets)) option" where
  "drain_next s =
     (case s of (t, rb) \<Rightarrow>
        map_option (\<lambda>(r, rb).
          case r of
            None \<Rightarrow> (None, (t, rb))
          | Some i \<Rightarrow> (bucket_peek t i, (bucket_take i t, rb))) (raw_buckets_next t rb))"

partial_function (option) drain_loop ::
  "('k, 'v) raw_table \<Rightarrow> raw_buckets \<Rightarrow> (('k, 'v) raw_table) option" where
  "drain_loop t rb =
     (case drain_next (t, rb) of
        None \<Rightarrow> None
      | Some (None, (t', rb')) \<Rightarrow> Some t'
      | Some (Some _, (t', rb')) \<Rightarrow> drain_loop t' rb')"

definition table_drain :: "('k, 'v) raw_table \<Rightarrow> (('k, 'v) raw_table) option" where
  "table_drain t = drain_loop t (raw_buckets_of t)"

end
