(* ===== verification/HashMapModel.thy ===== *)
theory HashMapModel
  imports HashTable
begin

text \<open>
  The hash map of the standard library, \<open>std/src/collections/hash/map.rs\<close>: linear probing with Robin Hood
  stealing, removal by shifting back, and growth. The state of an operation is the table; the hash function
  (the \<open>BuildHasher\<close> and the \<open>Hash\<close> of the keys) is an argument.
\<close>

subsection \<open>Sizes\<close>

definition MIN_NONZERO_RAW_CAPACITY :: usize where
  "MIN_NONZERO_RAW_CAPACITY = 32"

definition DISPLACEMENT_THRESHOLD :: usize where
  "DISPLACEMENT_THRESHOLD = 128"

definition raw_capacity :: "usize \<Rightarrow> usize outcome" where
  "raw_capacity len =
     (if len = 0 then Inr 0
      else let raw_cap = len * 11 div 10 in
        if \<not> raw_cap \<ge> len then Inl (Panic ''raw_cap overflow'')
        else and_then (expect ''raw_capacity overflow'' (checked_next_power_of_two raw_cap)) (\<lambda>raw_cap.
             Inr (max MIN_NONZERO_RAW_CAPACITY raw_cap)))"

definition usable_capacity :: "usize \<Rightarrow> usize" where
  "usable_capacity raw_cap = (raw_cap * 10 + 10 - 1) div 11"

definition hm_capacity :: "('k, 'v) raw_table \<Rightarrow> usize" where
  "hm_capacity t = usable_capacity (rt_capacity t)"

definition hm_len :: "('k, 'v) raw_table \<Rightarrow> usize" where
  "hm_len t = rt_size t"

definition hm_is_empty :: "('k, 'v) raw_table \<Rightarrow> bool" where
  "hm_is_empty t \<longleftrightarrow> hm_len t = 0"

subsection \<open>Searching\<close>

datatype vacant_state = NeqElem usize usize | NoElem usize usize

datatype internal_entry = Occupied usize | Vacant usize vacant_state | TableIsEmpty

partial_function (option) search_loop ::
  "('k, 'v) raw_table \<Rightarrow> usize \<Rightarrow> ('k \<Rightarrow> bool) \<Rightarrow> usize \<Rightarrow> usize \<Rightarrow> internal_entry option" where
  "search_loop t hash is_match probe disp =
     (case bucket_peek t probe of
        None \<Rightarrow> Some (Vacant hash (NoElem probe disp))
      | Some (h, k, v) \<Rightarrow>
          (let probe_displacement = displacement t probe h in
           if probe_displacement < disp then Some (Vacant hash (NeqElem probe probe_displacement))
           else if hash = h \<and> is_match k then Some (Occupied probe)
           else search_loop t hash is_match (bucket_next t probe) (disp + 1)))"

definition search_hashed ::
  "('k, 'v) raw_table \<Rightarrow> usize \<Rightarrow> ('k \<Rightarrow> bool) \<Rightarrow> internal_entry option" where
  "search_hashed t hash is_match =
     (if rt_capacity t = 0 then Some TableIsEmpty
      else search_loop t hash is_match (bucket_new t hash) 0)"

definition into_occupied_bucket :: "internal_entry \<Rightarrow> usize option" where
  "into_occupied_bucket e = (case e of Occupied i \<Rightarrow> Some i | _ \<Rightarrow> None)"

subsection \<open>Removing and stealing\<close>

partial_function (option) shift_loop :: "usize \<Rightarrow> ('k, 'v) raw_table \<Rightarrow> (('k, 'v) raw_table) option" where
  "shift_loop gap t =
     (case bucket_peek t (bucket_next t gap) of
        None \<Rightarrow> Some t
      | Some (h, _, _) \<Rightarrow>
          if displacement t (bucket_next t gap) h = 0 then Some t
          else shift_loop (bucket_next t gap) (gap_shift gap (bucket_next t gap) t))"

definition pop_internal :: "usize \<Rightarrow> ('k, 'v) raw_table \<Rightarrow> (('k \<times> 'v) \<times> ('k, 'v) raw_table) option" where
  "pop_internal idx t =
     (case bucket_peek t idx of
        None \<Rightarrow> None
      | Some (_, k, v) \<Rightarrow> map_option (\<lambda>t'. ((k, v), t')) (shift_loop idx (bucket_take idx t)))"

text \<open>The inner and the outer loop of \<open>robin_hood\<close>: an element in hand, last displaced from \<open>idx\<close>.\<close>

partial_function (option) robin_hood_loop ::
  "usize \<Rightarrow> usize \<Rightarrow> usize \<Rightarrow> 'k \<Rightarrow> 'v \<Rightarrow> ('k, 'v) raw_table \<Rightarrow> (('k, 'v) raw_table) option" where
  "robin_hood_loop idx disp hash key val t =
     (let disp = disp + 1; probe = bucket_next t idx in
      case bucket_peek t probe of
        None \<Rightarrow> Some (bucket_put probe hash key val t)
      | Some (h, k, v) \<Rightarrow>
          (let probe_displacement = displacement t probe h in
           if probe_displacement < disp
           then robin_hood_loop probe probe_displacement h k v (bucket_replace probe hash key val t)
           else robin_hood_loop probe disp hash key val t))"

definition robin_hood ::
  "usize \<Rightarrow> usize \<Rightarrow> usize \<Rightarrow> 'k \<Rightarrow> 'v \<Rightarrow> ('k, 'v) raw_table \<Rightarrow> (('k, 'v) raw_table) option" where
  "robin_hood idx disp hash key val t =
     (case bucket_peek t idx of
        None \<Rightarrow> None
      | Some (h, k, v) \<Rightarrow> robin_hood_loop idx disp h k v (bucket_replace idx hash key val t))"

definition vacant_insert ::
  "usize \<Rightarrow> vacant_state \<Rightarrow> 'k \<Rightarrow> 'v \<Rightarrow> ('k, 'v) raw_table \<Rightarrow> (('k, 'v) raw_table) option" where
  "vacant_insert hash elem key val t =
     (case elem of
        NeqElem bucket disp \<Rightarrow>
          robin_hood bucket disp hash key val (if disp \<ge> DISPLACEMENT_THRESHOLD then set_tag True t else t)
      | NoElem bucket disp \<Rightarrow>
          Some (bucket_put bucket hash key val (if disp \<ge> DISPLACEMENT_THRESHOLD then set_tag True t else t)))"

subsection \<open>Growing\<close>

partial_function (option) insert_ordered_loop ::
  "usize \<Rightarrow> usize \<Rightarrow> 'k \<Rightarrow> 'v \<Rightarrow> ('k, 'v) raw_table \<Rightarrow> (('k, 'v) raw_table) option" where
  "insert_ordered_loop idx hash k v t =
     (case bucket_peek t idx of
        None \<Rightarrow> Some (bucket_put idx hash k v t)
      | Some _ \<Rightarrow> insert_ordered_loop (bucket_next t idx) hash k v t)"

definition insert_hashed_ordered ::
  "usize \<Rightarrow> 'k \<Rightarrow> 'v \<Rightarrow> ('k, 'v) raw_table \<Rightarrow> (('k, 'v) raw_table) option" where
  "insert_hashed_ordered hash k v t = insert_ordered_loop (bucket_new t hash) hash k v t"

partial_function (option) resize_loop ::
  "('k, 'v) raw_table \<Rightarrow> usize \<Rightarrow> ('k, 'v) raw_table \<Rightarrow> (('k, 'v) raw_table) option" where
  "resize_loop old idx t =
     (case bucket_peek old idx of
        None \<Rightarrow> resize_loop old (bucket_next old idx) t
      | Some (h, k, v) \<Rightarrow>
          (case insert_hashed_ordered h k v t of
             None \<Rightarrow> None
           | Some t' \<Rightarrow>
               if rt_size (bucket_take idx old) = 0 then Some t'
               else resize_loop (bucket_take idx old) (bucket_next old idx) t'))"

definition resize :: "table_env \<Rightarrow> usize \<Rightarrow> (('k, 'v) raw_table, unit) io" where
  "resize env new_raw_cap old =
     (if \<not> rt_size old \<le> new_raw_cap then Some (Inl (Panic ''assertion failed: self.table.size() <= new_raw_cap''))
      else if \<not> (is_power_of_two new_raw_cap \<or> new_raw_cap = 0)
      then Some (Inl (Panic ''assertion failed: new_raw_cap.is_power_of_two() || new_raw_cap == 0''))
      else case raw_table_new env new_raw_cap of
             Inl e \<Rightarrow> Some (Inl e)
           | Inr t \<Rightarrow>
               if rt_size old = 0 then Some (Inr ((), t))
               else (case head_bucket old of
                       None \<Rightarrow> None
                     | Some idx \<Rightarrow>
                         (case resize_loop old idx t of
                            None \<Rightarrow> None
                          | Some t' \<Rightarrow>
                              if rt_size t' = rt_size old then Some (Inr ((), t'))
                              else Some (Inl (Panic ''assertion failed: `(left == right)`'')))))"

definition reserve :: "table_env \<Rightarrow> usize \<Rightarrow> (('k, 'v) raw_table, unit) io" where
  "reserve env additional t =
     (let remaining = hm_capacity t - hm_len t in
      if remaining < additional
      then io_bind (io_lift (expect ''reserve overflow'' (checked_add (hm_len t) additional))) (\<lambda>min_cap.
           io_bind (io_lift (raw_capacity min_cap)) (resize env)) t
      else if rt_tag t \<and> remaining \<le> hm_len t then resize env (rt_capacity t * 2) t
      else io_return () t)"

subsection \<open>The operations\<close>

definition with_capacity :: "table_env \<Rightarrow> usize \<Rightarrow> (('k, 'v) raw_table) outcome" where
  "with_capacity env capacity = and_then (raw_capacity capacity) (raw_table_new env)"

definition hm_new :: "table_env \<Rightarrow> (('k, 'v) raw_table) outcome" where
  "hm_new env = raw_table_new env 0"

definition hm_search :: "('k \<Rightarrow> u64) \<Rightarrow> 'k \<Rightarrow> ('k, 'v) raw_table \<Rightarrow> internal_entry option" where
  "hm_search hasher q t = search_hashed t (make_hash hasher q) (\<lambda>k. q = k)"

definition insert_hashed_nocheck :: "usize \<Rightarrow> 'k \<Rightarrow> 'v \<Rightarrow> (('k, 'v) raw_table, 'v option) io" where
  "insert_hashed_nocheck hash k v t =
     (case search_hashed t hash (\<lambda>key. key = k) of
        None \<Rightarrow> None
      | Some (Occupied i) \<Rightarrow>
          (case bucket_peek t i of
             None \<Rightarrow> None
           | Some (h, key, old) \<Rightarrow> Some (Inr (Some old, bucket_replace i h key v t)))
      | Some (Vacant h elem) \<Rightarrow> map_option (\<lambda>t'. Inr (None, t')) (vacant_insert h elem k v t)
      | Some TableIsEmpty \<Rightarrow> Some (Inl (Panic ''internal error: entered unreachable code'')))"

definition hm_insert :: "table_env \<Rightarrow> ('k \<Rightarrow> u64) \<Rightarrow> 'k \<Rightarrow> 'v \<Rightarrow> (('k, 'v) raw_table, 'v option) io" where
  "hm_insert env hasher k v =
     (let hash = make_hash hasher k in
      io_then (reserve env 1) (insert_hashed_nocheck hash k v))"

definition hm_get :: "('k \<Rightarrow> u64) \<Rightarrow> 'k \<Rightarrow> ('k, 'v) raw_table \<Rightarrow> ('v option) option" where
  "hm_get hasher k t =
     map_option (\<lambda>e. case into_occupied_bucket e of
        None \<Rightarrow> None
      | Some i \<Rightarrow> map_option (\<lambda>(_, _, v). v) (bucket_peek t i)) (hm_search hasher k t)"

definition contains_key :: "('k \<Rightarrow> u64) \<Rightarrow> 'k \<Rightarrow> ('k, 'v) raw_table \<Rightarrow> bool option" where
  "contains_key hasher k t = map_option (\<lambda>e. into_occupied_bucket e \<noteq> None) (hm_search hasher k t)"

definition remove_entry :: "('k \<Rightarrow> u64) \<Rightarrow> 'k \<Rightarrow> (('k, 'v) raw_table, ('k \<times> 'v) option) io" where
  "remove_entry hasher k t =
     (if rt_size t = 0 then Some (Inr (None, t))
      else case hm_search hasher k t of
             None \<Rightarrow> None
           | Some e \<Rightarrow>
               (case into_occupied_bucket e of
                  None \<Rightarrow> Some (Inr (None, t))
                | Some i \<Rightarrow> map_option (\<lambda>(kv, t'). Inr (Some kv, t')) (pop_internal i t)))"

definition hm_remove :: "('k \<Rightarrow> u64) \<Rightarrow> 'k \<Rightarrow> (('k, 'v) raw_table, 'v option) io" where
  "hm_remove hasher k t =
     (if rt_size t = 0 then Some (Inr (None, t))
      else case hm_search hasher k t of
             None \<Rightarrow> None
           | Some e \<Rightarrow>
               (case into_occupied_bucket e of
                  None \<Rightarrow> Some (Inr (None, t))
                | Some i \<Rightarrow> map_option (\<lambda>((_, v), t'). Inr (Some v, t')) (pop_internal i t)))"

definition hm_clear :: "(('k, 'v) raw_table, unit) io" where
  "hm_clear t = map_option (\<lambda>t'. Inr ((), t')) (table_drain t)"

text \<open>\<open>retain\<close> visits the buckets backwards from the one before the head; the predicate may change the value.\<close>

partial_function (option) retain_loop ::
  "('k \<Rightarrow> 'v \<Rightarrow> bool \<times> 'v) \<Rightarrow> usize \<Rightarrow> usize \<Rightarrow> ('k, 'v) raw_table \<Rightarrow> (('k, 'v) raw_table) option" where
  "retain_loop f elems_left idx t =
     (if elems_left = 0 then Some t
      else case bucket_peek t idx of
             None \<Rightarrow> retain_loop f elems_left (bucket_prev t idx) t
           | Some (h, k, v) \<Rightarrow>
               (case f k v of (keep, v') \<Rightarrow>
                  if keep then retain_loop f (elems_left - 1) (bucket_prev t idx) (bucket_replace idx h k v' t)
                  else (case pop_internal idx (bucket_replace idx h k v' t) of
                          None \<Rightarrow> None
                        | Some (_, t') \<Rightarrow> retain_loop f (elems_left - 1) (bucket_prev t' idx) t')))"

definition hm_retain :: "('k \<Rightarrow> 'v \<Rightarrow> bool \<times> 'v) \<Rightarrow> (('k, 'v) raw_table, unit) io" where
  "hm_retain f t =
     (if rt_size t = 0 then Some (Inr ((), t))
      else case head_bucket t of
             None \<Rightarrow> None
           | Some idx \<Rightarrow> map_option (\<lambda>t'. Inr ((), t')) (retain_loop f (rt_size t) (bucket_prev t idx) t))"

text \<open>\<open>iter\<close>, collected.\<close>

partial_function (option) iter_loop ::
  "('k, 'v) raw_table \<Rightarrow> raw_buckets \<Rightarrow> ((usize \<times> 'k \<times> 'v) list) option" where
  "iter_loop t rb =
     (case raw_buckets_next t rb of
        None \<Rightarrow> None
      | Some (None, _) \<Rightarrow> Some []
      | Some (Some i, rb') \<Rightarrow>
          Option.bind (iter_loop t rb') (\<lambda>es. Some (case bucket_peek t i of None \<Rightarrow> es | Some e \<Rightarrow> e # es)))"

definition table_iter :: "('k, 'v) raw_table \<Rightarrow> ((usize \<times> 'k \<times> 'v) list) option" where
  "table_iter t = iter_loop t (raw_buckets_of t)"

definition hm_iter :: "('k, 'v) raw_table \<Rightarrow> (('k \<times> 'v) list) option" where
  "hm_iter t = map_option (map snd) (table_iter t)"

fun reinsert :: "(usize \<times> 'k \<times> 'v) list \<Rightarrow> (('k, 'v) raw_table, unit) io" where
  "reinsert [] = io_return ()"
| "reinsert ((h, k, v) # es) = io_then (insert_hashed_nocheck h k v) (reinsert es)"

definition shrink_to_fit :: "table_env \<Rightarrow> (('k, 'v) raw_table, unit) io" where
  "shrink_to_fit env t =
     (case raw_capacity (hm_len t) of
        Inl e \<Rightarrow> Some (Inl e)
      | Inr new_raw_cap \<Rightarrow>
          if rt_capacity t = new_raw_cap then Some (Inr ((), t))
          else case raw_table_new env new_raw_cap of
                 Inl e \<Rightarrow> Some (Inl e)
               | Inr new \<Rightarrow> (case table_iter t of None \<Rightarrow> None | Some es \<Rightarrow> reinsert es new))"

text \<open>Equality of maps.\<close>

fun all_in :: "('k \<Rightarrow> u64) \<Rightarrow> ('k, 'v) raw_table \<Rightarrow> ('k \<times> 'v) list \<Rightarrow> bool option" where
  "all_in hasher other [] = Some True"
| "all_in hasher other ((k, v) # es) =
     (case hm_get hasher k other of
        None \<Rightarrow> None
      | Some r \<Rightarrow> if r = Some v then all_in hasher other es else Some False)"

definition hm_eq :: "('k \<Rightarrow> u64) \<Rightarrow> ('k, 'v) raw_table \<Rightarrow> ('k, 'v) raw_table \<Rightarrow> bool option" where
  "hm_eq hasher t other =
     (if hm_len t \<noteq> hm_len other then Some False
      else case hm_iter t of None \<Rightarrow> None | Some es \<Rightarrow> all_in hasher other es)"

definition hm_index :: "('k \<Rightarrow> u64) \<Rightarrow> 'k \<Rightarrow> ('k, 'v) raw_table \<Rightarrow> ('v outcome) option" where
  "hm_index hasher k t = map_option (expect ''no entry found for key'') (hm_get hasher k t)"

text \<open>\<open>extend\<close>; \<open>hint\<close> is the lower bound of the iterator's \<open>size_hint\<close>.\<close>

fun insert_all :: "table_env \<Rightarrow> ('k \<Rightarrow> u64) \<Rightarrow> ('k \<times> 'v) list \<Rightarrow> (('k, 'v) raw_table, unit) io" where
  "insert_all env hasher [] = io_return ()"
| "insert_all env hasher ((k, v) # es) = io_then (hm_insert env hasher k v) (insert_all env hasher es)"

definition hm_extend :: "table_env \<Rightarrow> ('k \<Rightarrow> u64) \<Rightarrow> usize \<Rightarrow> ('k \<times> 'v) list \<Rightarrow> (('k, 'v) raw_table, unit) io" where
  "hm_extend env hasher hint es t =
     (let n = (if hm_is_empty t then hint else (hint + 1) div 2) in
      io_then (reserve env n) (insert_all env hasher es) t)"

subsection \<open>Entries\<close>

datatype 'k entry = OccupiedEntry "'k option" usize | VacantEntry usize 'k vacant_state

definition into_entry :: "'k \<Rightarrow> internal_entry \<Rightarrow> ('k entry) option" where
  "into_entry key e =
     (case e of
        Occupied i \<Rightarrow> Some (OccupiedEntry (Some key) i)
      | Vacant hash elem \<Rightarrow> Some (VacantEntry hash key elem)
      | TableIsEmpty \<Rightarrow> None)"

definition hm_entry :: "table_env \<Rightarrow> ('k \<Rightarrow> u64) \<Rightarrow> 'k \<Rightarrow> (('k, 'v) raw_table, 'k entry) io" where
  "hm_entry env hasher key =
     io_then (reserve env 1) (\<lambda>t.
       case search_hashed t (make_hash hasher key) (\<lambda>q. q = key) of
         None \<Rightarrow> None
       | Some e \<Rightarrow> io_expect ''unreachable'' (into_entry key e) t)"

text \<open>\<open>or_insert\<close>: the result is the value that the returned reference points to.\<close>

definition or_insert :: "'v \<Rightarrow> 'k entry \<Rightarrow> (('k, 'v) raw_table, 'v) io" where
  "or_insert val e t =
     (case e of
        OccupiedEntry _ i \<Rightarrow> (case bucket_peek t i of None \<Rightarrow> None | Some (_, _, v) \<Rightarrow> Some (Inr (v, t)))
      | VacantEntry hash key elem \<Rightarrow> map_option (\<lambda>t'. Inr (val, t')) (vacant_insert hash elem key val t))"

definition and_modify :: "('v \<Rightarrow> 'v) \<Rightarrow> 'k entry \<Rightarrow> (('k, 'v) raw_table, 'k entry) io" where
  "and_modify f e t =
     (case e of
        OccupiedEntry key i \<Rightarrow>
          (case bucket_peek t i of
             None \<Rightarrow> None
           | Some (h, k, v) \<Rightarrow> Some (Inr (OccupiedEntry key i, bucket_replace i h k (f v) t)))
      | VacantEntry hash key elem \<Rightarrow> Some (Inr (e, t)))"

definition or_insert_with :: "(unit \<Rightarrow> 'v) \<Rightarrow> 'k entry \<Rightarrow> (('k, 'v) raw_table, 'v) io" where
  "or_insert_with f e t =
     (case e of
        OccupiedEntry _ i \<Rightarrow> (case bucket_peek t i of None \<Rightarrow> None | Some (_, _, v) \<Rightarrow> Some (Inr (v, t)))
      | VacantEntry hash key elem \<Rightarrow>
          (let v = f () in map_option (\<lambda>t'. Inr (v, t')) (vacant_insert hash elem key v t)))"

definition entry_key :: "'k entry \<Rightarrow> ('k, 'v) raw_table \<Rightarrow> 'k option" where
  "entry_key e t =
     (case e of
        OccupiedEntry _ i \<Rightarrow> map_option (\<lambda>(_, k, _). k) (bucket_peek t i)
      | VacantEntry _ key _ \<Rightarrow> Some key)"

text \<open>The operations of an occupied entry, which stands at bucket \<open>i\<close>.\<close>

definition occupied_get :: "usize \<Rightarrow> ('k, 'v) raw_table \<Rightarrow> 'v option" where
  "occupied_get i t = map_option (\<lambda>(_, _, v). v) (bucket_peek t i)"

definition occupied_insert :: "usize \<Rightarrow> 'v \<Rightarrow> (('k, 'v) raw_table, 'v) io" where
  "occupied_insert i val t =
     (case bucket_peek t i of None \<Rightarrow> None | Some (h, k, v) \<Rightarrow> Some (Inr (v, bucket_replace i h k val t)))"

definition occupied_remove_entry :: "usize \<Rightarrow> (('k, 'v) raw_table, 'k \<times> 'v) io" where
  "occupied_remove_entry i t = map_option Inr (pop_internal i t)"

definition occupied_remove :: "usize \<Rightarrow> (('k, 'v) raw_table, 'v) io" where
  "occupied_remove i t = map_option (\<lambda>((_, v), t'). Inr (v, t')) (pop_internal i t)"

definition replace_entry :: "'k option \<Rightarrow> usize \<Rightarrow> 'v \<Rightarrow> (('k, 'v) raw_table, 'k \<times> 'v) io" where
  "replace_entry key i val t =
     (case bucket_peek t i of
        None \<Rightarrow> None
      | Some (h, k, v) \<Rightarrow>
          Some (and_then (expect ''called `Option::unwrap()` on a `None` value'' key) (\<lambda>key.
            Inr ((k, v), bucket_replace i h key val t))))"

definition replace_key :: "'k option \<Rightarrow> usize \<Rightarrow> (('k, 'v) raw_table, 'k) io" where
  "replace_key key i t =
     (case bucket_peek t i of
        None \<Rightarrow> None
      | Some (h, k, v) \<Rightarrow>
          Some (and_then (expect ''called `Option::unwrap()` on a `None` value'' key) (\<lambda>key.
            Inr (k, bucket_replace i h key v t))))"

text \<open>In-place insertion: the place of an entry, a bucket whose value is not written yet, and dropping it unused.\<close>

definition make_place :: "'v \<Rightarrow> 'k entry \<Rightarrow> (('k, 'v) raw_table, usize) io" where
  "make_place uninit e t =
     (case e of
        OccupiedEntry _ i \<Rightarrow>
          (case bucket_peek t i of None \<Rightarrow> None | Some (h, k, _) \<Rightarrow> Some (Inr (i, bucket_replace i h k uninit t)))
      | VacantEntry hash key elem \<Rightarrow>
          map_option (\<lambda>t'. Inr (case elem of NeqElem i _ \<Rightarrow> i | NoElem i _ \<Rightarrow> i, t')) (vacant_insert hash elem key uninit t))"

definition place_finalize :: "usize \<Rightarrow> 'v \<Rightarrow> (('k, 'v) raw_table, unit) io" where
  "place_finalize i val t =
     (case bucket_peek t i of None \<Rightarrow> None | Some (h, k, _) \<Rightarrow> Some (Inr ((), bucket_replace i h k val t)))"

definition remove_key :: "usize \<Rightarrow> ('k, 'v) raw_table \<Rightarrow> ('k, 'v) raw_table" where
  "remove_key i t = t\<lparr>rt_size := rt_size t - 1, rt_slots := (rt_slots t)[unat i := None]\<rparr>"

definition place_drop :: "usize \<Rightarrow> (('k, 'v) raw_table, unit) io" where
  "place_drop i t = Some (Inr ((), remove_key i t))"

subsection \<open>More operations\<close>

text \<open>\<open>get_mut\<close>: what the caller does with the reference is \<open>f\<close>.\<close>

definition hm_get_mut :: "('k \<Rightarrow> u64) \<Rightarrow> 'k \<Rightarrow> ('v \<Rightarrow> 'v) \<Rightarrow> (('k, 'v) raw_table, 'v option) io" where
  "hm_get_mut hasher k f t =
     map_option (\<lambda>e. case into_occupied_bucket e of
        None \<Rightarrow> Inr (None, t)
      | Some i \<Rightarrow>
          (case bucket_peek t i of
             None \<Rightarrow> Inr (None, t)
           | Some (h, key, v) \<Rightarrow> Inr (Some v, bucket_replace i h key (f v) t))) (hm_search hasher k t)"

definition hm_keys :: "('k, 'v) raw_table \<Rightarrow> ('k list) option" where
  "hm_keys t = map_option (map fst) (hm_iter t)"

definition hm_values :: "('k, 'v) raw_table \<Rightarrow> ('v list) option" where
  "hm_values t = map_option (map snd) (hm_iter t)"

definition from_iter :: "table_env \<Rightarrow> ('k \<Rightarrow> u64) \<Rightarrow> usize \<Rightarrow> ('k \<times> 'v) list \<Rightarrow> ((('k, 'v) raw_table) outcome) option" where
  "from_iter env hasher hint es =
     (case hm_new env of
        Inl e \<Rightarrow> Some (Inl e)
      | Inr t \<Rightarrow> map_option (\<lambda>r. and_then r (\<lambda>(_, t'). Inr t')) (hm_extend env hasher hint es t))"

text \<open>\<open>Recover\<close>, for maps that stand for sets.\<close>

definition recover_get :: "('k \<Rightarrow> u64) \<Rightarrow> 'k \<Rightarrow> ('k, unit) raw_table \<Rightarrow> ('k option) option" where
  "recover_get hasher q t =
     map_option (\<lambda>e. case into_occupied_bucket e of
        None \<Rightarrow> None
      | Some i \<Rightarrow> map_option (\<lambda>(_, k, _). k) (bucket_peek t i)) (hm_search hasher q t)"

definition recover_take :: "('k \<Rightarrow> u64) \<Rightarrow> 'k \<Rightarrow> (('k, unit) raw_table, 'k option) io" where
  "recover_take hasher q t =
     (if rt_size t = 0 then Some (Inr (None, t))
      else case hm_search hasher q t of
             None \<Rightarrow> None
           | Some e \<Rightarrow>
               (case into_occupied_bucket e of
                  None \<Rightarrow> Some (Inr (None, t))
                | Some i \<Rightarrow> map_option (\<lambda>((k, _), t'). Inr (Some k, t')) (pop_internal i t)))"

definition recover_replace :: "table_env \<Rightarrow> ('k \<Rightarrow> u64) \<Rightarrow> 'k \<Rightarrow> (('k, unit) raw_table, 'k option) io" where
  "recover_replace env hasher key =
     io_then (reserve env 1) (io_bind (hm_entry env hasher key) (\<lambda>e t.
       case e of
         OccupiedEntry k i \<Rightarrow>
           (case bucket_peek t i of
              None \<Rightarrow> None
            | Some (h, old, u) \<Rightarrow>
                Some (and_then (expect ''called `Option::unwrap()` on a `None` value'' k) (\<lambda>k.
                  Inr (Some old, bucket_replace i h k u t))))
       | VacantEntry hash k elem \<Rightarrow> map_option (\<lambda>t'. Inr (None, t')) (vacant_insert hash elem k () t)))"

end
