(* ===== verification/HashInv.thy ===== *)
theory HashInv
  imports HashMapModel "HOL-Library.Multiset"
begin

text \<open>
  The invariant of Robin Hood hashing. Bucket indices are read as natural numbers below the capacity. What the
  algorithms rely on is local: an element away from its home has a predecessor whose displacement is at
  most one smaller. Everything else follows from it and is shown first for the displacements alone.
\<close>

subsection \<open>Displacements\<close>

text \<open>\<open>dl n i\<close>: the displacement of the element at index \<open>i < n\<close>.\<close>

definition prev :: "nat \<Rightarrow> nat \<Rightarrow> nat" where
  "prev n i = (i + n - 1) mod n"

definition robin :: "nat \<Rightarrow> (nat \<Rightarrow> nat option) \<Rightarrow> bool" where
  "robin n dl \<longleftrightarrow> (\<forall>i < n. \<forall>e. dl i = Some (Suc e) \<longrightarrow> (\<exists>f. dl (prev n i) = Some f \<and> e \<le> f))"

lemma robinD: "robin n dl \<Longrightarrow> i < n \<Longrightarrow> dl i = Some (Suc e) \<Longrightarrow> \<exists>f. dl (prev n i) = Some f \<and> e \<le> f"
  by (auto simp: robin_def)

lemma prev_less: "i < n \<Longrightarrow> prev n i < n"
  by (simp add: prev_def)

lemma prev_simp: "i < n \<Longrightarrow> prev n i = (if i = 0 then n - 1 else i - 1)"
proof -
  assume i: "i < n"
  show ?thesis
  proof (cases "i = 0")
    case True
    then show ?thesis using i by (simp add: prev_def)
  next
    case False
    then have "prev n i = (n + (i - 1)) mod n" by (simp add: prev_def add.commute)
    also have "\<dots> = i - 1" using i False by (simp only: mod_add_self1) simp
    finally show ?thesis using False by simp
  qed
qed

lemma prev_next: "i < n \<Longrightarrow> prev n (Suc i mod n) = i"
  by (cases "Suc i = n") (auto simp: prev_simp)

lemma next_prev: "i < n \<Longrightarrow> Suc (prev n i) mod n = i"
  by (auto simp: prev_simp)

lemma prev_neq: "1 < n \<Longrightarrow> i < n \<Longrightarrow> prev n i \<noteq> i"
  by (auto simp: prev_simp)

lemma prev_inj: "i < n \<Longrightarrow> j < n \<Longrightarrow> prev n i = prev n j \<Longrightarrow> i = j"
  using next_prev by metis

text \<open>A displacement may be stored at \<open>i\<close> when its predecessor allows it and it is not below the one it replaces.\<close>

definition fits :: "nat \<Rightarrow> (nat \<Rightarrow> nat option) \<Rightarrow> nat \<Rightarrow> nat \<Rightarrow> bool" where
  "fits n dl i d \<longleftrightarrow> d = 0 \<or> (\<exists>f. dl (prev n i) = Some f \<and> d \<le> Suc f)"

lemma robin_raise:
  assumes "robin n dl" "1 < n" "i < n" "fits n dl i d" "\<And>p. dl i = Some p \<Longrightarrow> p \<le> d"
  shows "robin n (dl(i := Some d))"
  unfolding robin_def
proof (intro allI impI)
  fix j e
  assume j: "j < n" "(dl(i := Some d)) j = Some (Suc e)"
  show "\<exists>f. (dl(i := Some d)) (prev n j) = Some f \<and> e \<le> f"
  proof (cases "j = i")
    case True
    then have "d = Suc e" using j by simp
    then show ?thesis using assms(4) True prev_neq [OF assms(2,3)] by (auto simp: fits_def)
  next
    case False
    then obtain f where f: "dl (prev n j) = Some f" "e \<le> f" using robinD [OF assms(1) j(1)] j(2) by auto
    then show ?thesis using assms(5) by (cases "prev n j = i") auto
  qed
qed

lemma robin_empty:
  assumes "robin n dl" "i < n" "\<And>e. dl (Suc i mod n) \<noteq> Some (Suc e)"
  shows "robin n (dl(i := None))"
  unfolding robin_def
proof (intro allI impI)
  fix j e
  assume j: "j < n" "(dl(i := None)) j = Some (Suc e)"
  then have j': "j \<noteq> i" "dl j = Some (Suc e)" by (auto split: if_splits)
  then have "prev n j \<noteq> i" using assms(3)[of e] next_prev [OF j(1)] by auto
  then show "\<exists>f. (dl(i := None)) (prev n j) = Some f \<and> e \<le> f" using robinD [OF assms(1) j(1) j'(2)] by simp
qed

text \<open>Shifting back: the gap at \<open>g\<close> stands for an element that would fit there.\<close>

lemma robin_shift:
  assumes "robin n (dl(g := Some d))" "1 < n" "g < n" "dl (Suc g mod n) = Some (Suc e)"
  shows "robin n (dl(g := Some e))"
proof -
  let ?j = "Suc g mod n"
  have j: "?j < n" "prev n ?j = g" "?j \<noteq> g" using assms(2,3) prev_next [OF assms(3)] prev_neq [of n ?j] by auto
  have e: "e \<le> d" using robinD [OF assms(1) j(1), of e] assms(4) j(2,3) by auto
  show ?thesis
    unfolding robin_def
  proof (intro allI impI)
    fix i f
    assume i: "i < n" "(dl(g := Some e)) i = Some (Suc f)"
    show "\<exists>f'. (dl(g := Some e)) (prev n i) = Some f' \<and> f \<le> f'"
    proof (cases "i = g")
      case True
      then have "d \<noteq> 0" "e = Suc f" using i(2) e by auto
      then obtain d' where d': "d = Suc d'" by (cases d) auto
      then obtain f' where "(dl(g := Some d)) (prev n g) = Some f'" "d' \<le> f'" using robinD [OF assms(1,3), of d'] by auto
      then show ?thesis using True prev_neq [OF assms(2,3)] e d' \<open>e = Suc f\<close> by auto
    next
      case False
      then obtain f' where f': "(dl(g := Some d)) (prev n i) = Some f'" "f \<le> f'"
        using robinD [OF assms(1) i(1), of f] i(2) by auto
      show ?thesis
      proof (cases "prev n i = g")
        case True
        then have "i = ?j" using next_prev [OF i(1)] by simp
        then show ?thesis using True i(2) assms(4) False by auto
      qed (use f' in auto)
    qed
  qed
qed

text \<open>An element at displacement \<open>d\<close> has full buckets all the way back to its home, with displacements that are
  at least those of the way.\<close>

lemma robin_path:
  assumes "robin n dl" "s < n" "dl ((s + d) mod n) = Some p" "d \<le> p" "e \<le> d"
  shows "\<exists>q. dl ((s + e) mod n) = Some q \<and> e \<le> q"
  using assms(3-5)
proof (induction "d - e" arbitrary: d p)
  case 0
  then show ?case by auto
next
  case (Suc x)
  then obtain d' where d': "d = Suc d'" "e \<le> d'" by (cases d) auto
  have n: "0 < n" using assms(2) by simp
  obtain p' where p': "p = Suc p'" using Suc.prems d' by (cases p) auto
  have "prev n ((s + d) mod n) = (s + d') mod n"
    using prev_next [of "(s + d') mod n" n] n d' by (simp add: mod_Suc_eq)
  then obtain q where "dl ((s + d') mod n) = Some q" "p' \<le> q"
    using robinD [OF assms(1), of "(s + d) mod n" p'] Suc.prems(1) p' n by auto
  then show ?case using Suc.hyps(1) [of d' q] Suc.hyps(2) Suc.prems d' p' by auto
qed

subsection \<open>Indices\<close>

definition dist :: "nat \<Rightarrow> nat \<Rightarrow> nat \<Rightarrow> nat" where
  "dist n i h = nat ((int i - int h) mod int n)"

lemma dist_less: "0 < n \<Longrightarrow> dist n i h < n"
  by (simp add: dist_def nat_less_iff)

lemma dist_add: "0 < n \<Longrightarrow> dist n ((h + d) mod n) h = d mod n"
proof -
  assume "0 < n"
  have "(int ((h + d) mod n) - int h) mod int n = (int (h + d) - int h) mod int n"
    by (simp add: zmod_int mod_diff_left_eq)
  then show ?thesis by (simp add: dist_def zmod_int [symmetric])
qed

lemma add_dist: "i < n \<Longrightarrow> (h + dist n i h) mod n = i"
proof -
  assume i: "i < n"
  then have "int (dist n i h) = (int i - int h) mod int n" by (simp add: dist_def)
  then have "int ((h + dist n i h) mod n) = (int h + (int i - int h) mod int n) mod int n" by (simp add: zmod_int)
  also have "\<dots> = int i" using i by (simp add: mod_add_right_eq)
  finally show ?thesis by simp
qed

lemma dist_mod: "dist n i (h mod n) = dist n i h"
  by (simp add: dist_def zmod_int mod_diff_right_eq)

lemma dist_next: "0 < n \<Longrightarrow> dist n (Suc i mod n) h = Suc (dist n i h) mod n"
proof -
  assume n: "0 < n"
  have "(int (Suc i mod n) - int h) mod int n = (int (Suc i) - int h) mod int n"
    by (simp add: zmod_int mod_diff_left_eq)
  also have "\<dots> = (1 + (int i - int h) mod int n) mod int n" by (simp add: mod_add_right_eq algebra_simps)
  also have "\<dots> = int (Suc (dist n i h) mod n)" using n by (simp add: dist_def zmod_int)
  finally show ?thesis by (simp add: dist_def)
qed

text \<open>A table whose capacity is a power of two, with its size.\<close>

definition full_count :: "('k, 'v) slot list \<Rightarrow> nat" where
  "full_count xs = length (filter (\<lambda>s. s \<noteq> None) xs)"

definition shaped :: "('k, 'v) raw_table \<Rightarrow> bool" where
  "shaped t \<longleftrightarrow> (\<exists>k. 1 \<le> k \<and> k \<le> 60 \<and> length (rt_slots t) = 2 ^ k \<and> rt_mask t = mask k) \<and>
     unat (rt_size t) = full_count (rt_slots t)"

abbreviation cap :: "('k, 'v) raw_table \<Rightarrow> nat" where
  "cap t \<equiv> length (rt_slots t)"

lemma unat_and_mask: "k \<le> 64 \<Longrightarrow> unat ((x :: usize) AND mask k) = unat x mod 2 ^ k"
proof -
  have "unat (take_bit k x) = take_bit k (unat x)" by (rule unsigned_take_bit_eq)
  then show ?thesis by (simp only: take_bit_eq_mask [symmetric]) (simp only: take_bit_eq_mod)
qed

lemma shapedE:
  assumes "shaped t"
  obtains k where "1 \<le> k" "k \<le> 60" "cap t = 2 ^ k" "rt_mask t = mask k" "unat (rt_size t) = full_count (rt_slots t)"
  using assms by (auto simp: shaped_def)

lemma shaped_cap: "shaped t \<Longrightarrow> 1 < cap t" "shaped t \<Longrightarrow> cap t \<le> 2 ^ 60"
proof -
  assume "shaped t"
  then obtain k where k: "1 \<le> k" "k \<le> 60" "cap t = 2 ^ k" by (rule shapedE)
  have "(2::nat) ^ 1 \<le> 2 ^ k" "(2::nat) ^ k \<le> 2 ^ 60" by (rule power_increasing; use k in simp)+
  then show "1 < cap t" "cap t \<le> 2 ^ 60" using k(3) by simp_all
qed

lemma shaped_index:
  assumes "shaped t"
  shows "unat (bucket_new t h) = unat h mod cap t" "unat (bucket_next t i) = Suc (unat i) mod cap t"
    "unat (displacement t i h) = dist (cap t) (unat i) (unat h)" "unat (rt_capacity t) = cap t"
    "unat (bucket_prev t i) = dist (cap t) (unat i) 1"
proof -
  obtain k where k: "1 \<le> k" "k \<le> 60" "cap t = 2 ^ k" "rt_mask t = mask k" using assms by (rule shapedE)
  have dvd: "(2::nat) ^ k dvd 2 ^ 64" "(2::int) ^ k dvd 2 ^ 64" by (rule le_imp_power_dvd; use k(2) in simp)+
  have m: "unat (x AND mask k) = unat x mod 2 ^ k" for x :: usize using k(2) by (intro unat_and_mask) simp
  show "unat (bucket_new t h) = unat h mod cap t" using m k by (simp add: bucket_new_def at_index_def)
  show "unat (bucket_next t i) = Suc (unat i) mod cap t"
    using m k dvd(1) by (simp add: bucket_next_def unat_word_ariths mod_mod_cancel)
  have d: "unat ((i - h) AND mask k) = dist (2 ^ k) (unat i) (unat h)" for i h :: usize
  proof -
    have "int (unat (i - h) mod 2 ^ k) = (uint i - uint h) mod 2 ^ 64 mod 2 ^ k"
      by (simp add: zmod_int uint_word_ariths)
    also have "\<dots> = (uint i - uint h) mod 2 ^ k" using dvd(2) by (rule mod_mod_cancel)
    finally show ?thesis by (simp add: m dist_def)
  qed
  show "unat (displacement t i h) = dist (cap t) (unat i) (unat h)" using d k by (simp add: displacement_def)
  show "unat (bucket_prev t i) = dist (cap t) (unat i) 1" using d [of i 1] k by (simp add: bucket_prev_def)
  have "(2::nat) ^ k \<le> 2 ^ 60" using k(2) by (intro power_increasing) auto
  then have lt: "(2::nat) ^ k < 2 ^ 64" by simp
  have "rt_capacity t = of_nat (2 ^ k)" using k by (simp add: rt_capacity_def mask_eq_exp_minus_1)
  then show "unat (rt_capacity t) = cap t" using k lt by (simp only: unat_of_nat) simp
qed

subsection \<open>The invariant\<close>

definition dl :: "('k, 'v) raw_table \<Rightarrow> nat \<Rightarrow> nat option" where
  "dl t i = map_option (\<lambda>(h, _, _). dist (cap t) i (unat h)) (rt_slots t ! i)"

definition rh :: "('k, 'v) raw_table \<Rightarrow> bool" where
  "rh t \<longleftrightarrow> shaped t \<and> robin (cap t) (dl t) \<and> full_count (rt_slots t) < cap t"

lemma rhD:
  assumes "rh t"
  shows "shaped t" "robin (cap t) (dl t)" "full_count (rt_slots t) < cap t" "1 < cap t" "0 < cap t" "cap t \<le> 2 ^ 60"
  using assms shaped_cap [of t] by (auto simp: rh_def)

lemma rh_gap:
  assumes "rh t"
  shows "\<exists>i < cap t. rt_slots t ! i = None"
proof (rule ccontr)
  assume "\<not> ?thesis"
  then have "\<forall>s \<in> set (rt_slots t). s \<noteq> None" by (metis in_set_conv_nth)
  then have "full_count (rt_slots t) = cap t" by (simp add: full_count_def)
  then show False using rhD(3) [OF assms] by simp
qed

lemma dl_Some: "dl t i = Some d \<longleftrightarrow> (\<exists>h k v. rt_slots t ! i = Some (h, k, v) \<and> d = dist (cap t) i (unat h))"
  by (auto simp: dl_def)

lemma dl_None: "dl t i = None \<longleftrightarrow> rt_slots t ! i = None"
  by (simp add: dl_def)

lemma peek_index: "bucket_peek t i = rt_slots t ! unat i"
  by (simp add: bucket_peek_def)

text \<open>An element is found on the way from its home.\<close>

lemma on_the_way:
  assumes "rh t" "j < cap t" "rt_slots t ! j = Some (h, k, v)" "e \<le> dist (cap t) j (unat h)"
  shows "\<exists>q. dl t ((unat h + e) mod cap t) = Some q \<and> e \<le> q" "(unat h + dist (cap t) j (unat h)) mod cap t = j"
proof -
  show j: "(unat h + dist (cap t) j (unat h)) mod cap t = j" by (rule add_dist [OF assms(2)])
  have "\<exists>q. dl t ((unat h mod cap t + e) mod cap t) = Some q \<and> e \<le> q"
  proof (rule robin_path [OF rhD(2) [OF assms(1)] _ _ _ assms(4)])
    show "unat h mod cap t < cap t" using rhD(5) [OF assms(1)] by simp
    show "dl t ((unat h mod cap t + dist (cap t) j (unat h)) mod cap t) = Some (dist (cap t) j (unat h))"
      using assms(3) j by (simp add: mod_add_left_eq dl_Some)
  qed simp
  then show "\<exists>q. dl t ((unat h + e) mod cap t) = Some q \<and> e \<le> q" by (simp add: mod_add_left_eq)
qed

definition holds :: "('k, 'v) raw_table \<Rightarrow> usize \<Rightarrow> ('k \<Rightarrow> bool) \<Rightarrow> nat \<Rightarrow> bool" where
  "holds t hash m j \<longleftrightarrow> (\<exists>k v. rt_slots t ! j = Some (hash, k, v) \<and> m k)"

text \<open>What a search may return: the element, or, when there is none, a place at which an element of this hash may stand.\<close>

definition place :: "('k, 'v) raw_table \<Rightarrow> usize \<Rightarrow> vacant_state \<Rightarrow> bool" where
  "place t hash e \<longleftrightarrow>
     (case e of
        NoElem i d \<Rightarrow> unat i < cap t \<and> rt_slots t ! unat i = None \<and> fits (cap t) (dl t) (unat i) (dist (cap t) (unat i) (unat hash))
      | NeqElem i d \<Rightarrow> unat i < cap t \<and> dl t (unat i) = Some (unat d) \<and> unat d < dist (cap t) (unat i) (unat hash) \<and>
          fits (cap t) (dl t) (unat i) (dist (cap t) (unat i) (unat hash)))"

definition found :: "('k, 'v) raw_table \<Rightarrow> usize \<Rightarrow> ('k \<Rightarrow> bool) \<Rightarrow> internal_entry \<Rightarrow> bool" where
  "found t hash m r \<longleftrightarrow>
     (case r of
        Occupied i \<Rightarrow> unat i < cap t \<and> holds t hash m (unat i)
      | Vacant h e \<Rightarrow> h = hash \<and> (\<forall>j < cap t. \<not> holds t hash m j) \<and> place t hash e
      | TableIsEmpty \<Rightarrow> False)"

lemma search_loop_found:
  assumes "rh t" "d < cap t" "unat i = (unat hash + d) mod cap t" "unat disp = d"
    and "\<And>e. e < d \<Longrightarrow> (\<exists>q. dl t ((unat hash + e) mod cap t) = Some q \<and> e \<le> q) \<and> \<not> holds t hash m ((unat hash + e) mod cap t)"
  shows "\<exists>r. search_loop t hash m i disp = Some r \<and> found t hash m r"
  using assms(2-5)
proof (induction "cap t - d" arbitrary: d i disp rule: less_induct)
  case less
  note n = rhD(5) [OF assms(1)]
  have i: "unat i < cap t" using less.prems(2) n by simp
  have di: "dist (cap t) (unat i) (unat hash) = d" using less.prems(1,2) dist_add [OF n] by simp
  have fit: "fits (cap t) (dl t) (unat i) d"
  proof (cases d)
    case (Suc e)
    have "prev (cap t) (unat i) = (unat hash + e) mod cap t"
      using prev_next [of "(unat hash + e) mod cap t" "cap t"] n Suc less.prems(2) by (simp add: mod_Suc_eq)
    then show ?thesis using less.prems(4) [of e] Suc by (auto simp: fits_def)
  qed (simp add: fits_def)
  have absent: "\<forall>j < cap t. \<not> holds t hash m j" if stop: "\<And>q. dl t (unat i) = Some q \<Longrightarrow> q < d"
  proof (intro allI impI notI)
    fix j
    assume j: "j < cap t" "holds t hash m j"
    then obtain k v where kv: "rt_slots t ! j = Some (hash, k, v)" by (auto simp: holds_def)
    note way = on_the_way [OF assms(1) j(1) kv]
    show False
    proof (cases "d \<le> dist (cap t) j (unat hash)")
      case True
      then show False using way(1) [of d] stop less.prems(2) by auto
    next
      case False
      then show False using less.prems(4) [of "dist (cap t) j (unat hash)"] add_dist [OF j(1)] j(2) by auto
    qed
  qed
  show ?case
  proof (cases "rt_slots t ! unat i")
    case None
    then have "found t hash m (Vacant hash (NoElem i disp))"
      using absent i di fit by (simp add: found_def place_def dl_def)
    then show ?thesis by (subst search_loop.simps) (simp add: peek_index None)
  next
    case (Some e)
    obtain h k v where e: "e = (h, k, v)" by (cases e)
    let ?p = "displacement t i h"
    have p: "dl t (unat i) = Some (unat ?p)"
      using Some e shaped_index(3) [OF rhD(1) [OF assms(1)]] by (simp add: dl_Some)
    show ?thesis
    proof (cases "?p < disp")
      case True
      then have "unat ?p < d" using less.prems(3) by (simp add: word_less_nat_alt)
      then have "found t hash m (Vacant hash (NeqElem i ?p))"
        using absent p i di fit by (simp add: found_def place_def)
      then show ?thesis using True by (subst search_loop.simps) (simp add: peek_index Some e)
    next
      case ge: False
      show ?thesis
      proof (cases "hash = h \<and> m k")
        case True
        then have "found t hash m (Occupied i)" using Some e i by (auto simp: found_def holds_def)
        then show ?thesis using True ge by (subst search_loop.simps) (simp add: peek_index Some e)
      next
        case False
        have run: "search_loop t hash m i disp = search_loop t hash m (bucket_next t i) (disp + 1)"
          using False ge by (subst search_loop.simps) (auto simp: peek_index Some e)
        have all: "(\<exists>q. dl t ((unat hash + e) mod cap t) = Some q \<and> e \<le> q) \<and> \<not> holds t hash m ((unat hash + e) mod cap t)"
          if "e < Suc d" for e
        proof (cases "e = d")
          case True
          have "d \<le> unat ?p" using ge less.prems(3) by (simp add: word_less_nat_alt)
          then show ?thesis using True p False Some e less.prems(2) by (auto simp: holds_def)
        next
          case neq: False
          then show ?thesis using that less.prems(4) [of e] by simp
        qed
        have lt: "Suc d < cap t"
        proof (rule ccontr)
          assume "\<not> Suc d < cap t"
          then have d: "cap t = Suc d" using less.prems(1) by simp
          obtain j where j: "j < cap t" "rt_slots t ! j = None" using rh_gap [OF assms(1)] by blast
          have "dist (cap t) j (unat hash) < Suc d" using dist_less [OF n] d by metis
          then show False using all [of "dist (cap t) j (unat hash)"] add_dist [OF j(1)] j(2) by (auto simp: dl_def)
        qed
        have "unat (bucket_next t i) = (unat hash + Suc d) mod cap t"
          using shaped_index(2) [OF rhD(1) [OF assms(1)]] less.prems(2) by (simp add: mod_Suc_eq)
        moreover have "unat (disp + 1) = Suc d"
          using lt less.prems(3) rhD(6) [OF assms(1)] by (simp add: unat_word_ariths)
        ultimately show ?thesis using less.hyps [of "Suc d"] lt all run by simp
      qed
    qed
  qed
qed

lemma search_hashed_found:
  assumes "rh t"
  shows "\<exists>r. search_hashed t hash m = Some r \<and> found t hash m r"
proof -
  have "rt_capacity t \<noteq> 0" using shaped_index(4) [OF rhD(1) [OF assms]] rhD(4) [OF assms] by auto
  moreover have "unat (bucket_new t hash) = (unat hash + 0) mod cap t" using shaped_index(1) [OF rhD(1) [OF assms]] by simp
  ultimately show ?thesis
    using search_loop_found [OF assms rhD(5) [OF assms], of "bucket_new t hash" hash 0 m] by (simp add: search_hashed_def)
qed

subsection \<open>Changing a bucket\<close>

definition set_slot :: "nat \<Rightarrow> ('k, 'v) slot \<Rightarrow> ('k, 'v) raw_table \<Rightarrow> ('k, 'v) raw_table" where
  "set_slot i s t = t\<lparr>rt_slots := (rt_slots t)[i := s]\<rparr>"

lemma set_slot_simps [simp]:
  "rt_mask (set_slot i s t) = rt_mask t" "rt_size (set_slot i s t) = rt_size t" "rt_tag (set_slot i s t) = rt_tag t"
  "rt_slots (set_slot i s t) = (rt_slots t)[i := s]" "cap (set_slot i s t) = cap t"
  by (simp_all add: set_slot_def)

lemma bucket_moves:
  "bucket_replace i h k v t = set_slot (unat i) (Some (h, k, v)) t"
  "bucket_put i h k v t = set_slot (unat i) (Some (h, k, v)) t\<lparr>rt_size := rt_size t + 1\<rparr>"
  "bucket_take i t = set_slot (unat i) None t\<lparr>rt_size := rt_size t - 1\<rparr>"
  by (simp_all add: bucket_replace_def bucket_put_def bucket_take_def set_slot_def)

lemma dl_set_slot:
  "i < cap t \<Longrightarrow> dl (set_slot i s t) = (dl t)(i := map_option (\<lambda>(h, _, _). dist (cap t) i (unat h)) s)"
  by (rule ext) (auto simp: dl_def nth_list_update)

lemma dl_size [simp]: "dl (t\<lparr>rt_size := x\<rparr>) = dl t" "dl (t\<lparr>rt_tag := b\<rparr>) = dl t" "dl (set_tag b t) = dl t"
  by (simp_all add: dl_def fun_eq_iff set_tag_def)

lemma full_count_mset: "full_count xs = size {#s \<in># mset xs. s \<noteq> None#}"
  by (simp add: full_count_def flip: mset_filter size_mset)

lemma mset_set: "i < length xs \<Longrightarrow> mset (xs[i := y]) = add_mset y (mset xs - {#xs ! i#})"
  by (rule mset_update)

lemma full_count_set:
  assumes "i < length xs"
  shows "full_count (xs[i := y]) + (if xs ! i = None then 0 else 1) = full_count xs + (if y = None then 0 else 1)"
proof -
  have x: "mset xs = add_mset (xs ! i) (mset xs - {#xs ! i#})" using assms by (simp add: insert_DiffM)
  show ?thesis unfolding full_count_mset mset_set [OF assms] by (subst (2) x) (cases "xs ! i"; cases y; simp del: not_None_eq)
qed

lemma shaped_set_full:
  assumes "shaped t" "i < cap t" "rt_slots t ! i \<noteq> None" "s \<noteq> None"
  shows "shaped (set_slot i s t)"
  using assms full_count_set [OF assms(2), of s] by (auto simp: shaped_def)

lemma full_count_le: "full_count xs \<le> length xs"
  by (simp add: full_count_def)

lemma shaped_put:
  assumes "shaped t" "i < cap t" "rt_slots t ! i = None"
  shows "shaped (set_slot i (Some e) t\<lparr>rt_size := rt_size t + 1\<rparr>)"
proof -
  have c: "full_count ((rt_slots t)[i := Some e]) = Suc (full_count (rt_slots t))"
    using full_count_set [OF assms(2), of "Some e"] assms(3) by simp
  have "unat (rt_size t) \<le> 2 ^ 60"
    using assms(1) full_count_le [of "rt_slots t"] shaped_cap(2) [OF assms(1)] by (auto simp: shaped_def)
  then have "unat (rt_size t + 1) = Suc (unat (rt_size t))" by (simp add: unat_word_ariths)
  then show ?thesis using assms(1) c by (simp add: shaped_def)
qed

lemma shaped_take:
  assumes "shaped t" "i < cap t" "rt_slots t ! i \<noteq> None"
  shows "shaped (set_slot i None t\<lparr>rt_size := rt_size t - 1\<rparr>)"
proof -
  have c: "full_count (rt_slots t) = Suc (full_count ((rt_slots t)[i := None]))"
    using full_count_set [OF assms(2), of None] assms(3) by simp
  then have "rt_size t \<noteq> 0" using assms(1) by (auto simp: shaped_def)
  then have "unat (rt_size t - 1) = unat (rt_size t) - 1" by (simp add: unat_minus_one)
  then show ?thesis using assms(1) c by (simp add: shaped_def)
qed

lemma shaped_tag [simp]: "shaped (set_tag b t) = shaped t" "rh (set_tag b t) = rh t" "rt_slots (set_tag b t) = rt_slots t"
  "rt_size (set_tag b t) = rt_size t"
  by (simp_all add: shaped_def rh_def set_tag_def)

text \<open>No element is displaced by as much as the capacity allows: there is a gap on the way.\<close>

lemma displaced_less:
  assumes "rh t" "i < cap t" "dl t i = Some q"
  shows "Suc q < cap t"
proof (rule ccontr)
  assume ge: "\<not> Suc q < cap t"
  obtain h k v where s: "rt_slots t ! i = Some (h, k, v)" "q = dist (cap t) i (unat h)" using assms(3) by (auto simp: dl_Some)
  have q: "cap t = Suc q" using ge s(2) dist_less [OF rhD(5) [OF assms(1)], of i "unat h"] by simp
  obtain j where j: "j < cap t" "rt_slots t ! j = None" using rh_gap [OF assms(1)] by blast
  have "dist (cap t) j (unat h) \<le> q" using dist_less [OF rhD(5) [OF assms(1)], of j "unat h"] q by simp
  then show False
    using on_the_way(1) [OF assms(1,2) s(1), of "dist (cap t) j (unat h)"] s(2) add_dist [OF j(1)] j(2) by (auto simp: dl_def)
qed

subsection \<open>Inserting\<close>

text \<open>One element more.\<close>

definition grown :: "('k, 'v) raw_table \<Rightarrow> usize \<times> 'k \<times> 'v \<Rightarrow> ('k, 'v) raw_table \<Rightarrow> bool" where
  "grown t e t' \<longleftrightarrow> shaped t' \<and> robin (cap t') (dl t') \<and> cap t' = cap t \<and> rt_size t' = rt_size t + 1 \<and>
     mset (rt_slots t') = add_mset (Some e) (mset (rt_slots t) - {#None#})"

lemma put_grown:
  assumes "rh t" "unat i < cap t" "rt_slots t ! unat i = None" "fits (cap t) (dl t) (unat i) (dist (cap t) (unat i) (unat h))"
  shows "grown t (h, k, v) (bucket_put i h k v t)"
proof -
  have "robin (cap t) ((dl t)(unat i := Some (dist (cap t) (unat i) (unat h))))"
    using assms(3) by (intro robin_raise [OF rhD(2,4) [OF assms(1)] assms(2,4)]) (simp add: dl_def)
  then show ?thesis
    using assms(2,3) shaped_put [OF rhD(1) [OF assms(1)] assms(2,3)]
    by (simp add: grown_def bucket_moves dl_set_slot mset_set)
qed

lemma rh_set_full:
  assumes "rh t" "i < cap t" "dl t i = Some p" "p \<le> dist (cap t) i (unat h)" "fits (cap t) (dl t) i (dist (cap t) i (unat h))"
  shows "rh (set_slot i (Some (h, k, v)) t)"
proof -
  have s: "rt_slots t ! i \<noteq> None" using assms(3) by (auto simp: dl_def)
  have "robin (cap t) ((dl t)(i := Some (dist (cap t) i (unat h))))"
    using assms(3,4) by (intro robin_raise [OF rhD(2,4) [OF assms(1)] assms(2,5)]) auto
  moreover have "full_count ((rt_slots t)[i := Some (h, k, v)]) = full_count (rt_slots t)"
    using full_count_set [OF assms(2), of "Some (h, k, v)"] s by simp
  ultimately show ?thesis
    using shaped_set_full [OF rhD(1) [OF assms(1)] assms(2) s] rhD(3) [OF assms(1)] assms(2)
    by (simp add: rh_def dl_set_slot)
qed

lemma grown_swap:
  assumes "grown (set_slot i (Some e) t) f t'" "i < cap t" "rt_slots t ! i = Some f" "None \<in> set (rt_slots t)"
  shows "grown t e t'"
proof -
  have "Some f \<in># mset (rt_slots t)" using assms(2,3) by (metis nth_mem set_mset_mset)
  then obtain M where M: "mset (rt_slots t) = add_mset (Some f) M" by (metis multi_member_split)
  then have "None \<in># M" using assms(4) by (metis insert_iff option.distinct(1) set_mset_add_mset_insert set_mset_mset)
  then obtain M' where "M = add_mset None M'" by (metis multi_member_split)
  then have "mset (rt_slots t) = add_mset (Some f) (add_mset None M')" using M by simp
  then show ?thesis using assms(1-3) by (auto simp: grown_def mset_set add_mset_commute)
qed

lemma probe_next:
  fixes disp :: usize
  assumes "rh t" "unat i < cap t" "dl t (unat i) = Some q" "dist (cap t) (unat i) (unat h) \<le> q"
    "unat disp = dist (cap t) (unat i) (unat h)"
  shows "unat (bucket_next t i) = Suc (unat i) mod cap t" "unat (bucket_next t i) < cap t"
    "dist (cap t) (unat (bucket_next t i)) (unat h) = Suc (unat disp)" "unat (disp + 1) = Suc (unat disp)"
    "fits (cap t) (dl t) (unat (bucket_next t i)) (Suc (unat disp))"
proof -
  have lt: "Suc (unat disp) < cap t" using displaced_less [OF assms(1-3)] assms(4,5) by simp
  show p: "unat (bucket_next t i) = Suc (unat i) mod cap t" by (rule shaped_index(2) [OF rhD(1) [OF assms(1)]])
  then show "unat (bucket_next t i) < cap t" using rhD(5) [OF assms(1)] by simp
  show "dist (cap t) (unat (bucket_next t i)) (unat h) = Suc (unat disp)"
    using dist_next [OF rhD(5) [OF assms(1)], of "unat i" "unat h"] lt assms(5) p by simp
  show "unat (disp + 1) = Suc (unat disp)" using lt rhD(6) [OF assms(1)] by (simp add: unat_word_ariths)
  show "fits (cap t) (dl t) (unat (bucket_next t i)) (Suc (unat disp))"
    using prev_next [OF assms(2)] assms(3-5) p by (auto simp: fits_def)
qed

lemma robin_hood_loop_grows:
  assumes "rh t" "unat i < cap t" "dl t (unat i) = Some q" "dist (cap t) (unat i) (unat h) \<le> q"
    "unat disp = dist (cap t) (unat i) (unat h)" "rt_slots t ! ((Suc (unat i) + m) mod cap t) = None"
  shows "\<exists>t'. robin_hood_loop i disp h k v t = Some t' \<and> grown t (h, k, v) t'"
  using assms
proof (induction m arbitrary: i disp h k v t q rule: less_induct)
  case (less m)
  let ?p = "bucket_next t i"
  note p = probe_next [OF less.prems(1-5)]
  show ?case
  proof (cases "rt_slots t ! unat ?p")
    case None
    then have "grown t (h, k, v) (bucket_put ?p h k v t)" using less.prems(1) p by (intro put_grown) simp_all
    then show ?thesis by (subst robin_hood_loop.simps) (simp add: Let_def peek_index None)
  next
    case (Some e)
    obtain h' k' v' where e: "e = (h', k', v')" by (cases e)
    let ?d = "displacement t ?p h'"
    have d: "unat ?d = dist (cap t) (unat ?p) (unat h')" by (rule shaped_index(3) [OF rhD(1) [OF less.prems(1)]])
    have dp: "dl t (unat ?p) = Some (unat ?d)" using Some e d by (simp add: dl_Some)
    obtain m' where m': "m = Suc m'" using less.prems(6) Some p(1) by (cases m) auto
    have gap: "rt_slots t ! ((Suc (unat ?p) + m') mod cap t) = None" "None \<in> set (rt_slots t)"
    proof -
      have "(Suc (unat ?p) + m') mod cap t = (Suc (unat i) + m) mod cap t"
        unfolding p(1) m' by (metis add_Suc add_Suc_right mod_Suc_eq mod_add_left_eq)
      then show "rt_slots t ! ((Suc (unat ?p) + m') mod cap t) = None" using less.prems(6) by simp
      then show "None \<in> set (rt_slots t)"
        using rhD(5) [OF less.prems(1)] by (metis mod_less_divisor nth_mem)
    qed
    show ?thesis
    proof (cases "?d < disp + 1")
      case True
      let ?t = "set_slot (unat ?p) (Some (h, k, v)) t"
      have le: "unat ?d \<le> Suc (unat disp)" using True p(4) by (simp add: word_less_nat_alt)
      have rh': "rh ?t" using less.prems(1) p(2,3,5) dp le by (intro rh_set_full) simp_all
      have dl': "dl ?t (unat ?p) = Some (Suc (unat disp))" using p(2,3) by (simp add: dl_set_slot)
      have gap': "rt_slots ?t ! ((Suc (unat ?p) + m') mod cap t) = None"
        using gap(1) Some by (cases "(Suc (unat ?p) + m') mod cap t = unat ?p") auto
      have run: "robin_hood_loop i disp h k v t = robin_hood_loop ?p ?d h' k' v' ?t"
        using True by (subst robin_hood_loop.simps) (simp add: Let_def peek_index Some e bucket_moves)
      obtain t' where "robin_hood_loop ?p ?d h' k' v' ?t = Some t'" "grown ?t (h', k', v') t'"
        using less.IH [of m' ?t ?p "Suc (unat disp)" h' ?d k' v'] rh' dl' gap' p(2) d le m' by auto
      then show ?thesis using run grown_swap [OF _ p(2) _ gap(2)] Some e by auto
    next
      case False
      have le: "Suc (unat disp) \<le> unat ?d" using False p(4) by (simp add: word_less_nat_alt)
      have run: "robin_hood_loop i disp h k v t = robin_hood_loop ?p (disp + 1) h k v t"
        using False by (subst robin_hood_loop.simps) (simp add: Let_def peek_index Some e)
      then show ?thesis
        using less.IH [of m' t ?p "unat ?d" h "disp + 1" k v] less.prems(1) p dp gap(1) le m' by simp
    qed
  qed
qed

text \<open>Inserting at the place that a search returns.\<close>

lemma gap_ahead:
  assumes "rh t" "i < cap t"
  shows "\<exists>m. rt_slots t ! ((Suc i + m) mod cap t) = None"
proof -
  obtain j where j: "j < cap t" "rt_slots t ! j = None" using rh_gap [OF assms(1)] by blast
  have "(Suc i + dist (cap t) j (Suc i)) mod cap t = j" by (rule add_dist [OF j(1)])
  then show ?thesis using j(2) by metis
qed

lemma grown_tag: "grown (set_tag b t) e t' = grown t e t'"
  by (simp add: grown_def)

lemma place_tag: "place (set_tag b t) h e = place t h e"
  by (cases e) (simp_all add: place_def)

lemma vacant_insert_grows:
  assumes "rh t" "place t h e"
  shows "\<exists>t'. vacant_insert h e k v t = Some t' \<and> grown t (h, k, v) t'"
proof (cases e)
  case (NoElem i d)
  let ?t = "if d \<ge> DISPLACEMENT_THRESHOLD then set_tag True t else t"
  have "grown ?t (h, k, v) (bucket_put i h k v ?t)"
    using assms NoElem by (intro put_grown) (auto simp: place_def)
  then show ?thesis by (auto simp: vacant_insert_def NoElem grown_tag split: if_splits)
next
  case (NeqElem i d)
  let ?t = "if d \<ge> DISPLACEMENT_THRESHOLD then set_tag True t else t"
  have t: "rh ?t" "cap ?t = cap t" "rt_slots ?t = rt_slots t" "dl ?t = dl t" using assms(1) by auto
  have pl: "unat i < cap t" "dl t (unat i) = Some (unat d)" "unat d < dist (cap t) (unat i) (unat h)"
    "fits (cap t) (dl t) (unat i) (dist (cap t) (unat i) (unat h))" using assms(2) NeqElem by (auto simp: place_def)
  obtain h' k' v' where s: "rt_slots t ! unat i = Some (h', k', v')" "unat d = dist (cap t) (unat i) (unat h')"
    using pl(2) by (auto simp: dl_Some)
  let ?t1 = "set_slot (unat i) (Some (h, k, v)) ?t"
  have rh1: "rh ?t1" using t pl by (intro rh_set_full) auto
  obtain m where m: "rt_slots ?t1 ! ((Suc (unat i) + m) mod cap ?t1) = None"
    using gap_ahead [OF rh1, of "unat i"] pl(1) t(2) by auto
  obtain t' where t': "robin_hood_loop i d h' k' v' ?t1 = Some t'" "grown ?t1 (h', k', v') t'"
    using robin_hood_loop_grows [OF rh1, of i "dist (cap t) (unat i) (unat h)" h' d m k' v'] pl s(2) t m by (auto simp: dl_set_slot)
  have "None \<in> set (rt_slots t)" using rh_gap [OF assms(1)] by (metis nth_mem)
  then have "grown ?t (h, k, v) t'" using grown_swap [OF t'(2)] pl(1) s(1) t by auto
  then show ?thesis
    using t' s(1) t(3) by (auto simp: vacant_insert_def NeqElem robin_hood_def peek_index bucket_moves grown_tag split: if_splits)
qed

subsection \<open>Removing\<close>

text \<open>While a gap travels forward, the displacements are those of a table in which the gap is still filled.\<close>

lemma shift_loop_ok:
  assumes "shaped t" "unat g < cap t" "rt_slots t ! unat g = None" "robin (cap t) ((dl t)(unat g := Some d))"
    "rt_slots t ! ((Suc (unat g) + m) mod cap t) = None" "Suc m < cap t"
  shows "\<exists>t'. shift_loop g t = Some t' \<and> shaped t' \<and> robin (cap t') (dl t') \<and> cap t' = cap t \<and> rt_size t' = rt_size t \<and>
    mset (rt_slots t') = mset (rt_slots t)"
  using assms
proof (induction m arbitrary: g d t rule: less_induct)
  case (less m)
  let ?p = "bucket_next t g"
  note n = shaped_cap(1) [OF less.prems(1)]
  have p: "unat ?p = Suc (unat g) mod cap t" by (rule shaped_index(2) [OF less.prems(1)])
  have n0: "0 < cap t" using n by linarith
  have pn1: "unat ?p < cap t" unfolding p using less.prems(2) by (intro mod_less_divisor) linarith
  have pn3: "prev (cap t) (unat ?p) = unat g" unfolding p by (rule prev_next [OF less.prems(2)])
  have pn: "unat ?p < cap t" "unat ?p \<noteq> unat g" "prev (cap t) (unat ?p) = unat g"
    using pn1 pn3 prev_neq [OF n pn1] by simp_all
  have dg: "dl t (unat g) = None" using less.prems(3) by (simp add: dl_def)
  have stop: ?case if "shift_loop g t = Some t" "\<And>e. dl t (unat ?p) \<noteq> Some (Suc e)"
  proof -
    have "robin (cap t) (((dl t)(unat g := Some d))(unat g := None))"
      using that(2) pn(2) p by (intro robin_empty [OF less.prems(4,2)]) simp
    moreover have "((dl t)(unat g := Some d))(unat g := None) = dl t" using dg by auto
    ultimately show ?thesis using that(1) less.prems(1) by auto
  qed
  show ?case
  proof (cases "rt_slots t ! unat ?p")
    case None
    then show ?thesis by (intro stop) (simp_all add: shift_loop.simps [of g] peek_index dl_def)
  next
    case (Some x)
    obtain h k v where x: "x = (h, k, v)" by (cases x)
    have dp: "dl t (unat ?p) = Some (unat (displacement t ?p h))"
      using Some x shaped_index(3) [OF less.prems(1)] by (simp add: dl_Some)
    show ?thesis
    proof (cases "displacement t ?p h = 0")
      case True
      then show ?thesis using dp by (intro stop) (simp_all add: shift_loop.simps [of g] peek_index Some x)
    next
      case False
      then obtain e where e: "unat (displacement t ?p h) = Suc e" by (metis not0_implies_Suc unat_eq_zero)
      let ?t = "set_slot (unat ?p) None (set_slot (unat g) (Some (h, k, v)) t)"
      have run: "shift_loop g t = shift_loop ?p ?t"
        using False by (subst shift_loop.simps) (simp add: peek_index Some x gap_shift_def set_slot_def)
      have "dist (cap t) (unat ?p) (unat h) = Suc e" using e shaped_index(3) [OF less.prems(1)] by simp
      then have "dist (cap t) (unat g) (unat h) = e"
        using dist_next [OF n0, of "unat g" "unat h"] p dist_less [OF n0, of "unat g" "unat h"]
        by (cases "Suc (dist (cap t) (unat g) (unat h)) = cap t") auto
      then have dl': "dl ?t = (dl t)(unat g := Some e, unat ?p := None)"
        using less.prems(2) pn(1) by (simp add: dl_set_slot)
      have "(dl ?t)(unat ?p := Some (Suc e)) = (dl t)(unat g := Some e)"
        unfolding dl' using dp e pn(2) by auto
      moreover have "robin (cap t) ((dl t)(unat g := Some e))"
        using robin_shift [OF less.prems(4) n less.prems(2)] dp e p by simp
      ultimately have virt: "robin (cap ?t) ((dl ?t)(unat ?p := Some (Suc e)))" by simp
      have ms: "mset (rt_slots ?t) = mset (rt_slots t)"
      proof -
        have "rt_slots ?t = (rt_slots t)[unat g := rt_slots t ! unat ?p, unat ?p := rt_slots t ! unat g]"
          using Some x less.prems(3) by simp
        then show ?thesis using less.prems(2) pn(1) by (simp only: mset_swap)
      qed
      have sh: "shaped ?t" using less.prems(1) ms by (simp add: shaped_def full_count_mset)
      obtain m' where m': "m = Suc m'" using less.prems(5) Some p by (cases m) auto
      have idx: "(Suc (unat ?p) + m') mod cap t = (Suc (unat g) + m) mod cap t"
        unfolding p m' by (metis add_Suc add_Suc_right mod_Suc_eq mod_add_left_eq)
      let ?j = "(Suc (unat g) + m) mod cap t"
      have "?j \<noteq> unat g"
      proof
        assume "(Suc (unat g) + m) mod cap t = unat g"
        then have "Suc m mod cap t = 0"
          using dist_add [OF n0, of "unat g" "Suc m"] by (simp add: dist_def)
        then show False using less.prems(6) by simp
      qed
      then have "rt_slots ?t ! ?j = None"
        using less.prems(5) pn(1) by (cases "?j = unat ?p") simp_all
      then have gap: "rt_slots ?t ! ((Suc (unat ?p) + m') mod cap ?t) = None" using idx by simp
      have lt: "m' < m" "unat ?p < cap ?t" "Suc m' < cap ?t" "rt_slots ?t ! unat ?p = None"
        using m' pn(1) less.prems(6) by simp_all
      obtain t' where "shift_loop ?p ?t = Some t'" "shaped t'" "robin (cap t') (dl t')" "cap t' = cap t"
        "rt_size t' = rt_size t" "mset (rt_slots t') = mset (rt_slots ?t)"
        using less.IH [OF lt(1) sh lt(2,4) virt gap lt(3)] by fastforce
      then show ?thesis using run ms by auto
    qed
  qed
qed

definition shrunk :: "('k, 'v) raw_table \<Rightarrow> usize \<times> 'k \<times> 'v \<Rightarrow> ('k, 'v) raw_table \<Rightarrow> bool" where
  "shrunk t e t' \<longleftrightarrow> rh t' \<and> cap t' = cap t \<and> rt_size t' = rt_size t - 1 \<and>
     mset (rt_slots t') = add_mset None (mset (rt_slots t) - {#Some e#})"

lemma pop_internal_shrinks:
  assumes "rh t" "unat i < cap t" "rt_slots t ! unat i = Some (h, k, v)"
  shows "\<exists>t'. pop_internal i t = Some ((k, v), t') \<and> shrunk t (h, k, v) t'"
proof -
  let ?t = "bucket_take i t"
  have sh: "shaped ?t" unfolding bucket_moves using assms by (intro shaped_take rhD(1)) auto
  have sl: "rt_slots ?t = (rt_slots t)[unat i := None]" by (simp add: bucket_moves)
  obtain d where d: "dl t (unat i) = Some d" using assms(3) by (auto simp: dl_def)
  have "(dl ?t)(unat i := Some d) = dl t" using d assms(2) by (simp add: bucket_moves dl_set_slot fun_upd_idem)
  then have virt: "robin (cap ?t) ((dl ?t)(unat i := Some d))" using rhD(2) [OF assms(1)] sl by simp
  obtain j where j: "j < cap t" "rt_slots t ! j = None" using rh_gap [OF assms(1)] by blast
  let ?m = "dist (cap t) j (Suc (unat i))"
  have m: "(Suc (unat i) + ?m) mod cap t = j" by (rule add_dist [OF j(1)])
  have "Suc ?m \<noteq> cap t"
  proof
    assume "Suc ?m = cap t"
    then have "Suc (unat i) + ?m = unat i + cap t" by simp
    then have "(Suc (unat i) + ?m) mod cap t = unat i" using assms(2) by (simp only: mod_add_self2 mod_less)
    then show False using m j(2) assms(3) by simp
  qed
  then have lt: "Suc ?m < cap t" using dist_less [OF rhD(5) [OF assms(1)], of j "Suc (unat i)"] by simp
  have gap: "rt_slots ?t ! ((Suc (unat i) + ?m) mod cap ?t) = None"
    using m j sl by (cases "j = unat i") simp_all
  obtain t' where t': "shift_loop i ?t = Some t'" "shaped t'" "robin (cap t') (dl t')" "cap t' = cap ?t"
    "rt_size t' = rt_size ?t" "mset (rt_slots t') = mset (rt_slots ?t)"
    using shift_loop_ok [OF sh _ _ virt gap] assms(2) sl lt by auto
  have "full_count (rt_slots t') < cap t'"
    using t'(4,6) full_count_set [OF assms(2), of None] assms(3) rhD(3) [OF assms(1)] sl by (simp add: full_count_mset)
  then have "shrunk t (h, k, v) t'"
    using t' sl assms(2,3) by (simp add: shrunk_def rh_def mset_set bucket_moves)
  then show ?thesis using t'(1) assms(3) by (simp add: pop_internal_def peek_index)
qed

end
