(* ===== verification/HashSpec.thy ===== *)
theory HashSpec
  imports HashInv
begin

text \<open>
  What a table holds: its elements as a multiset, the invariant of a hash map and the finite map it stands for.
  Searching, replacing and removing are shown against that map.
\<close>

subsection \<open>Contents\<close>

fun opt_mset :: "'a option \<Rightarrow> 'a multiset" where
  "opt_mset None = {#}"
| "opt_mset (Some e) = {#e#}"

definition contents :: "('k, 'v) raw_table \<Rightarrow> (usize \<times> 'k \<times> 'v) multiset" where
  "contents t = \<Sum>\<^sub># (image_mset opt_mset (mset (rt_slots t)))"

definition elems :: "('k, 'v) raw_table \<Rightarrow> (usize \<times> 'k \<times> 'v) list" where
  "elems t = List.map_filter id (rt_slots t)"

lemma sum_mset_elems: "\<Sum>\<^sub># (image_mset opt_mset (mset xs)) = mset (List.map_filter id xs)"
  by (induction xs) (auto simp: map_filter_simps split: option.splits)

lemma mset_elems: "mset (elems t) = contents t"
  by (simp add: elems_def contents_def sum_mset_elems)

lemma set_map_filter_id: "e \<in> set (List.map_filter id xs) \<longleftrightarrow> Some e \<in> set xs"
  by (induction xs) (auto simp: map_filter_simps split: option.splits)

lemma in_elems: "e \<in> set (elems t) \<longleftrightarrow> Some e \<in> set (rt_slots t)"
  by (simp add: elems_def set_map_filter_id)

lemma in_contents: "e \<in># contents t \<longleftrightarrow> Some e \<in> set (rt_slots t)"
  by (simp flip: mset_elems add: in_elems)

lemma full_count_contents: "full_count (rt_slots t) = size (contents t)"
proof -
  have "length (filter (\<lambda>s. s \<noteq> None) xs) = length (List.map_filter id xs)" for xs :: "('a, 'b) slot list"
    by (induction xs) (auto simp: map_filter_simps split: option.splits)
  then show ?thesis by (simp add: full_count_def elems_def flip: mset_elems)
qed

lemma contents_set_slot:
  assumes "i < cap t"
  shows "contents (set_slot i y t) + opt_mset (rt_slots t ! i) = contents t + opt_mset y"
proof -
  let ?M = "mset (rt_slots t) - {#rt_slots t ! i#}"
  have "mset (rt_slots t) = add_mset (rt_slots t ! i) ?M" using assms by (simp add: insert_DiffM)
  then have "contents t = \<Sum>\<^sub># (image_mset opt_mset (add_mset (rt_slots t ! i) ?M))"
    unfolding contents_def by (rule arg_cong)
  then have "contents t = opt_mset (rt_slots t ! i) + \<Sum>\<^sub># (image_mset opt_mset ?M)"
    by (simp only: image_mset_add_mset sum_mset.add_mset)
  then show ?thesis by (simp add: contents_def mset_set assms)
qed

lemma contents_slots: "rt_slots t' = rt_slots t \<Longrightarrow> contents t' = contents t"
  by (simp add: contents_def)

lemma grown_contents:
  assumes "grown t e t'" "None \<in> set (rt_slots t)"
  shows "contents t' = add_mset e (contents t)"
proof -
  obtain M where "mset (rt_slots t) = add_mset None M" using assms(2) by (metis multi_member_split set_mset_mset)
  then show ?thesis using assms(1) by (simp add: grown_def contents_def)
qed

lemma shrunk_contents:
  assumes "shrunk t e t'" "Some e \<in> set (rt_slots t)"
  shows "add_mset e (contents t') = contents t"
proof -
  obtain M where "mset (rt_slots t) = add_mset (Some e) M" using assms(2) by (metis multi_member_split set_mset_mset)
  then show ?thesis using assms(1) by (simp add: shrunk_def contents_def)
qed

subsection \<open>The map\<close>

definition hm_map :: "('k, 'v) raw_table \<Rightarrow> ('k \<rightharpoonup> 'v)" where
  "hm_map t = map_of (map snd (elems t))"

definition key_of :: "usize \<times> 'k \<times> 'v \<Rightarrow> 'k" where
  "key_of e = fst (snd e)"

text \<open>Every key once, with its own hash.\<close>

definition keyed :: "('k \<Rightarrow> u64) \<Rightarrow> ('k, 'v) raw_table \<Rightarrow> bool" where
  "keyed hasher t \<longleftrightarrow> distinct (map key_of (elems t)) \<and> (\<forall>e \<in> set (elems t). fst e = make_hash hasher (key_of e))"

lemma map_of_mset:
  assumes "mset xs = mset ys" "distinct (map fst xs)"
  shows "map_of xs = map_of ys"
proof -
  have "distinct (map fst ys)" using assms by (metis mset_eq_imp_distinct_iff mset_map)
  then show ?thesis using assms map_of_inject_set set_mset_mset by metis
qed

lemma keys_distinct: "distinct (map key_of es) \<Longrightarrow> distinct (map fst (map snd es))"
  by (simp add: key_of_def [abs_def] comp_def)

text \<open>Both facts and the map depend on the contents alone.\<close>

lemma keyed_as:
  assumes "contents t = mset es"
  shows "keyed hasher t \<longleftrightarrow> distinct (map key_of es) \<and> (\<forall>e \<in> set es. fst e = make_hash hasher (key_of e))"
proof -
  have m: "mset (elems t) = mset es" using assms by (simp add: mset_elems)
  then have "set (elems t) = set es" by (rule mset_eq_setD)
  moreover have "distinct (map key_of (elems t)) = distinct (map key_of es)"
    using m by (metis mset_eq_imp_distinct_iff mset_map)
  ultimately show ?thesis by (simp add: keyed_def)
qed

lemma hm_map_as:
  assumes "contents t = mset es" "distinct (map key_of es)"
  shows "hm_map t = map_of (map snd es)"
proof -
  have m: "mset es = mset (elems t)" using assms by (simp add: mset_elems)
  then have "mset (map snd es) = mset (map snd (elems t))" by (metis mset_map)
  then have "map_of (map snd es) = map_of (map snd (elems t))" using assms(2) keys_distinct by (intro map_of_mset)
  then show ?thesis by (simp add: hm_map_def)
qed

lemma keyed_contents: "contents t' = contents t \<Longrightarrow> keyed hasher t' = keyed hasher t"
  using keyed_as [of t' "elems t"] by (simp add: mset_elems keyed_def)

lemma hm_map_contents: "contents t' = contents t \<Longrightarrow> keyed hasher t \<Longrightarrow> hm_map t' = hm_map t"
  using hm_map_as [of t' "elems t"] by (simp add: mset_elems keyed_def hm_map_def)

lemma keyed_add:
  assumes "contents t' = add_mset (h, k, v) (contents t)" "keyed hasher t"
  shows "keyed hasher t' \<longleftrightarrow> h = make_hash hasher k \<and> hm_map t k = None"
    "hm_map t k = None \<Longrightarrow> hm_map t' = (hm_map t)(k \<mapsto> v)"
proof -
  have c: "contents t' = mset ((h, k, v) # elems t)" using assms(1) by (simp add: mset_elems)
  have n: "hm_map t k = None \<longleftrightarrow> k \<notin> set (map key_of (elems t))"
    by (auto simp: hm_map_def map_of_eq_None_iff key_of_def image_image)
  show "keyed hasher t' \<longleftrightarrow> h = make_hash hasher k \<and> hm_map t k = None"
    using assms(2) unfolding keyed_as [OF c] n by (auto simp: keyed_def key_of_def)
  show "hm_map t' = (hm_map t)(k \<mapsto> v)" if "hm_map t k = None"
    using assms(2) that hm_map_as [OF c] unfolding n by (simp add: keyed_def key_of_def hm_map_def)
qed

lemma keyed_del:
  assumes "add_mset (h, k, v) (contents t') = contents t" "keyed hasher t"
  shows "keyed hasher t'" "hm_map t' = (hm_map t)(k := None)" "hm_map t k = Some v"
proof -
  have c: "contents t = mset ((h, k, v) # elems t')" using assms(1) by (simp add: mset_elems)
  show k: "keyed hasher t'" using assms(2) unfolding keyed_as [OF c] by (simp add: keyed_def)
  have a: "hm_map t' k = None \<and> hm_map t = (hm_map t')(k \<mapsto> v)"
    using keyed_add [OF assms(1) [symmetric] k] assms(2) by blast
  then show "hm_map t k = Some v" by simp
  show "hm_map t' = (hm_map t)(k := None)" using a by auto
qed

text \<open>Looking a key up is looking for its element.\<close>

lemma hm_map_lookup:
  assumes "keyed hasher t"
  shows "hm_map t k = Some v \<longleftrightarrow> Some (make_hash hasher k, k, v) \<in> set (rt_slots t)"
proof -
  have "hm_map t k = Some v \<longleftrightarrow> (k, v) \<in> set (map snd (elems t))"
    unfolding hm_map_def using assms keys_distinct by (intro map_of_eq_Some_iff) (auto simp: keyed_def)
  also have "\<dots> \<longleftrightarrow> (\<exists>h. (h, k, v) \<in> set (elems t))" by force
  also have "\<dots> \<longleftrightarrow> (make_hash hasher k, k, v) \<in> set (elems t)" using assms by (force simp: keyed_def key_of_def)
  finally show ?thesis by (simp add: in_elems)
qed

subsection \<open>The invariant of a map\<close>

definition blank :: "('k, 'v) raw_table \<Rightarrow> bool" where
  "blank t \<longleftrightarrow> rt_slots t = [] \<and> rt_mask t = - 1 \<and> rt_size t = 0"

definition usable :: "nat \<Rightarrow> nat" where
  "usable n = (10 * n + 9) div 11"

definition hm_inv :: "('k \<Rightarrow> u64) \<Rightarrow> ('k, 'v) raw_table \<Rightarrow> bool" where
  "hm_inv hasher t \<longleftrightarrow> keyed hasher t \<and> (blank t \<or> 32 \<le> cap t \<and> rh t \<and> full_count (rt_slots t) \<le> usable (cap t))"

lemma usable_less: "32 \<le> n \<Longrightarrow> usable n < n"
  by (simp add: usable_def div_less_iff_less_mult)

lemma blank_contents: "blank t \<Longrightarrow> contents t = {#} \<and> elems t = [] \<and> hm_map t = Map.empty \<and> keyed hasher t"
  by (simp add: blank_def contents_def elems_def hm_map_def keyed_def map_filter_simps)

lemma hm_inv_keyed: "hm_inv hasher t \<Longrightarrow> keyed hasher t"
  by (simp add: hm_inv_def)

text \<open>The length is the number of keys.\<close>

lemma keyed_card:
  assumes "keyed hasher t"
  shows "card (dom (hm_map t)) = full_count (rt_slots t)"
proof -
  have "card (dom (hm_map t)) = card (set (map key_of (elems t)))"
    by (simp add: hm_map_def dom_map_of_conv_image_fst key_of_def image_image)
  also have "\<dots> = length (elems t)" using assms distinct_card [of "map key_of (elems t)"] by (simp add: keyed_def)
  finally show ?thesis by (simp add: full_count_contents flip: mset_elems)
qed

lemma hm_len_card:
  assumes "hm_inv hasher t"
  shows "unat (hm_len t) = card (dom (hm_map t))"
proof (cases "blank t")
  case True
  then show ?thesis using blank_contents [OF True] by (simp add: hm_len_def blank_def)
next
  case False
  then have "shaped t" using assms rhD(1) by (auto simp: hm_inv_def)
  then show ?thesis using keyed_card [OF hm_inv_keyed [OF assms]] by (simp add: hm_len_def shaped_def)
qed

subsection \<open>Searching\<close>

lemma holds_key: "(\<exists>j < cap t. holds t h (\<lambda>q. q = k) j) \<longleftrightarrow> (\<exists>v. Some (h, k, v) \<in> set (rt_slots t))"
  by (auto simp: holds_def in_set_conv_nth)

lemma search_key:
  assumes "rh t" "keyed hasher t"
  obtains (present) i v where "search_hashed t (make_hash hasher k) (\<lambda>q. q = k) = Some (Occupied i)" "unat i < cap t"
      "rt_slots t ! unat i = Some (make_hash hasher k, k, v)" "hm_map t k = Some v"
  | (absent) e where "search_hashed t (make_hash hasher k) (\<lambda>q. q = k) = Some (Vacant (make_hash hasher k) e)"
      "place t (make_hash hasher k) e" "hm_map t k = None"
proof -
  let ?h = "make_hash hasher k"
  obtain r where r: "search_hashed t ?h (\<lambda>q. q = k) = Some r" "found t ?h (\<lambda>q. q = k) r"
    using search_hashed_found [OF assms(1)] by blast
  show thesis
  proof (cases r)
    case (Occupied i)
    then obtain v where v: "unat i < cap t" "rt_slots t ! unat i = Some (?h, k, v)" using r(2) by (auto simp: found_def holds_def)
    then have "hm_map t k = Some v" unfolding hm_map_lookup [OF assms(2)] by (metis nth_mem)
    then show thesis using present r(1) Occupied v by blast
  next
    case (Vacant h e)
    then have "\<not> (\<exists>v. Some (?h, k, v) \<in> set (rt_slots t))" "h = ?h" "place t ?h e"
      using r(2) holds_key [of t ?h k] by (auto simp: found_def)
    then show thesis using absent r(1) Vacant hm_map_lookup [OF assms(2)] by (metis option.exhaust)
  qed (use r in \<open>simp add: found_def\<close>)
qed

lemma search_blank: "blank t \<Longrightarrow> search_hashed t h m = Some TableIsEmpty"
  by (simp add: search_hashed_def rt_capacity_def blank_def)

lemma search_eq: "hm_search hasher k t = search_hashed t (make_hash hasher k) (\<lambda>q. q = k)"
  unfolding hm_search_def by (rule arg_cong [of _ _ "search_hashed t (make_hash hasher k)"]) auto

lemma search_map:
  assumes "hm_inv hasher t"
  shows "\<exists>e. hm_search hasher k t = Some e \<and>
    (case into_occupied_bucket e of
       None \<Rightarrow> hm_map t k = None
     | Some i \<Rightarrow> \<exists>v. hm_map t k = Some v \<and> rh t \<and> unat i < cap t \<and> rt_slots t ! unat i = Some (make_hash hasher k, k, v))"
proof (cases "blank t")
  case True
  then show ?thesis using blank_contents [OF True] by (simp add: search_eq search_blank into_occupied_bucket_def)
next
  case False
  then have t: "rh t" "keyed hasher t" using assms by (auto simp: hm_inv_def)
  show ?thesis by (rule search_key [OF t, of k]) (auto simp: search_eq into_occupied_bucket_def t(1))
qed

lemma hm_get_map: "hm_inv hasher t \<Longrightarrow> hm_get hasher k t = Some (hm_map t k)"
  using search_map [of hasher t k] by (auto simp: hm_get_def peek_index split: option.split_asm)

lemma contains_key_map: "hm_inv hasher t \<Longrightarrow> contains_key hasher k t = Some (k \<in> dom (hm_map t))"
  using search_map [of hasher t k] by (auto simp: contains_key_def split: option.split_asm)

subsection \<open>Changing\<close>

definition refit :: "('k \<Rightarrow> u64) \<Rightarrow> ('k, 'v) raw_table \<Rightarrow> ('k, 'v) raw_table \<Rightarrow> bool" where
  "refit hasher t t' \<longleftrightarrow> keyed hasher t' \<and> shaped t' \<and> robin (cap t') (dl t') \<and> cap t' = cap t"

lemma refit_inv:
  assumes "refit hasher t t'" "32 \<le> cap t" "card (dom (hm_map t')) \<le> usable (cap t)"
  shows "hm_inv hasher t'" "rh t'"
proof -
  have "full_count (rt_slots t') \<le> usable (cap t')" "32 \<le> cap t'"
    using assms keyed_card [of hasher t'] by (auto simp: refit_def)
  then show "rh t'" "hm_inv hasher t'" using assms usable_less [of "cap t'"] by (auto simp: hm_inv_def rh_def refit_def)
qed

lemma replace_refit:
  assumes "rh t" "keyed hasher t" "unat i < cap t" "rt_slots t ! unat i = Some (h, k, v)"
  shows "refit hasher t (bucket_replace i h k v' t)" "hm_map (bucket_replace i h k v' t) = (hm_map t)(k \<mapsto> v')"
proof -
  let ?t = "bucket_replace i h k v' t" and ?e = "set_slot (unat i) None t"
  have s: "shaped ?t" unfolding bucket_moves using assms by (intro shaped_set_full rhD(1)) simp_all
  have "dl ?t = dl t" using assms(3,4) by (auto simp: bucket_moves dl_set_slot fun_eq_iff dl_def)
  then have r: "robin (cap ?t) (dl ?t)" using rhD(2) [OF assms(1)] by (simp add: bucket_moves)
  have c0: "add_mset (h, k, v) (contents ?e) = contents t" using contents_set_slot [OF assms(3), of None] assms(4) by simp
  have c1: "contents ?t = add_mset (h, k, v') (contents ?e)"
  proof -
    have "add_mset (h, k, v) (contents ?t) = add_mset (h, k, v') (add_mset (h, k, v) (contents ?e))"
      using contents_set_slot [OF assms(3), of "Some (h, k, v')"] assms(4) unfolding c0 bucket_moves by simp
    then show ?thesis by (simp only: add_mset_commute [of "(h, k, v')"] add_mset_add_mset_same_iff)
  qed
  note d = keyed_del [OF c0 assms(2)]
  have h: "h = make_hash hasher k" using assms(2,4) hm_map_lookup in_elems nth_mem [OF assms(3)]
    by (fastforce simp: keyed_def key_of_def)
  note a = keyed_add [OF c1 d(1)]
  show "refit hasher t ?t" using s r a(1) d h by (simp add: refit_def bucket_moves)
  show "hm_map ?t = (hm_map t)(k \<mapsto> v')" using a(2) d(2) by simp
qed

lemma grown_refit:
  assumes "grown t (make_hash hasher k, k, v) t'" "rh t" "keyed hasher t" "hm_map t k = None"
  shows "refit hasher t t'" "hm_map t' = (hm_map t)(k \<mapsto> v)"
proof -
  have "None \<in> set (rt_slots t)" using rh_gap [OF assms(2)] by (metis nth_mem)
  then have "contents t' = add_mset (make_hash hasher k, k, v) (contents t)" by (rule grown_contents [OF assms(1)])
  note a = keyed_add [OF this assms(3)]
  show "refit hasher t t'" using assms(1,4) a by (auto simp: refit_def grown_def)
  show "hm_map t' = (hm_map t)(k \<mapsto> v)" using a assms(4) by simp
qed

lemma insert_nocheck_map:
  assumes "rh t" "keyed hasher t"
  shows "\<exists>t'. insert_hashed_nocheck (make_hash hasher k) k v t = Some (Inr (hm_map t k, t')) \<and> refit hasher t t' \<and>
    hm_map t' = (hm_map t)(k \<mapsto> v)"
proof (cases rule: search_key [OF assms, of k])
  case (1 i w)
  then show ?thesis using replace_refit [OF assms 1(2,3)] by (simp add: insert_hashed_nocheck_def peek_index)
next
  case (2 e)
  obtain t' where "vacant_insert (make_hash hasher k) e k v t = Some t'" "grown t (make_hash hasher k, k, v) t'"
    using vacant_insert_grows [OF assms(1) 2(2)] by blast
  then show ?thesis using 2 grown_refit [OF _ assms 2(3)] by (auto simp: insert_hashed_nocheck_def)
qed

lemma shrunk_refit:
  assumes "shrunk t (h, k, v) t'" "Some (h, k, v) \<in> set (rt_slots t)" "keyed hasher t"
  shows "refit hasher t t'" "rh t'" "hm_map t' = (hm_map t)(k := None)"
proof -
  note d = keyed_del [OF shrunk_contents [OF assms(1,2)] assms(3)]
  show rh: "rh t'" using assms(1) by (simp add: shrunk_def)
  show "refit hasher t t'" using assms(1) rhD [OF rh] d(1) by (auto simp: refit_def shrunk_def)
  show "hm_map t' = (hm_map t)(k := None)" by (rule d(2))
qed

lemma hm_inv_size0: "hm_inv hasher t \<Longrightarrow> rt_size t = 0 \<Longrightarrow> hm_map t k = None"
  using hm_len_card [of hasher t] by (auto simp: hm_len_def hm_map_def finite_dom_map_of)

lemma pop_map:
  assumes "hm_inv hasher t" "rh t" "unat i < cap t" "rt_slots t ! unat i = Some (h, k, v)"
  shows "\<exists>t'. pop_internal i t = Some ((k, v), t') \<and> hm_inv hasher t' \<and> hm_map t' = (hm_map t)(k := None) \<and> cap t' = cap t"
proof -
  obtain t' where t': "pop_internal i t = Some ((k, v), t')" "shrunk t (h, k, v) t'"
    using pop_internal_shrinks [OF assms(2-4)] by blast
  have m: "Some (h, k, v) \<in> set (rt_slots t)" using assms(3,4) by (metis nth_mem)
  note r = shrunk_refit [OF t'(2) m hm_inv_keyed [OF assms(1)]]
  have c: "32 \<le> cap t" "card (dom (hm_map t)) \<le> usable (cap t)"
    using assms(1,3) keyed_card [OF hm_inv_keyed [OF assms(1)]] by (auto simp: hm_inv_def blank_def)
  have "card (dom (hm_map t')) \<le> card (dom (hm_map t))"
    unfolding r(3) by (intro card_mono) (auto simp: hm_map_def finite_dom_map_of)
  then have "hm_inv hasher t'" using c by (intro refit_inv(1) [OF r(1)]) auto
  then show ?thesis using t'(1) r by (auto simp: refit_def)
qed

lemma remove_entry_map:
  assumes "hm_inv hasher t"
  shows "\<exists>t'. remove_entry hasher k t = Some (Inr (map_option (Pair k) (hm_map t k), t')) \<and> hm_inv hasher t' \<and>
    hm_map t' = (hm_map t)(k := None)"
proof (cases "rt_size t = 0")
  case True
  then show ?thesis using assms hm_inv_size0 [OF assms True] by (auto simp: remove_entry_def)
next
  case False
  obtain e where e: "hm_search hasher k t = Some e" "case into_occupied_bucket e of
       None \<Rightarrow> hm_map t k = None
     | Some i \<Rightarrow> \<exists>v. hm_map t k = Some v \<and> rh t \<and> unat i < cap t \<and> rt_slots t ! unat i = Some (make_hash hasher k, k, v)"
    using search_map [OF assms, of k] by blast
  show ?thesis
  proof (cases "into_occupied_bucket e")
    case None
    then show ?thesis using e False assms by (auto simp: remove_entry_def)
  next
    case (Some i)
    then obtain v where v: "hm_map t k = Some v" "rh t" "unat i < cap t" "rt_slots t ! unat i = Some (make_hash hasher k, k, v)"
      using e(2) by auto
    show ?thesis using pop_map [OF assms v(2-4)] v(1) Some e(1) False by (auto simp: remove_entry_def)
  qed
qed

text \<open>\<open>remove\<close> is \<open>remove_entry\<close> without the key.\<close>

lemma hm_remove_entry:
  "hm_remove hasher k t = map_option (map_sum id (\<lambda>(r, t'). (map_option snd r, t'))) (remove_entry hasher k t)"
  by (auto simp: hm_remove_def remove_entry_def option.map_comp comp_def split: option.splits intro!: option.map_cong0)

lemma hm_remove_map:
  assumes "hm_inv hasher t"
  shows "\<exists>t'. hm_remove hasher k t = Some (Inr (hm_map t k, t')) \<and> hm_inv hasher t' \<and> hm_map t' = (hm_map t)(k := None)"
  using remove_entry_map [OF assms, of k] by (auto simp: hm_remove_entry option.map_comp comp_def option.map_ident)

end
