(* ===== verification/HashGrow.thy ===== *)
theory HashGrow
  imports HashSpec
begin

text \<open>
  Growing a table. The elements are taken in the order of the old table from a bucket that is at home; read from
  there, the homes never decrease. The capacity of the new table is a multiple of the old one, so the new table is a
  row of windows as long as the old table, and no element leaves the window of its home: plain linear probing
  builds a table that satisfies the Robin Hood invariant.
\<close>

subsection \<open>Offsets from the head\<close>

lemma mod_add_cancel_nat:
  fixes a b c n :: nat
  assumes "(a + c) mod n = (b + c) mod n"
  shows "a mod n = b mod n"
proof -
  have "int a mod int n = ((int a + int c) mod int n - int c) mod int n" by (simp add: mod_diff_left_eq)
  also have "(int a + int c) mod int n = (int b + int c) mod int n" using assms by (metis of_nat_add of_nat_mod)
  also have "((int b + int c) mod int n - int c) mod int n = int b mod int n" by (simp add: mod_diff_left_eq)
  finally show ?thesis by (metis of_nat_eq_iff of_nat_mod)
qed

lemma home_offset:
  assumes "rh t" "s < cap t" "dl t s = Some 0" "i < cap t" "dl t ((s + i) mod cap t) = Some d"
  shows "d \<le> i"
proof (rule ccontr)
  assume "\<not> d \<le> i"
  then have lt: "i < d" by simp
  obtain h k v where e: "rt_slots t ! ((s + i) mod cap t) = Some (h, k, v)" "d = dist (cap t) ((s + i) mod cap t) (unat h)"
    using assms(5) by (auto simp: dl_Some)
  have j: "(s + i) mod cap t < cap t" using assms(2) by (intro mod_less_divisor) linarith
  note way = on_the_way [OF assms(1) j e(1)]
  have "((unat h + (d - i)) + i) mod cap t = (s + i) mod cap t" using way(2) [of 0] e(2) lt by simp
  then have "(unat h + (d - i)) mod cap t = s" using mod_add_cancel_nat assms(2) by (metis mod_less)
  then show False using way(1) [of "d - i"] e(2) assms(3) lt by auto
qed

lemma home_mono:
  assumes "rh t" "s < cap t" "i \<le> i'" "i' < cap t"
    "dl t ((s + i) mod cap t) = Some d" "dl t ((s + i') mod cap t) = Some d'"
  shows "i + d' \<le> i' + d"
proof (rule ccontr)
  assume n: "\<not> i + d' \<le> i' + d"
  obtain h k v where e: "rt_slots t ! ((s + i') mod cap t) = Some (h, k, v)" "d' = dist (cap t) ((s + i') mod cap t) (unat h)"
    using assms(6) by (auto simp: dl_Some)
  have j: "(s + i') mod cap t < cap t" using assms(2) by (intro mod_less_divisor) linarith
  note way = on_the_way [OF assms(1) j e(1)]
  let ?e = "i + d' - i'"
  have "((unat h + ?e) + (i' - i)) mod cap t = ((s + i) + (i' - i)) mod cap t"
    using way(2) [of 0] e(2) assms(3) n by simp
  then have "(unat h + ?e) mod cap t = (s + i) mod cap t" by (rule mod_add_cancel_nat)
  moreover have "?e \<le> d'" using assms(3) by simp
  then have "\<exists>q. dl t ((unat h + ?e) mod cap t) = Some q \<and> ?e \<le> q" using way(1) [of ?e] e(2) by blast
  ultimately have "?e \<le> d" using assms(5) by auto
  then show False using n by linarith
qed

subsection \<open>Windows\<close>

lemma window_unique:
  fixes s q q' x x' n m :: nat
  assumes "(s + (q * n + x)) mod m = (s + (q' * n + x')) mod m" "q * n + n \<le> m" "q' * n + n \<le> m" "x < n" "x' < n"
  shows "q = q'" "x = x'"
proof -
  have "(q * n + x) mod m = (q' * n + x') mod m"
    using assms(1) mod_add_cancel_nat [of "q * n + x" s m "q' * n + x'"] by (simp add: add.commute)
  then have e: "q * n + x = q' * n + x'" using assms(2-5) by simp
  have "(q * n + x) div n = q" "(q' * n + x') div n = q'" using assms(4,5) by simp_all
  then show "q = q'" using e by simp
  then show "x = x'" using e by simp
qed

lemma window_home:
  fixes h s o' n m :: nat
  assumes "h mod n = (s + o') mod n" "o' < n" "n dvd m" "0 < m"
  shows "\<exists>q. q * n + n \<le> m \<and> h mod m = (s + (q * n + o')) mod m"
proof -
  let ?y = "dist m (h mod m) s"
  have y: "(s + ?y) mod m = h mod m" using assms(4) by (intro add_dist) simp
  have "(s + ?y) mod n = h mod n" using y assms(3) by (metis mod_mod_cancel)
  then have "?y mod n = o'" using assms(1,2) mod_add_cancel_nat [of ?y s n o'] by (simp add: add.commute)
  then have d: "?y = ?y div n * n + o'" by (metis div_mult_mod_eq)
  obtain c where c: "m = n * c" using assms(3) by blast
  have "?y div n < c" using dist_less [OF assms(4), of "h mod m" s] c by (simp add: less_mult_imp_div_less mult.commute)
  then have "(?y div n + 1) * n \<le> c * n" by (intro mult_le_mono1) simp
  then have "?y div n * n + n \<le> m" using c by (simp add: mult.commute)
  then show ?thesis using y d by metis
qed

text \<open>The new table after the first \<open>j\<close> buckets: offsets in a window stay below \<open>j\<close>, homes do not exceed \<open>b\<close>.\<close>

definition laid :: "nat \<Rightarrow> nat \<Rightarrow> nat \<Rightarrow> nat \<Rightarrow> ('k, 'v) raw_table \<Rightarrow> bool" where
  "laid n s j b t \<longleftrightarrow> (\<forall>p < cap t. \<forall>h k v. rt_slots t ! p = Some (h, k, v) \<longrightarrow>
     (\<exists>q r x. r \<le> x \<and> x < j \<and> r \<le> b \<and> q * n + n \<le> cap t \<and> p = (s + (q * n + x)) mod cap t \<and>
        unat h mod cap t = (s + (q * n + r)) mod cap t))"

lemma laidD:
  assumes "laid n s j b t" "p < cap t" "rt_slots t ! p = Some (h, k, v)"
  shows "\<exists>q r x. r \<le> x \<and> x < j \<and> r \<le> b \<and> q * n + n \<le> cap t \<and> p = (s + (q * n + x)) mod cap t \<and>
    unat h mod cap t = (s + (q * n + r)) mod cap t"
  using assms unfolding laid_def by blast

lemma window_dist:
  fixes s q n r x m h :: nat
  assumes "h mod m = (s + (q * n + r)) mod m" "r \<le> x" "x < m"
  shows "dist m ((s + (q * n + x)) mod m) h = x - r" "(s + (q * n + x)) mod m = (h + (x - r)) mod m"
proof -
  have "(h + (x - r)) mod m = ((s + (q * n + r)) + (x - r)) mod m" using assms(1) by (metis mod_add_left_eq)
  then show "(s + (q * n + x)) mod m = (h + (x - r)) mod m" using assms(2) by simp
  then show "dist m ((s + (q * n + x)) mod m) h = x - r" using dist_add [of m h "x - r"] assms(3) by simp
qed

lemma insert_ordered_loop_ok:
  assumes "rh t" "laid n s j b t" "n \<le> cap t" "b \<le> r" "r \<le> j" "j < n" "q * n + n \<le> cap t"
    "unat h mod cap t = (s + (q * n + r)) mod cap t"
    and "unat idx = (s + (q * n + y)) mod cap t" "r \<le> y" "y \<le> j" "fits (cap t) (dl t) (unat idx) (y - r)"
  shows "\<exists>p x. insert_ordered_loop idx h k v t = Some (bucket_put p h k v t) \<and> grown t (h, k, v) (bucket_put p h k v t) \<and>
    unat p = (s + (q * n + x)) mod cap t \<and> r \<le> x \<and> x \<le> j"
  using assms(9-12)
proof (induction "j - y" arbitrary: idx y rule: less_induct)
  case less
  note n = rhD(5) [OF assms(1)]
  have i: "unat idx < cap t" using less.prems(1) n by simp
  have d: "dist (cap t) (unat idx) (unat h) = y - r"
    using window_dist(1) [OF assms(8), of y] less.prems(1-3) assms(3,6) by simp
  show ?case
  proof (cases "rt_slots t ! unat idx")
    case None
    have "grown t (h, k, v) (bucket_put idx h k v t)"
      using i None less.prems(4) d by (intro put_grown [OF assms(1)]) simp_all
    moreover have "insert_ordered_loop idx h k v t = Some (bucket_put idx h k v t)"
      by (subst insert_ordered_loop.simps) (simp add: peek_index None)
    ultimately show ?thesis using less.prems by blast
  next
    case (Some e)
    obtain h' k' v' where e: "e = (h', k', v')" by (cases e)
    obtain q' r' x' where w: "r' \<le> x'" "x' < j" "r' \<le> b" "q' * n + n \<le> cap t" "unat idx = (s + (q' * n + x')) mod cap t"
      "unat h' mod cap t = (s + (q' * n + r')) mod cap t"
      using laidD [OF assms(2) i, of h' k' v'] Some e by blast
    have x: "x' = y" "q' = q"
      using window_unique [of s q n y "cap t" q' x'] less.prems(1,3) w(2,4,5) assms(6,7) by simp_all
    have "dist (cap t) (unat idx) (unat h') = y - r'"
      using window_dist(1) [OF w(6), of x'] w(1,2,5) assms(3,6) x by simp
    then have dl: "dl t (unat idx) = Some (y - r')" using Some e by (simp add: dl_Some)
    have nx: "unat (bucket_next t idx) = Suc (unat idx) mod cap t" by (rule shaped_index(2) [OF rhD(1) [OF assms(1)]])
    then have nx': "unat (bucket_next t idx) = (s + (q * n + Suc y)) mod cap t"
      using less.prems(1) by (simp add: mod_Suc_eq)
    have "prev (cap t) (unat (bucket_next t idx)) = unat idx" unfolding nx by (rule prev_next [OF i])
    then have f: "fits (cap t) (dl t) (unat (bucket_next t idx)) (Suc y - r)"
      using dl w(3) assms(4) less.prems(2) by (auto simp: fits_def)
    have run: "insert_ordered_loop idx h k v t = insert_ordered_loop (bucket_next t idx) h k v t"
      by (subst insert_ordered_loop.simps) (simp add: peek_index Some)
    show ?thesis unfolding run using less.hyps [OF _ nx' _ _ f] w(2) x less.prems(2) by simp
  qed
qed

subsection \<open>The loop\<close>

text \<open>The old table after its first \<open>j\<close> buckets have been taken.\<close>

definition emptied :: "('k, 'v) raw_table \<Rightarrow> nat \<Rightarrow> nat \<Rightarrow> ('k, 'v) raw_table \<Rightarrow> bool" where
  "emptied t s j old \<longleftrightarrow> shaped old \<and> cap old = cap t \<and>
     (\<forall>i < cap t. rt_slots old ! ((s + i) mod cap t) = (if i < j then None else rt_slots t ! ((s + i) mod cap t)))"

lemma emptiedD:
  assumes "emptied t s j old" "i < cap t"
  shows "rt_slots old ! ((s + i) mod cap t) = (if i < j then None else rt_slots t ! ((s + i) mod cap t))"
  using assms by (simp add: emptied_def)

lemma emptied_end:
  assumes "emptied t s j old" "cap t \<le> j" "s < cap t"
  shows "rt_size old = 0"
proof -
  have "rt_slots old ! i = None" if "i < cap old" for i
  proof -
    have "i < cap t" using assms(1) that by (simp add: emptied_def)
    then have d: "(s + dist (cap t) i s) mod cap t = i" "dist (cap t) i s < cap t"
      using add_dist [of i "cap t" s] dist_less [of "cap t" i s] assms(3) by linarith+
    have "rt_slots old ! ((s + dist (cap t) i s) mod cap t) = None" using emptiedD [OF assms(1) d(2)] d(2) assms(2) by simp
    then show ?thesis using d(1) by simp
  qed
  then have "\<forall>s \<in> set (rt_slots old). s = None" by (metis in_set_conv_nth)
  then have "full_count (rt_slots old) = 0" by (auto simp: full_count_def filter_empty_conv)
  then show ?thesis using assms(1) by (simp add: emptied_def shaped_def unat_eq_zero)
qed

lemma emptied_skip:
  assumes "emptied t s j old" "rt_slots old ! ((s + j) mod cap t) = None"
  shows "emptied t s (Suc j) old"
  unfolding emptied_def
proof (intro conjI allI impI)
  fix i
  assume i: "i < cap t"
  have a: "rt_slots old ! ((s + i) mod cap t) = (if i < j then None else rt_slots t ! ((s + i) mod cap t))"
    by (rule emptiedD [OF assms(1) i])
  then show "rt_slots old ! ((s + i) mod cap t) = (if i < Suc j then None else rt_slots t ! ((s + i) mod cap t))"
    using assms(2) by (cases "i = j") auto
qed (use assms(1) in \<open>simp_all add: emptied_def\<close>)

lemma offset_unique:
  fixes s i j n :: nat
  assumes "(s + i) mod n = (s + j) mod n" "i < n" "j < n"
  shows "i = j"
  using mod_add_cancel_nat [of i s n j] assms by (simp add: add.commute)

lemma emptied_take:
  assumes "emptied t s j old" "unat idx = (s + j) mod cap t" "j < cap t" "rt_slots old ! unat idx \<noteq> None"
  shows "emptied t s (Suc j) (bucket_take idx old)"
  unfolding emptied_def
proof (intro conjI allI impI)
  have c: "cap old = cap t" "shaped old" using assms(1) by (simp_all add: emptied_def)
  have lt: "unat idx < cap old" unfolding c assms(2) using assms(3) by (intro mod_less_divisor) linarith
  show "shaped (bucket_take idx old)" unfolding bucket_moves using c lt assms(4) by (intro shaped_take)
  show "cap (bucket_take idx old) = cap t" using c by (simp add: bucket_moves)
  fix i
  assume i: "i < cap t"
  have a: "rt_slots old ! ((s + i) mod cap t) = (if i < j then None else rt_slots t ! ((s + i) mod cap t))"
    by (rule emptiedD [OF assms(1) i])
  show "rt_slots (bucket_take idx old) ! ((s + i) mod cap t) = (if i < Suc j then None else rt_slots t ! ((s + i) mod cap t))"
  proof (cases "i = j")
    case True
    then show ?thesis using assms(2) lt by (simp add: bucket_moves)
  next
    case False
    then have "(s + i) mod cap t \<noteq> unat idx" using offset_unique [of s i "cap t" j] i assms(2,3) by auto
    then show ?thesis using a False by (auto simp: bucket_moves)
  qed
qed

lemma laid_put:
  assumes "laid n s j b t" "b \<le> r" "r \<le> x" "x \<le> j" "q * n + n \<le> cap t" "unat p = (s + (q * n + x)) mod cap t"
    "unat h mod cap t = (s + (q * n + r)) mod cap t" "unat p < cap t"
  shows "laid n s (Suc j) r (bucket_put p h k v t)"
  unfolding laid_def
proof (intro allI impI)
  let ?t = "bucket_put p h k v t"
  have c: "cap ?t = cap t" by (simp add: bucket_moves)
  fix p' h' k' v'
  assume p': "p' < cap ?t" "rt_slots ?t ! p' = Some (h', k', v')"
  show "\<exists>q r' x. r' \<le> x \<and> x < Suc j \<and> r' \<le> r \<and> q * n + n \<le> cap ?t \<and> p' = (s + (q * n + x)) mod cap ?t \<and>
      unat h' mod cap ?t = (s + (q * n + r')) mod cap ?t"
  proof (cases "p' = unat p")
    case True
    then have "h' = h" using p' assms(8) by (simp add: bucket_moves)
    then show ?thesis unfolding c using True assms(3-7) less_Suc_eq_le by blast
  next
    case False
    then have "rt_slots t ! p' = Some (h', k', v')" using p' by (simp add: bucket_moves)
    then show ?thesis unfolding c
      using laidD [OF assms(1), of p' h' k' v'] p'(1) c assms(2) by (metis le_trans less_Suc_eq)
  qed
qed

text \<open>Taking the element at offset \<open>j\<close>: it fits the new table, in the window of its home.\<close>

lemma resize_step:
  assumes "rh t" "s < cap t" "dl t s = Some 0" "j < cap t" "rt_slots t ! ((s + j) mod cap t) = Some (h, k, v)"
    and "rh new" "cap t dvd cap new" "laid (cap t) s j b new"
    and "\<And>i d. j \<le> i \<Longrightarrow> i < cap t \<Longrightarrow> dl t ((s + i) mod cap t) = Some d \<Longrightarrow> b + d \<le> i"
  shows "\<exists>new' b'. insert_hashed_ordered h k v new = Some new' \<and> grown new (h, k, v) new' \<and>
    laid (cap t) s (Suc j) b' new' \<and>
    (\<forall>i d. Suc j \<le> i \<longrightarrow> i < cap t \<longrightarrow> dl t ((s + i) mod cap t) = Some d \<longrightarrow> b' + d \<le> i)"
proof -
  let ?n = "cap t" and ?m = "cap new"
  let ?d = "dist ?n ((s + j) mod ?n) (unat h)"
  have dj: "dl t ((s + j) mod ?n) = Some ?d" using assms(5) by (simp add: dl_Some)
  have d: "?d \<le> j" by (rule home_offset [OF assms(1-4) dj])
  let ?r = "j - ?d"
  have nm: "?n \<le> ?m" "0 < ?m" using assms(7) rhD(5) [OF assms(6)] dvd_imp_le by auto
  have "(unat h + ?d) mod ?n = (s + j) mod ?n" using assms(2) by (intro add_dist mod_less_divisor) linarith
  then have "(unat h + ?d) mod ?n = ((s + ?r) + ?d) mod ?n" using d by simp
  then have "unat h mod ?n = (s + ?r) mod ?n" by (rule mod_add_cancel_nat)
  moreover have "?r < ?n" using assms(4) by linarith
  ultimately obtain q where q: "q * ?n + ?n \<le> ?m" "unat h mod ?m = (s + (q * ?n + ?r)) mod ?m"
    using window_home [OF _ _ assms(7) nm(2), of "unat h" s ?r] by blast
  have br: "b \<le> ?r" using assms(9) [OF _ assms(4) dj] by simp
  have new: "unat (bucket_new new h) = (s + (q * ?n + ?r)) mod ?m" using shaped_index(1) [OF rhD(1) [OF assms(6)]] q(2) by simp
  obtain p x where p: "insert_hashed_ordered h k v new = Some (bucket_put p h k v new)"
    "grown new (h, k, v) (bucket_put p h k v new)" "unat p = (s + (q * ?n + x)) mod ?m" "?r \<le> x" "x \<le> j"
    using insert_ordered_loop_ok [OF assms(6,8) nm(1) br _ assms(4) q new, of k v]
    by (auto simp: fits_def insert_hashed_ordered_def)
  have "laid ?n s (Suc j) ?r (bucket_put p h k v new)"
    using p(3) nm(2) by (intro laid_put [OF assms(8) br p(4,5) q(1) p(3) q(2)]) simp
  moreover have "?r + d' \<le> i" if "Suc j \<le> i" "i < ?n" "dl t ((s + i) mod ?n) = Some d'" for i d'
    using home_mono [OF assms(1,2) _ that(2) dj that(3)] that(1) d by simp
  ultimately show ?thesis using p(1,2) by blast
qed

lemma grown_rh:
  assumes "grown t e t'" "rh t" "contents t' \<subseteq># c" "size c < cap t"
  shows "rh t'"
proof -
  have "full_count (rt_slots t') \<le> size c" using assms(3) by (simp add: full_count_contents size_mset_mono)
  then show ?thesis using assms(1,4) by (auto simp: grown_def rh_def)
qed

lemma resize_loop_ok:
  assumes "rh t" "s < cap t" "dl t s = Some 0" "cap t dvd m"
    and "emptied t s j old" "unat idx = (s + j) mod cap t" "rt_size old \<noteq> 0" "rh new" "cap new = m" "laid (cap t) s j b new"
      "\<And>i d. j \<le> i \<Longrightarrow> i < cap t \<Longrightarrow> dl t ((s + i) mod cap t) = Some d \<Longrightarrow> b + d \<le> i"
      "contents new + contents old = contents t"
  shows "\<exists>t'. resize_loop old idx new = Some t' \<and> rh t' \<and> cap t' = m \<and> contents t' = contents t"
  using assms(5-)
proof (induction "cap t - j" arbitrary: j old idx new b rule: less_induct)
  case less
  note c = less.prems(1)
  have j: "j < cap t" using emptied_end [OF c _ assms(2)] less.prems(3) by fastforce
  have old: "shaped old" "cap old = cap t" using c by (simp_all add: emptied_def)
  have slot: "rt_slots old ! unat idx = rt_slots t ! ((s + j) mod cap t)"
    using emptiedD [OF c j] less.prems(2) by simp
  have i: "unat idx < cap old" unfolding old less.prems(2) using j by (intro mod_less_divisor) linarith
  have nx: "unat (bucket_next old idx) = (s + Suc j) mod cap t"
    using shaped_index(2) [OF old(1)] old(2) less.prems(2) by (simp add: mod_Suc_eq)
  show ?case
  proof (cases "rt_slots old ! unat idx")
    case None
    have run: "resize_loop old idx new = resize_loop old (bucket_next old idx) new"
      by (subst resize_loop.simps) (simp add: peek_index None)
    have e: "emptied t s (Suc j) old" using None less.prems(2) by (intro emptied_skip [OF c]) simp
    have l: "laid (cap t) s (Suc j) b new" using less.prems(6) unfolding laid_def by (meson less_Suc_eq)
    show ?thesis unfolding run
      using j by (intro less.hyps [OF _ e nx less.prems(3,4,5) l less.prems(7) less.prems(8)]) simp_all
  next
    case (Some x)
    obtain h k v where x: "x = (h, k, v)" by (cases x)
    have dvd: "cap t dvd cap new" using assms(4) less.prems(5) by simp
    have sl: "rt_slots t ! ((s + j) mod cap t) = Some (h, k, v)" using slot Some x by simp
    obtain new' b' where n: "insert_hashed_ordered h k v new = Some new'" "grown new (h, k, v) new'"
      "laid (cap t) s (Suc j) b' new'"
      "\<forall>i d. Suc j \<le> i \<longrightarrow> i < cap t \<longrightarrow> dl t ((s + i) mod cap t) = Some d \<longrightarrow> b' + d \<le> i"
      using resize_step [OF assms(1-3) j sl less.prems(4) dvd less.prems(6,7)] by blast
    have e: "emptied t s (Suc j) (bucket_take idx old)" using Some by (intro emptied_take [OF c less.prems(2) j]) simp
    have co: "contents old = add_mset (h, k, v) (contents (bucket_take idx old))"
      using contents_set_slot [OF i, of None] Some x contents_slots [of "bucket_take idx old" "set_slot (unat idx) None old"]
      by (simp add: bucket_moves)
    have "None \<in> set (rt_slots new)" using rh_gap [OF less.prems(4)] by (metis nth_mem)
    then have cn: "contents new' = add_mset (h, k, v) (contents new)" by (rule grown_contents [OF n(2)])
    have sum: "contents new' + contents (bucket_take idx old) = contents t" using less.prems(8) co cn by simp
    have "size (contents t) < cap new"
      using rhD(3) [OF assms(1)] dvd_imp_le [OF dvd] rhD(5) [OF less.prems(4)] by (simp add: full_count_contents)
    moreover have "contents new' \<subseteq># contents t" unfolding sum [symmetric] by (rule mset_subset_eq_add_left)
    ultimately have rh': "rh new'" by (intro grown_rh [OF n(2) less.prems(4)])
    have cap': "cap new' = m" using n(2) less.prems(5) by (simp add: grown_def)
    show ?thesis
    proof (cases "rt_size (bucket_take idx old) = 0")
      case True
      then have "full_count (rt_slots (bucket_take idx old)) = 0" using e by (simp add: emptied_def shaped_def)
      then have "contents (bucket_take idx old) = {#}" by (simp add: full_count_contents)
      moreover have "resize_loop old idx new = Some new'"
        using True n(1) by (subst resize_loop.simps) (simp add: peek_index Some x)
      ultimately show ?thesis using rh' cap' sum by simp
    next
      case False
      have run: "resize_loop old idx new = resize_loop (bucket_take idx old) (bucket_next old idx) new'"
        using False n(1) by (subst resize_loop.simps) (simp add: peek_index Some x)
      show ?thesis unfolding run
        using j n(4) by (intro less.hyps [OF _ e nx False rh' cap' n(3) _ sum]) auto
    qed
  qed
qed

subsection \<open>Resizing\<close>

lemma home_exists:
  assumes "rh t" "rt_size t \<noteq> 0"
  shows "\<exists>z < cap t. dl t z = Some 0"
proof -
  obtain g where g: "g < cap t" "rt_slots t ! g = None" using rh_gap [OF assms(1)] by blast
  have "full_count (rt_slots t) \<noteq> 0" using assms(2) rhD(1) [OF assms(1)] by (metis shaped_def unat_eq_zero)
  then obtain s where "s \<in> set (rt_slots t)" "s \<noteq> None" by (auto simp: full_count_def filter_empty_conv)
  then obtain j where j: "j < cap t" "dl t j \<noteq> None" unfolding dl_None by (metis in_set_conv_nth)
  let ?P = "\<lambda>m. dl t ((g + m) mod cap t) \<noteq> None"
  let ?m = "LEAST m. ?P m"
  have "?P (dist (cap t) j g)" using j by (simp only: add_dist not_False_eq_True)
  then have m: "?P ?m" by (rule LeastI)
  moreover have "\<not> ?P 0" using g by (simp add: dl_None)
  ultimately obtain m' where m': "?m = Suc m'" by (metis not0_implies_Suc)
  then have p: "dl t ((g + m') mod cap t) = None" using not_less_Least [of m' ?P] by simp
  let ?z = "(g + ?m) mod cap t"
  have z: "?z < cap t" using g by (intro mod_less_divisor) linarith
  have "prev (cap t) ?z = (g + m') mod cap t"
    using prev_next [of "(g + m') mod cap t" "cap t"] rhD(5) [OF assms(1)] m' by (simp add: mod_Suc_eq)
  then have "dl t ?z \<noteq> Some (Suc e)" for e using robinD [OF rhD(2) [OF assms(1)] z] p by auto
  then show ?thesis using m z by (metis not0_implies_Suc option.exhaust)
qed

lemma head_loop_ok:
  assumes "rh t" "z < cap t" "dl t z = Some 0" "unat idx \<le> z"
  shows "\<exists>i. head_loop t idx = Some i \<and> unat i < cap t \<and> dl t (unat i) = Some 0"
  using assms(4)
proof (induction "z - unat idx" arbitrary: idx rule: less_induct)
  case less
  have i: "unat idx < cap t" using less.prems assms(2) by simp
  note sh = shaped_index [OF rhD(1) [OF assms(1)]]
  show ?case
  proof (cases "dl t (unat idx) = Some 0")
    case True
    then obtain h k v where "rt_slots t ! unat idx = Some (h, k, v)" "dist (cap t) (unat idx) (unat h) = 0"
      by (auto simp: dl_Some)
    moreover have "displacement t idx h = 0" using calculation(2) sh(3) [of idx h] by (simp add: unat_eq_zero)
    ultimately have "head_loop t idx = Some idx" by (subst head_loop.simps) (simp add: peek_index)
    then show ?thesis using True i by blast
  next
    case False
    then have lt: "unat idx < z" using less.prems assms(3) by (metis le_neq_implies_less)
    have run: "head_loop t idx = head_loop t (bucket_next t idx)"
    proof (cases "rt_slots t ! unat idx")
      case (Some e)
      obtain h k v where e: "e = (h, k, v)" by (cases e)
      then have "displacement t idx h \<noteq> 0" using False Some sh(3) [of idx h] by (auto simp: dl_Some)
      then show ?thesis using Some e by (subst head_loop.simps) (simp add: peek_index)
    qed (subst head_loop.simps, simp add: peek_index)
    have "unat (bucket_next t idx) = Suc (unat idx)" using sh(2) [of idx] lt assms(2) by simp
    then show ?thesis unfolding run using less.hyps [of "bucket_next t idx"] lt by simp
  qed
qed

lemma head_bucket_ok:
  assumes "rh t" "rt_size t \<noteq> 0"
  obtains i where "head_bucket t = Some i" "unat i < cap t" "dl t (unat i) = Some 0"
  using home_exists [OF assms] head_loop_ok [OF assms(1), of _ 0] by (auto simp: head_bucket_def)

lemma table_layout_bound:
  assumes "table_layout env c = Inr l"
  shows "unat c < 2 ^ 61"
proof -
  obtain b where b: "checked_add 8 (te_size env) = Some b" "checked_mul c b \<noteq> None"
    using assms by (auto simp: table_layout_def and_then_eq_Inr_iff expect_def split: option.splits if_splits)
  have "unat b = 8 + unat (te_size env)" using b(1) by (auto simp: checked_add_def unat_word_ariths split: if_splits)
  then have "unat c * 8 \<le> unat c * unat b" by simp
  moreover have "unat c * unat b < 2 ^ 64" using b(2) by (simp add: checked_mul_def split: if_splits)
  ultimately have "unat c * 8 < 2 ^ 64" by (rule le_less_trans)
  then show ?thesis by simp
qed

lemma raw_table_new_ok:
  assumes "raw_table_new env c = Inr t" "is_power_of_two c" "2 \<le> c"
  shows "rh t" "cap t = unat c" "contents t = {#}" "rt_size t = 0" "laid n s 0 0 t" "rt_tag t = False"
proof -
  obtain k where k: "unat c = 2 ^ k" using assms(2) by (auto simp: is_power_of_two_iff)
  have c0: "c \<noteq> 0" using assms(3) by auto
  obtain l where l: "table_layout env c = Inr l" and t: "t = \<lparr>rt_mask = c - 1, rt_size = 0, rt_slots = replicate (unat c) None, rt_tag = False\<rparr>"
    using assms(1) c0 by (auto simp: raw_table_new_def and_then_eq_Inr_iff split: if_splits)
  have "k < 61" using table_layout_bound [OF l] k by (metis power_less_imp_less_exp one_less_numeral_iff semiring_norm(76))
  moreover have "1 \<le> k" using assms(3) k by (cases k) (auto simp: word_le_nat_alt)
  moreover have "of_nat (unat c) = (2 ^ k :: usize)" unfolding k by simp
  then have "c - 1 = mask k" by (simp add: mask_eq_exp_minus_1)
  moreover have f: "full_count (rt_slots t) = 0" using t by (simp add: full_count_def)
  ultimately have sh: "shaped t" using t k by (auto simp: shaped_def)
  have "dl t i = None" if "i < cap t" for i using that t by (simp add: dl_def)
  then have "robin (cap t) (dl t)" by (auto simp: robin_def)
  then show "rh t" using sh f assms(3) t by (auto simp: rh_def word_le_nat_alt)
  show "cap t = unat c" "rt_size t = 0" "rt_tag t = False" using t by simp_all
  show "contents t = {#}" using t f full_count_contents [of t] by simp
  show "laid n s 0 0 t" using t by (simp add: laid_def)
qed

lemma resize_ok:
  fixes t :: "('k, 'v) raw_table"
  assumes "rh t" "is_power_of_two c" "2 \<le> c" "cap t dvd unat c"
  shows "case raw_table_new env c :: ('k, 'v) raw_table outcome of
      Inl e \<Rightarrow> resize env c t = Some (Inl e)
    | Inr _ \<Rightarrow> \<exists>t'. resize env c t = Some (Inr ((), t')) \<and> rh t' \<and> cap t' = unat c \<and> contents t' = contents t"
proof -
  have "unat (rt_size t) < cap t" using rhD(1,3) [OF assms(1)] by (simp add: shaped_def)
  moreover have "0 < unat c" using assms(2) by (auto simp: is_power_of_two_iff)
  ultimately have le: "rt_size t \<le> c" using dvd_imp_le [OF assms(4)] by (simp add: word_le_nat_alt)
  show ?thesis
  proof (cases "raw_table_new env c :: ('k, 'v) raw_table outcome")
    case (Inl e)
    then show ?thesis using le assms(2) by (simp add: resize_def)
  next
    case (Inr new)
    note new = raw_table_new_ok [OF Inr assms(2,3)]
    show ?thesis
    proof (cases "rt_size t = 0")
      case True
      then have "contents t = {#}" using rhD(1) [OF assms(1)] by (simp add: shaped_def full_count_contents)
      then show ?thesis using True Inr new(1-3) le assms(2) by (simp add: resize_def)
    next
      case False
      obtain i where i: "head_bucket t = Some i" "unat i < cap t" "dl t (unat i) = Some 0"
        by (rule head_bucket_ok [OF assms(1) False])
      have e: "emptied t (unat i) 0 t" using rhD(1) [OF assms(1)] by (simp add: emptied_def)
      obtain t' where t': "resize_loop t i new = Some t'" "rh t'" "cap t' = unat c" "contents t' = contents t"
        using resize_loop_ok [OF assms(1) i(2,3) assms(4) e _ False new(1,2,5), of i] home_offset [OF assms(1) i(2,3)] i(2) new(3)
        by auto
      have "unat (rt_size t') = unat (rt_size t)"
        using rhD(1) [OF t'(2)] rhD(1) [OF assms(1)] t'(4) by (simp add: shaped_def full_count_contents)
      then have "rt_size t' = rt_size t" by (simp only: word_unat_eq_iff)
      then show ?thesis using t' i(1) False Inr le assms(2) by (simp add: resize_def)
    qed
  qed
qed

subsection \<open>Capacities\<close>

text \<open>The assertion in \<open>raw_capacity\<close> catches every overflow of the product.\<close>

lemma raw_cap_unat:
  assumes "(len * 11 div 10 :: usize) \<ge> len" "len \<noteq> 0"
  shows "unat len * 11 < 2 ^ 64" "unat (len * 11 div 10) = unat len * 11 div 10"
proof -
  have le: "unat len \<le> (unat len * 11) mod 2 ^ 64 div 10"
    using assms(1) by (simp add: word_le_nat_alt unat_div unat_word_ariths)
  show lt: "unat len * 11 < 2 ^ 64"
  proof (rule ccontr)
    assume ge: "\<not> unat len * 11 < 2 ^ 64"
    have "unat len < 2 ^ 64" using unsigned_less [of len] by simp
    then have "unat len * 11 mod 2 ^ 64 \<le> unat len * 11 - 2 ^ 64"
      using ge by (metis le_mod_geq linorder_not_less mod_less_eq_dividend)
    then have "10 * unat len \<le> unat len * 11 - 2 ^ 64" using le by linarith
    then show False using \<open>unat len < 2 ^ 64\<close> assms(2) ge by (simp add: unat_gt_0)
  qed
  show "unat (len * 11 div 10) = unat len * 11 div 10" using lt by (simp add: unat_div unat_word_ariths)
qed

lemma raw_capacity_ok:
  assumes "raw_capacity len = Inr c" "len \<noteq> 0"
  shows "is_power_of_two c" "32 \<le> c" "unat len * 11 div 10 \<le> unat c"
proof -
  let ?r = "len * 11 div 10"
  have a: "?r \<ge> len" "npot (unat ?r) < 2 ^ 64" "c = max 32 (of_nat (npot (unat ?r)))"
    using assms by (auto simp: raw_capacity_def Let_def and_then_eq_Inr_iff checked_next_power_of_two_def expect_def
      MIN_NONZERO_RAW_CAPACITY_def split: if_splits)
  have u: "unat (of_nat (npot (unat ?r)) :: usize) = npot (unat ?r)" using a(2) by (simp add: unat_of_nat)
  show "is_power_of_two c"
  proof (cases "c = 32")
    case True
    have "(32::nat) = 2 ^ 5" by simp
    then have "is_pow2 32" using is_pow2_iff by blast
    then show ?thesis using True by (simp add: is_power_of_two_def)
  next
    case False
    then have "c = of_nat (npot (unat ?r))" using a(3) by (auto simp: max_def split: if_splits)
    then show ?thesis using u by (simp add: is_power_of_two_def)
  qed
  show "32 \<le> c" using a(3) by simp
  have "npot (unat ?r) \<le> unat c" using a(3) u by (metis max.cobounded2 word_le_nat_alt)
  then show "unat len * 11 div 10 \<le> unat c" using npot_ge [of "unat ?r"] raw_cap_unat(2) [OF a(1) assms(2)] by simp
qed

lemma usable_capacity_unat:
  assumes "unat c \<le> 2 ^ 60"
  shows "unat (usable_capacity c) = usable (unat c)"
proof -
  have "unat (c * 10 + 10 - 1) = unat c * 10 + 9"
  proof -
    have "unat (c * 10) = unat c * 10" using assms by (simp add: unat_word_ariths)
    then have "unat (c * 10 + 9) = unat c * 10 + 9" using assms by (simp add: unat_word_ariths)
    then show ?thesis by (simp add: algebra_simps)
  qed
  then show ?thesis by (simp add: usable_capacity_def unat_div usable_def mult.commute)
qed

lemma usable_enough: "x * 11 div 10 \<le> n \<Longrightarrow> x \<le> usable n"
proof -
  assume "x * 11 div 10 \<le> n"
  then have "x * 11 div 10 < Suc n" by simp
  then have "x * 11 < Suc n * 10" by (simp only: div_less_iff_less_mult)
  then have "x * 11 \<le> 10 * n + 9" by simp
  then show ?thesis by (simp add: usable_def less_eq_div_iff_mult_less_eq)
qed

lemma usable_grows: "usable n < x \<Longrightarrow> n < x * 11 div 10"
proof -
  assume "usable n < x"
  then have "10 * n + 9 < x * 11" by (simp add: usable_def div_less_iff_less_mult)
  then have "Suc n * 10 \<le> x * 11" by simp
  then have "Suc n \<le> x * 11 div 10" by (simp only: less_eq_div_iff_mult_less_eq)
  then show ?thesis by simp
qed

subsection \<open>Reserving\<close>

definition alloc_fails :: "table_env \<Rightarrow> usize \<Rightarrow> panic \<Rightarrow> bool" where
  "alloc_fails env c e \<longleftrightarrow>
     (case table_layout env c of Inl p \<Rightarrow> e = p | Inr l \<Rightarrow> \<not> te_heap env l \<and> e = Panic ''out of memory'')"

text \<open>The number of buckets for \<open>n\<close> elements, as a number.\<close>

definition buckets_for :: "nat \<Rightarrow> nat" where
  "buckets_for n = max 32 (npot (n * 11 div 10))"

text \<open>Why asking for room for \<open>additional\<close> elements may panic. A table that is too full grows to the number of buckets
  for all elements: eleven times their number does not fit into a word, or the memory of that table cannot be had. A table that has room
  but has seen a long probe, and is half full, doubles: the memory of twice its size cannot be had.\<close>

definition grow_fails :: "table_env \<Rightarrow> usize \<Rightarrow> ('k, 'v) raw_table \<Rightarrow> panic \<Rightarrow> bool" where
  "grow_fails env additional t e \<longleftrightarrow>
     (let n = unat (hm_len t) + unat additional in
      if unat (hm_capacity t) < n then 2 ^ 64 \<le> n * 11 \<or> alloc_fails env (of_nat (buckets_for n)) e
      else rt_tag t \<and> unat (hm_capacity t) - unat (hm_len t) \<le> unat (hm_len t) \<and> rt_capacity t \<noteq> 0 \<and>
           alloc_fails env (rt_capacity t * 2) e)"

lemma raw_table_new_fails: "raw_table_new env c = Inl e \<Longrightarrow> c \<noteq> 0 \<and> alloc_fails env c e"
  by (auto simp: raw_table_new_def alloc_fails_def and_then_def split: if_splits sum.splits)

lemma buckets_for_bound: "n * 11 < 2 ^ 64 \<Longrightarrow> buckets_for n \<le> 2 ^ 61"
proof -
  assume "n * 11 < 2 ^ 64"
  then have "n * 11 div 10 \<le> 2 ^ 61" by simp
  from npot_least [OF this] show ?thesis by (simp add: buckets_for_def)
qed

text \<open>The capacity is computed whenever the product fits, and it is the number of buckets for the elements.\<close>

lemma raw_capacity_exact:
  assumes "unat len * 11 < 2 ^ 64" "len \<noteq> 0"
  shows "raw_capacity len = Inr (of_nat (buckets_for (unat len)))"
proof -
  let ?r = "len * 11 div 10"
  have r: "unat ?r = unat len * 11 div 10" using assms(1) by (simp add: unat_div unat_word_ariths)
  have "unat len \<le> unat len * 11 div 10" by simp
  then have ge: "?r \<ge> len" using r by (simp add: word_le_nat_alt)
  have b: "npot (unat ?r) \<le> 2 ^ 61" using buckets_for_bound [OF assms(1)] r by (simp add: buckets_for_def)
  then have "unat (of_nat (npot (unat ?r)) :: usize) = npot (unat ?r)" by (simp add: unat_of_nat)
  then have "max 32 (of_nat (npot (unat ?r)) :: usize) = of_nat (buckets_for (unat len))"
    using r by (simp add: buckets_for_def max_def word_le_nat_alt)
  then show ?thesis
    using assms(2) ge b by (simp add: raw_capacity_def Let_def checked_next_power_of_two_def MIN_NONZERO_RAW_CAPACITY_def)
qed

lemma raw_capacity_fails: "raw_capacity len = Inl e \<Longrightarrow> 2 ^ 64 \<le> unat len * 11"
proof (rule ccontr)
  assume *: "raw_capacity len = Inl e" "\<not> 2 ^ 64 \<le> unat len * 11"
  then have "len \<noteq> 0" by (auto simp: raw_capacity_def)
  with * show False using raw_capacity_exact [of len] by simp
qed

lemma resize_blank:
  fixes t :: "('k, 'v) raw_table"
  assumes "blank t" "is_power_of_two c"
  shows "resize env c t = Some (case raw_table_new env c of Inl e \<Rightarrow> Inl e | Inr t' \<Rightarrow> Inr ((), t'))"
  using assms by (auto simp: resize_def blank_def split: sum.splits)

text \<open>The table that a larger capacity gives, and what it keeps.\<close>

definition kept :: "('k \<Rightarrow> u64) \<Rightarrow> ('k, 'v) raw_table \<Rightarrow> nat \<Rightarrow> ('k, 'v) raw_table \<Rightarrow> bool" where
  "kept hasher t n t' \<longleftrightarrow> hm_inv hasher t' \<and> hm_map t' = hm_map t \<and> card (dom (hm_map t)) + n \<le> usable (cap t')"

lemma hm_inv_contents:
  assumes "hm_inv hasher t" "rh t'" "contents t' = contents t" "32 \<le> cap t'" "card (dom (hm_map t)) + n \<le> usable (cap t')"
  shows "kept hasher t n t'"
proof -
  have k: "keyed hasher t'" "hm_map t' = hm_map t"
    using keyed_contents [OF assms(3)] hm_map_contents [OF assms(3)] hm_inv_keyed [OF assms(1)] by auto
  have "full_count (rt_slots t') \<le> usable (cap t')" using assms(5) keyed_card [OF k(1)] k(2) by simp
  then show ?thesis using assms k by (simp add: kept_def hm_inv_def)
qed

lemma resize_kept:
  fixes t :: "('k, 'v) raw_table"
  assumes "hm_inv hasher t" "is_power_of_two c" "32 \<le> c" "cap t < unat c" "card (dom (hm_map t)) + n \<le> usable (unat c)"
  shows "\<exists>r. resize env c t = Some r \<and>
    (case r of Inl e \<Rightarrow> alloc_fails env c e | Inr (_, t') \<Rightarrow> kept hasher t n t')"
proof -
  have c: "2 \<le> c" "32 \<le> unat c" using assms(3) by (auto simp: word_le_nat_alt)
  show ?thesis
  proof (cases "blank t")
    case True
    show ?thesis
    proof (cases "raw_table_new env c :: ('k, 'v) raw_table outcome")
      case (Inl e)
      then show ?thesis using resize_blank [OF True assms(2)] raw_table_new_fails [OF Inl] by auto
    next
      case (Inr t')
      note new = raw_table_new_ok [OF Inr assms(2) c(1)]
      have "kept hasher t n t'"
        using new blank_contents [OF True] c(2) assms(5) by (intro hm_inv_contents [OF assms(1)]) simp_all
      then show ?thesis using resize_blank [OF True assms(2)] Inr by simp
    qed
  next
    case False
    then have t: "rh t" "32 \<le> cap t" using assms(1) by (auto simp: hm_inv_def)
    obtain a where "cap t = 2 ^ a" using rhD(1) [OF t(1)] by (auto simp: shaped_def)
    then have dvd: "cap t dvd unat c"
      using assms(2,4) pow2_dvd_iff_le [of "cap t" "unat c"] by (auto simp: is_power_of_two_def is_pow2_iff)
    show ?thesis
    proof (cases "raw_table_new env c :: ('k, 'v) raw_table outcome")
      case (Inl e)
      then show ?thesis using resize_ok [OF t(1) assms(2) c(1) dvd, of env] raw_table_new_fails [OF Inl] by auto
    next
      case (Inr new)
      then obtain t' where t': "resize env c t = Some (Inr ((), t'))" "rh t'" "cap t' = unat c" "contents t' = contents t"
        using resize_ok [OF t(1) assms(2) c(1) dvd, of env] by auto
      have "kept hasher t n t'" using t' c(2) assms(5) by (intro hm_inv_contents [OF assms(1)]) simp_all
      then show ?thesis using t'(1) by simp
    qed
  qed
qed

lemma hm_sizes:
  assumes "hm_inv hasher t"
  shows "unat (hm_capacity t) = usable (cap t)" "unat (hm_len t) = card (dom (hm_map t))"
    "card (dom (hm_map t)) \<le> usable (cap t)" "unat (hm_capacity t - hm_len t) = usable (cap t) - card (dom (hm_map t))"
proof -
  show l: "unat (hm_len t) = card (dom (hm_map t))" by (rule hm_len_card [OF assms])
  show c: "unat (hm_capacity t) = usable (cap t)"
  proof (cases "blank t")
    case True
    then show ?thesis using usable_capacity_unat [of 0] by (simp add: hm_capacity_def rt_capacity_def blank_def)
  next
    case False
    then have "rh t" using assms by (auto simp: hm_inv_def)
    then have "unat (rt_capacity t) = cap t" "cap t \<le> 2 ^ 60" using shaped_index(4) rhD(1,6) by blast+
    then show ?thesis using usable_capacity_unat [of "rt_capacity t"] by (simp add: hm_capacity_def)
  qed
  show le: "card (dom (hm_map t)) \<le> usable (cap t)"
    using assms keyed_card [OF hm_inv_keyed [OF assms]] by (auto simp: hm_inv_def blank_def usable_def full_count_def)
  show "unat (hm_capacity t - hm_len t) = usable (cap t) - card (dom (hm_map t))"
    using l c le by (subst unat_sub) (simp_all add: word_le_nat_alt)
qed

lemma resize_to_nothing: "blank t \<Longrightarrow> \<exists>t'. resize env 0 t = Some (Inr ((), t')) \<and> blank t'"
  by (simp add: resize_def raw_table_new_def blank_def)

lemma reserve_ok:
  assumes "hm_inv hasher t"
  shows "\<exists>r. reserve env n t = Some r \<and>
    (case r of Inl e \<Rightarrow> grow_fails env n t e | Inr (_, t') \<Rightarrow> kept hasher t (unat n) t')"
proof -
  let ?l = "card (dom (hm_map t))" and ?rem = "hm_capacity t - hm_len t"
  note z = hm_sizes [OF assms]
  show ?thesis
  proof (cases "?rem < n")
    case True
    then have gt: "usable (cap t) < ?l + unat n" using z(3,4) by (simp add: word_less_nat_alt)
    then have few: "unat (hm_capacity t) < unat (hm_len t) + unat n" using z by simp
    have run: "reserve env n t = io_bind (io_lift (expect ''reserve overflow'' (checked_add (hm_len t) n))) (\<lambda>min_cap.
           io_bind (io_lift (raw_capacity min_cap)) (resize env)) t" using True by (simp add: reserve_def)
    show ?thesis
    proof (cases "checked_add (hm_len t) n")
      case None
      then have "2 ^ 64 \<le> unat (hm_len t) + unat n" by (auto simp: checked_add_def split: if_splits)
      then have "2 ^ 64 \<le> (unat (hm_len t) + unat n) * 11" by simp
      then show ?thesis using run few None by (simp add: io_defs grow_fails_def expect_def Let_def)
    next
      case (Some m)
      then have m: "unat m = ?l + unat n"
        using z(2) by (auto simp: checked_add_def unat_word_ariths split: if_splits)
      then have m0: "m \<noteq> 0" using gt by auto
      show ?thesis
      proof (cases "raw_capacity m")
        case (Inl e)
        then show ?thesis using run few Some raw_capacity_fails [OF Inl] m z(2) by (simp add: io_defs grow_fails_def Let_def)
      next
        case (Inr c)
        note c = raw_capacity_ok [OF Inr m0]
        have lt: "cap t < unat c" using usable_grows [OF gt] c(3) m by simp
        have en: "?l + unat n \<le> usable (unat c)" using usable_enough [OF c(3)] m by simp
        have fits: "unat m * 11 < 2 ^ 64"
          using Inr m0 raw_cap_unat(1) [of m] by (auto simp: raw_capacity_def Let_def split: if_splits)
        then have "c = of_nat (buckets_for (unat (hm_len t) + unat n))" using raw_capacity_exact [OF _ m0] Inr m z(2) by simp
        then show ?thesis using resize_kept [OF assms c(1,2) lt en, of env] run Some Inr few
          by (auto simp: grow_fails_def Let_def io_defs split: sum.splits)
      qed
    qed
  next
    case False
    then have le: "?l + unat n \<le> usable (cap t)" using z(3,4) by (simp add: word_less_nat_alt)
    show ?thesis
    proof (cases "rt_tag t \<and> ?rem \<le> hm_len t")
      case True
      have run: "reserve env n t = resize env (rt_capacity t * 2) t" using True False by (simp add: reserve_def)
      show ?thesis
      proof (cases "blank t")
        case b: True
        then have "rt_capacity t * 2 = 0" "?l + unat n \<le> 0" using le by (simp_all add: blank_def rt_capacity_def usable_def)
        moreover obtain t' where t': "resize env 0 t = Some (Inr ((), t'))" "blank t'" using resize_to_nothing [OF b] by blast
        ultimately show ?thesis using run blank_contents [OF b] blank_contents [OF t'(2)] by (auto simp: kept_def hm_inv_def)
      next
        case nb: False
        then have t: "rh t" "32 \<le> cap t" using assms by (auto simp: hm_inv_def)
        obtain a where a: "cap t = 2 ^ a" using rhD(1) [OF t(1)] by (auto simp: shaped_def)
        have c: "unat (rt_capacity t * 2) = 2 * cap t"
          using shaped_index(4) [OF rhD(1) [OF t(1)]] rhD(6) [OF t(1)] by (simp add: unat_word_ariths)
        then have "unat (rt_capacity t * 2) = 2 ^ Suc a" using a by simp
        then have p: "is_power_of_two (rt_capacity t * 2)" unfolding is_power_of_two_def is_pow2_iff by blast
        have "usable (cap t) \<le> usable (2 * cap t)" unfolding usable_def by (rule div_le_mono) simp
        then have en: "?l + unat n \<le> usable (unat (rt_capacity t * 2))" using le c by simp
        have "cap t < unat (rt_capacity t * 2)" unfolding c using t(2) by linarith
        moreover have "32 \<le> rt_capacity t * 2" using c t(2) by (simp add: word_le_nat_alt)
        moreover have "unat (hm_capacity t) - unat (hm_len t) \<le> unat (hm_len t)"
          using True z by (simp add: word_le_nat_alt)
        moreover have "\<not> unat (hm_capacity t) < unat (hm_len t) + unat n" "rt_capacity t \<noteq> 0"
          using le z t(2) shaped_index(4) [OF rhD(1) [OF t(1)]] by auto
        ultimately show ?thesis using resize_kept [OF assms p _ _ en, of env] run True
          by (auto simp: grow_fails_def Let_def split: sum.splits)
      qed
    next
      case nt: False
      then have "reserve env n t = Some (Inr ((), t))" using False by (auto simp: reserve_def io_return_def)
      then show ?thesis using assms le by (simp add: kept_def)
    qed
  qed
qed

subsection \<open>Inserting\<close>

lemma hm_insert_map:
  assumes "hm_inv hasher t"
  shows "\<exists>r. hm_insert env hasher k v t = Some r \<and>
    (case r of
       Inl e \<Rightarrow> grow_fails env 1 t e
     | Inr (old, t') \<Rightarrow> old = hm_map t k \<and> hm_inv hasher t' \<and> hm_map t' = (hm_map t)(k \<mapsto> v))"
proof -
  obtain r where r: "reserve env 1 t = Some r"
    "case r of Inl e \<Rightarrow> grow_fails env 1 t e | Inr (_, t') \<Rightarrow> kept hasher t (unat (1::usize)) t'"
    using reserve_ok [OF assms, of env 1] by blast
  show ?thesis
  proof (cases r)
    case (Inl e)
    then show ?thesis using r by (simp add: hm_insert_def io_then_def io_bind_def)
  next
    case (Inr x)
    then obtain t1 where t1: "x = ((), t1)" "kept hasher t 1 t1" using r(2) by (cases x) auto
    have room: "card (dom (hm_map t)) + 1 \<le> usable (cap t1)" and m: "hm_map t1 = hm_map t" "hm_inv hasher t1"
      using t1(2) by (simp_all add: kept_def)
    then have "\<not> blank t1" by (auto simp: blank_def usable_def)
    then have i: "rh t1" "keyed hasher t1" "32 \<le> cap t1" using m(2) by (auto simp: hm_inv_def)
    obtain t' where t': "insert_hashed_nocheck (make_hash hasher k) k v t1 = Some (Inr (hm_map t1 k, t'))"
      "refit hasher t1 t'" "hm_map t' = (hm_map t1)(k \<mapsto> v)" using insert_nocheck_map [OF i(1,2), of k v] by blast
    have "card (dom (hm_map t')) \<le> usable (cap t1)"
      using room card_insert_le_m1 t'(3) m(1) by (auto simp: card_insert_if hm_map_def finite_dom_map_of)
    then have "hm_inv hasher t'" by (rule refit_inv(1) [OF t'(2) i(3)])
    then show ?thesis using r(1) Inr t1(1) t' m(1) by (simp add: hm_insert_def io_then_def io_bind_def)
  qed
qed

end
