(* ===== verification/HashIter.thy ===== *)
theory HashIter
  imports HashGrow
begin

text \<open>
  Iteration, and the operations built on it: clearing, shrinking, comparing, extending, and the entries.
\<close>

subsection \<open>The buckets in order\<close>

definition elems_from :: "('k, 'v) raw_table \<Rightarrow> nat \<Rightarrow> (usize \<times> 'k \<times> 'v) list" where
  "elems_from t i = List.map_filter id (drop i (rt_slots t))"

lemma elems_from_step:
  assumes "i < cap t"
  shows "elems_from t i = (case rt_slots t ! i of None \<Rightarrow> elems_from t (Suc i) | Some e \<Rightarrow> e # elems_from t (Suc i))"
  using assms by (simp add: elems_from_def map_filter_simps Cons_nth_drop_Suc [symmetric] split: option.splits)

lemma elems_from_end: "cap t \<le> i \<Longrightarrow> elems_from t i = []"
  by (simp add: elems_from_def map_filter_simps)

lemma elems_from_0: "elems_from t 0 = elems t"
  by (simp add: elems_from_def elems_def)

lemma next_full_ok:
  fixes t :: "('k, 'v) raw_table"
  assumes "elems_from t (unat idx) = e # es" "cap t \<le> 2 ^ 60"
  obtains i where "next_full t idx = Some i" "unat idx \<le> unat i" "unat i < cap t" "rt_slots t ! unat i = Some e"
    "elems_from t (Suc (unat i)) = es" "\<forall>j. unat idx \<le> j \<and> j < unat i \<longrightarrow> rt_slots t ! j = None"
proof -
  have "\<exists>i. next_full t idx = Some i \<and> unat idx \<le> unat i \<and> unat i < cap t \<and> rt_slots t ! unat i = Some e \<and>
    elems_from t (Suc (unat i)) = es \<and> (\<forall>j. unat idx \<le> j \<and> j < unat i \<longrightarrow> rt_slots t ! j = None)"
    using assms(1)
  proof (induction "cap t - unat idx" arbitrary: idx rule: less_induct)
    case less
    have i: "unat idx < cap t" using less.prems elems_from_end [of t "unat idx"] by (cases "unat idx < cap t") auto
    show ?case
    proof (cases "rt_slots t ! unat idx")
      case None
      have n: "unat (idx + 1) = Suc (unat idx)" using i assms(2) by (simp add: unat_word_ariths)
      have run: "next_full t idx = next_full t (idx + 1)" by (subst next_full.simps) (simp add: peek_index None)
      have lt: "cap t - unat (idx + 1) < cap t - unat idx" using n i by linarith
      have "elems_from t (unat (idx + 1)) = e # es" using less.prems elems_from_step [OF i] None n by simp
      then obtain i' where i': "next_full t (idx + 1) = Some i'" "Suc (unat idx) \<le> unat i'" "unat i' < cap t"
        "rt_slots t ! unat i' = Some e" "elems_from t (Suc (unat i')) = es"
        "\<forall>j. Suc (unat idx) \<le> j \<and> j < unat i' \<longrightarrow> rt_slots t ! j = None"
        using less.hyps [OF lt] unfolding n by blast
      have "\<forall>j. unat idx \<le> j \<and> j < unat i' \<longrightarrow> rt_slots t ! j = None" using i'(6) None by (metis Suc_leI le_neq_implies_less)
      then show ?thesis using i' run by (intro exI [of _ i']) simp
    next
      case (Some x)
      then have "next_full t idx = Some idx" by (subst next_full.simps) (simp add: peek_index)
      then show ?thesis using Some less.prems elems_from_step [OF i] i by (intro exI [of _ idx]) auto
    qed
  qed
  then show thesis using that by blast
qed

lemma iter_loop_ok:
  fixes t :: "('k, 'v) raw_table"
  assumes "unat (rb_left rb) = length (elems_from t (unat (rb_idx rb)))" "cap t \<le> 2 ^ 60"
  shows "iter_loop t rb = Some (elems_from t (unat (rb_idx rb)))"
  using assms(1)
proof (induction "elems_from t (unat (rb_idx rb))" arbitrary: rb)
  case Nil
  then have "rb_left rb = 0" by (simp add: unat_eq_zero)
  then show ?case using Nil by (subst iter_loop.simps) (simp add: raw_buckets_next_def)
next
  case (Cons e es)
  obtain i where i: "next_full t (rb_idx rb) = Some i" "unat i < cap t" "rt_slots t ! unat i = Some e"
    "elems_from t (Suc (unat i)) = es" by (rule next_full_ok [OF Cons.hyps(2) [symmetric] assms(2)])
  have n: "unat (i + 1) = Suc (unat i)" using i(2) assms(2) by (simp add: unat_word_ariths)
  have l: "unat (rb_left rb) = Suc (length es)" using Cons.prems Cons.hyps(2) [symmetric] by simp
  then have l0: "rb_left rb \<noteq> 0" by auto
  then have l': "unat (rb_left rb - 1) = length es" using l by (simp add: unat_minus_one)
  let ?rb = "\<lparr>rb_idx = i + 1, rb_left = rb_left rb - 1\<rparr>"
  have "iter_loop t ?rb = Some es" using Cons.hyps(1) [of ?rb] n l' i(4) by simp
  then show ?case using i(1,3) l0 Cons.hyps(2) [symmetric]
    by (subst iter_loop.simps) (simp add: raw_buckets_next_def peek_index)
qed

lemma hm_inv_size:
  assumes "hm_inv hasher t"
  shows "cap t \<le> 2 ^ 60" "unat (rt_size t) = length (elems t)"
proof -
  show "cap t \<le> 2 ^ 60" using assms rhD(6) [of t] by (auto simp: hm_inv_def blank_def)
  show "unat (rt_size t) = length (elems t)"
    using hm_len_card [OF assms] keyed_card [OF hm_inv_keyed [OF assms]]
    by (simp add: hm_len_def full_count_contents flip: mset_elems)
qed

lemma table_iter_ok: "hm_inv hasher t \<Longrightarrow> table_iter t = Some (elems t)"
  using iter_loop_ok [of "raw_buckets_of t" t] hm_inv_size [of hasher t]
  by (simp add: table_iter_def raw_buckets_of_def elems_from_0)

lemma hm_iter_ok:
  assumes "hm_inv hasher t"
  obtains es where "hm_iter t = Some es" "distinct (map fst es)" "map_of es = hm_map t"
proof
  show "hm_iter t = Some (map snd (elems t))" using table_iter_ok [OF assms] by (simp add: hm_iter_def)
  show "distinct (map fst (map snd (elems t)))" using hm_inv_keyed [OF assms] keys_distinct by (auto simp: keyed_def)
  show "map_of (map snd (elems t)) = hm_map t" by (simp add: hm_map_def)
qed

subsection \<open>Clearing\<close>

lemma drain_loop_ok:
  fixes t :: "('k, 'v) raw_table"
  assumes "unat (rb_left rb) = length (elems_from t (unat (rb_idx rb)))" "unat (rb_idx rb) \<le> cap t" "cap t \<le> 2 ^ 60"
    "\<forall>j < unat (rb_idx rb). rt_slots t ! j = None"
  shows "drain_loop t rb = Some (t\<lparr>rt_slots := replicate (cap t) None, rt_size := rt_size t - rb_left rb\<rparr>)"
  using assms
proof (induction "elems_from t (unat (rb_idx rb))" arbitrary: rb t)
  case Nil
  then have z: "rb_left rb = 0" by (simp add: unat_eq_zero)
  have "rt_slots t ! j = None" if "j < cap t" for j
  proof (cases "j < unat (rb_idx rb)")
    case False
    then have m: "rt_slots t ! j \<in> set (drop (unat (rb_idx rb)) (rt_slots t))"
      using that by (auto simp: in_set_conv_nth intro!: exI [of _ "j - unat (rb_idx rb)"])
    show ?thesis
    proof (rule ccontr)
      assume "rt_slots t ! j \<noteq> None"
      then obtain e where "rt_slots t ! j = Some e" by blast
      then have "e \<in> set (elems_from t (unat (rb_idx rb)))" using m unfolding elems_from_def set_map_filter_id by simp
      then show False using Nil.hyps by (metis empty_iff empty_set)
    qed
  qed (use Nil in auto)
  then have "rt_slots t = replicate (cap t) None" by (intro nth_equalityI) auto
  then show ?case using z by (subst drain_loop.simps) (simp add: drain_next_def raw_buckets_next_def)
next
  case (Cons e es)
  obtain i where i: "next_full t (rb_idx rb) = Some i" "unat i < cap t" "rt_slots t ! unat i = Some e"
    "elems_from t (Suc (unat i)) = es" "\<forall>j. unat (rb_idx rb) \<le> j \<and> j < unat i \<longrightarrow> rt_slots t ! j = None"
    by (rule next_full_ok [OF Cons.hyps(2) [symmetric] Cons.prems(3)])
  have n: "unat (i + 1) = Suc (unat i)" using i(2) Cons.prems(3) by (simp add: unat_word_ariths)
  have l: "unat (rb_left rb) = Suc (length es)" using Cons.prems(1) Cons.hyps(2) [symmetric] by simp
  then have l0: "rb_left rb \<noteq> 0" by auto
  then have l': "unat (rb_left rb - 1) = length es" using l by (simp add: unat_minus_one)
  let ?rb = "\<lparr>rb_idx = i + 1, rb_left = rb_left rb - 1\<rparr>" and ?t = "bucket_take i t"
  have es: "elems_from ?t (unat (rb_idx ?rb)) = es" using i(4) n by (simp add: elems_from_def bucket_moves drop_update_cancel)
  have before: "\<forall>j < unat (rb_idx ?rb). rt_slots ?t ! j = None"
  proof (intro allI impI)
    fix j
    assume "j < unat (rb_idx ?rb)"
    then have "j < unat (rb_idx rb) \<or> unat (rb_idx rb) \<le> j \<and> j < unat i \<or> j = unat i" using n by auto
    then show "rt_slots ?t ! j = None" using Cons.prems(4) i(2,5) by (auto simp: bucket_moves nth_list_update)
  qed
  have "drain_loop ?t ?rb = Some (?t\<lparr>rt_slots := replicate (cap ?t) None, rt_size := rt_size ?t - rb_left ?rb\<rparr>)"
    using Cons.hyps(1) [of ?t ?rb] es l' before i(2) n Cons.prems(3) by (simp add: bucket_moves)
  then show ?case using i(1,3) l0
    by (subst drain_loop.simps) (simp add: drain_next_def raw_buckets_next_def peek_index bucket_moves set_slot_def)
qed

text \<open>A cleared map keeps its capacity.\<close>

lemma hm_clear_ok:
  assumes "hm_inv hasher t"
  shows "\<exists>t'. hm_clear t = Some (Inr ((), t')) \<and> hm_inv hasher t' \<and> hm_map t' = Map.empty \<and> hm_capacity t' = hm_capacity t"
proof -
  let ?t = "t\<lparr>rt_slots := replicate (cap t) None, rt_size := rt_size t - rt_size t\<rparr>"
  note z = hm_inv_size [OF assms]
  have run: "table_drain t = Some ?t"
    using drain_loop_ok [of "raw_buckets_of t" t] z by (simp add: table_drain_def raw_buckets_of_def elems_from_0)
  have e: "elems ?t = []" by (simp add: elems_def map_filter_def)
  then have k: "keyed hasher ?t" "hm_map ?t = Map.empty" by (simp_all add: keyed_def hm_map_def)
  have f: "full_count (rt_slots ?t) = 0" by (simp add: full_count_def)
  have "hm_inv hasher ?t"
  proof (cases "blank t")
    case True
    then show ?thesis using k by (simp add: hm_inv_def blank_def)
  next
    case False
    then have t: "rh t" "32 \<le> cap t" using assms by (auto simp: hm_inv_def)
    have "shaped ?t" using rhD(1) [OF t(1)] f by (auto simp: shaped_def)
    moreover have "robin (cap ?t) (dl ?t)" by (simp add: robin_def dl_def)
    moreover have "full_count (rt_slots ?t) < cap ?t" using f t(2) by auto
    ultimately have "rh ?t" by (simp add: rh_def)
    then show ?thesis using k(1) t(2) f by (simp add: hm_inv_def)
  qed
  then show ?thesis using run k(2) by (simp add: hm_clear_def hm_capacity_def rt_capacity_def)
qed

subsection \<open>Shrinking\<close>

lemma reinsert_ok:
  assumes "hm_inv hasher t" "32 \<le> cap t" "distinct (map key_of es)" "\<forall>e \<in> set es. fst e = make_hash hasher (key_of e)"
    "key_of ` set es \<inter> dom (hm_map t) = {}" "card (dom (hm_map t)) + length es \<le> usable (cap t)"
  shows "\<exists>t'. reinsert es t = Some (Inr ((), t')) \<and> hm_inv hasher t' \<and> cap t' = cap t \<and> hm_map t' = hm_map t ++ map_of (map snd es)"
  using assms
proof (induction es arbitrary: t)
  case Nil
  then show ?case by (simp add: io_return_def)
next
  case (Cons e es)
  obtain h k v where e: "e = (h, k, v)" by (cases e)
  have h: "h = make_hash hasher k" using Cons.prems(4) e by (simp add: key_of_def)
  have fin: "finite (dom (hm_map t))" by (simp add: hm_map_def finite_dom_map_of)
  have "rh t" "keyed hasher t" using Cons.prems(1,2) by (auto simp: hm_inv_def blank_def)
  then obtain t1 where t1: "insert_hashed_nocheck h k v t = Some (Inr (hm_map t k, t1))" "refit hasher t t1"
    "hm_map t1 = (hm_map t)(k \<mapsto> v)" using insert_nocheck_map [of t hasher k v] h by blast
  have c: "cap t1 = cap t" using t1(2) by (simp add: refit_def)
  have kn: "k \<notin> dom (hm_map t)" "k \<notin> key_of ` set es" using Cons.prems(3,5) e by (auto simp: key_of_def)
  have d: "card (dom (hm_map t1)) = Suc (card (dom (hm_map t)))" using kn(1) fin t1(3) by (simp add: card_insert_if domIff)
  then have i1: "hm_inv hasher t1" using Cons.prems(6) by (intro refit_inv(1) [OF t1(2) Cons.prems(2)]) simp
  have dj: "key_of ` set es \<inter> dom (hm_map t1) = {}" using Cons.prems(5) kn(2) t1(3) by auto
  obtain t' where t': "reinsert es t1 = Some (Inr ((), t'))" "hm_inv hasher t'" "cap t' = cap t1"
    "hm_map t' = hm_map t1 ++ map_of (map snd es)"
    using Cons.IH [OF i1] c dj d Cons.prems by auto
  have "k \<notin> dom (map_of (map snd es))" using kn(2) by (auto simp: dom_map_of_conv_image_fst key_of_def image_image)
  then have "hm_map t1 ++ map_of (map snd es) = hm_map t ++ map_of (map snd (e # es))"
    unfolding t1(3) e by (auto simp: map_add_def fun_eq_iff domIff split: option.splits)
  then have m: "hm_map t' = hm_map t ++ map_of (map snd (e # es))" using t'(4) by (rule trans [rotated])
  have "reinsert (e # es) t = Some (Inr ((), t'))" using t1(1) t'(1) e by (simp add: io_then_ok)
  then show ?case using t'(2,3) c m by metis
qed

lemma raw_capacity_small:
  assumes "unat len \<le> 2 ^ 60"
  shows "\<exists>c. raw_capacity len = Inr c"
proof (cases "len = 0")
  case False
  let ?r = "len * 11 div 10"
  have r: "unat ?r = unat len * 11 div 10" using assms by (simp add: unat_div unat_word_ariths)
  have "unat len \<le> unat len * 11 div 10" by simp
  then have ge: "?r \<ge> len" using r by (simp add: word_le_nat_alt)
  have "npot (unat ?r) \<le> 2 ^ 61" using assms r by (intro npot_least) simp
  then show ?thesis using False ge by (simp add: raw_capacity_def Let_def checked_next_power_of_two_def)
qed (simp add: raw_capacity_def)

text \<open>Shrinking gives the smallest capacity for the length, or keeps the table when the new one is refused.\<close>

lemma shrink_to_fit_ok:
  fixes t :: "('k, 'v) raw_table"
  assumes "hm_inv hasher t"
  shows "\<exists>c r. raw_capacity (hm_len t) = Inr c \<and> shrink_to_fit env t = Some r \<and>
    (case r of
       Inl e \<Rightarrow> alloc_fails env c e
     | Inr (_, t') \<Rightarrow> hm_inv hasher t' \<and> hm_map t' = hm_map t \<and> rt_capacity t' = c)"
proof -
  note z = hm_inv_size [OF assms] and l = hm_len_card [OF assms]
  have "unat (hm_len t) \<le> 2 ^ 60" using z full_count_le [of "rt_slots t"]
    by (simp add: hm_len_def full_count_contents flip: mset_elems)
  then obtain c where c: "raw_capacity (hm_len t) = Inr c" using raw_capacity_small by blast
  show ?thesis
  proof (cases "rt_capacity t = c")
    case True
    then show ?thesis using c assms by (simp add: shrink_to_fit_def)
  next
    case ne: False
    show ?thesis
    proof (cases "raw_table_new env c :: ('k, 'v) raw_table outcome")
      case (Inl e)
      then show ?thesis using c ne raw_table_new_fails [OF Inl] by (simp add: shrink_to_fit_def)
    next
      case (Inr new)
      have run: "shrink_to_fit env t = reinsert (elems t) new"
        using c ne Inr table_iter_ok [OF assms] by (simp add: shrink_to_fit_def)
      have k: "distinct (map key_of (elems t))" "\<forall>e \<in> set (elems t). fst e = make_hash hasher (key_of e)"
        using hm_inv_keyed [OF assms] by (simp_all add: keyed_def)
      show ?thesis
      proof (cases "hm_len t = 0")
        case True
        then have "c = 0" "elems t = []" using c z(2) by (simp_all add: raw_capacity_def hm_len_def)
        moreover have "blank new" "rt_capacity new = 0" using Inr \<open>c = 0\<close> by (auto simp: raw_table_new_def blank_def rt_capacity_def)
        ultimately show ?thesis using c run blank_contents [of new hasher]
          by (simp add: io_return_def hm_inv_def hm_map_def)
      next
        case False
        note p = raw_capacity_ok [OF c False]
        have p32: "32 \<le> unat c" "2 \<le> c" using p(2) by (auto simp: word_le_nat_alt)
        note new = raw_table_new_ok [OF Inr p(1) p32(2)]
        have e: "elems new = []" using new(3) by (simp flip: mset_elems)
        then have i: "hm_inv hasher new"
          using new p32(1) by (simp add: hm_inv_def keyed_def full_count_contents)
        have m: "hm_map new = Map.empty" using e by (simp add: hm_map_def)
        have "length (elems t) \<le> usable (cap new)"
          using usable_enough [OF p(3)] z(2) new(2) by (simp add: hm_len_def)
        then obtain t' where t': "reinsert (elems t) new = Some (Inr ((), t'))" "hm_inv hasher t'" "cap t' = cap new"
          "hm_map t' = map_of (map snd (elems t))"
          using reinsert_ok [OF i _ k] new(2) p32(1) m by auto
        then have "\<not> blank t'" using new(2) p32(1) by (auto simp: blank_def)
        then have "unat (rt_capacity t') = unat c"
          using t'(2,3) new(2) shaped_index(4) [of t'] rhD(1) [of t'] by (auto simp: hm_inv_def)
        then have "rt_capacity t' = c" by (simp only: word_unat_eq_iff)
        then show ?thesis using t' c run by (simp add: hm_map_def)
      qed
    qed
  qed
qed

subsection \<open>Comparing\<close>

lemma all_in_ok: "hm_inv hasher t \<Longrightarrow> all_in hasher t es = Some (\<forall>(k, v) \<in> set es. hm_map t k = Some v)"
  by (induction es) (auto simp: hm_get_map)

lemma hm_eq_ok:
  assumes "hm_inv hasher1 t1" "hm_inv hasher2 t2"
  shows "hm_eq hasher2 t1 t2 = Some (hm_map t1 = hm_map t2)"
proof (cases "hm_len t1 = hm_len t2")
  case False
  then have "card (dom (hm_map t1)) \<noteq> card (dom (hm_map t2))"
    using hm_len_card [OF assms(1)] hm_len_card [OF assms(2)] by (metis word_unat_eq_iff)
  then show ?thesis using False by (auto simp: hm_eq_def)
next
  case True
  then have c: "card (dom (hm_map t1)) = card (dom (hm_map t2))" using hm_len_card [OF assms(1)] hm_len_card [OF assms(2)] by simp
  have fin: "finite (dom (hm_map t2))" by (simp add: hm_map_def finite_dom_map_of)
  obtain es where es: "hm_iter t1 = Some es" "distinct (map fst es)" "map_of es = hm_map t1" by (rule hm_iter_ok [OF assms(1)])
  have "(\<forall>(k, v) \<in> set es. hm_map t2 k = Some v) \<longleftrightarrow> hm_map t1 \<subseteq>\<^sub>m hm_map t2"
  proof -
    have "(k, v) \<in> set es \<longleftrightarrow> hm_map t1 k = Some v" for k v using map_of_eq_Some_iff [OF es(2)] es(3) by metis
    then have "(\<forall>(k, v) \<in> set es. hm_map t2 k = Some v) \<longleftrightarrow> (\<forall>k v. hm_map t1 k = Some v \<longrightarrow> hm_map t2 k = Some v)" by blast
    then show ?thesis by (auto simp: map_le_def dom_def)
  qed
  also have "\<dots> \<longleftrightarrow> hm_map t1 = hm_map t2"
  proof
    assume le: "hm_map t1 \<subseteq>\<^sub>m hm_map t2"
    then have "dom (hm_map t1) = dom (hm_map t2)" using fin c by (intro card_subset_eq map_le_implies_dom_le)
    then show "hm_map t1 = hm_map t2" using le by (metis map_le_antisym map_le_def)
  qed simp
  finally show ?thesis using True es(1) all_in_ok [OF assms(2)] by (simp add: hm_eq_def)
qed

subsection \<open>Extending\<close>

lemma insert_all_ok:
  fixes t :: "('k, 'v) raw_table"
  assumes "hm_inv hasher t"
  shows "\<exists>r. insert_all env hasher es t = Some r \<and>
    (case r of
       Inl e \<Rightarrow> \<exists>t' :: ('k, 'v) raw_table. hm_inv hasher t' \<and> grow_fails env 1 t' e
     | Inr (_, t') \<Rightarrow> hm_inv hasher t' \<and> hm_map t' = hm_map t ++ map_of (rev es))"
  using assms
proof (induction es arbitrary: t)
  case Nil
  then show ?case by (simp add: io_return_def)
next
  case (Cons e es)
  obtain k v where e: "e = (k, v)" by (cases e)
  obtain r where r: "hm_insert env hasher k v t = Some r" "case r of Inl e \<Rightarrow> grow_fails env 1 t e
     | Inr (old, t') \<Rightarrow> old = hm_map t k \<and> hm_inv hasher t' \<and> hm_map t' = (hm_map t)(k \<mapsto> v)"
    using hm_insert_map [OF Cons.prems] by blast
  show ?case
  proof (cases r)
    case (Inl p)
    then show ?thesis using r Cons.prems e by (auto simp: io_then_def io_bind_def)
  next
    case (Inr x)
    then obtain t1 where t1: "hm_insert env hasher k v t = Some (Inr (hm_map t k, t1))" "hm_inv hasher t1"
      "hm_map t1 = (hm_map t)(k \<mapsto> v)" using r by (cases x) auto
    have "insert_all env hasher (e # es) t = insert_all env hasher es t1" using t1(1) e by (simp add: io_then_ok)
    moreover have "hm_map t1 ++ map_of (rev es) = hm_map t ++ map_of (rev (e # es))"
      unfolding t1(3) e by (simp add: map_add_def fun_eq_iff split: option.splits)
    ultimately show ?thesis using Cons.IH [OF t1(2)] by (simp only:)
  qed
qed

lemma hm_extend_ok:
  fixes t :: "('k, 'v) raw_table"
  assumes "hm_inv hasher t"
  shows "\<exists>r. hm_extend env hasher hint es t = Some r \<and>
    (case r of
       Inl e \<Rightarrow> \<exists>(t' :: ('k, 'v) raw_table) n. hm_inv hasher t' \<and> grow_fails env n t' e
     | Inr (_, t') \<Rightarrow> hm_inv hasher t' \<and> hm_map t' = hm_map t ++ map_of (rev es))"
proof -
  let ?n = "if hm_is_empty t then hint else (hint + 1) div 2"
  obtain r where r: "reserve env ?n t = Some r"
    "case r of Inl e \<Rightarrow> grow_fails env ?n t e | Inr (_, t') \<Rightarrow> kept hasher t (unat ?n) t'" using reserve_ok [OF assms] by blast
  show ?thesis
  proof (cases r)
    case (Inl e)
    then show ?thesis using r assms by (auto simp: hm_extend_def Let_def io_then_def io_bind_def)
  next
    case (Inr x)
    then obtain t1 where t1: "reserve env ?n t = Some (Inr ((), t1))" "hm_inv hasher t1" "hm_map t1 = hm_map t"
      using r by (cases x) (auto simp: kept_def)
    have run: "hm_extend env hasher hint es t = insert_all env hasher es t1" using t1(1) by (simp add: hm_extend_def Let_def io_then_ok)
    obtain r' where "insert_all env hasher es t1 = Some r'"
      "case r' of Inl e \<Rightarrow> \<exists>t' :: ('k, 'v) raw_table. hm_inv hasher t' \<and> grow_fails env 1 t' e
       | Inr (_, t') \<Rightarrow> hm_inv hasher t' \<and> hm_map t' = hm_map t1 ++ map_of (rev es)" using insert_all_ok [OF t1(2)] by blast
    then show ?thesis using run t1(3) by (cases r') auto
  qed
qed

end
