(* ===== verification/HashRetain.thy ===== *)
theory HashRetain
  imports HashIter
begin

text \<open>
  \<open>retain\<close>: the buckets are visited backwards from the one before a bucket that is at home, so shifting back after
  a removal only moves elements that have been visited.
\<close>

subsection \<open>What shifting leaves alone\<close>

definition same_below :: "nat \<Rightarrow> nat \<Rightarrow> ('k, 'v) raw_table \<Rightarrow> ('k, 'v) raw_table \<Rightarrow> bool" where
  "same_below s a t t' \<longleftrightarrow> (\<forall>i < a. rt_slots t' ! ((s + i) mod cap t) = rt_slots t ! ((s + i) mod cap t))"

lemma shift_loop_local:
  assumes "shift_loop g t = Some t'" "unat g = (s + x) mod cap t" "a \<le> x" "x < cap t" "s < cap t" "shaped t"
    "0 < a \<longrightarrow> dl t s = Some 0" "rt_slots t ! unat g = None"
  shows "same_below s a t t'"
  using assms
proof (induction arbitrary: x rule: shift_loop.raw_induct [rotated 1, consumes 1, case_names step])
  case (step sl g t t')
  let ?p = "bucket_next t g"
  have p: "unat ?p = (s + Suc x) mod cap t" using shaped_index(2) [OF step(7)] step(3) by (simp add: mod_Suc_eq)
  show ?case
  proof (cases "rt_slots t ! unat ?p")
    case None
    then show ?thesis using step(2) by (simp add: peek_index same_below_def)
  next
    case (Some e)
    obtain h k v where e: "e = (h, k, v)" by (cases e)
    show ?thesis
    proof (cases "displacement t ?p h = 0 \<or> a = 0")
      case True
      then show ?thesis using step(2) Some e by (auto simp: peek_index same_below_def)
    next
      case False
      then have "unat (displacement t ?p h) \<noteq> 0" by (simp add: unat_eq_zero)
      then have d: "dl t (unat ?p) \<noteq> Some 0" "dl t s = Some 0"
        using Some e shaped_index(3) [OF step(7), of ?p h] step(8) False by (auto simp: dl_def)
      have "Suc x \<noteq> cap t"
      proof
        assume eq: "Suc x = cap t"
        have "unat ?p = s" using p step(6) unfolding eq by simp
        then show False using d by simp
      qed
      then have x: "Suc x < cap t" using step(5) by simp
      let ?t = "gap_shift g ?p t"
      have gp: "unat g < cap t" "unat ?p < cap t" using step(3) p step(6) by (metis mod_less_divisor not_less_zero zero_less_iff_neq_zero)+
      have sl: "rt_slots ?t = (rt_slots t)[unat g := rt_slots t ! unat ?p, unat ?p := rt_slots t ! unat g]"
        using step(9) by (simp add: gap_shift_def peek_index)
      have ms: "mset (rt_slots ?t) = mset (rt_slots t)" unfolding sl using gp by (simp only: mset_swap)
      have sh: "shaped ?t" using step(7) ms by (simp add: shaped_def full_count_mset gap_shift_def)
      have c: "cap ?t = cap t" by (simp add: gap_shift_def)
      have keep: "rt_slots ?t ! ((s + i) mod cap t) = rt_slots t ! ((s + i) mod cap t)" if "i < a" for i
      proof -
        have "i < cap t" "i \<noteq> x" "i \<noteq> Suc x" using that step(4,5) by auto
        then have "(s + i) mod cap t \<noteq> unat g" "(s + i) mod cap t \<noteq> unat ?p"
          using offset_unique [of s i "cap t"] step(3,5) p x by metis+
        then show ?thesis unfolding sl by simp
      qed
      have "dl ?t s = Some 0" using keep [of 0] d(2) False step(6) c by (simp add: dl_def)
      moreover have "sl ?p ?t = Some t'" using step(2) Some e False by (simp add: peek_index)
      moreover have "rt_slots ?t ! unat ?p = None" using gp by (simp add: gap_shift_def)
      ultimately have "same_below s a ?t t'" using step(1) [of ?p ?t t' "Suc x"] p x c step(4,6) sh by simp
      then show ?thesis using keep c by (simp add: same_below_def)
    qed
  qed
qed

lemma pop_internal_local:
  assumes "pop_internal i t = Some (kv, t')" "rh t" "unat i = (s + a) mod cap t" "a < cap t" "s < cap t" "dl t s = Some 0"
  shows "same_below s a t t'"
proof -
  obtain h k v where e: "rt_slots t ! unat i = Some (h, k, v)" using assms(1) by (auto simp: pop_internal_def peek_index split: option.splits)
  then have run: "shift_loop i (bucket_take i t) = Some t'" using assms(1) by (auto simp: pop_internal_def peek_index)
  have i: "unat i < cap t" unfolding assms(3) using assms(5) by (intro mod_less_divisor) linarith
  have c: "cap (bucket_take i t) = cap t" by (simp add: bucket_moves)
  have sh: "shaped (bucket_take i t)" unfolding bucket_moves using rhD(1) [OF assms(2)] i e by (intro shaped_take) auto
  have keep: "rt_slots (bucket_take i t) ! ((s + j) mod cap t) = rt_slots t ! ((s + j) mod cap t)" if "j < a" for j
  proof -
    have "(s + j) mod cap t \<noteq> unat i" using offset_unique [of s j "cap t" a] that assms(3,4) by auto
    then show ?thesis by (simp add: bucket_moves)
  qed
  have "0 < a \<longrightarrow> dl (bucket_take i t) s = Some 0" using keep [of 0] assms(5,6) c by (auto simp: dl_def)
  moreover have "rt_slots (bucket_take i t) ! unat i = None" using i by (simp add: bucket_moves)
  ultimately have "same_below s a (bucket_take i t) t'"
    using assms(3,4,5) sh c by (intro shift_loop_local [OF run, of s a a]) simp_all
  then show ?thesis using keep c by (simp add: same_below_def)
qed

subsection \<open>The elements that are kept\<close>

definition retained :: "('k \<Rightarrow> 'v \<Rightarrow> bool \<times> 'v) \<Rightarrow> (usize \<times> 'k \<times> 'v) multiset \<Rightarrow> (usize \<times> 'k \<times> 'v) multiset" where
  "retained f c = image_mset (\<lambda>(h, k, v). (h, k, snd (f k v))) (filter_mset (\<lambda>(h, k, v). fst (f k v)) c)"

lemma retained_add:
  "retained f (add_mset (h, k, v) c) = (if fst (f k v) then add_mset (h, k, snd (f k v)) (retained f c) else retained f c)"
  by (simp add: retained_def)

text \<open>The elements of the first \<open>j\<close> offsets.\<close>

definition low :: "nat \<Rightarrow> ('k, 'v) raw_table \<Rightarrow> nat \<Rightarrow> (usize \<times> 'k \<times> 'v) multiset" where
  "low s t j = (\<Sum>i < j. opt_mset (rt_slots t ! ((s + i) mod cap t)))"

lemma low_Suc: "low s t (Suc j) = low s t j + opt_mset (rt_slots t ! ((s + j) mod cap t))"
  by (simp add: low_def)

lemma contents_sum: "contents t = (\<Sum>i < cap t. opt_mset (rt_slots t ! i))"
proof -
  have "contents t = sum_list (map opt_mset (rt_slots t))" unfolding contents_def by (simp flip: mset_map add: sum_mset_sum_list)
  then show ?thesis by (simp add: sum_list_sum_nth atLeast0LessThan)
qed

lemma low_all:
  assumes "s < cap t"
  shows "low s t (cap t) = contents t"
proof -
  let ?f = "\<lambda>i. (s + i) mod cap t"
  have inj: "inj_on ?f {..<cap t}" by (auto intro!: inj_onI dest: offset_unique)
  moreover have "?f ` {..<cap t} = {..<cap t}"
    using assms inj by (intro endo_inj_surj) (auto intro: mod_less_divisor)
  ultimately have b: "bij_betw ?f {..<cap t} {..<cap t}" by (simp add: bij_betw_def)
  show ?thesis unfolding low_def contents_sum by (rule sum.reindex_bij_betw [OF b, of "\<lambda>i. opt_mset (rt_slots t ! i)"])
qed

lemma replace_value_rh:
  assumes "rh t" "unat i < cap t" "rt_slots t ! unat i = Some (h, k, v)"
  shows "rh (bucket_replace i h k w t)" "contents (bucket_replace i h k w t) + {#(h, k, v)#} = contents t + {#(h, k, w)#}"
    "dl (bucket_replace i h k w t) = dl t" "cap (bucket_replace i h k w t) = cap t"
proof -
  show c: "cap (bucket_replace i h k w t) = cap t" by (simp add: bucket_moves)
  show d: "dl (bucket_replace i h k w t) = dl t" using assms(2,3) by (auto simp: bucket_moves dl_set_slot fun_eq_iff dl_def)
  have "shaped (bucket_replace i h k w t)" unfolding bucket_moves using assms by (intro shaped_set_full rhD(1)) simp_all
  moreover have "full_count (rt_slots (bucket_replace i h k w t)) = full_count (rt_slots t)"
    using full_count_set [OF assms(2), of "Some (h, k, w)"] assms(3) by (simp add: bucket_moves)
  ultimately show "rh (bucket_replace i h k w t)" using rhD(2,3) [OF assms(1)] c d by (simp add: rh_def)
  show "contents (bucket_replace i h k w t) + {#(h, k, v)#} = contents t + {#(h, k, w)#}"
    using contents_set_slot [OF assms(2), of "Some (h, k, w)"] assms(3) by (simp add: bucket_moves)
qed

lemma prev_offset:
  assumes "shaped t" "unat i = (s + Suc j) mod cap t"
  shows "unat (bucket_prev t i) = (s + j) mod cap t"
proof -
  have "0 < cap t" using shaped_cap(1) [OF assms(1)] by linarith
  then show ?thesis using shaped_index(5) [OF assms(1), of i] dist_add [of "cap t" 1 "s + j"] assms(2) by simp
qed

subsection \<open>The loop\<close>

lemma same_below_dl: "same_below s a t t' \<Longrightarrow> cap t' = cap t \<Longrightarrow> s < cap t \<Longrightarrow> 0 < a \<Longrightarrow> dl t' s = dl t s"
  by (auto simp: same_below_def dl_def dest: spec [of _ 0])

lemma same_below_trans: "same_below s a t u \<Longrightarrow> cap u = cap t \<Longrightarrow> same_below s b u w \<Longrightarrow> b \<le> a \<Longrightarrow> same_below s b t w"
  by (simp add: same_below_def)

text \<open>One bucket: its element is replaced, or replaced and removed.\<close>

lemma retain_bucket:
  assumes "rh t" "s < cap t" "dl t s = Some 0" "j < cap t" "unat i = (s + j) mod cap t" "rt_slots t ! unat i = Some (h, k, v)"
  shows "\<exists>t'. retain_loop f left i t = (if left = 0 then Some t else retain_loop f (left - 1) (bucket_prev t i) t') \<and>
    rh t' \<and> cap t' = cap t \<and> rt_mask t' = rt_mask t \<and> same_below s j t t' \<and>
    contents t' + {#(h, k, v)#} = contents t + retained f {#(h, k, v)#}"
proof -
  obtain b w where f: "f k v = (b, w)" by (cases "f k v")
  have i: "unat i < cap t" unfolding assms(5) using assms(2) by (intro mod_less_divisor) linarith
  let ?r = "bucket_replace i h k w t"
  note r = replace_value_rh [OF assms(1) i assms(6), of w]
  have sb: "same_below s j t ?r"
    unfolding same_below_def
  proof (intro allI impI)
    fix x
    assume "x < j"
    then have "(s + x) mod cap t \<noteq> unat i" using offset_unique [of s x "cap t" j] assms(4,5) by auto
    then show "rt_slots ?r ! ((s + x) mod cap t) = rt_slots t ! ((s + x) mod cap t)" by (simp add: bucket_moves)
  qed
  have m: "rt_mask ?r = rt_mask t" by (simp add: bucket_moves)
  show ?thesis
  proof (cases b)
    case True
    have "retain_loop f left i t = (if left = 0 then Some t else retain_loop f (left - 1) (bucket_prev t i) ?r)"
      using True f assms(6) by (subst retain_loop.simps) (simp add: peek_index)
    then show ?thesis using r sb m True f by (intro exI [of _ ?r]) (simp add: retained_def)
  next
    case False
    have sl: "rt_slots ?r ! unat i = Some (h, k, w)" using i by (simp add: bucket_moves)
    have ir: "unat i < cap ?r" using i r(4) by simp
    obtain t' where t': "pop_internal i ?r = Some ((k, w), t')" "shrunk ?r (h, k, w) t'"
      using pop_internal_shrinks [OF r(1) ir sl] by blast
    have "Some (h, k, w) \<in> set (rt_slots ?r)" using ir sl by (metis nth_mem)
    then have c: "add_mset (h, k, w) (contents t') = contents ?r" by (rule shrunk_contents [OF t'(2)])
    have "same_below s j ?r t'"
      using t'(1) assms(2-5) r by (intro pop_internal_local [OF t'(1) r(1)]) simp_all
    then have sb': "same_below s j t t'" by (rule same_below_trans [OF sb r(4) _ order_refl])
    have "shaped t'" "cap t' = cap t" using t'(2) r(4) by (auto simp: shrunk_def rh_def)
    have "rt_mask t' = rt_mask t"
    proof -
      obtain k1 where k1: "cap t = 2 ^ k1" "rt_mask t = mask k1" using rhD(1) [OF assms(1)] by (auto simp: shaped_def)
      obtain k2 where k2: "cap t' = 2 ^ k2" "rt_mask t' = mask k2" using \<open>shaped t'\<close> by (auto simp: shaped_def)
      then have "k1 = k2" using k1 \<open>cap t' = cap t\<close> by simp
      then show ?thesis using k1 k2 by simp
    qed
    moreover have "bucket_prev t' i = bucket_prev t i" using calculation by (simp add: bucket_prev_def)
    then have "retain_loop f left i t = (if left = 0 then Some t else retain_loop f (left - 1) (bucket_prev t i) t')"
      using False f assms(6) t'(1) by (subst retain_loop.simps) (simp add: peek_index)
    moreover have "contents t' + {#(h, k, v)#} = contents t"
      using r(2) c [symmetric] by simp
    ultimately show ?thesis using t'(2) \<open>cap t' = cap t\<close> sb' False f
      by (intro exI [of _ t']) (simp add: retained_def shrunk_def)
  qed
qed

lemma retain_loop_ok:
  assumes "s < cap t0" "dl t0 s = Some 0"
    and "rh t" "cap t = cap t0" "j \<le> cap t0" "same_below s j t0 t" "0 < j \<longrightarrow> unat i = (s + (j - 1)) mod cap t0"
      "unat left = size (low s t0 j)" "contents t0 = low s t0 j + c" "contents t = low s t0 j + retained f c"
  shows "\<exists>t'. retain_loop f left i t = Some t' \<and> rh t' \<and> cap t' = cap t0 \<and> contents t' = retained f (contents t0)"
  using assms(3-)
proof (induction j arbitrary: t i left c)
  case 0
  then have "left = 0" "contents t = retained f (contents t0)" by (simp_all add: low_def unat_eq_zero)
  then show ?case using 0 by (subst retain_loop.simps) simp
next
  case (Suc j)
  have z: "low s t0 (Suc j) = low s t0 j + opt_mset (rt_slots t0 ! ((s + j) mod cap t0))" by (rule low_Suc)
  have i: "unat i = (s + j) mod cap t" using Suc.prems(2,5) by simp
  have sl: "rt_slots t ! unat i = rt_slots t0 ! ((s + j) mod cap t0)"
    using Suc.prems(2,4) i by (simp add: same_below_def)
  have sb: "same_below s j t0 t" using Suc.prems(4) by (simp add: same_below_def)
  have pv: "unat (bucket_prev t i) = (s + (j - 1)) mod cap t0" if "0 < j"
    using prev_offset [OF rhD(1) [OF Suc.prems(1)], of i s "j - 1"] i Suc.prems(2) that by simp
  show ?case
  proof (cases "left = 0")
    case True
    then have "low s t0 (Suc j) = {#}" using Suc.prems(6) by simp
    then have "contents t = retained f (contents t0)" using Suc.prems(7,8) by simp
    then show ?thesis using True Suc.prems(1,2) by (subst retain_loop.simps) simp
  next
    case left: False
    show ?thesis
    proof (cases "rt_slots t ! unat i")
      case None
      have run: "retain_loop f left i t = retain_loop f left (bucket_prev t i) t"
        using left None by (subst retain_loop.simps) (simp add: peek_index)
      have z': "low s t0 (Suc j) = low s t0 j" using z sl [symmetric] None by simp
      show ?thesis unfolding run
        using Suc.prems(1,2,3,6,7,8) sb pv unfolding z' by (intro Suc.IH [where c = c]) auto
    next
      case (Some e)
      obtain h k v where e: "e = (h, k, v)" by (cases e)
      have z': "low s t0 (Suc j) = add_mset (h, k, v) (low s t0 j)" using z sl [symmetric] Some e by simp
      have st: "s < cap t" "j < cap t" using assms(1) Suc.prems(2,3) by simp_all
      have d: "dl t s = Some 0" using same_below_dl [OF Suc.prems(4,2) assms(1)] assms(2) by simp
      have se: "rt_slots t ! unat i = Some (h, k, v)" using Some e by simp
      obtain t' where t': "retain_loop f left i t = retain_loop f (left - 1) (bucket_prev t i) t'" "rh t'" "cap t' = cap t"
        "same_below s j t t'" "contents t' + {#(h, k, v)#} = contents t + retained f {#(h, k, v)#}"
        using retain_bucket [OF Suc.prems(1) st(1) d st(2) i se, of f left] left by auto
      have sb': "same_below s j t0 t'" by (rule same_below_trans [OF sb Suc.prems(2) t'(4) order_refl])
      have c': "contents t0 = low s t0 j + add_mset (h, k, v) c" using Suc.prems(7) z' by simp
      have ct: "contents t' = low s t0 j + retained f (add_mset (h, k, v) c)"
      proof -
        have "contents t' + {#(h, k, v)#} = add_mset (h, k, v) (low s t0 j + (retained f c + retained f {#(h, k, v)#}))"
          using t'(5) Suc.prems(8) z' by (simp add: add.assoc)
        then show ?thesis by (simp add: retained_def)
      qed
      have l: "unat (left - 1) = size (low s t0 j)" using left Suc.prems(6) z' by (simp add: unat_minus_one)
      show ?thesis unfolding t'(1)
        using t'(2,3) Suc.prems(2,3) sb' pv l c' ct by (intro Suc.IH [where c = "add_mset (h, k, v) c"]) auto
    qed
  qed
qed

text \<open>The map that \<open>retain\<close> leaves.\<close>

definition retain_map :: "('k \<Rightarrow> 'v \<Rightarrow> bool \<times> 'v) \<Rightarrow> ('k \<rightharpoonup> 'v) \<Rightarrow> ('k \<rightharpoonup> 'v)" where
  "retain_map f m k = (case m k of None \<Rightarrow> None | Some v \<Rightarrow> if fst (f k v) then Some (snd (f k v)) else None)"

lemma retained_map:
  assumes "keyed hasher t" "contents t' = retained f (contents t)"
  shows "keyed hasher t'" "hm_map t' = retain_map f (hm_map t)"
proof -
  let ?es = "map (\<lambda>(h, k, v). (h, k, snd (f k v))) (filter (\<lambda>(h, k, v). fst (f k v)) (elems t))"
  have c: "contents t' = mset ?es" using assms(2) by (simp add: retained_def flip: mset_elems mset_filter)
  have "map key_of ?es = map key_of (filter (\<lambda>(h, k, v). fst (f k v)) (elems t))" by (simp add: key_of_def case_prod_beta)
  then have "distinct (map key_of ?es)" using assms(1) by (simp only:) (simp add: keyed_def distinct_map_filter)
  moreover have "\<forall>e \<in> set ?es. fst e = make_hash hasher (key_of e)" using assms(1) by (auto simp: keyed_def key_of_def)
  ultimately show k: "keyed hasher t'" using keyed_as [OF c] by blast
  have iff: "hm_map t' k = Some w \<longleftrightarrow> retain_map f (hm_map t) k = Some w" for k w
  proof -
    have "hm_map t' k = Some w \<longleftrightarrow> (make_hash hasher k, k, w) \<in># contents t'"
      by (simp add: hm_map_lookup [OF k] in_contents)
    also have "\<dots> \<longleftrightarrow> (\<exists>v. (make_hash hasher k, k, v) \<in> set (elems t) \<and> fst (f k v) \<and> w = snd (f k v))"
      unfolding c by (auto simp: image_iff)
    also have "\<dots> \<longleftrightarrow> (\<exists>v. hm_map t k = Some v \<and> fst (f k v) \<and> w = snd (f k v))"
      by (simp add: hm_map_lookup [OF assms(1)] in_elems)
    also have "\<dots> \<longleftrightarrow> retain_map f (hm_map t) k = Some w" by (auto simp: retain_map_def split: option.splits)
    finally show ?thesis .
  qed
  show "hm_map t' = retain_map f (hm_map t)" using iff by (intro ext) (metis option.exhaust)
qed

lemma hm_retain_ok:
  assumes "hm_inv hasher t"
  shows "\<exists>t'. hm_retain f t = Some (Inr ((), t')) \<and> hm_inv hasher t' \<and> hm_map t' = retain_map f (hm_map t)"
proof (cases "rt_size t = 0")
  case True
  then have "hm_map t = Map.empty" using hm_inv_size0 [OF assms] by auto
  then have "retain_map f (hm_map t) = hm_map t" by (simp add: retain_map_def fun_eq_iff)
  then show ?thesis using True assms by (simp add: hm_retain_def)
next
  case False
  then have t: "rh t" "32 \<le> cap t" "full_count (rt_slots t) \<le> usable (cap t)" using assms by (auto simp: hm_inv_def blank_def)
  obtain i where i: "head_bucket t = Some i" "unat i < cap t" "dl t (unat i) = Some 0" by (rule head_bucket_ok [OF t(1) False])
  have all: "low (unat i) t (cap t) = contents t" by (rule low_all [OF i(2)])
  have n: "Suc (cap t - 1) = cap t" using i(2) by linarith
  have "unat i = (unat i + Suc (cap t - 1)) mod cap t" unfolding n using i(2) by simp
  then have p: "unat (bucket_prev t i) = (unat i + (cap t - 1)) mod cap t" by (rule prev_offset [OF rhD(1) [OF t(1)]])
  have z: "unat (rt_size t) = size (contents t)" using rhD(1) [OF t(1)] by (simp add: shaped_def full_count_contents)
  have sb: "same_below (unat i) (cap t) t t" by (simp add: same_below_def)
  have l: "unat (rt_size t) = size (low (unat i) t (cap t))" unfolding all by (rule z)
  have c: "contents t = low (unat i) t (cap t) + {#}" "contents t = low (unat i) t (cap t) + retained f {#}"
    unfolding all by (simp_all add: retained_def)
  obtain t' where t': "retain_loop f (rt_size t) (bucket_prev t i) t = Some t'" "rh t'" "cap t' = cap t"
    "contents t' = retained f (contents t)"
    using retain_loop_ok [OF i(2,3) t(1) refl order_refl sb _ l c(1,2)] p by blast
  note m = retained_map [OF hm_inv_keyed [OF assms] t'(4)]
  have "full_count (rt_slots t') \<le> full_count (rt_slots t)"
    unfolding full_count_contents t'(4) retained_def by (simp add: size_filter_mset_lesseq)
  then have "hm_inv hasher t'" using m(1) t' t(2,3) by (simp add: hm_inv_def)
  then show ?thesis using t'(1) i(1) False m(2) by (simp add: hm_retain_def)
qed

end
