(* ===== verification/HashRefine.thy ===== *)
theory HashRefine
  imports HashRetain
begin

text \<open>
  The interface of a map, the hash map as an instance of it, and sequences of operations: whatever is done to a hash
  map, its answers are those of the finite map it stands for.
\<close>

subsection \<open>The interface\<close>

text \<open>An operation on a state ends, and either keeps the invariant and answers as the specification does or panics, in a
  state where \<open>fails\<close> allows it.\<close>

definition refines ::
  "('t \<Rightarrow> bool) \<Rightarrow> ('t \<Rightarrow> 'a) \<Rightarrow> ('t \<Rightarrow> panic \<Rightarrow> bool) \<Rightarrow> ('t, 'r) io \<Rightarrow> ('a \<Rightarrow> 'r \<times> 'a) \<Rightarrow> bool" where
  "refines ok view fails c spec \<longleftrightarrow>
     (\<forall>t. ok t \<longrightarrow>
        (\<exists>r. c t = Some r \<and>
          (case r of Inl e \<Rightarrow> fails t e | Inr (x, t') \<Rightarrow> ok t' \<and> (x, view t') = spec (view t))))"

lemma refinesI:
  assumes "\<And>t. ok t \<Longrightarrow> \<exists>r. c t = Some r \<and> (case r of Inl e \<Rightarrow> fails t e | Inr (x, t') \<Rightarrow> ok t' \<and> (x, view t') = spec (view t))"
  shows "refines ok view fails c spec"
  using assms by (simp add: refines_def)

lemma refinesD:
  assumes "refines ok view fails c spec" "ok t"
  obtains (panics) e where "c t = Some (Inl e)" "fails t e"
  | (returns) x t' where "c t = Some (Inr (x, t'))" "ok t'" "spec (view t) = (x, view t')"
  using assms unfolding refines_def by (fastforce split: sum.splits)

text \<open>Sequences of operations. One panics where it has come to an operation that does.\<close>

fun run_ops :: "('op \<Rightarrow> ('t, 'r) io) \<Rightarrow> 'op list \<Rightarrow> ('t, 'r list) io" where
  "run_ops step [] = io_return []"
| "run_ops step (x # xs) = io_bind (step x) (\<lambda>r. io_bind (run_ops step xs) (\<lambda>rs. io_return (r # rs)))"

fun run_spec :: "('op \<Rightarrow> 'a \<Rightarrow> 'r \<times> 'a) \<Rightarrow> 'op list \<Rightarrow> 'a \<Rightarrow> 'r list \<times> 'a" where
  "run_spec step [] a = ([], a)"
| "run_spec step (x # xs) a = (case step x a of (r, a') \<Rightarrow> case run_spec step xs a' of (rs, a'') \<Rightarrow> (r # rs, a''))"

definition run_fails ::
  "('t \<Rightarrow> bool) \<Rightarrow> ('op \<Rightarrow> ('t, 'r) io) \<Rightarrow> ('op \<Rightarrow> 't \<Rightarrow> panic \<Rightarrow> bool) \<Rightarrow> 'op list \<Rightarrow> 't \<Rightarrow> panic \<Rightarrow> bool" where
  "run_fails ok step fails xs t e \<longleftrightarrow>
     (\<exists>ys x zs rs t'. xs = ys @ x # zs \<and> run_ops step ys t = Some (Inr (rs, t')) \<and> ok t' \<and> fails x t' e)"

lemma run_fails_first: "ok t \<Longrightarrow> fails x t e \<Longrightarrow> run_fails ok step fails (x # xs) t e"
  unfolding run_fails_def by (intro exI [of _ "[]"] exI [of _ x] exI [of _ xs] exI [of _ t]) (simp add: io_return_def)

lemma run_fails_later:
  assumes "step x t = Some (Inr (y, t1))" "run_fails ok step fails xs t1 e"
  shows "run_fails ok step fails (x # xs) t e"
proof -
  obtain ys z zs rs t' where *: "xs = ys @ z # zs" "run_ops step ys t1 = Some (Inr (rs, t'))" "ok t'" "fails z t' e"
    using assms(2) by (auto simp: run_fails_def)
  then have "run_ops step (x # ys) t = Some (Inr (y # rs, t'))" using assms(1) by (simp add: io_bind_def io_return_def)
  with * show ?thesis unfolding run_fails_def by (intro exI [of _ "x # ys"]) auto
qed

lemma run_ops_refines:
  assumes "\<And>x. x \<in> set xs \<Longrightarrow> refines ok view (fails x) (step x) (spec x)"
  shows "refines ok view (run_fails ok step fails xs) (run_ops step xs) (run_spec spec xs)"
  using assms
proof (induction xs)
  case Nil
  then show ?case by (simp add: refines_def io_return_def)
next
  case (Cons x xs)
  have x: "refines ok view (fails x) (step x) (spec x)"
    and xs: "refines ok view (run_fails ok step fails xs) (run_ops step xs) (run_spec spec xs)" using Cons by auto
  show ?case
  proof (rule refinesI)
    fix t
    assume t: "ok t"
    show "\<exists>r. run_ops step (x # xs) t = Some r \<and>
      (case r of Inl e \<Rightarrow> run_fails ok step fails (x # xs) t e
       | Inr (y, t') \<Rightarrow> ok t' \<and> (y, view t') = run_spec spec (x # xs) (view t))"
    proof (cases rule: refinesD [OF x t])
      case (1 e)
      then show ?thesis using run_fails_first [of ok t fails x e step xs] t by (simp add: io_bind_def)
    next
      case (2 y t1)
      show ?thesis
      proof (cases rule: refinesD [OF xs 2(2)])
        case (1 e)
        then show ?thesis using run_fails_later [of step x t y t1] 2(1) by (simp add: io_bind_def)
      next
        case (2 ys t2)
        then show ?thesis using \<open>step x t = _\<close> \<open>spec x (view t) = _\<close> by (simp add: io_bind_def io_return_def)
      qed
    qed
  qed
qed

datatype ('k, 'v) map_op = OpGet 'k | OpInsert 'k 'v | OpRemove 'k

fun map_spec :: "('k, 'v) map_op \<Rightarrow> ('k \<rightharpoonup> 'v) \<Rightarrow> 'v option \<times> ('k \<rightharpoonup> 'v)" where
  "map_spec (OpGet k) m = (m k, m)"
| "map_spec (OpInsert k v) m = (m k, m(k \<mapsto> v))"
| "map_spec (OpRemove k) m = (m k, m(k := None))"

locale map_interface =
  fixes ok :: "'t \<Rightarrow> bool"
    and view :: "'t \<Rightarrow> ('k \<rightharpoonup> 'v)"
    and fails :: "('k, 'v) map_op \<Rightarrow> 't \<Rightarrow> panic \<Rightarrow> bool"
    and op :: "('k, 'v) map_op \<Rightarrow> ('t, 'v option) io"
  assumes op_refines: "refines ok view (fails x) (op x) (map_spec x)"
begin

lemma runs: "refines ok view (run_fails ok op fails xs) (run_ops op xs) (run_spec map_spec xs)"
  by (intro run_ops_refines op_refines)

lemma insert_then_get:
  assumes "ok t" "run_ops op [OpInsert k v, OpGet k'] t = Some (Inr (rs, t'))"
  shows "rs = [view t k, if k' = k then Some v else view t k']"
  using refinesD [OF runs assms(1), of "[OpInsert k v, OpGet k']"] assms(2) by fastforce

lemma remove_then_get:
  assumes "ok t" "run_ops op [OpRemove k, OpGet k'] t = Some (Inr (rs, t'))"
  shows "rs = [view t k, if k' = k then None else view t k']"
  using refinesD [OF runs assms(1), of "[OpRemove k, OpGet k']"] assms(2) by fastforce

end

subsection \<open>The hash map\<close>

fun hm_op :: "table_env \<Rightarrow> ('k \<Rightarrow> u64) \<Rightarrow> ('k, 'v) map_op \<Rightarrow> (('k, 'v) raw_table, 'v option) io" where
  "hm_op env hasher (OpGet k) = (\<lambda>t. map_option (\<lambda>r. Inr (r, t)) (hm_get hasher k t))"
| "hm_op env hasher (OpInsert k v) = hm_insert env hasher k v"
| "hm_op env hasher (OpRemove k) = hm_remove hasher k"

text \<open>Only an insertion may panic, when the table has to grow and cannot.\<close>

fun hm_op_fails :: "table_env \<Rightarrow> ('k, 'v) map_op \<Rightarrow> ('k, 'v) raw_table \<Rightarrow> panic \<Rightarrow> bool" where
  "hm_op_fails env (OpInsert k v) t e = grow_fails env 1 t e"
| "hm_op_fails env _ t e = False"

interpretation hash_map: map_interface "hm_inv hasher" hm_map "hm_op_fails env" "hm_op env hasher"
proof
  fix x :: "('a, 'b) map_op"
  show "refines (hm_inv hasher) hm_map (hm_op_fails env x) (hm_op env hasher x) (map_spec x)"
  proof (rule refinesI)
    fix t :: "('a, 'b) raw_table"
    assume t: "hm_inv hasher t"
    show "\<exists>r. hm_op env hasher x t = Some r \<and>
      (case r of Inl e \<Rightarrow> hm_op_fails env x t e | Inr (y, t') \<Rightarrow> hm_inv hasher t' \<and> (y, hm_map t') = map_spec x (hm_map t))"
    proof (cases x)
      case (OpGet k)
      then show ?thesis using t by (simp add: hm_get_map)
    next
      case (OpInsert k v)
      then show ?thesis using hm_insert_map [OF t, of env k v] by (auto split: sum.splits)
    next
      case (OpRemove k)
      then show ?thesis using hm_remove_map [OF t, of k] by auto
    qed
  qed
qed

subsection \<open>Entries\<close>

text \<open>An entry is a place of the key it was asked for, in a table with room.\<close>

definition entry_for :: "('k \<Rightarrow> u64) \<Rightarrow> 'k \<Rightarrow> 'k entry \<Rightarrow> ('k, 'v) raw_table \<Rightarrow> bool" where
  "entry_for hasher k e t \<longleftrightarrow> rh t \<and> 32 \<le> cap t \<and> card (dom (hm_map t)) < usable (cap t) \<and>
     (case e of
        OccupiedEntry key i \<Rightarrow> key = Some k \<and> unat i < cap t \<and>
          (\<exists>v. hm_map t k = Some v \<and> rt_slots t ! unat i = Some (make_hash hasher k, k, v))
      | VacantEntry hash key elem \<Rightarrow> hash = make_hash hasher k \<and> key = k \<and> hm_map t k = None \<and> place t hash elem)"

lemma hm_entry_ok:
  assumes "hm_inv hasher t"
  shows "\<exists>r. hm_entry env hasher k t = Some r \<and>
    (case r of
       Inl e \<Rightarrow> grow_fails env 1 t e
     | Inr (e, t') \<Rightarrow> hm_inv hasher t' \<and> hm_map t' = hm_map t \<and> entry_for hasher k e t')"
proof -
  obtain r where r: "reserve env 1 t = Some r"
    "case r of Inl e \<Rightarrow> grow_fails env 1 t e | Inr (_, t') \<Rightarrow> kept hasher t (unat (1::usize)) t'"
    using reserve_ok [OF assms, of env 1] by blast
  show ?thesis
  proof (cases r)
    case (Inl e)
    then show ?thesis using r by (simp add: hm_entry_def io_then_def io_bind_def)
  next
    case (Inr x)
    then obtain t1 where t1: "x = ((), t1)" "kept hasher t 1 t1" using r(2) by (cases x) auto
    then have m: "hm_map t1 = hm_map t" "hm_inv hasher t1" "card (dom (hm_map t1)) < usable (cap t1)" by (simp_all add: kept_def)
    then have "\<not> blank t1" by (auto simp: blank_def usable_def)
    then have i: "rh t1" "keyed hasher t1" "32 \<le> cap t1" using m(2) by (auto simp: hm_inv_def)
    show ?thesis
      by (rule search_key [OF i(1,2), of k])
        (use r(1) Inr t1(1) m i in \<open>auto simp: hm_entry_def io_then_def io_bind_def into_entry_def io_defs entry_for_def\<close>)
  qed
qed

lemma or_insert_ok:
  assumes "hm_inv hasher t" "entry_for hasher k e t"
  shows "\<exists>t'. or_insert v e t = Some (Inr (case hm_map t k of None \<Rightarrow> v | Some w \<Rightarrow> w, t')) \<and> hm_inv hasher t' \<and>
    hm_map t' = (case hm_map t k of None \<Rightarrow> (hm_map t)(k \<mapsto> v) | Some w \<Rightarrow> hm_map t)"
proof (cases e)
  case (OccupiedEntry key i)
  then show ?thesis using assms by (auto simp: entry_for_def or_insert_def peek_index)
next
  case (VacantEntry h key elem)
  then have e: "rh t" "32 \<le> cap t" "card (dom (hm_map t)) < usable (cap t)" "h = make_hash hasher k" "key = k"
    "hm_map t k = None" "place t h elem" using assms(2) by (auto simp: entry_for_def)
  obtain t' where t': "vacant_insert h elem k v t = Some t'" "grown t (h, k, v) t'" using vacant_insert_grows [OF e(1,7)] by blast
  have g: "refit hasher t t'" "hm_map t' = (hm_map t)(k \<mapsto> v)"
    using grown_refit [of t hasher k v t'] t'(2) e(1,4,6) hm_inv_keyed [OF assms(1)] by auto
  have "card (dom (hm_map t')) \<le> usable (cap t)"
    using e(3) g(2) by (auto simp: card_insert_if hm_map_def finite_dom_map_of)
  then have "hm_inv hasher t'" by (rule refit_inv(1) [OF g(1) e(2)])
  then show ?thesis using VacantEntry e t' g(2) by (simp add: or_insert_def)
qed

lemma and_modify_ok:
  assumes "hm_inv hasher t" "entry_for hasher k e t"
  shows "\<exists>t'. and_modify f e t = Some (Inr (e, t')) \<and> hm_inv hasher t' \<and>
    hm_map t' = (hm_map t)(k := map_option f (hm_map t k))"
proof (cases e)
  case (OccupiedEntry key i)
  then obtain v where e: "rh t" "32 \<le> cap t" "card (dom (hm_map t)) < usable (cap t)" "unat i < cap t" "hm_map t k = Some v"
    "rt_slots t ! unat i = Some (make_hash hasher k, k, v)" using assms(2) by (auto simp: entry_for_def)
  note r = replace_refit [OF e(1) hm_inv_keyed [OF assms(1)] e(4,6), of "f v"]
  have "dom (hm_map (bucket_replace i (make_hash hasher k) k (f v) t)) = dom (hm_map t)" using r(2) e(5) by auto
  then have "hm_inv hasher (bucket_replace i (make_hash hasher k) k (f v) t)" using e(3) by (intro refit_inv(1) [OF r(1) e(2)]) simp
  then show ?thesis using OccupiedEntry e r(2) by (simp add: and_modify_def peek_index)
next
  case (VacantEntry h key elem)
  then have "hm_map t k = None" using assms(2) by (simp add: entry_for_def)
  then show ?thesis using VacantEntry assms(1) by (auto simp: and_modify_def fun_upd_idem)
qed

text \<open>A map made for \<open>n\<close> elements is empty and has room for them.\<close>

lemma with_capacity_ok:
  assumes "with_capacity env n = Inr t"
  shows "hm_inv hasher t" "hm_map t = Map.empty" "unat n \<le> unat (hm_capacity t)"
proof -
  have *: "hm_inv hasher t \<and> hm_map t = Map.empty \<and> unat n \<le> usable (cap t)"
  proof (cases "n = 0")
    case True
    then have "blank t" using assms by (auto simp: with_capacity_def raw_capacity_def raw_table_new_def blank_def)
    then show ?thesis using blank_contents [of t hasher] True by (simp add: hm_inv_def)
  next
    case False
    obtain c where c: "raw_capacity n = Inr c" "raw_table_new env c = Inr t"
      using assms by (auto simp: with_capacity_def and_then_eq_Inr_iff)
    note p = raw_capacity_ok [OF c(1) False]
    have p32: "32 \<le> unat c" "2 \<le> c" using p(2) by (auto simp: word_le_nat_alt)
    note new = raw_table_new_ok [OF c(2) p(1) p32(2)]
    have "elems t = []" using new(3) by (simp flip: mset_elems)
    then show ?thesis using new(1-3) p32(1) usable_enough [OF p(3)]
      by (simp add: hm_inv_def keyed_def hm_map_def full_count_contents)
  qed
  then show "hm_inv hasher t" "hm_map t = Map.empty" by simp_all
  then show "unat n \<le> unat (hm_capacity t)" using * hm_sizes(1) [of hasher t] by simp
qed

end
