(* ===== verification/HashSetModel.thy ===== *)
theory HashSetModel
  imports HashMapModel
begin

text \<open>
  The hash set of the standard library, \<open>std/src/collections/hash/set.rs\<close>: a hash map whose values are \<open>()\<close>.
  The lazy iterators over two sets are given by the elements they yield, in order.
\<close>

type_synonym 'k hash_set = "('k, unit) raw_table"

definition hs_new :: "table_env \<Rightarrow> ('k hash_set) outcome" where
  "hs_new env = hm_new env"

definition hs_with_capacity :: "table_env \<Rightarrow> usize \<Rightarrow> ('k hash_set) outcome" where
  "hs_with_capacity env capacity = with_capacity env capacity"

definition hs_capacity :: "'k hash_set \<Rightarrow> usize" where
  "hs_capacity s = hm_capacity s"

definition hs_reserve :: "table_env \<Rightarrow> usize \<Rightarrow> ('k hash_set, unit) io" where
  "hs_reserve env additional = reserve env additional"

definition hs_shrink_to_fit :: "table_env \<Rightarrow> ('k hash_set, unit) io" where
  "hs_shrink_to_fit env = shrink_to_fit env"

definition hs_iter :: "'k hash_set \<Rightarrow> ('k list) option" where
  "hs_iter s = hm_keys s"

definition hs_len :: "'k hash_set \<Rightarrow> usize" where
  "hs_len s = hm_len s"

definition hs_is_empty :: "'k hash_set \<Rightarrow> bool" where
  "hs_is_empty s = hm_is_empty s"

definition hs_clear :: "('k hash_set, unit) io" where
  "hs_clear = hm_clear"

definition hs_contains :: "('k \<Rightarrow> u64) \<Rightarrow> 'k \<Rightarrow> 'k hash_set \<Rightarrow> bool option" where
  "hs_contains hasher v s = contains_key hasher v s"

definition hs_get :: "('k \<Rightarrow> u64) \<Rightarrow> 'k \<Rightarrow> 'k hash_set \<Rightarrow> ('k option) option" where
  "hs_get hasher v s = recover_get hasher v s"

subsection \<open>Two sets\<close>

text \<open>The \<open>next\<close> of \<open>Intersection\<close> and \<open>Difference\<close> skips elements until one is kept.\<close>

fun filter_loop :: "('a \<Rightarrow> bool option) \<Rightarrow> 'a list \<Rightarrow> ('a list) option" where
  "filter_loop keep [] = Some []"
| "filter_loop keep (x # xs) =
     (case keep x of
        None \<Rightarrow> None
      | Some b \<Rightarrow> map_option (\<lambda>ys. if b then x # ys else ys) (filter_loop keep xs))"

definition hs_difference :: "('k \<Rightarrow> u64) \<Rightarrow> 'k hash_set \<Rightarrow> 'k hash_set \<Rightarrow> ('k list) option" where
  "hs_difference other_hasher s other =
     Option.bind (hs_iter s) (filter_loop (\<lambda>v. map_option Not (hs_contains other_hasher v other)))"

definition hs_intersection :: "('k \<Rightarrow> u64) \<Rightarrow> 'k hash_set \<Rightarrow> 'k hash_set \<Rightarrow> ('k list) option" where
  "hs_intersection other_hasher s other =
     Option.bind (hs_iter s) (filter_loop (\<lambda>v. hs_contains other_hasher v other))"

definition hs_symmetric_difference :: "('k \<Rightarrow> u64) \<Rightarrow> ('k \<Rightarrow> u64) \<Rightarrow> 'k hash_set \<Rightarrow> 'k hash_set \<Rightarrow> ('k list) option" where
  "hs_symmetric_difference hasher other_hasher s other =
     Option.bind (hs_difference other_hasher s other) (\<lambda>a. map_option (\<lambda>b. a @ b) (hs_difference hasher other s))"

definition hs_union :: "('k \<Rightarrow> u64) \<Rightarrow> 'k hash_set \<Rightarrow> 'k hash_set \<Rightarrow> ('k list) option" where
  "hs_union hasher s other =
     Option.bind (hs_iter s) (\<lambda>a. map_option (\<lambda>b. a @ b) (hs_difference hasher other s))"

fun all_loop :: "('a \<Rightarrow> bool option) \<Rightarrow> 'a list \<Rightarrow> bool option" where
  "all_loop p [] = Some True"
| "all_loop p (x # xs) = (case p x of None \<Rightarrow> None | Some b \<Rightarrow> if b then all_loop p xs else Some False)"

definition is_disjoint :: "('k \<Rightarrow> u64) \<Rightarrow> 'k hash_set \<Rightarrow> 'k hash_set \<Rightarrow> bool option" where
  "is_disjoint other_hasher s other =
     Option.bind (hs_iter s) (all_loop (\<lambda>v. map_option Not (hs_contains other_hasher v other)))"

definition is_subset :: "('k \<Rightarrow> u64) \<Rightarrow> 'k hash_set \<Rightarrow> 'k hash_set \<Rightarrow> bool option" where
  "is_subset other_hasher s other = Option.bind (hs_iter s) (all_loop (\<lambda>v. hs_contains other_hasher v other))"

definition is_superset :: "('k \<Rightarrow> u64) \<Rightarrow> 'k hash_set \<Rightarrow> 'k hash_set \<Rightarrow> bool option" where
  "is_superset hasher s other = is_subset hasher other s"

definition hs_eq :: "('k \<Rightarrow> u64) \<Rightarrow> 'k hash_set \<Rightarrow> 'k hash_set \<Rightarrow> bool option" where
  "hs_eq other_hasher s other =
     (if hs_len s \<noteq> hs_len other then Some False
      else Option.bind (hs_iter s) (all_loop (\<lambda>v. hs_contains other_hasher v other)))"

subsection \<open>Changing a set\<close>

definition hs_insert :: "table_env \<Rightarrow> ('k \<Rightarrow> u64) \<Rightarrow> 'k \<Rightarrow> ('k hash_set, bool) io" where
  "hs_insert env hasher v = io_bind (hm_insert env hasher v ()) (\<lambda>old. io_return (old = None))"

definition hs_replace :: "table_env \<Rightarrow> ('k \<Rightarrow> u64) \<Rightarrow> 'k \<Rightarrow> ('k hash_set, 'k option) io" where
  "hs_replace env hasher v = recover_replace env hasher v"

definition hs_remove :: "('k \<Rightarrow> u64) \<Rightarrow> 'k \<Rightarrow> ('k hash_set, bool) io" where
  "hs_remove hasher v = io_bind (hm_remove hasher v) (\<lambda>old. io_return (old \<noteq> None))"

definition hs_take :: "('k \<Rightarrow> u64) \<Rightarrow> 'k \<Rightarrow> ('k hash_set, 'k option) io" where
  "hs_take hasher v = recover_take hasher v"

definition hs_retain :: "('k \<Rightarrow> bool) \<Rightarrow> ('k hash_set, unit) io" where
  "hs_retain f = hm_retain (\<lambda>k u. (f k, u))"

definition hs_extend :: "table_env \<Rightarrow> ('k \<Rightarrow> u64) \<Rightarrow> usize \<Rightarrow> 'k list \<Rightarrow> ('k hash_set, unit) io" where
  "hs_extend env hasher hint vs = hm_extend env hasher hint (map (\<lambda>k. (k, ())) vs)"

definition hs_from_iter :: "table_env \<Rightarrow> ('k \<Rightarrow> u64) \<Rightarrow> usize \<Rightarrow> 'k list \<Rightarrow> (('k hash_set) outcome) option" where
  "hs_from_iter env hasher hint vs =
     (case hs_new env of
        Inl e \<Rightarrow> Some (Inl e)
      | Inr s \<Rightarrow> map_option (\<lambda>r. and_then r (\<lambda>(_, s'). Inr s')) (hs_extend env hasher hint vs s))"

text \<open>The operators collect an iterator; the hasher of the result is the default one.\<close>

definition hs_collect :: "table_env \<Rightarrow> ('k \<Rightarrow> u64) \<Rightarrow> usize \<Rightarrow> ('k list) option \<Rightarrow> (('k hash_set) outcome) option" where
  "hs_collect env hasher hint vs = Option.bind vs (hs_from_iter env hasher hint)"

definition hs_bitor :: "table_env \<Rightarrow> ('k \<Rightarrow> u64) \<Rightarrow> ('k \<Rightarrow> u64) \<Rightarrow> 'k hash_set \<Rightarrow> 'k hash_set \<Rightarrow> (('k hash_set) outcome) option" where
  "hs_bitor env new_hasher hasher s rhs = hs_collect env new_hasher (hs_len s) (hs_union hasher s rhs)"

definition hs_bitand :: "table_env \<Rightarrow> ('k \<Rightarrow> u64) \<Rightarrow> ('k \<Rightarrow> u64) \<Rightarrow> 'k hash_set \<Rightarrow> 'k hash_set \<Rightarrow> (('k hash_set) outcome) option" where
  "hs_bitand env new_hasher rhs_hasher s rhs = hs_collect env new_hasher 0 (hs_intersection rhs_hasher s rhs)"

definition hs_bitxor ::
  "table_env \<Rightarrow> ('k \<Rightarrow> u64) \<Rightarrow> ('k \<Rightarrow> u64) \<Rightarrow> ('k \<Rightarrow> u64) \<Rightarrow> 'k hash_set \<Rightarrow> 'k hash_set \<Rightarrow> (('k hash_set) outcome) option" where
  "hs_bitxor env new_hasher hasher rhs_hasher s rhs =
     hs_collect env new_hasher 0 (hs_symmetric_difference hasher rhs_hasher s rhs)"

definition hs_sub :: "table_env \<Rightarrow> ('k \<Rightarrow> u64) \<Rightarrow> ('k \<Rightarrow> u64) \<Rightarrow> 'k hash_set \<Rightarrow> 'k hash_set \<Rightarrow> (('k hash_set) outcome) option" where
  "hs_sub env new_hasher rhs_hasher s rhs = hs_collect env new_hasher 0 (hs_difference rhs_hasher s rhs)"

end
