(* ===== verification/HashSetSpec.thy ===== *)
theory HashSetSpec
  imports HashRefine HashSetModel
begin

text \<open>
  The hash set against finite sets: membership, insertion and removal through the interface of maps, and the
  operations on two sets.
\<close>

subsection \<open>A map with no values is a set\<close>

datatype 'k set_op = OpContains 'k | OpAdd 'k | OpDelete 'k

fun set_spec :: "'k set_op \<Rightarrow> 'k set \<Rightarrow> bool \<times> 'k set" where
  "set_spec (OpContains k) s = (k \<in> s, s)"
| "set_spec (OpAdd k) s = (k \<notin> s, insert k s)"
| "set_spec (OpDelete k) s = (k \<in> s, s - {k})"

locale set_interface =
  fixes ok :: "'t \<Rightarrow> bool"
    and view :: "'t \<Rightarrow> 'k set"
    and fails :: "'k set_op \<Rightarrow> 't \<Rightarrow> panic \<Rightarrow> bool"
    and op :: "'k set_op \<Rightarrow> ('t, bool) io"
  assumes op_refines: "refines ok view (fails x) (op x) (set_spec x)"
begin

lemma runs: "refines ok view (run_fails ok op fails xs) (run_ops op xs) (run_spec set_spec xs)"
  by (intro run_ops_refines op_refines)

end

fun set_step :: "(('k, unit) map_op \<Rightarrow> ('t, unit option) io) \<Rightarrow> 'k set_op \<Rightarrow> ('t, bool) io" where
  "set_step op (OpContains k) = io_bind (op (OpGet k)) (\<lambda>r. io_return (r \<noteq> None))"
| "set_step op (OpAdd k) = io_bind (op (OpInsert k ())) (\<lambda>r. io_return (r = None))"
| "set_step op (OpDelete k) = io_bind (op (OpRemove k)) (\<lambda>r. io_return (r \<noteq> None))"

fun as_map_op :: "'k set_op \<Rightarrow> ('k, unit) map_op" where
  "as_map_op (OpContains k) = OpGet k"
| "as_map_op (OpAdd k) = OpInsert k ()"
| "as_map_op (OpDelete k) = OpRemove k"

lemma refines_map:
  assumes "refines ok view fails c spec" "\<And>a. spec' (p a) = (case spec a of (r, a') \<Rightarrow> (g r, p a'))"
  shows "refines ok (\<lambda>t. p (view t)) fails (io_bind c (\<lambda>r. io_return (g r))) spec'"
proof (rule refinesI)
  fix t
  assume t: "ok t"
  show "\<exists>r. io_bind c (\<lambda>r. io_return (g r)) t = Some r \<and>
    (case r of Inl e \<Rightarrow> fails t e | Inr (x, t') \<Rightarrow> ok t' \<and> (x, p (view t')) = spec' (p (view t)))"
    by (cases rule: refinesD [OF assms(1) t]) (auto simp: io_bind_def io_return_def assms(2))
qed

locale unit_map_interface = map_interface ok view fails op
  for ok :: "'t \<Rightarrow> bool" and view :: "'t \<Rightarrow> ('k \<rightharpoonup> unit)" and fails op

sublocale unit_map_interface \<subseteq> as_set: set_interface ok "\<lambda>t. dom (view t)" "\<lambda>x. fails (as_map_op x)" "set_step op"
proof
  fix x :: "'k set_op"
  show "refines ok (\<lambda>t. dom (view t)) (fails (as_map_op x)) (set_step op x) (set_spec x)"
  proof (cases x)
    case (OpContains k)
    show ?thesis unfolding OpContains set_step.simps as_map_op.simps by (rule refines_map [OF op_refines]) auto
  next
    case (OpAdd k)
    show ?thesis unfolding OpAdd set_step.simps as_map_op.simps by (rule refines_map [OF op_refines]) auto
  next
    case (OpDelete k)
    show ?thesis unfolding OpDelete set_step.simps as_map_op.simps by (rule refines_map [OF op_refines]) auto
  qed
qed

interpretation hash_set_map: unit_map_interface "hm_inv hasher" hm_map "hm_op_fails env" "hm_op env hasher"
  by (rule unit_map_interface.intro, rule hash_map.map_interface_axioms)

subsection \<open>The operations of the hash set\<close>

definition hs_set :: "'k hash_set \<Rightarrow> 'k set" where
  "hs_set s = dom (hm_map s)"

fun hs_op :: "table_env \<Rightarrow> ('k \<Rightarrow> u64) \<Rightarrow> 'k set_op \<Rightarrow> ('k hash_set, bool) io" where
  "hs_op env hasher (OpContains k) = (\<lambda>s. map_option (\<lambda>r. Inr (r, s)) (hs_contains hasher k s))"
| "hs_op env hasher (OpAdd k) = hs_insert env hasher k"
| "hs_op env hasher (OpDelete k) = hs_remove hasher k"

lemma hs_op_step: "hm_inv hasher s \<Longrightarrow> hs_op env hasher x s = set_step (hm_op env hasher) x s"
  by (cases x) (auto simp: hs_contains_def contains_key_map hm_get_map io_bind_def io_return_def hs_insert_def hs_remove_def)

lemma hs_set_view: "hs_set = (\<lambda>s. dom (hm_map s))"
  by (rule ext) (simp add: hs_set_def)

lemma hs_op_refines: "refines (hm_inv hasher) hs_set (hm_op_fails env (as_map_op x)) (hs_op env hasher x) (set_spec x)"
proof -
  have "refines (hm_inv hasher) hs_set (hm_op_fails env (as_map_op x)) (set_step (hm_op env hasher) x) (set_spec x)"
    unfolding hs_set_view by (rule hash_set_map.as_set.op_refines)
  then show ?thesis by (simp add: refines_def hs_op_step)
qed

interpretation set_ops: set_interface "hm_inv hasher" hs_set "\<lambda>x. hm_op_fails env (as_map_op x)" "hs_op env hasher"
  by unfold_locales (rule hs_op_refines)

subsection \<open>Two sets\<close>

lemma hs_iter_ok:
  assumes "hm_inv hasher s"
  obtains vs where "hs_iter s = Some vs" "distinct vs" "set vs = hs_set s"
proof -
  obtain es where es: "hm_iter s = Some es" "distinct (map fst es)" "map_of es = hm_map s" by (rule hm_iter_ok [OF assms])
  show thesis
  proof
    show "hs_iter s = Some (map fst es)" using es(1) by (simp add: hs_iter_def hm_keys_def)
    show "distinct (map fst es)" by (rule es(2))
    show "set (map fst es) = hs_set s" by (simp add: hs_set_def dom_map_of_conv_image_fst flip: es(3))
  qed
qed

lemma hs_contains_ok: "hm_inv hasher s \<Longrightarrow> hs_contains hasher v s = Some (v \<in> hs_set s)"
  by (simp add: hs_contains_def contains_key_map hs_set_def)

lemma filter_loop_ok: "(\<And>x. keep x = Some (p x)) \<Longrightarrow> filter_loop keep xs = Some (filter p xs)"
  by (induction xs) simp_all

lemma all_loop_ok: "(\<And>x. q x = Some (p x)) \<Longrightarrow> all_loop q xs = Some (list_all p xs)"
  by (induction xs) simp_all

text \<open>The elements an iterator over two sets yields: each once, and exactly those of the operation.\<close>

definition yields :: "('k list) option \<Rightarrow> 'k set \<Rightarrow> bool" where
  "yields r A \<longleftrightarrow> (\<exists>vs. r = Some vs \<and> distinct vs \<and> set vs = A)"

lemma yields_append: "yields a A \<Longrightarrow> yields b B \<Longrightarrow> A \<inter> B = {} \<Longrightarrow> yields (Option.bind a (\<lambda>x. map_option (\<lambda>y. x @ y) b)) (A \<union> B)"
  by (auto simp: yields_def)

lemma hs_iter_yields: "hm_inv hasher s \<Longrightarrow> yields (hs_iter s) (hs_set s)"
  by (rule hs_iter_ok) (auto simp: yields_def)

lemma hs_filter_yields:
  assumes "hm_inv hasher s" "\<And>x. keep x = Some (p x)"
  shows "yields (Option.bind (hs_iter s) (filter_loop keep)) {x \<in> hs_set s. p x}"
proof -
  obtain vs where "hs_iter s = Some vs" "distinct vs" "set vs = hs_set s" by (rule hs_iter_ok [OF assms(1)])
  then show ?thesis using filter_loop_ok [of keep p] assms(2) by (auto simp: yields_def)
qed

lemma hs_difference_ok:
  assumes "hm_inv h1 s1" "hm_inv h2 s2"
  shows "yields (hs_difference h2 s1 s2) (hs_set s1 - hs_set s2)"
  using hs_filter_yields [OF assms(1), of "\<lambda>v. map_option Not (hs_contains h2 v s2)" "\<lambda>v. v \<notin> hs_set s2"]
  by (simp add: hs_difference_def hs_contains_ok [OF assms(2)] set_diff_eq)

lemma hs_intersection_ok:
  assumes "hm_inv h1 s1" "hm_inv h2 s2"
  shows "yields (hs_intersection h2 s1 s2) (hs_set s1 \<inter> hs_set s2)"
  using hs_filter_yields [OF assms(1), of "\<lambda>v. hs_contains h2 v s2" "\<lambda>v. v \<in> hs_set s2"]
  by (simp add: hs_intersection_def hs_contains_ok [OF assms(2)] Int_def)

lemma hs_union_ok:
  assumes "hm_inv h1 s1" "hm_inv h2 s2"
  shows "yields (hs_union h1 s1 s2) (hs_set s1 \<union> hs_set s2)"
  using yields_append [OF hs_iter_yields [OF assms(1)] hs_difference_ok [OF assms(2,1)]]
  by (simp add: hs_union_def Int_Diff_disjoint)

lemma hs_symmetric_difference_ok:
  assumes "hm_inv h1 s1" "hm_inv h2 s2"
  shows "yields (hs_symmetric_difference h1 h2 s1 s2) ((hs_set s1 - hs_set s2) \<union> (hs_set s2 - hs_set s1))"
  unfolding hs_symmetric_difference_def
  by (rule yields_append [OF hs_difference_ok [OF assms] hs_difference_ok [OF assms(2,1)]]) auto

lemma hs_all_ok:
  assumes "hm_inv hasher s" "\<And>x. q x = Some (p x)"
  shows "Option.bind (hs_iter s) (all_loop q) = Some (\<forall>x \<in> hs_set s. p x)"
proof -
  obtain vs where "hs_iter s = Some vs" "set vs = hs_set s" by (rule hs_iter_ok [OF assms(1)])
  then show ?thesis using all_loop_ok [of q p] assms(2) by (simp add: list_all_iff)
qed

lemma is_subset_ok:
  assumes "hm_inv h1 s1" "hm_inv h2 s2"
  shows "is_subset h2 s1 s2 = Some (hs_set s1 \<subseteq> hs_set s2)"
  using hs_all_ok [OF assms(1), of "\<lambda>v. hs_contains h2 v s2" "\<lambda>v. v \<in> hs_set s2"]
  by (simp add: is_subset_def hs_contains_ok [OF assms(2)] subset_eq)

lemma is_disjoint_ok:
  assumes "hm_inv h1 s1" "hm_inv h2 s2"
  shows "is_disjoint h2 s1 s2 = Some (hs_set s1 \<inter> hs_set s2 = {})"
  using hs_all_ok [OF assms(1), of "\<lambda>v. map_option Not (hs_contains h2 v s2)" "\<lambda>v. v \<notin> hs_set s2"]
  by (simp add: is_disjoint_def hs_contains_ok [OF assms(2)]) blast

lemma hs_eq_ok:
  assumes "hm_inv h1 s1" "hm_inv h2 s2"
  shows "hs_eq h2 s1 s2 = Some (hs_set s1 = hs_set s2)"
proof -
  have c: "unat (hs_len s1) = card (hs_set s1)" "unat (hs_len s2) = card (hs_set s2)"
    using hm_len_card [OF assms(1)] hm_len_card [OF assms(2)] by (simp_all add: hs_len_def hs_set_def)
  have fin: "finite (hs_set s2)" by (simp add: hs_set_def hm_map_def finite_dom_map_of)
  show ?thesis
  proof (cases "hs_len s1 = hs_len s2")
    case True
    then have "card (hs_set s1) = card (hs_set s2)" using c by simp
    then have "hs_set s1 \<subseteq> hs_set s2 \<longleftrightarrow> hs_set s1 = hs_set s2" using fin by (auto dest: card_subset_eq)
    then show ?thesis using True is_subset_ok [OF assms] by (simp add: hs_eq_def is_subset_def)
  next
    case False
    then have "card (hs_set s1) \<noteq> card (hs_set s2)" using c by (metis word_unat_eq_iff)
    then show ?thesis using False by (auto simp: hs_eq_def)
  qed
qed

subsection \<open>Building sets\<close>

lemma hm_new_blank: "\<exists>t. hm_new env = Inr t \<and> blank t"
  by (simp add: hm_new_def raw_table_new_def blank_def)

lemma blank_inv: "blank t \<Longrightarrow> hm_inv hasher t \<and> hm_map t = Map.empty"
  using blank_contents [of t hasher] by (simp add: hm_inv_def)

text \<open>Building a set panics when one of the tables on the way has to grow and cannot.\<close>

definition build_fails :: "table_env \<Rightarrow> ('k \<Rightarrow> u64) \<Rightarrow> panic \<Rightarrow> bool" where
  "build_fails env hasher e \<longleftrightarrow> (\<exists>(t :: 'k hash_set) n. hm_inv hasher t \<and> grow_fails env n t e)"

lemma hs_from_iter_ok:
  "\<exists>r. hs_from_iter env hasher hint vs = Some r \<and>
    (case r of Inl e \<Rightarrow> build_fails env hasher e | Inr s \<Rightarrow> hm_inv hasher s \<and> hs_set s = set vs)"
proof -
  obtain t :: "'a hash_set" where t: "hm_new env = Inr t" "blank t" using hm_new_blank by blast
  note b = blank_inv [OF t(2), of hasher]
  let ?es = "map (\<lambda>k. (k, ())) vs"
  obtain r where r: "hm_extend env hasher hint ?es t = Some r"
    "case r of Inl e \<Rightarrow> \<exists>(t' :: 'a hash_set) n. hm_inv hasher t' \<and> grow_fails env n t' e
     | Inr (_, t') \<Rightarrow> hm_inv hasher t' \<and> hm_map t' = hm_map t ++ map_of (rev ?es)"
    using hm_extend_ok [OF conjunct1 [OF b], of env hint ?es] by blast
  have d: "dom (map_of (rev ?es)) = set vs" by (simp add: dom_map_of_conv_image_fst image_image)
  show ?thesis
  proof (cases r)
    case (Inl e)
    then show ?thesis using r t(1) by (auto simp: build_fails_def hs_from_iter_def hs_new_def hs_extend_def)
  next
    case (Inr x)
    then show ?thesis using r t(1) b d by (cases x) (auto simp: hs_from_iter_def hs_new_def hs_extend_def hs_set_def)
  qed
qed

lemma hs_collect_ok:
  assumes "yields vs A"
  shows "\<exists>r. hs_collect env hasher hint vs = Some r \<and>
    (case r of Inl e \<Rightarrow> build_fails env hasher e | Inr s \<Rightarrow> hm_inv hasher s \<and> hs_set s = A)"
  using assms hs_from_iter_ok [of env hasher hint] by (auto simp: yields_def hs_collect_def)

text \<open>The operators that build a new set.\<close>

lemma hs_operators_ok:
  assumes "hm_inv h1 s1" "hm_inv h2 s2"
  shows "\<exists>r. hs_bitor env h h1 s1 s2 = Some r \<and>
      (case r of Inl e \<Rightarrow> build_fails env h e | Inr s \<Rightarrow> hm_inv h s \<and> hs_set s = hs_set s1 \<union> hs_set s2)"
    "\<exists>r. hs_bitand env h h2 s1 s2 = Some r \<and>
      (case r of Inl e \<Rightarrow> build_fails env h e | Inr s \<Rightarrow> hm_inv h s \<and> hs_set s = hs_set s1 \<inter> hs_set s2)"
    "\<exists>r. hs_bitxor env h h1 h2 s1 s2 = Some r \<and>
      (case r of Inl e \<Rightarrow> build_fails env h e
       | Inr s \<Rightarrow> hm_inv h s \<and> hs_set s = (hs_set s1 - hs_set s2) \<union> (hs_set s2 - hs_set s1))"
    "\<exists>r. hs_sub env h h2 s1 s2 = Some r \<and>
      (case r of Inl e \<Rightarrow> build_fails env h e | Inr s \<Rightarrow> hm_inv h s \<and> hs_set s = hs_set s1 - hs_set s2)"
  unfolding hs_bitor_def hs_bitand_def hs_bitxor_def hs_sub_def
  by (rule hs_collect_ok [OF hs_union_ok [OF assms]] hs_collect_ok [OF hs_intersection_ok [OF assms]]
    hs_collect_ok [OF hs_symmetric_difference_ok [OF assms]] hs_collect_ok [OF hs_difference_ok [OF assms]])+

end
