(* ===== verification/HashPlace.thy ===== *)
theory HashPlace
  imports HashRefine
begin

text \<open>
  In-place insertion. Making the place of a vacant key puts the key into its bucket at once; what a full bucket held is
  pushed forward. Which buckets that touches, and what a search sees when the bucket is emptied again.
\<close>

subsection \<open>Buckets that are not touched\<close>

lemma robin_hood_loop_frame:
  assumes "shaped t" "unat i < cap t" "rt_slots t ! ((Suc (unat i) + m) mod cap t) = None"
    "robin_hood_loop i disp h k v t = Some t'" "\<And>x. x \<le> m \<Longrightarrow> j \<noteq> (Suc (unat i) + x) mod cap t"
  shows "rt_slots t' ! j = rt_slots t ! j"
  using assms
proof (induction m arbitrary: i disp h k v t rule: less_induct)
  case (less m)
  let ?p = "bucket_next t i"
  have p: "unat ?p = Suc (unat i) mod cap t" by (rule shaped_index(2) [OF less.prems(1)])
  then have lt: "unat ?p < cap t" using less.prems(2) by (metis mod_less_divisor not_less_zero zero_less_iff_neq_zero)
  have j: "j \<noteq> unat ?p" using less.prems(5) [of 0] p by simp
  show ?case
  proof (cases "rt_slots t ! unat ?p")
    case None
    then have "t' = bucket_put ?p h k v t"
      using less.prems(4) by (subst (asm) robin_hood_loop.simps) (simp add: Let_def peek_index)
    then show ?thesis using j by (simp add: bucket_moves)
  next
    case (Some e)
    obtain h' k' v' where e: "e = (h', k', v')" by (cases e)
    obtain m' where m: "m = Suc m'" using less.prems(3) Some p by (cases m) auto
    have n: "(Suc (unat ?p) + x) mod cap t = (Suc (unat i) + Suc x) mod cap t" for x
      unfolding p by (metis add_Suc add_Suc_right mod_Suc_eq mod_add_left_eq)
    have gap: "rt_slots t ! ((Suc (unat ?p) + m') mod cap t) = None" using less.prems(3) m n by metis
    have out: "j \<noteq> (Suc (unat ?p) + x) mod cap t" if "x \<le> m'" for x
      unfolding n using less.prems(5) [of "Suc x"] that m by simp
    let ?d = "displacement t ?p h'"
    show ?thesis
    proof (cases "?d < disp + 1")
      case True
      let ?t = "set_slot (unat ?p) (Some (h, k, v)) t"
      have sh: "shaped ?t" using less.prems(1) lt Some by (intro shaped_set_full) simp_all
      have run: "robin_hood_loop ?p ?d h' k' v' ?t = Some t'"
        using less.prems(4) True by (subst (asm) robin_hood_loop.simps) (simp add: Let_def peek_index Some e bucket_moves)
      have gap': "rt_slots ?t ! ((Suc (unat ?p) + m') mod cap t) = None"
        using gap Some by (cases "(Suc (unat ?p) + m') mod cap t = unat ?p") auto
      have "rt_slots t' ! j = rt_slots ?t ! j" using less.IH [of m' ?t ?p ?d h' k' v'] sh lt gap' run out m by simp
      then show ?thesis using j by simp
    next
      case False
      then have "robin_hood_loop ?p (disp + 1) h k v t = Some t'"
        using less.prems(4) by (subst (asm) robin_hood_loop.simps) (simp add: Let_def peek_index Some e)
      then show ?thesis using less.IH [of m' t ?p "disp + 1" h k v] less.prems(1) lt gap out m by simp
    qed
  qed
qed

text \<open>The way of an element, from its home to its bucket, is not ahead of that bucket before the next gap.\<close>

lemma way_behind:
  assumes "rh t" "i < cap t" "rt_slots t ! i = Some (h, k, v)" "y \<le> dist (cap t) i (unat h)"
    "j < cap t" "rt_slots t ! j = None" "x \<le> dist (cap t) j (Suc i)"
  shows "(unat h + y) mod cap t \<noteq> (Suc i + x) mod cap t"
proof
  let ?n = "cap t" and ?d = "dist (cap t) i (unat h)" and ?m = "dist (cap t) j (Suc i)"
  assume eq: "(unat h + y) mod ?n = (Suc i + x) mod ?n"
  note n = rhD(5) [OF assms(1)] and way = on_the_way [OF assms(1-3)]
  have lt: "?d < ?n" "?m < ?n" using dist_less [OF n] by simp_all
  have "(unat h + y + (?d - y)) mod ?n = (Suc i + x + (?d - y)) mod ?n" using eq by (metis mod_add_left_eq)
  then have "(0 + i) mod ?n = (Suc x + (?d - y) + i) mod ?n" using way(2) [of 0] assms(2,4) by (simp add: ac_simps)
  then have "0 mod ?n = (Suc x + (?d - y)) mod ?n" by (rule mod_add_cancel_nat)
  then obtain c where c: "Suc x + (?d - y) = ?n * c" by (metis dvdE mod_0 mod_0_imp_dvd)
  have "?n * c < ?n * 2" using c lt assms(7) by linarith
  then have "c = 1" using c by (cases c) auto
  then have s: "Suc x + (?d - y) = ?n" using c by simp
  have "(Suc i + ?m) mod ?n = j" by (rule add_dist [OF assms(5)])
  then have "(unat h + (y + (?m - x))) mod ?n = j" 
    using mod_add_cong [OF eq refl, of "?m - x"] assms(7) by (simp add: ac_simps)
  moreover have "y + (?m - x) \<le> ?d" using s lt assms(4,7) by linarith
  ultimately have "dl t j \<noteq> None" using way(1) [of "y + (?m - x)"] by auto
  then show False using assms(6) by (simp add: dl_None)
qed

lemma displaced_frame:
  assumes "rh t" "place t h (NeqElem i d)" "rt_slots t ! unat i = Some (h', k', v')" "vacant_insert h (NeqElem i d) k v t = Some t'"
  shows "rt_slots t' ! unat i = Some (h, k, v)"
    and "y < unat d \<Longrightarrow> rt_slots t' ! ((unat h' + y) mod cap t) = rt_slots t ! ((unat h' + y) mod cap t)"
proof -
  let ?t = "if d \<ge> DISPLACEMENT_THRESHOLD then set_tag True t else t"
  let ?t1 = "set_slot (unat i) (Some (h, k, v)) ?t"
  have t: "cap ?t = cap t" "rt_slots ?t = rt_slots t" "shaped ?t" using rhD(1) [OF assms(1)] by auto
  have i: "unat i < cap t" and d: "unat d = dist (cap t) (unat i) (unat h')"
    using assms(2,3) by (auto simp: place_def dl_def)
  have run: "robin_hood_loop i d h' k' v' ?t1 = Some t'"
    using assms(3,4) t(2) by (auto simp: vacant_insert_def robin_hood_def peek_index bucket_moves split: if_splits)
  have sh: "shaped ?t1" using t i assms(3) by (intro shaped_set_full) simp_all
  obtain j where j: "j < cap t" "rt_slots t ! j = None" using rh_gap [OF assms(1)] by blast
  let ?m = "dist (cap t) j (Suc (unat i))"
  have "j \<noteq> unat i" using j assms(3) by auto
  then have gap: "rt_slots ?t1 ! ((Suc (unat i) + ?m) mod cap ?t1) = None"
    using add_dist [OF j(1), of "Suc (unat i)"] j t by simp
  have same: "rt_slots t' ! ((unat h' + y) mod cap t) = rt_slots ?t1 ! ((unat h' + y) mod cap t)" if "y \<le> unat d" for y
    using way_behind [OF assms(1) i assms(3) _ j] that d i t
    by (intro robin_hood_loop_frame [OF sh _ gap run]) auto
  have h: "(unat h' + unat d) mod cap t = unat i" unfolding d by (rule add_dist [OF i])
  show "rt_slots t' ! unat i = Some (h, k, v)" using same [of "unat d"] h i t by simp
  assume y: "y < unat d"
  have "(unat h' + y) mod cap t \<noteq> unat i"
  proof
    assume "(unat h' + y) mod cap t = unat i"
    then have "unat d = y mod cap t" using dist_add [of "cap t" "unat h'" y] d rhD(5) [OF assms(1)] by simp
    then show False using y by (metis mod_less_eq_dividend not_less)
  qed
  then show "rt_slots t' ! ((unat h' + y) mod cap t) = rt_slots t ! ((unat h' + y) mod cap t)" using same [of y] y t by simp
qed

subsection \<open>A search that comes to a gap\<close>

lemma search_loop_gap:
  assumes "shaped t" "d < cap t" "rt_slots t ! ((unat hash + d) mod cap t) = None"
    "\<And>x. x < d \<Longrightarrow> \<exists>q. dl t ((unat hash + x) mod cap t) = Some q \<and> x \<le> q \<and> \<not> holds t hash m ((unat hash + x) mod cap t)"
    and "unat i = (unat hash + e) mod cap t" "unat disp = e" "e \<le> d"
  shows "\<exists>j q. search_loop t hash m i disp = Some (Vacant hash (NoElem j q))"
  using assms(5-7)
proof (induction "d - e" arbitrary: e i disp rule: less_induct)
  case less
  show ?case
  proof (cases "e = d")
    case True
    then have "rt_slots t ! unat i = None" using assms(3) less.prems(1) by simp
    then show ?thesis by (subst search_loop.simps) (simp add: peek_index)
  next
    case False
    then have lt: "e < d" using less.prems(3) by simp
    obtain q where q: "dl t (unat i) = Some q" "e \<le> q" "\<not> holds t hash m (unat i)" using assms(4) [OF lt] less.prems(1) by auto
    then obtain h k v where s: "rt_slots t ! unat i = Some (h, k, v)" "q = dist (cap t) (unat i) (unat h)" by (auto simp: dl_Some)
    have "\<not> displacement t i h < disp" using shaped_index(3) [OF assms(1), of i h] q(2) s(2) less.prems(2) by (simp add: word_less_nat_alt)
    moreover have "\<not> (hash = h \<and> m k)" using q(3) s(1) by (auto simp: holds_def)
    ultimately have run: "search_loop t hash m i disp = search_loop t hash m (bucket_next t i) (disp + 1)"
      by (subst search_loop.simps) (auto simp: peek_index s)
    have "unat (bucket_next t i) = (unat hash + Suc e) mod cap t"
      using shaped_index(2) [OF assms(1)] less.prems(1) by (simp add: mod_Suc_eq)
    moreover have "unat (disp + 1) = Suc e"
      using lt assms(2) less.prems(2) shaped_cap(2) [OF assms(1)] by (simp add: unat_word_ariths)
    ultimately show ?thesis using less.hyps [of "Suc e"] lt run by simp
  qed
qed

lemma hm_get_gap:
  assumes "shaped t" "d < cap t" "rt_slots t ! ((unat (make_hash hasher k) + d) mod cap t) = None"
    "\<And>x. x < d \<Longrightarrow> \<exists>q. dl t ((unat (make_hash hasher k) + x) mod cap t) = Some q \<and> x \<le> q \<and>
      \<not> holds t (make_hash hasher k) (\<lambda>q. q = k) ((unat (make_hash hasher k) + x) mod cap t)"
  shows "hm_get hasher k t = Some None"
proof -
  have "rt_capacity t \<noteq> 0" using shaped_index(4) [OF assms(1)] shaped_cap(1) [OF assms(1)] by auto
  moreover have "unat (bucket_new t (make_hash hasher k)) = (unat (make_hash hasher k) + 0) mod cap t"
    using shaped_index(1) [OF assms(1)] by simp
  ultimately show ?thesis
    using search_loop_gap [OF assms, of "bucket_new t (make_hash hasher k)" 0 0]
    by (auto simp: hm_get_def search_eq search_hashed_def into_occupied_bucket_def)
qed

subsection \<open>A place dropped unused\<close>

text \<open>A place in an empty bucket leaves no trace.\<close>

lemma place_in_gap:
  assumes "hm_inv hasher t" "entry_for hasher k (VacantEntry h k (NoElem i d)) t"
  shows "\<exists>t1 t2. make_place uninit (VacantEntry h k (NoElem i d)) t = Some (Inr (i, t1)) \<and>
    place_drop i t1 = Some (Inr ((), t2)) \<and> hm_inv hasher t2 \<and> hm_map t2 = hm_map t"
proof -
  let ?t = "if d \<ge> DISPLACEMENT_THRESHOLD then set_tag True t else t"
  let ?t2 = "remove_key i (bucket_put i h k uninit ?t)"
  have "rt_slots t ! unat i = None" using assms(2) by (simp add: entry_for_def place_def)
  then have "(rt_slots t)[unat i := None] = rt_slots t" by (metis list_update_id)
  then have s: "rt_slots ?t2 = rt_slots t" "rt_size ?t2 = rt_size t" "rt_mask ?t2 = rt_mask t"
    by (simp_all add: remove_key_def bucket_moves set_tag_def)
  then have c: "contents ?t2 = contents t" "dl ?t2 = dl t" by (simp_all add: contents_def dl_def fun_eq_iff)
  have "rh t" using assms(2) by (simp add: entry_for_def)
  then have "rh ?t2" using s c(2) by (simp add: rh_def shaped_def)
  then have "hm_inv hasher ?t2 = hm_inv hasher t"
    using \<open>rh t\<close> s keyed_contents [OF c(1), of hasher] rhD(5) by (auto simp: hm_inv_def blank_def)
  moreover have "hm_map ?t2 = hm_map t" by (rule hm_map_contents [OF c(1) hm_inv_keyed [OF assms(1)]])
  ultimately show ?thesis using assms(1) by (simp add: make_place_def place_drop_def vacant_insert_def)
qed

lemma keyed_hash:
  assumes "keyed hasher t" "Some (h, k, v) \<in> set (rt_slots t)"
  shows "h = make_hash hasher k"
proof -
  have "(h, k, v) \<in> set (elems t)" using assms(2) by (simp add: in_elems)
  then show ?thesis using assms(1) by (auto simp: keyed_def key_of_def)
qed

lemma keyed_slot:
  assumes "keyed hasher t" "i < cap t" "rt_slots t ! i = Some (h, k, v)" "j < cap t" "rt_slots t ! j = Some (h', k, v')" "j \<noteq> i"
  shows False
proof -
  let ?t = "set_slot i None t"
  have "add_mset (h, k, v) (contents ?t) = contents t" using contents_set_slot [OF assms(2), of None] assms(3) by simp
  note d = keyed_del [OF this assms(1)]
  have "rt_slots ?t ! j = Some (h', k, v')" using assms(5,6) by simp
  then have in_t: "Some (h', k, v') \<in> set (rt_slots ?t)" using assms(4) by (metis nth_mem set_slot_simps(5))
  then have "h' = make_hash hasher k" by (rule keyed_hash [OF d(1)])
  then have "hm_map ?t k = Some v'" unfolding hm_map_lookup [OF d(1)] using in_t by simp
  then show False using d(2) by simp
qed

text \<open>A place in a full bucket hides what the bucket held.\<close>

lemma place_in_full:
  assumes "hm_inv hasher t" "entry_for hasher k (VacantEntry h k (NeqElem i d)) t"
  shows "\<exists>k' v' t1 t2. k' \<noteq> k \<and> hm_map t k' = Some v' \<and> (\<exists>h'. rt_slots t ! unat i = Some (h', k', v')) \<and>
    make_place uninit (VacantEntry h k (NeqElem i d)) t = Some (Inr (i, t1)) \<and> hm_get hasher k' t1 = Some (Some v') \<and>
    place_drop i t1 = Some (Inr ((), t2)) \<and> hm_map t2 = hm_map t \<and> hm_get hasher k' t2 = Some None"
proof -
  have e: "rh t" "32 \<le> cap t" "card (dom (hm_map t)) < usable (cap t)" "h = make_hash hasher k" "hm_map t k = None"
    "place t h (NeqElem i d)" using assms(2) by (auto simp: entry_for_def)
  note ky = hm_inv_keyed [OF assms(1)]
  have i: "unat i < cap t" using e(6) by (simp add: place_def)
  obtain h' k' v' where s: "rt_slots t ! unat i = Some (h', k', v')" and d: "unat d = dist (cap t) (unat i) (unat h')"
    using e(6) by (auto simp: place_def dl_Some)
  have "Some (h', k', v') \<in> set (rt_slots t)" using s i by (metis nth_mem)
  then have h': "h' = make_hash hasher k'" by (rule keyed_hash [OF ky])
  then have m: "hm_map t k' = Some v'" unfolding hm_map_lookup [OF ky] using \<open>Some (h', k', v') \<in> _\<close> by simp
  obtain t1 where t1: "vacant_insert h (NeqElem i d) k uninit t = Some t1" "grown t (h, k, uninit) t1"
    using vacant_insert_grows [OF e(1,6)] by blast
  have g: "refit hasher t t1" "hm_map t1 = (hm_map t)(k \<mapsto> uninit)"
    using grown_refit [of t hasher k uninit t1] t1(2) e(1,4,5) ky by auto
  have "card (dom (hm_map t1)) \<le> usable (cap t)" using e(3) g(2) by (auto simp: card_insert_if hm_map_def finite_dom_map_of)
  note inv = refit_inv [OF g(1) e(2) this]
  note fr = displaced_frame [OF e(1,6) s t1(1)]
  let ?t2 = "remove_key i t1"
  have t2: "?t2 = set_slot (unat i) None t1\<lparr>rt_size := rt_size t1 - 1\<rparr>" by (simp add: remove_key_def set_slot_def)
  have c: "cap t1 = cap t" using g(1) by (simp add: refit_def)
  have sh: "shaped ?t2" unfolding t2 using rhD(1) [OF inv(2)] i c fr(1) by (intro shaped_take) simp_all
  have "contents t1 = add_mset (h, k, uninit) (contents ?t2)"
    using contents_set_slot [of "unat i" t1 None] i c fr(1) contents_slots [of ?t2 "set_slot (unat i) None t1"] t2 by simp
  from keyed_del [OF this [symmetric] hm_inv_keyed [OF inv(1)]]
  have m2: "hm_map ?t2 = hm_map t" using g(2) e(5) by (auto simp: fun_eq_iff)
  have "hm_get hasher k' ?t2 = Some None"
  proof (rule hm_get_gap [OF sh])
    have at: "(unat h' + unat d) mod cap t = unat i" unfolding d by (rule add_dist [OF i])
    show "unat d < cap ?t2" unfolding t2 d using dist_less [OF rhD(5) [OF e(1)]] c by simp
    show "rt_slots ?t2 ! ((unat (make_hash hasher k') + unat d) mod cap ?t2) = None" using at i c h' by (simp add: t2)
    fix x
    assume x: "x < unat d"
    let ?j = "(unat h' + x) mod cap t"
    have j: "?j < cap t" using rhD(5) [OF e(1)] by simp
    have ne: "?j \<noteq> unat i" using dist_add [OF rhD(5) [OF e(1)], of "unat h'" x] x d
      by (metis mod_less_eq_dividend not_less)
    have sl: "rt_slots ?t2 ! ?j = rt_slots t ! ?j" using fr(2) [OF x] ne by (simp add: t2)
    obtain q where q: "dl t ?j = Some q" "x \<le> q" using on_the_way(1) [OF e(1) i s, of x] x d by auto
    have "\<not> holds t h' (\<lambda>q. q = k') ?j" using keyed_slot [OF ky i s j _ ne] by (auto simp: holds_def)
    then show "\<exists>q. dl ?t2 ((unat (make_hash hasher k') + x) mod cap ?t2) = Some q \<and> x \<le> q \<and>
      \<not> holds ?t2 (make_hash hasher k') (\<lambda>q. q = k') ((unat (make_hash hasher k') + x) mod cap ?t2)"
      using q sl c h' by (intro exI [of _ q]) (simp add: t2 holds_def dl_def)
  qed
  moreover have "k' \<noteq> k" using m e(5) by auto
  moreover have "hm_get hasher k' t1 = Some (Some v')" using hm_get_map [OF inv(1)] g(2) m \<open>k' \<noteq> k\<close> by simp
  ultimately show ?thesis using m s t1(1) m2 by (auto simp: make_place_def place_drop_def)
qed

end
