(* ===== verification/HashProps.thy ===== *)
theory HashProps
  imports HashSetSpec HashPlace AlignUtil
begin

text \<open>
  What the hash map and the hash set promise, with a small table that shows the hypotheses can hold.
\<close>

declare search_loop.simps [code] robin_hood_loop.simps [code]

subsection \<open>A small table\<close>

definition ex_env :: table_env where
  "ex_env = \<lparr>te_size = 16, te_align = 8, te_heap = (\<lambda>_. True)\<rparr>"

definition ex_hash :: "usize \<Rightarrow> u64" where
  "ex_hash k = k"

text \<open>Two keys below 32, both at home.\<close>

definition ex_table :: "usize \<Rightarrow> 'v \<Rightarrow> usize \<Rightarrow> 'v \<Rightarrow> (usize, 'v) raw_table" where
  "ex_table k v l w =
     \<lparr>rt_mask = 31, rt_size = 2,
      rt_slots = (replicate 32 None)[unat k := Some (make_hash ex_hash k, k, v), unat l := Some (make_hash ex_hash l, l, w)],
      rt_tag = False\<rparr>"

lemma ex_home: "unat k < 32 \<Longrightarrow> dist 32 (unat k) (unat (make_hash ex_hash k)) = 0"
proof -
  assume k: "unat k < 32"
  have "unat (make_hash ex_hash k AND mask 5) = unat (make_hash ex_hash k) mod 2 ^ 5" by (rule unat_and_mask) simp
  moreover have "make_hash ex_hash k AND mask 5 = k AND mask 5"
    by (rule bit_word_eqI)
      (unfold make_hash_def safe_hash_def ex_hash_def bit_and_iff bit_or_iff bit_mask_iff bit_push_bit_iff, auto)
  moreover have "unat (k AND mask 5) = unat k mod 2 ^ 5" by (rule unat_and_mask) simp
  ultimately have "unat (make_hash ex_hash k) mod 32 = unat k" using k by simp
  then show ?thesis using dist_mod [of 32 "unat k" "unat (make_hash ex_hash k)"] by (simp add: dist_def)
qed

lemma ex_table_elems:
  assumes "unat k < 32" "unat l < 32" "k \<noteq> l"
  shows "contents (ex_table k v l w) = {#(make_hash ex_hash k, k, v), (make_hash ex_hash l, l, w)#}"
proof -
  let ?e = "\<lparr>rt_mask = 31, rt_size = 2, rt_slots = replicate 32 None, rt_tag = False\<rparr> :: (usize, 'a) raw_table"
  let ?a = "set_slot (unat k) (Some (make_hash ex_hash k, k, v)) ?e"
  have n: "unat l \<noteq> unat k" using assms(3) by (metis word_unat_eq_iff)
  have "contents ?e = {#}" by (simp add: contents_def)
  then have "contents ?a = {#(make_hash ex_hash k, k, v)#}"
    using contents_set_slot [of "unat k" ?e "Some (make_hash ex_hash k, k, v)"] assms(1) by simp
  then have "contents (set_slot (unat l) (Some (make_hash ex_hash l, l, w)) ?a) =
      {#(make_hash ex_hash k, k, v), (make_hash ex_hash l, l, w)#}"
    using contents_set_slot [of "unat l" ?a "Some (make_hash ex_hash l, l, w)"] assms(2) n by (simp add: add_mset_commute)
  then show ?thesis by (simp add: ex_table_def set_slot_def)
qed

lemma ex_table_ok:
  assumes "unat k < 32" "unat l < 32" "k \<noteq> l"
  shows "hm_inv ex_hash (ex_table k v l w)" "hm_map (ex_table k v l w) = [k \<mapsto> v, l \<mapsto> w]"
proof -
  let ?t = "ex_table k v l w"
  have c: "contents ?t = mset [(make_hash ex_hash k, k, v), (make_hash ex_hash l, l, w)]"
    using ex_table_elems [OF assms] by simp
  have k: "keyed ex_hash ?t" unfolding keyed_as [OF c] using assms(3) by (simp add: key_of_def)
  have f: "full_count (rt_slots ?t) = 2" by (simp add: full_count_contents c)
  have n: "cap ?t = 32" "rt_mask ?t = 31" "rt_size ?t = 2" by (simp_all add: ex_table_def)
  have sh: "shaped ?t" unfolding shaped_def using f n by (intro conjI exI [of _ 5]) (simp_all add: mask_eq_exp_minus_1)
  have "dl ?t i = None \<or> dl ?t i = Some 0" if "i < 32" for i
  proof -
    have "dl ?t i = (if i = unat l then Some (dist 32 i (unat (make_hash ex_hash l)))
        else if i = unat k then Some (dist 32 i (unat (make_hash ex_hash k))) else None)"
      using that assms by (auto simp: dl_def ex_table_def nth_list_update)
    then show ?thesis using ex_home assms by auto
  qed
  then have "robin (cap ?t) (dl ?t)" unfolding robin_def n by (metis nat.distinct(1) option.distinct(1) option.inject)
  then have "rh ?t" using sh f n by (simp add: rh_def)
  then show "hm_inv ex_hash ?t" using k f n by (simp add: hm_inv_def usable_def)
  have "distinct (map key_of [(make_hash ex_hash k, k, v), (make_hash ex_hash l, l, w)])" using assms(3) by (simp add: key_of_def)
  then have "hm_map ?t = map_of [(k, v), (l, w)]" using hm_map_as [OF c] by simp
  then show "hm_map ?t = [k \<mapsto> v, l \<mapsto> w]" using assms(3) by (auto simp: fun_eq_iff)
qed

subsection \<open>When a table cannot grow\<close>

text \<open>What Rust guarantees of the alignment of the pairs; the bound is that of \<open>Layout\<close>.\<close>

definition pairs_ok :: "table_env \<Rightarrow> bool" where
  "pairs_ok env \<longleftrightarrow> is_power_of_two (te_align env) \<and> unat (te_align env) \<le> 2 ^ 31"

text \<open>The bytes of a table of \<open>c\<close> buckets, as a number: the hashes, padding up to the alignment of the pairs, the pairs.\<close>

definition table_bytes :: "table_env \<Rightarrow> nat \<Rightarrow> nat" where
  "table_bytes env c =
     (c * 8 + (unat (te_align env) - 1)) div unat (te_align env) * unat (te_align env) + c * unat (te_size env)"

text \<open>The memory of a table cannot be had: its size, rounded up to its alignment, exceeds the address space, or the heap
  refuses exactly that request.\<close>

definition refused :: "table_env \<Rightarrow> nat \<Rightarrow> bool" where
  "refused env c \<longleftrightarrow> 2 ^ 64 < table_bytes env c + max 8 (unat (te_align env)) \<or>
     \<not> te_heap env \<lparr>lay_size = of_nat (table_bytes env c), lay_align = max 8 (te_align env)\<rparr>"

text \<open>There is no room for \<open>additional\<close> elements. A table that is too full needs the number of buckets for all its
  elements: eleven times their number exceeds a word, or the memory of the buckets is refused. A table with room
  that has seen a long probe and is half full needs twice its buckets.\<close>

definition no_room :: "table_env \<Rightarrow> nat \<Rightarrow> ('k, 'v) raw_table \<Rightarrow> bool" where
  "no_room env additional t \<longleftrightarrow>
     (let n = unat (hm_len t) + additional in
      if unat (hm_capacity t) < n then 2 ^ 64 \<le> n * 11 \<or> refused env (buckets_for n)
      else rt_tag t \<and> unat (hm_capacity t) - unat (hm_len t) \<le> unat (hm_len t) \<and> refused env (2 * cap t))"

lemma round_up_dvd:
  assumes "round_up_to_next x a = Inr r"
  shows "unat a dvd unat r"
proof -
  obtain k where k: "unat a = 2 ^ k" and r: "r = (x + a - 1) AND NOT (a - 1)"
    using assms by (auto simp: round_up_to_next_def is_power_of_two_iff split: if_splits)
  have "of_nat (unat a) = (2 ^ k :: usize)" unfolding k by simp
  then have "a - 1 = mask k" by (simp add: mask_eq_exp_minus_1)
  then show ?thesis unfolding r k by (simp add: unat_and_not_mask)
qed

lemma round_up_exact:
  assumes "is_power_of_two a" "unat x + unat a \<le> 2 ^ 64"
  obtains r where "round_up_to_next x a = Inr r" "unat r = (unat x + (unat a - 1)) div unat a * unat a"
proof -
  let ?y = "x + (a - 1)"
  obtain k where k: "unat a = 2 ^ k" using assms(1) by (auto simp: is_power_of_two_iff)
  have "of_nat (unat a) = (2 ^ k :: usize)" unfolding k by simp
  then have m: "a - 1 = mask k" by (simp add: mask_eq_exp_minus_1)
  have "0 < unat a" unfolding k by simp
  then have "unat (a - 1) = unat a - 1" by (simp add: unat_minus_one unat_gt_0)
  then have "unat ?y = unat x + (unat a - 1)" using assms(2) \<open>0 < unat a\<close> by (simp add: unat_word_ariths)
  moreover have "unat (?y AND NOT (mask k)) = unat ?y div 2 ^ k * 2 ^ k" by (rule unat_and_not_mask)
  moreover have "round_up_to_next x a = Inr (?y AND NOT (a - 1))" using assms(1) by (simp add: round_up_to_next_def add_diff_eq)
  ultimately show ?thesis using that k m by simp
qed

lemma max_8_align:
  assumes "pairs_ok env"
  shows "is_power_of_two (max 8 (te_align env))" "unat (max 8 (te_align env)) = max 8 (unat (te_align env))"
    "max 8 (te_align env) \<le> 0x80000000"
proof -
  have "is_pow2 8" using npot_pow2 [of 3] by (simp add: is_pow2_def)
  then have "is_power_of_two (8 :: usize)" by (simp add: is_power_of_two_def)
  then show "is_power_of_two (max 8 (te_align env))" using assms by (simp add: pairs_ok_def max_def)
  show "unat (max 8 (te_align env)) = max 8 (unat (te_align env))" by (simp add: max_def word_le_nat_alt)
  then show "max 8 (te_align env) \<le> 0x80000000" using assms by (simp add: pairs_ok_def word_le_nat_alt)
qed

text \<open>Below that bound every check of a new table passes.\<close>

lemma table_layout_exact:
  assumes "pairs_ok env" "c \<noteq> 0" "table_bytes env (unat c) + max 8 (unat (te_align env)) \<le> 2 ^ 64"
  shows "table_layout env c = Inr \<lparr>lay_size = of_nat (table_bytes env (unat c)), lay_align = max 8 (te_align env)\<rparr>"
proof -
  let ?s = "te_size env" and ?a = "unat (te_align env)" and ?b = "table_bytes env (unat c)"
  let ?po = "(unat c * 8 + (?a - 1)) div ?a * ?a"
  have p: "is_power_of_two (te_align env)" and a: "0 < ?a" using assms(1) by (auto simp: pairs_ok_def is_power_of_two_iff)
  have b: "?b = ?po + unat c * unat ?s" by (simp add: table_bytes_def)
  have c: "0 < unat c" using assms(2) by (simp add: unat_gt_0)
  have po: "unat c * 8 \<le> ?po" using div_mult_mod_eq [of "unat c * 8 + (?a - 1)" ?a] mod_less_divisor [OF a, of "unat c * 8 + (?a - 1)"]
    by linarith
  have lt: "?b < 2 ^ 64" using assms(3) by simp
  have c8: "unat (c * 8) = unat c * 8" and cs: "unat (c * ?s) = unat c * unat ?s"
    using po b lt by (simp_all add: unat_word_ariths)
  have "unat (c * 8) + ?a \<le> 2 ^ 64" using c8 po b assms(3) by linarith
  then obtain r where r: "round_up_to_next (c * 8) (te_align env) = Inr r" "unat r = ?po"
    using round_up_exact [OF p] c8 by metis
  have sum: "unat r + unat (c * ?s) = ?b" using r(2) cs b by simp
  have en: "r + c * ?s = of_nat ?b" unfolding sum [symmetric] by simp
  have need: "unat c * (8 + unat ?s) \<le> ?b" using po b by (simp add: distrib_left)
  have "8 + unat ?s \<le> unat c * (8 + unat ?s)" using c by simp
  then have "8 + unat ?s < 2 ^ 64" using need lt by linarith
  then have s: "checked_add 8 ?s = Some (8 + ?s)" "unat (8 + ?s) = 8 + unat ?s"
    by (simp_all add: checked_add_def unat_word_ariths)
  have m: "checked_mul c (8 + ?s) = Some (c * (8 + ?s))" "c * (8 + ?s) \<le> of_nat ?b"
    using need lt s(2) by (simp_all add: checked_mul_def word_le_nat_alt unat_word_ariths unat_of_nat)
  let ?m = "max 8 (te_align env)"
  have "unat (- 1 - (?m - 1)) = unat (- 1 :: usize) - unat (?m - 1)" by (rule unat_sub) simp
  moreover have "unat (?m - 1) = unat ?m - 1" using max_8_align(2) [OF assms(1)] by (intro unat_minus_one) auto
  ultimately have "?b \<le> unat (- 1 - (?m - 1))"
    using max_8_align(2) [OF assms(1)] unat_minus_one_word [where 'a = 64] add_le_imp_le_diff [OF assms(3)] by simp
  then have "of_nat ?b \<le> - 1 - (?m - 1)" using lt by (simp only: word_le_nat_alt) (simp add: unat_of_nat)
  then have "from_size_align (of_nat ?b) (max 8 (te_align env)) = Some \<lparr>lay_size = of_nat ?b, lay_align = max 8 (te_align env)\<rparr>"
    using max_8_align [OF assms(1)] by (simp add: from_size_align_def from_size_align_unchecked_def not_less)
  then show ?thesis using r(1) sum lt en s(1) m
    by (simp add: table_layout_def calculate_allocation_def calculate_offsets_def overflowing_add_def expect_def)
qed

lemma alloc_fails_refused:
  assumes "pairs_ok env" "c \<noteq> 0" "alloc_fails env c e"
  shows "refused env (unat c)"
  using table_layout_exact [OF assms(1,2)] assms(3) by (auto simp: alloc_fails_def refused_def)

lemma grow_fails_no_room:
  assumes "pairs_ok env" "hm_inv hasher t" "grow_fails env additional t e"
  shows "no_room env (unat additional) t"
proof (cases "unat (hm_capacity t) < unat (hm_len t) + unat additional")
  case True
  let ?n = "unat (hm_len t) + unat additional"
  have "refused env (buckets_for ?n)" if "?n * 11 < 2 ^ 64" "alloc_fails env (of_nat (buckets_for ?n)) e"
  proof -
    have "unat (of_nat (buckets_for ?n) :: usize) = buckets_for ?n" "0 < buckets_for ?n"
      using buckets_for_bound [OF that(1)] by (simp_all add: unat_of_nat buckets_for_def)
    then show ?thesis using alloc_fails_refused [OF assms(1) _ that(2)] by (metis unat_0 less_irrefl)
  qed
  then show ?thesis using assms(3) True by (fastforce simp: grow_fails_def no_room_def Let_def not_le [symmetric])
next
  case False
  then have *: "rt_tag t" "unat (hm_capacity t) - unat (hm_len t) \<le> unat (hm_len t)" "rt_capacity t \<noteq> 0"
    "alloc_fails env (rt_capacity t * 2) e" using assms(3) by (simp_all add: grow_fails_def Let_def)
  have "\<not> blank t" using *(3) by (auto simp: blank_def rt_capacity_def)
  then have t: "rh t" "32 \<le> cap t" using assms(2) by (auto simp: hm_inv_def)
  have c: "unat (rt_capacity t * 2) = 2 * cap t"
    using shaped_index(4) [OF rhD(1) [OF t(1)]] rhD(6) [OF t(1)] by (simp add: unat_word_ariths)
  then have "rt_capacity t * 2 \<noteq> 0" using t(2) by (metis unat_0 mult_eq_0_iff not_numeral_le_zero zero_neq_numeral)
  from alloc_fails_refused [OF assms(1) this *(4)] show ?thesis using False * c by (simp add: no_room_def Let_def)
qed
lemma ex_table_layout: "table_layout ex_env 32 = Inr \<lparr>lay_size = 768, lay_align = 8\<rparr>"
proof -
  have "is_pow2 8" using npot_pow2 [of 3] by (simp add: is_pow2_def)
  then show ?thesis
    by (simp add: table_layout_def calculate_allocation_def calculate_offsets_def round_up_to_next_def overflowing_add_def
      checked_add_def checked_mul_def from_size_align_def from_size_align_unchecked_def is_power_of_two_def ex_env_def)
qed

lemma ex_pairs_ok: "pairs_ok ex_env"
proof -
  have "is_pow2 8" using npot_pow2 [of 3] by (simp add: is_pow2_def)
  then show ?thesis by (simp add: pairs_ok_def ex_env_def is_power_of_two_def)
qed

lemma ex_not_refused: "c \<le> 1024 \<Longrightarrow> \<not> refused ex_env c"
  by (simp add: refused_def table_bytes_def ex_env_def)

lemma buckets_for_1: "buckets_for (Suc 0) = 32"
  using npot_least [of 1 0] by (simp add: buckets_for_def)

lemma ex_sizes: "unat (hm_len (ex_table k v l w)) = 2" "unat (hm_capacity (ex_table k v l w)) = 29"
  by (simp_all add: hm_len_def hm_capacity_def ex_table_def rt_capacity_def usable_capacity_def)

subsection \<open>The hash map\<close>

text \<open>C24: Whatever sequence of lookups, insertions and removals is run on a new hash map, through collisions, Robin Hood
  displacement, backward shifts and growth, for every hash function: it ends, and it answers as the finite map does at every
  step, or it panics at an insertion, all operations before it having succeeded, where the table has to grow and
  eleven times the number of elements exceeds a word or the memory of exactly the buckets it needs cannot be had.\<close>

theorem hash_map_runs:
  assumes "pairs_ok env"
  shows "\<exists>t. hm_new env = Inr t \<and>
    (\<exists>r. run_ops (hm_op env hasher) ops t = Some r \<and>
      (case r of
         Inl e \<Rightarrow> \<exists>before k v after answers t'. ops = before @ OpInsert k v # after \<and>
           run_ops (hm_op env hasher) before t = Some (Inr (answers, t')) \<and> hm_inv hasher t' \<and> no_room env 1 t'
       | Inr (answers, t') \<Rightarrow> hm_inv hasher t' \<and> (answers, hm_map t') = run_spec map_spec ops Map.empty))"
proof -
  obtain t :: "('a, 'b) raw_table" where t: "hm_new env = Inr t" "blank t" using hm_new_blank by blast
  note b = blank_inv [OF t(2), of hasher]
  show ?thesis
  proof (cases rule: refinesD [OF hash_map.runs [of hasher env ops] conjunct1 [OF b]])
    case (1 e)
    then obtain ys x zs rs t' where f: "ops = ys @ x # zs" "run_ops (hm_op env hasher) ys t = Some (Inr (rs, t'))" "hm_inv hasher t'"
      "hm_op_fails env x t' e" by (auto simp: run_fails_def)
    then obtain k v where "x = OpInsert k v" "grow_fails env 1 t' e" by (cases x) auto
    then show ?thesis using t(1) 1(1) f grow_fails_no_room [OF assms f(3)] by fastforce
  next
    case (2 x t')
    then show ?thesis using t(1) b by auto
  qed
qed

theorem hash_map_runs_witness:
  "pairs_ok ex_env \<and>
    (\<exists>t t'. hm_new ex_env = Inr t \<and>
      run_ops (hm_op ex_env ex_hash) [OpInsert 5 True, OpGet 5, OpGet 6] t = Some (Inr ([None, Some True, None], t')) \<and>
      hm_inv ex_hash t' \<and> hm_map t' = [5 \<mapsto> True])"
proof -
  let ?ops = "[OpInsert 5 True, OpGet 5, OpGet 6] :: (usize, bool) map_op list"
  obtain t r where t: "hm_new ex_env = Inr t" "run_ops (hm_op ex_env ex_hash) ?ops t = Some r"
    and r: "case r of
       Inl e \<Rightarrow> \<exists>before k v after answers t'. ?ops = before @ OpInsert k v # after \<and>
         run_ops (hm_op ex_env ex_hash) before t = Some (Inr (answers, t')) \<and> hm_inv ex_hash t' \<and> no_room ex_env 1 t'
     | Inr (answers, t') \<Rightarrow> hm_inv ex_hash t' \<and> (answers, hm_map t') = run_spec map_spec ?ops Map.empty"
    using hash_map_runs [OF ex_pairs_ok, of ex_hash ?ops] by blast
  obtain answers t' where i: "r = Inr (answers, t')"
  proof (cases r)
    case (Inl e)
    then obtain before k v after answers t' where p: "?ops = before @ OpInsert k v # after"
      "run_ops (hm_op ex_env ex_hash) before t = Some (Inr (answers, t'))" "no_room ex_env 1 t'" using r by auto
    then have "before = []" by (auto simp: Cons_eq_append_conv append_eq_Cons_conv)
    then have "t' = t" using p(2) by (simp add: io_return_def)
    then have "hm_capacity t' = 0" "hm_len t' = 0" using t(1)
      by (auto simp: hm_new_def raw_table_new_def hm_capacity_def hm_len_def rt_capacity_def usable_capacity_def)
    then show ?thesis using p(3) ex_not_refused by (simp add: no_room_def buckets_for_1)
  qed (use that in auto)
  then show ?thesis using t r ex_pairs_ok by auto
qed

text \<open>C25: Asking for room ends. It keeps every entry and the invariant of Robin Hood hashing, and the capacity afterwards is
  enough for the length and the additional elements; or it panics, where the table has to grow, because it is too full or
  because it is half full and has seen a long probe, and eleven times the number of elements exceeds a word or the memory of exactly
  the buckets it needs cannot be had.\<close>

theorem reserve_keeps:
  assumes "pairs_ok env" "hm_inv hasher t"
  shows "\<exists>r. reserve env additional t = Some r \<and>
    (case r of
       Inl _ \<Rightarrow> no_room env (unat additional) t
     | Inr (_, t') \<Rightarrow> hm_inv hasher t' \<and> hm_map t' = hm_map t \<and>
         unat (hm_len t') + unat additional \<le> unat (hm_capacity t'))"
proof -
  obtain r where r: "reserve env additional t = Some r"
    "case r of Inl e \<Rightarrow> grow_fails env additional t e | Inr (_, t') \<Rightarrow> kept hasher t (unat additional) t'"
    using reserve_ok [OF assms(2)] by blast
  then show ?thesis using grow_fails_no_room [OF assms] by (cases r) (auto simp: kept_def hm_sizes)
qed

lemmas ex_ok = ex_table_ok(1) [of 5 6 True False, simplified] and ex_is = ex_table_ok(2) [of 5 6 True False, simplified]

theorem reserve_keeps_witness:
  "\<exists>t'. reserve ex_env 100 (ex_table 5 True 6 False) = Some (Inr ((), t')) \<and> hm_inv ex_hash t' \<and>
    hm_map t' = [5 \<mapsto> True, 6 \<mapsto> False] \<and> unat (hm_len t') + 100 \<le> unat (hm_capacity t')"
proof -
  have "buckets_for 102 \<le> 1024" using npot_least [of 112 10] by (simp add: buckets_for_def)
  then have "\<not> no_room ex_env 100 (ex_table 5 True 6 False)"
    using ex_not_refused by (simp add: no_room_def ex_sizes Let_def)
  moreover obtain r where "reserve ex_env 100 (ex_table 5 True 6 False) = Some r"
    "case r of
       Inl _ \<Rightarrow> no_room ex_env (unat (100 :: usize)) (ex_table 5 True 6 False)
     | Inr (_, t') \<Rightarrow> hm_inv ex_hash t' \<and> hm_map t' = [5 \<mapsto> True, 6 \<mapsto> False] \<and> unat (hm_len t') + unat (100 :: usize) \<le> unat (hm_capacity t')"
    using reserve_keeps [OF ex_pairs_ok ex_ok, of 100] unfolding ex_is by blast
  ultimately show ?thesis by (cases r) auto
qed

text \<open>C26: \<open>retain\<close> visits every entry exactly once, whatever is removed on the way: the map it leaves has exactly the
  entries for which the predicate answered true, with the values the predicate left.\<close>

theorem retain_filters:
  assumes "hm_inv hasher t"
  shows "\<exists>t'. hm_retain f t = Some (Inr ((), t')) \<and> hm_inv hasher t' \<and>
    hm_map t' = (\<lambda>k. case hm_map t k of None \<Rightarrow> None | Some v \<Rightarrow> if fst (f k v) then Some (snd (f k v)) else None)"
  using hm_retain_ok [OF assms, of f] by (auto simp: retain_map_def [abs_def])

theorem retain_filters_witness:
  "\<exists>t'. hm_retain (\<lambda>k v. (v, \<not> v)) (ex_table 5 True 6 False) = Some (Inr ((), t')) \<and> hm_inv ex_hash t' \<and>
    hm_map t' = [5 \<mapsto> False]"
proof -
  have "(\<lambda>k. case [5 \<mapsto> True, 6 \<mapsto> False] k of None \<Rightarrow> None | Some v \<Rightarrow> if fst (v, \<not> v) then Some (snd (v, \<not> v)) else None) =
      [(5::usize) \<mapsto> False]" by (auto simp: fun_eq_iff)
  then show ?thesis
    using retain_filters [OF ex_ok, of "\<lambda>k v. (v, \<not> v)"] unfolding ex_is by simp
qed

text \<open>C30: A place for in-place insertion that is dropped unused: when the place of a vacant key is an empty bucket, every
  key is still found; when it is a full bucket, making the place moves the element of that bucket forward, where it is still found, and
  dropping the place empties the bucket without moving the element back, so that its key can no longer be found although
  the table still holds it.\<close>

theorem place_drop_loses_key:
  assumes "hm_inv hasher t" "hm_entry env hasher k t = Some (Inr (VacantEntry h key elem, t1))"
  shows "\<exists>i t2 t3. make_place uninit (VacantEntry h key elem) t1 = Some (Inr (i, t2)) \<and>
    place_drop i t2 = Some (Inr ((), t3)) \<and> hm_map t3 = hm_map t \<and>
    (case rt_slots t1 ! unat i of
       None \<Rightarrow> \<forall>q. hm_get hasher q t3 = Some (hm_map t q)
     | Some (_, k', v') \<Rightarrow> k' \<noteq> k \<and> hm_map t k' = Some v' \<and>
         hm_get hasher k' t2 = Some (Some v') \<and> hm_get hasher k' t3 = Some None)"
proof -
  have e: "hm_inv hasher t1" "hm_map t1 = hm_map t" "entry_for hasher k (VacantEntry h key elem) t1" "key = k"
    using hm_entry_ok [OF assms(1), of env k] assms(2) by (auto simp: entry_for_def)
  show ?thesis
  proof (cases elem)
    case (NoElem i d)
    have "rt_slots t1 ! unat i = None" using e(3) NoElem by (simp add: entry_for_def place_def)
    then show ?thesis using place_in_gap [OF e(1), of k h i d uninit] e NoElem hm_get_map by fastforce
  next
    case (NeqElem i d)
    then show ?thesis using place_in_full [OF e(1), of k h i d uninit] e by fastforce
  qed
qed

theorem place_drop_loses_key_witness:
  "hm_inv ex_hash (ex_table 5 True 6 False) \<and> hm_get ex_hash 6 (ex_table 5 True 6 False) = Some (Some False) \<and>
    hm_entry ex_env ex_hash 37 (ex_table 5 True 6 False) =
      Some (Inr (VacantEntry (make_hash ex_hash 37) 37 (NeqElem 6 0), ex_table 5 True 6 False)) \<and>
    (\<exists>i t2 t3. make_place True (VacantEntry (make_hash ex_hash 37) 37 (NeqElem 6 0)) (ex_table 5 True 6 False) = Some (Inr (i, t2)) \<and>
      place_drop i t2 = Some (Inr ((), t3)) \<and> hm_map t3 6 = Some False \<and> hm_get ex_hash 6 t3 = Some None)"
proof -
  have e: "hm_entry ex_env ex_hash 37 (ex_table 5 True 6 False) =
      Some (Inr (VacantEntry (make_hash ex_hash 37) 37 (NeqElem 6 0), ex_table 5 True 6 False))" by code_simp
  have s: "rt_slots (ex_table 5 True 6 False) ! 6 = Some (make_hash ex_hash 6, 6, False)" by code_simp
  obtain i t2 t3 where p: "make_place True (VacantEntry (make_hash ex_hash 37) 37 (NeqElem 6 0)) (ex_table 5 True 6 False) = Some (Inr (i, t2))"
    "place_drop i t2 = Some (Inr ((), t3))" "hm_map t3 = [5 \<mapsto> True, 6 \<mapsto> False]"
    "case rt_slots (ex_table 5 True 6 False) ! unat i of
       None \<Rightarrow> \<forall>q. hm_get ex_hash q t3 = Some ([5 \<mapsto> True, 6 \<mapsto> False] q)
     | Some (_, k', v') \<Rightarrow> k' \<noteq> 37 \<and> [5 \<mapsto> True, 6 \<mapsto> False] k' = Some v' \<and>
         hm_get ex_hash k' t2 = Some (Some v') \<and> hm_get ex_hash k' t3 = Some None"
    using place_drop_loses_key [OF ex_ok e, of True] unfolding ex_is by blast
  have "i = 6" using p(1) by (auto simp: make_place_def)
  then have "hm_get ex_hash 6 t3 = Some None" using p(4) s by simp
  then show ?thesis using p(1-3) e ex_ok hm_get_map [OF ex_ok] unfolding ex_is by auto
qed

subsection \<open>The hash set\<close>

text \<open>C28: The iterators of two hash sets yield every element of the union, intersection, difference and symmetric
  difference exactly once, the comparisons decide equality, inclusion and disjointness, whatever the two hash
  functions are, and none of them runs forever.\<close>

theorem set_algebra:
  assumes "hm_inv h1 s1" "hm_inv h2 s2"
  shows "yields (hs_union h1 s1 s2) (hs_set s1 \<union> hs_set s2) \<and>
    yields (hs_intersection h2 s1 s2) (hs_set s1 \<inter> hs_set s2) \<and>
    yields (hs_difference h2 s1 s2) (hs_set s1 - hs_set s2) \<and>
    yields (hs_symmetric_difference h1 h2 s1 s2) ((hs_set s1 - hs_set s2) \<union> (hs_set s2 - hs_set s1)) \<and>
    hs_eq h2 s1 s2 = Some (hs_set s1 = hs_set s2) \<and>
    is_subset h2 s1 s2 = Some (hs_set s1 \<subseteq> hs_set s2) \<and>
    is_superset h1 s1 s2 = Some (hs_set s2 \<subseteq> hs_set s1) \<and>
    is_disjoint h2 s1 s2 = Some (hs_set s1 \<inter> hs_set s2 = {})"
  using hs_union_ok [OF assms] hs_intersection_ok [OF assms] hs_difference_ok [OF assms]
    hs_symmetric_difference_ok [OF assms] hs_eq_ok [OF assms] is_subset_ok [OF assms] is_subset_ok [OF assms(2,1)]
    is_disjoint_ok [OF assms]
  by (simp add: is_superset_def)

theorem set_algebra_witness:
  "hs_set (ex_table 5 () 6 ()) = {5, 6} \<and> hs_set (ex_table 6 () 7 ()) = {6, 7} \<and>
    yields (hs_union ex_hash (ex_table 5 () 6 ()) (ex_table 6 () 7 ())) {5, 6, 7} \<and>
    yields (hs_symmetric_difference ex_hash ex_hash (ex_table 5 () 6 ()) (ex_table 6 () 7 ())) {5, 7} \<and>
    hs_eq ex_hash (ex_table 5 () 6 ()) (ex_table 6 () 7 ()) = Some False"
proof -
  have m: "hs_set (ex_table 5 () 6 ()) = {5, 6}" "hs_set (ex_table 6 () 7 ()) = {6, 7}"
    using ex_table_ok(2) [of 5 6 "()" "()"] ex_table_ok(2) [of 6 7 "()" "()"] by (auto simp: hs_set_def)
  have u: "{5, 6} \<union> {6, 7} = {5, 6, 7 :: usize}" "({5, 6} - {6, 7}) \<union> ({6, 7} - {5, 6}) = {5, 7 :: usize}" by auto
  have "5 \<notin> {6, 7 :: usize}" by simp
  then have ne: "{5, 6} \<noteq> {6, 7 :: usize}" by blast
  show ?thesis
    using set_algebra [of ex_hash "ex_table 5 () 6 ()" ex_hash "ex_table 6 () 7 ()"] ex_table_ok(1) [of 5 6 "()" "()"]
      ex_table_ok(1) [of 6 7 "()" "()"] ne
    unfolding m u by auto
qed

subsection \<open>The memory of a table\<close>

text \<open>The bytes of a value.\<close>

definition cell :: "usize \<Rightarrow> usize \<Rightarrow> nat set" where
  "cell a n = {unat a ..< unat a + unat n}"

lemma cell_disjoint: "unat a + unat n \<le> unat b \<Longrightarrow> cell a n \<inter> cell b m = {}"
  by (auto simp: cell_def)

text \<open>The offsets of a table that passes its checks.\<close>

lemma table_layout_offsets:
  assumes "table_layout env c = Inr l"
  obtains po where "\<forall>i. raw_bucket_at env c i = Inr (i * 8, po + i * te_size env)" "unat c * 8 \<le> unat po"
    "unat (lay_size l) = unat po + unat c * unat (te_size env)" "unat (te_align env) dvd unat po" "lay_align l = max 8 (te_align env)"
proof -
  let ?s = "te_size env"
  obtain po en ofl b where o: "calculate_offsets (c * 8) (c * ?s) (te_align env) = Inr (po, en, ofl)" "\<not> ofl"
    and b: "checked_add 8 ?s = Some b" "checked_mul c b \<noteq> None" "the (checked_mul c b) \<le> en"
    and l: "from_size_align en (max 8 (te_align env)) = Some l"
    using assms(1) by (auto simp: table_layout_def calculate_allocation_def and_then_eq_Inr_iff expect_def split: option.splits if_splits)
  have ub: "unat b = 8 + unat ?s" using b(1) by (auto simp: checked_add_def unat_word_ariths split: if_splits)
  have cb: "unat c * unat b < 2 ^ 64" "c * b \<le> en" using b(2,3) by (auto simp: checked_mul_def split: if_splits)
  then have ge: "unat c * unat b \<le> unat en" by (simp add: word_le_nat_alt unat_word_ariths)
  have cs: "unat (c * ?s) = unat c * unat ?s" using cb(1) ub by (simp add: unat_word_ariths distrib_left)
  have "round_up_to_next (c * 8) (te_align env) = Inr po" "overflowing_add po (c * ?s) = (en, ofl)"
    using o(1) by (auto simp: calculate_offsets_def and_then_eq_Inr_iff split: prod.splits)
  note r = round_up_dvd [OF this(1)] and ov = this(2)
  have en: "unat en = unat po + unat c * unat ?s" using ov o(2) cs by (auto simp: overflowing_add_def unat_word_ariths)
  have "unat c * 8 \<le> unat po" using ge en ub by (simp add: distrib_left)
  moreover have "lay_size l = en" "lay_align l = max 8 (te_align env)"
    using l by (auto simp: from_size_align_def from_size_align_unchecked_def split: if_splits)
  moreover have "raw_bucket_at env c i = Inr (i * 8, po + i * ?s)" for i using o(1) by (simp add: raw_bucket_at_def)
  ultimately show ?thesis using that r en by blast
qed

text \<open>C27: When the checks of a new table pass, the single overflow test covers every rounding and product: the hash and the
  pair of every bucket lie inside the allocation and are aligned, and the cells of all hashes and all pairs are
  disjoint from each other.\<close>

theorem bucket_cells_inside:
  assumes "table_layout env c = Inr l" "unat (te_align env) dvd unat (te_size env)"
  shows "lay_align l = max 8 (te_align env) \<and>
    (\<exists>h p. (\<forall>i < c. raw_bucket_at env c i = Inr (h i, p i) \<and>
        unat (h i) + 8 \<le> unat (lay_size l) \<and> unat (p i) + unat (te_size env) \<le> unat (lay_size l) \<and>
        8 dvd unat (h i) \<and> unat (te_align env) dvd unat (p i)) \<and>
      (\<forall>i < c. \<forall>j < c. cell (h i) 8 \<inter> cell (p j) (te_size env) = {} \<and>
        (i \<noteq> j \<longrightarrow> cell (h i) 8 \<inter> cell (h j) 8 = {} \<and> cell (p i) (te_size env) \<inter> cell (p j) (te_size env) = {})))"
proof -
  let ?s = "te_size env"
  obtain po where po: "\<forall>i. raw_bucket_at env c i = Inr (i * 8, po + i * ?s)" "unat c * 8 \<le> unat po"
    "unat (lay_size l) = unat po + unat c * unat ?s" "unat (te_align env) dvd unat po" "lay_align l = max 8 (te_align env)"
    by (rule table_layout_offsets [OF assms(1)])
  let ?h = "\<lambda>i :: usize. i * 8" and ?p = "\<lambda>i. po + i * ?s"
  have lt: "unat (lay_size l) < 2 ^ 64" using unsigned_less [of "lay_size l"] by simp
  have le: "Suc (unat i) * n \<le> unat c * n" if "i < c" for i :: usize and n
    using that by (intro mult_le_mono1) (simp add: word_less_nat_alt)
  have h: "unat (?h i) = unat i * 8" if "i < c" for i using le [OF that, of 8] po(2,3) lt by (simp add: unat_word_ariths)
  have p: "unat (?p i) = unat po + unat i * unat ?s" if "i < c" for i
    using le [OF that, of "unat ?s"] po(3) lt by (simp add: unat_word_ariths)
  have order: "cell (?h i) 8 \<inter> cell (?h j) 8 = {}" "cell (?p i) ?s \<inter> cell (?p j) ?s = {}" if "i < j" "j < c" for i j
  proof -
    have "Suc (unat i) * n \<le> unat j * n" for n using that(1) by (intro mult_le_mono1) (simp add: word_less_nat_alt)
    note n = this [of 8] this [of "unat ?s"]
    have "i < c" using that by simp
    then show "cell (?h i) 8 \<inter> cell (?h j) 8 = {}" "cell (?p i) ?s \<inter> cell (?p j) ?s = {}"
      using n h p that(2) by (auto intro!: cell_disjoint)
  qed
  have cross: "cell (?h i) 8 \<inter> cell (?p j) ?s = {}" if "i < c" "j < c" for i j
    using le [OF that(1), of 8] po(2) h [OF that(1)] p [OF that(2)] by (intro cell_disjoint) simp
  have inside: "unat (?h i) + 8 \<le> unat (lay_size l)" "unat (?p i) + unat ?s \<le> unat (lay_size l)" "8 dvd unat (?h i)"
    "unat (te_align env) dvd unat (?p i)" if "i < c" for i
    using le [OF that, of 8] le [OF that, of "unat ?s"] po(2-4) assms(2) h [OF that] p [OF that] by simp_all
  have apart: "cell (?h i) 8 \<inter> cell (?h j) 8 = {} \<and> cell (?p i) ?s \<inter> cell (?p j) ?s = {}" if "i < c" "j < c" "i \<noteq> j" for i j
    using order [of i j] order [of j i] that by (cases "i < j") (auto simp: Int_commute)
  show ?thesis using po(1,5) inside cross apart by (intro conjI exI [of _ ?h] exI [of _ ?p]) auto
qed

theorem bucket_cells_inside_witness:
  "table_layout ex_env 32 = Inr \<lparr>lay_size = 768, lay_align = 8\<rparr> \<and>
    (\<exists>h p. (\<forall>i < 32. raw_bucket_at ex_env 32 i = Inr (h i, p i) \<and>
        unat (h i) + 8 \<le> 768 \<and> unat (p i) + unat (te_size ex_env) \<le> 768 \<and>
        8 dvd unat (h i) \<and> unat (te_align ex_env) dvd unat (p i)) \<and>
      (\<forall>i < 32. \<forall>j < 32. cell (h i) 8 \<inter> cell (p j) (te_size ex_env) = {} \<and>
        (i \<noteq> j \<longrightarrow> cell (h i) 8 \<inter> cell (h j) 8 = {} \<and> cell (p i) (te_size ex_env) \<inter> cell (p j) (te_size ex_env) = {})))"
proof -
  have "unat (te_align ex_env) dvd unat (te_size ex_env)" by (simp add: ex_env_def)
  from bucket_cells_inside [OF ex_table_layout this] show ?thesis using ex_table_layout by simp
qed

end
