(* ===== verification/HashDrop.thy ===== *)
theory HashDrop
  imports HashProps
begin

text \<open>
  The life of the elements of a table, \<open>std/src/collections/hash/table.rs\<close>: moving them out with \<open>into_iter\<close>, which leaves
  their hashes in place and only counts them off, dropping what is left, freeing the memory, and cloning. The
  result of dropping is the list of the pairs dropped, in order.
\<close>

subsection \<open>Moving out, dropping, cloning\<close>

definition into_iter_next ::
  "('k, 'v) raw_table \<times> raw_buckets \<Rightarrow> ((usize \<times> 'k \<times> 'v) option \<times> (('k, 'v) raw_table \<times> raw_buckets)) option" where
  "into_iter_next s =
     (case s of (t, rb) \<Rightarrow>
        map_option (\<lambda>(r, rb).
          case r of
            None \<Rightarrow> (None, (t, rb))
          | Some i \<Rightarrow> (bucket_peek t i, (t\<lparr>rt_size := rt_size t - 1\<rparr>, rb))) (raw_buckets_next t rb))"

partial_function (option) rev_drop_loop ::
  "('k, 'v) raw_table \<Rightarrow> usize \<Rightarrow> usize \<Rightarrow> (usize \<times> 'k \<times> 'v) list \<Rightarrow> (usize \<times> 'k \<times> 'v) list option" where
  "rev_drop_loop t idx elems_left dropped =
     (if elems_left \<noteq> 0
      then (case bucket_peek t (idx - 1) of
              Some e \<Rightarrow> rev_drop_loop t (idx - 1) (elems_left - 1) (dropped @ [e])
            | None \<Rightarrow> rev_drop_loop t (idx - 1) elems_left dropped)
      else Some dropped)"

definition rev_drop_buckets :: "('k, 'v) raw_table \<Rightarrow> (usize \<times> 'k \<times> 'v) list option" where
  "rev_drop_buckets t = rev_drop_loop t (rt_capacity t) (rt_size t) []"

text \<open>What \<open>drop\<close> gives back to the heap.\<close>

definition drop_layout :: "table_env \<Rightarrow> usize \<Rightarrow> layout outcome" where
  "drop_layout env capacity =
     and_then (calculate_allocation (capacity * 8) 8 (capacity * te_size env) (te_align env)) (\<lambda>(alignment, sz, _).
       expect ''called `Option::unwrap()` on a `None` value'' (from_size_align sz alignment))"

definition table_drop ::
  "table_env \<Rightarrow> bool \<Rightarrow> ('k, 'v) raw_table \<Rightarrow> ((usize \<times> 'k \<times> 'v) list \<times> layout option) outcome option" where
  "table_drop env needs_drop t =
     (if rt_capacity t = 0 then Some (Inr ([], None))
      else map_option (\<lambda>dropped. and_then (drop_layout env (rt_capacity t)) (\<lambda>l. Inr (dropped, Some l)))
             (if needs_drop then rev_drop_buckets t else Some []))"

primrec clone_slots :: "('k \<Rightarrow> 'k) \<Rightarrow> ('v \<Rightarrow> 'v) \<Rightarrow> ('k, 'v) slot list \<Rightarrow> ('k, 'v) slot list" where
  "clone_slots ck cv [] = []"
| "clone_slots ck cv (s # ss) = map_option (\<lambda>(h, k, v). (h, ck k, cv v)) s # clone_slots ck cv ss"

definition table_clone :: "table_env \<Rightarrow> ('k \<Rightarrow> 'k) \<Rightarrow> ('v \<Rightarrow> 'v) \<Rightarrow> ('k, 'v) raw_table \<Rightarrow> ('k, 'v) raw_table outcome" where
  "table_clone env ck cv t =
     and_then (raw_table_new env (rt_capacity t)) (\<lambda>new_ht.
       Inr (new_ht\<lparr>rt_slots := clone_slots ck cv (rt_slots t), rt_size := rt_size t, rt_tag := rt_tag t\<rparr>))"

subsection \<open>Every element once\<close>

definition elems_upto :: "('k, 'v) raw_table \<Rightarrow> nat \<Rightarrow> (usize \<times> 'k \<times> 'v) list" where
  "elems_upto t i = List.map_filter id (take i (rt_slots t))"

lemma elems_upto_step:
  "i < cap t \<Longrightarrow> elems_upto t (Suc i) = (case rt_slots t ! i of None \<Rightarrow> elems_upto t i | Some e \<Rightarrow> elems_upto t i @ [e])"
  by (simp add: elems_upto_def take_Suc_conv_app_nth map_filter_def split: option.splits)

text \<open>Dropping from the back drops the last of the elements, as many as are left.\<close>

lemma rev_drop_loop_ok:
  assumes "cap t \<le> 2 ^ 60"
  shows "unat idx \<le> cap t \<Longrightarrow> unat left \<le> length (elems_upto t (unat idx)) \<Longrightarrow>
    rev_drop_loop t idx left acc = Some (acc @ take (unat left) (rev (elems_upto t (unat idx))))"
proof (induction "unat idx" arbitrary: idx left acc)
  case 0
  then have "left = 0" by (simp add: elems_upto_def map_filter_simps unat_eq_zero)
  then show ?case by (subst rev_drop_loop.simps) simp
next
  case (Suc i)
  show ?case
  proof (cases "left = 0")
    case True
    then show ?thesis by (subst rev_drop_loop.simps) simp
  next
    case False
    have "idx \<noteq> 0" using Suc.hyps(2) by auto
    then have i: "unat (idx - 1) = i" using Suc.hyps(2) by (simp add: unat_minus_one)
    have lt: "i < cap t" using Suc.hyps(2) Suc.prems(1) by simp
    note e = elems_upto_step [OF lt]
    show ?thesis
    proof (cases "rt_slots t ! i")
      case None
      then have "elems_upto t (unat idx) = elems_upto t i" using e Suc.hyps(2) by simp
      then show ?thesis using Suc.hyps(1) [of "idx - 1" left] Suc.prems(2) i lt False None
        by (subst rev_drop_loop.simps) (simp add: bucket_peek_def)
    next
      case (Some x)
      then have u: "elems_upto t (unat idx) = elems_upto t i @ [x]" using e Suc.hyps(2) by simp
      have l: "unat left = Suc (unat (left - 1))" using False by (simp add: unat_minus_one unat_gt_0)
      have "rev_drop_loop t (idx - 1) (left - 1) (acc @ [x]) =
          Some ((acc @ [x]) @ take (unat (left - 1)) (rev (elems_upto t i)))"
        using Suc.hyps(1) [of "idx - 1" "left - 1"] Suc.prems(2) i lt u l by simp
      then show ?thesis using False Some i u l by (subst rev_drop_loop.simps) (simp add: bucket_peek_def)
    qed
  qed
qed

text \<open>\<open>n\<close> elements moved out, from the front.\<close>

primrec into_iter_steps ::
  "nat \<Rightarrow> ('k, 'v) raw_table \<times> raw_buckets \<Rightarrow> ((usize \<times> 'k \<times> 'v) list \<times> (('k, 'v) raw_table \<times> raw_buckets)) option" where
  "into_iter_steps 0 s = Some ([], s)"
| "into_iter_steps (Suc n) s =
     (case into_iter_next s of
        None \<Rightarrow> None
      | Some (None, s') \<Rightarrow> Some ([], s')
      | Some (Some e, s') \<Rightarrow> map_option (\<lambda>(es, s). (e # es, s)) (into_iter_steps n s'))"

lemma into_iter_steps_ok:
  fixes t :: "('k, 'v) raw_table"
  assumes "cap t \<le> 2 ^ 60"
  shows "unat (rb_left rb) = length (elems_from t (unat (rb_idx rb))) \<Longrightarrow> rt_size t = rb_left rb \<Longrightarrow>
    n \<le> length (elems_from t (unat (rb_idx rb))) \<Longrightarrow>
    \<exists>rb'. into_iter_steps n (t, rb) = Some (take n (elems_from t (unat (rb_idx rb))), (t\<lparr>rt_size := rt_size t - of_nat n\<rparr>, rb'))"
  using assms
proof (induction n arbitrary: t rb)
  case (Suc n)
  then obtain e es where es: "elems_from t (unat (rb_idx rb)) = e # es" by (cases "elems_from t (unat (rb_idx rb))") auto
  obtain i where i: "next_full t (rb_idx rb) = Some i" "unat i < cap t" "rt_slots t ! unat i = Some e"
    "elems_from t (Suc (unat i)) = es" by (rule next_full_ok [OF es Suc.prems(4)])
  have n1: "unat (i + 1) = Suc (unat i)" using i(2) Suc.prems(4) by (simp add: unat_word_ariths)
  have l: "unat (rb_left rb) = Suc (length es)" using Suc.prems(1) es by simp
  then have l0: "rb_left rb \<noteq> 0" by auto
  then have l': "unat (rb_left rb - 1) = length es" using l by (simp add: unat_minus_one)
  let ?rb = "\<lparr>rb_idx = i + 1, rb_left = rb_left rb - 1\<rparr>" and ?t = "t\<lparr>rt_size := rt_size t - 1\<rparr>"
  have same: "elems_from ?t j = elems_from t j" for j by (simp add: elems_from_def)
  have step: "into_iter_next (t, rb) = Some (Some e, (?t, ?rb))"
    using i(1,3) l0 by (simp add: into_iter_next_def raw_buckets_next_def bucket_peek_def)
  obtain rb' where "into_iter_steps n (?t, ?rb) =
      Some (take n (elems_from ?t (unat (rb_idx ?rb))), (?t\<lparr>rt_size := rt_size ?t - of_nat n\<rparr>, rb'))"
    using Suc.IH [of ?rb ?t] Suc.prems(2-4) same n1 l' i(4) es by auto
  then show ?case using step es same n1 i(4) by (simp add: algebra_simps)
qed simp

text \<open>The memory is given back with the layout that it was asked for with.\<close>

lemma drop_layout_same: "table_layout env c = Inr l \<Longrightarrow> drop_layout env c = Inr l"
  by (auto simp: table_layout_def drop_layout_def and_then_eq_Inr_iff split: if_splits)

lemma consumed_then_dropped:
  assumes "hm_inv hasher t" "n \<le> length (elems t)"
  obtains t' rb where "into_iter_steps n (t, raw_buckets_of t) = Some (take n (elems t), (t', rb))"
    "rt_capacity t' = rt_capacity t"
    "rt_capacity t \<noteq> 0 \<Longrightarrow> rev_drop_buckets t' = Some (rev (drop n (elems t)))"
proof -
  note z = hm_inv_size [OF assms(1)]
  let ?t = "t\<lparr>rt_size := rt_size t - of_nat n\<rparr>"
  obtain rb where run: "into_iter_steps n (t, raw_buckets_of t) = Some (take n (elems t), (?t, rb))"
  proof -
    have i: "unat (rb_idx (raw_buckets_of t)) = 0" "rb_left (raw_buckets_of t) = rt_size t" by (simp_all add: raw_buckets_of_def)
    then show ?thesis using that into_iter_steps_ok [OF z(1), of "raw_buckets_of t" n, unfolded i elems_from_0, OF z(2) refl assms(2)]
      by blast
  qed
  have c: "rt_capacity ?t = rt_capacity t" by (simp add: rt_capacity_def)
  have "rev_drop_buckets ?t = Some (rev (drop n (elems t)))" if "rt_capacity t \<noteq> 0"
  proof -
    have "rh t" using assms(1) that by (auto simp: hm_inv_def blank_def rt_capacity_def)
    then have cap: "unat (rt_capacity ?t) = cap ?t" using c shaped_index(4) [OF rhD(1)] by simp
    have e: "elems_upto ?t (cap ?t) = elems t" by (simp add: elems_upto_def elems_def)
    have "unat (rt_size t) < 2 ^ 64" using unsigned_less [of "rt_size t"] by simp
    then have "unat (of_nat n :: usize) = n" using assms(2) z(2) by (simp add: unat_of_nat)
    then have l: "unat (rt_size ?t) = length (elems t) - n" using assms(2) z(2)
      by (simp add: unat_sub word_le_nat_alt)
    have "rev_drop_buckets ?t = Some (take (length (elems t) - n) (rev (elems t)))"
      using rev_drop_loop_ok [of ?t "rt_capacity ?t" "rt_size ?t" "[]"] z(1) cap e l by (simp add: rev_drop_buckets_def)
    then show ?thesis by (simp add: rev_drop)
  qed
  then show thesis using that run c by blast
qed

text \<open>C29: A table that is consumed and then dropped, the case that the unsafe code has to get right: whatever number of
  elements \<open>into_iter\<close> has moved out, their hashes still in place, the drop of the rest drops exactly the elements
  that were not moved out, each once and from the back, and gives the memory back with the layout it was asked for with.
  So no element is dropped twice and none is leaked.\<close>

theorem consumed_and_freed:
  assumes "hm_inv hasher t" "n \<le> length (elems t)" "table_layout env (rt_capacity t) = Inr l" "rt_capacity t \<noteq> 0"
  shows "\<exists>t' rb. into_iter_steps n (t, raw_buckets_of t) = Some (take n (elems t), (t', rb)) \<and>
    table_drop env True t' = Some (Inr (rev (drop n (elems t)), Some l))"
proof -
  obtain t' rb where "into_iter_steps n (t, raw_buckets_of t) = Some (take n (elems t), (t', rb))"
    "rt_capacity t' = rt_capacity t" "rev_drop_buckets t' = Some (rev (drop n (elems t)))"
    using consumed_then_dropped [OF assms(1,2)] assms(4) by metis
  then show ?thesis using drop_layout_same [OF assms(3)] assms(4) by (simp add: table_drop_def and_then_def)
qed

lemma ex_elems: "elems (ex_table 5 True 6 False) = [(make_hash ex_hash 5, 5, True), (make_hash ex_hash 6, 6, False)]"
proof -
  have "replicate 32 N = replicate 5 N @ [N, N] @ replicate 25 N" for N :: "(usize, bool) slot"
    using replicate_add [of 5 27 N] replicate_add [of 2 25 N] by (simp add: numeral_2_eq_2)
  then show ?thesis by (simp add: elems_def ex_table_def map_filter_def list_update_append) auto
qed

theorem consumed_and_freed_witness:
  "\<exists>t' rb. into_iter_steps 1 (ex_table 5 True 6 False, raw_buckets_of (ex_table 5 True 6 False)) =
      Some ([(make_hash ex_hash 5, 5, True)], (t', rb)) \<and>
    table_drop ex_env True t' = Some (Inr ([(make_hash ex_hash 6, 6, False)], Some \<lparr>lay_size = 768, lay_align = 8\<rparr>))"
proof -
  have "hm_inv ex_hash (ex_table 5 True 6 False)" by (rule ex_table_ok) simp_all
  moreover have c: "rt_capacity (ex_table 5 True 6 False) = 32" by (simp add: rt_capacity_def ex_table_def)
  ultimately show ?thesis
    using consumed_and_freed [of ex_hash "ex_table 5 True 6 False" 1 ex_env "\<lparr>lay_size = 768, lay_align = 8\<rparr>"] by (simp add: ex_elems ex_table_layout)
qed

subsection \<open>Clones\<close>

lemma clone_slots_map: "clone_slots ck cv ss = map (map_option (\<lambda>(h, k, v). (h, ck k, cv v))) ss"
  by (induction ss) auto

text \<open>A clone has the elements of the original, at the same places: keys that are equal to their clones are found with
  clones of their values.\<close>

lemma elems_cloned:
  "rt_slots t' = clone_slots ck cv (rt_slots t) \<Longrightarrow> elems t' = map (\<lambda>(h, k, v). (h, ck k, cv v)) (elems t)"
  by (simp add: elems_def clone_slots_map map_filter_def filter_map o_def) auto

theorem table_clone_same:
  assumes "table_clone env id cv t = Inr t'"
  shows "hm_map t' = map_option cv \<circ> hm_map t"
proof -
  have "elems t' = map (\<lambda>(h, k, v). (h, k, cv v)) (elems t)"
    using assms elems_cloned [of t' id cv t] by (auto simp: table_clone_def and_then_eq_Inr_iff)
  then have "map snd (elems t') = map (\<lambda>(k, v). (k, cv v)) (map snd (elems t))" by (simp add: case_prod_beta)
  then show ?thesis by (simp only: hm_map_def map_of_map)
qed

end
