(* ===== verification/IoCursor.thy ===== *)
theory IoCursor
  imports IoSink
begin

text \<open>
  \<open>std/src/io/cursor.rs\<close>: a position in a sequence of bytes, read, written and moved, and seeking through the
  buffering wrappers of \<open>std/src/io/buffered.rs\<close>. A vector that would outgrow \<open>isize::MAX\<close> bytes panics.
\<close>

subsection \<open>Cursors\<close>

datatype seek_from = SeekStart u64 | SeekEnd i64 | SeekCurrent i64

record cursor =
  cu_inner :: "u8 list"
  cu_pos :: u64

definition cursor_new :: "u8 list \<Rightarrow> cursor" where
  "cursor_new inner = \<lparr>cu_inner = inner, cu_pos = 0\<rparr>"

definition set_position :: "u64 \<Rightarrow> cursor \<Rightarrow> cursor" where
  "set_position pos c = c\<lparr>cu_pos := pos\<rparr>"

definition checked_sub_u64 :: "u64 \<Rightarrow> u64 \<Rightarrow> u64 option" where
  "checked_sub_u64 a b = (if b \<le> a then Some (a - b) else None)"

definition cursor_seek :: "seek_from \<Rightarrow> (cursor, u64 io_result) io" where
  "cursor_seek style c =
     (let move = (\<lambda>base_pos offset.
            let new_pos = (if 0 \<le> sint offset then checked_add base_pos offset else checked_sub_u64 base_pos (- offset)) in
            case new_pos of
              Some n \<Rightarrow> io_return (Inr n) (c\<lparr>cu_pos := n\<rparr>)
            | None \<Rightarrow> io_return (Inl (error_new InvalidInput ''invalid seek to a negative or overflowing position'')) c)
      in case style of
           SeekStart n \<Rightarrow> io_return (Inr n) (c\<lparr>cu_pos := n\<rparr>)
         | SeekEnd n \<Rightarrow> move (of_nat (length (cu_inner c))) n
         | SeekCurrent n \<Rightarrow> move (cu_pos c) n)"

definition cursor_fill_buf :: "(cursor, u8 list io_result) io" where
  "cursor_fill_buf c =
     (let amt = min (cu_pos c) (of_nat (length (cu_inner c))) in
      if unat amt > length (cu_inner c) then slice_panic c else io_return (Inr (drop (unat amt) (cu_inner c))) c)"

definition cursor_consume :: "nat \<Rightarrow> (cursor, unit) io" where
  "cursor_consume amt = io_state (\<lambda>c. ((), c\<lparr>cu_pos := cu_pos c + of_nat amt\<rparr>))"

definition cursor_buf_read :: "cursor buf_read" where
  "cursor_buf_read = \<lparr>fill_buf = cursor_fill_buf, consume = cursor_consume\<rparr>"

text \<open>A computation on a temporary slice.\<close>

definition on_slice :: "'a \<Rightarrow> ('a, 'r) io \<Rightarrow> ('d, 'r \<times> 'a) io" where
  "on_slice s c d =
     (case c s of None \<Rightarrow> None | Some (Inl e) \<Rightarrow> Some (Inl e) | Some (Inr (r, s')) \<Rightarrow> Some (Inr ((r, s'), d)))"

definition cursor_read :: "cursor reader" where
  "cursor_read buf = io_bind cursor_fill_buf (\<lambda>r.
     case r of
       Inl e \<Rightarrow> io_return (Inl e, buf)
     | Inr avail \<Rightarrow> io_bind (on_slice avail (slice_read buf)) (\<lambda>((r, buf), _).
         case r of
           Inl e \<Rightarrow> io_return (Inl e, buf)
         | Inr n \<Rightarrow> io_then (cursor_consume n) (io_return (Inr n, buf))))"

definition cursor_read_exact :: "u8 list \<Rightarrow> (cursor, unit io_result \<times> u8 list) io" where
  "cursor_read_exact buf = io_bind cursor_fill_buf (\<lambda>r.
     case r of
       Inl e \<Rightarrow> io_return (Inl e, buf)
     | Inr avail \<Rightarrow> io_bind (on_slice avail (slice_read_exact buf)) (\<lambda>((r, buf'), _).
         case r of
           Inl e \<Rightarrow> io_return (Inl e, buf')
         | Inr _ \<Rightarrow> io_then (cursor_consume (length buf)) (io_return (Inr (), buf'))))"

definition cursor_slice_write :: "cursor writer" where
  "cursor_slice_write buf c =
     (let pos = unat (min (cu_pos c) (of_nat (length (cu_inner c)))) in
      if pos > length (cu_inner c) then slice_panic c
      else io_bind (on_slice ([], drop pos (cu_inner c)) (slice_write buf)) (\<lambda>(r, (written, left)) c.
        let c = c\<lparr>cu_inner := take pos (cu_inner c) @ written @ left\<rparr> in
        case r of
          Inl e \<Rightarrow> io_return (Inl e) c
        | Inr amt \<Rightarrow> io_then (cursor_consume amt) (io_return (Inr amt)) c) c)"

definition vec_panic :: "('d, 'a) io" where
  "vec_panic = io_panic ''capacity overflow''"

definition cursor_vec_write :: "cursor writer" where
  "cursor_vec_write buf c =
     (let pos = unat (cu_pos c); len = length (cu_inner c) in
      if len < pos \<and> pos \<ge> 2 ^ 63 then vec_panic c
      else let vec = (if len < pos then cu_inner c @ replicate (pos - len) 0 else cu_inner c);
               space = length vec - pos;
               left = take (min space (length buf)) buf;
               right = drop (min space (length buf)) buf
           in if length vec + length right \<ge> 2 ^ 63 then vec_panic c
              else io_return (Inr (length buf))
                     (c\<lparr>cu_inner := take pos vec @ left @ drop (pos + length left) vec @ right,
                        cu_pos := of_nat pos + of_nat (length buf)\<rparr>))"

subsection \<open>Seeking in buffered readers and writers\<close>

definition checked_sub_i64 :: "i64 \<Rightarrow> i64 \<Rightarrow> i64 option" where
  "checked_sub_i64 a b = (if sint a - sint b \<in> {- (2 ^ 63) ..< 2 ^ 63} then Some (a - b) else None)"

definition br_discard :: "('d br_state, unit) io" where
  "br_discard = on_own (\<lambda>b. b\<lparr>br_pos := br_cap b\<rparr>)"

definition br_seek :: "(seek_from \<Rightarrow> ('d, u64 io_result) io) \<Rightarrow> seek_from \<Rightarrow> ('d br_state, u64 io_result) io" where
  "br_seek seek pos =
     (let finish = (\<lambda>r. case r of Inl e \<Rightarrow> io_return (Inl e) | Inr n \<Rightarrow> io_then br_discard (io_return (Inr n))) in
      case pos of
        SeekCurrent n \<Rightarrow> io_bind own (\<lambda>b.
          let remainder = of_nat (br_cap b) - of_nat (br_pos b) in
          case checked_sub_i64 n remainder of
            Some offset \<Rightarrow> io_bind (on_inner (seek (SeekCurrent offset))) finish
          | None \<Rightarrow> io_bind (on_inner (seek (SeekCurrent (- remainder)))) (\<lambda>r.
              case r of
                Inl e \<Rightarrow> io_return (Inl e)
              | Inr _ \<Rightarrow> io_then br_discard (io_bind (on_inner (seek (SeekCurrent n))) finish)))
      | _ \<Rightarrow> io_bind (on_inner (seek pos)) finish)"

definition br_seek_relative :: "(seek_from \<Rightarrow> ('d, u64 io_result) io) \<Rightarrow> i64 \<Rightarrow> ('d br_state, unit io_result) io" where
  "br_seek_relative seek offset = io_bind own (\<lambda>b.
     let pos = of_nat (br_pos b) :: u64;
         within = (if sint offset < 0 then checked_sub_u64 pos (- offset)
                   else case checked_add pos offset of
                          Some new_pos \<Rightarrow> if unat new_pos \<le> br_cap b then Some new_pos else None
                        | None \<Rightarrow> None)
     in case within of
          Some new_pos \<Rightarrow> io_then (on_own (\<lambda>b. b\<lparr>br_pos := unat new_pos\<rparr>)) (io_return (Inr ()))
        | None \<Rightarrow> io_bind (br_seek seek (SeekCurrent offset)) (\<lambda>r. io_return (map_sum id (\<lambda>_. ()) r)))"

definition bw_seek :: "'d writer \<Rightarrow> (seek_from \<Rightarrow> ('d, u64 io_result) io) \<Rightarrow> seek_from \<Rightarrow> ('d bw_state, u64 io_result) io" where
  "bw_seek wr seek pos = io_bind (flush_buf wr) (\<lambda>r.
     case r of
       Inl e \<Rightarrow> io_return (Inl e)
     | Inr _ \<Rightarrow> io_bind own (\<lambda>b.
         if bw_inner b then on_inner (seek pos) else io_panic ''called `Option::unwrap()` on a `None` value''))"

subsection \<open>What a cursor reads\<close>

definition cu_src :: "cursor \<Rightarrow> u8 list" where
  "cu_src c = drop (unat (cu_pos c)) (cu_inner c)"

definition cu_inv :: "cursor \<Rightarrow> bool" where
  "cu_inv c \<longleftrightarrow> length (cu_inner c) < 2 ^ 63"

lemma cursor_fill_buf_ok:
  assumes "cu_inv c"
  shows "cursor_fill_buf c = Some (Inr (Inr (cu_src c), c))"
proof -
  let ?l = "of_nat (length (cu_inner c)) :: u64"
  have l: "unat ?l = length (cu_inner c)" using assms by (simp add: cu_inv_def unat_of_nat)
  have "drop (unat (min (cu_pos c) ?l)) (cu_inner c) = cu_src c" "unat (min (cu_pos c) ?l) \<le> length (cu_inner c)"
    using l by (auto simp: cu_src_def min_def word_le_nat_alt)
  then show ?thesis by (simp add: cursor_fill_buf_def Let_def io_return_def)
qed

lemma cursor_advance:
  assumes "cu_inv c" "n \<le> length (cu_src c)"
  shows "cu_src (c\<lparr>cu_pos := cu_pos c + of_nat n\<rparr>) = drop n (cu_src c)" "cu_inv (c\<lparr>cu_pos := cu_pos c + of_nat n\<rparr>)"
proof -
  show "cu_inv (c\<lparr>cu_pos := cu_pos c + of_nat n\<rparr>)" using assms(1) by (simp add: cu_inv_def)
  show "cu_src (c\<lparr>cu_pos := cu_pos c + of_nat n\<rparr>) = drop n (cu_src c)"
  proof (cases "n = 0")
    case False
    then have "unat (cu_pos c) + n \<le> length (cu_inner c)" using assms(2) by (auto simp: cu_src_def)
    then have "unat (cu_pos c) + n < 2 ^ 63" using assms(1) by (simp add: cu_inv_def)
    then have "unat (cu_pos c + of_nat n) = unat (cu_pos c) + n" by (simp add: unat_word_ariths unat_of_nat)
    then show ?thesis by (simp add: cu_src_def add.commute)
  qed simp
qed

lemma cursor_read_ok:
  assumes "cu_inv c"
  shows "cursor_read buf c = Some (Inr ((Inr (min (length buf) (length (cu_src c))),
      take (length buf) (cu_src c) @ drop (length (cu_src c)) buf),
      c\<lparr>cu_pos := cu_pos c + of_nat (min (length buf) (length (cu_src c)))\<rparr>))"
proof -
  have "take (min (length buf) (length xs)) xs @ drop (min (length buf) (length xs)) buf = take (length buf) xs @ drop (length xs) buf"
    for xs :: "u8 list" by (auto simp: min_def)
  then show ?thesis
    by (simp add: cursor_read_def cursor_fill_buf_ok [OF assms] on_slice_def
      slice_read_def Let_def io_return_def io_bind_def cursor_consume_def io_then_def io_state_def)
qed

interpretation cursor_source: byte_source cursor_read cu_inv cu_src
proof
  fix c :: cursor and buf :: "u8 list"
  assume c: "cu_inv c"
  let ?n = "min (length buf) (length (cu_src c))"
  have "length (take (length buf) (cu_src c) @ drop (length (cu_src c)) buf) = length buf" by simp
  moreover have "take ?n (take (length buf) (cu_src c) @ drop (length (cu_src c)) buf) = take ?n (cu_src c)" by (auto simp: min_def)
  ultimately show "\<exists>n buf' d'. cursor_read buf c = Some (Inr ((Inr n, buf'), d')) \<and> length buf' = length buf \<and>
      n \<le> length buf \<and> n \<le> length (cu_src c) \<and> take n buf' = take n (cu_src c) \<and>
      (n = 0 \<longrightarrow> cu_src c = [] \<or> buf = []) \<and> cu_src d' = drop n (cu_src c) \<and> cu_inv d'"
    using cursor_read_ok [OF c, of buf] cursor_advance [OF c, of ?n]
    by (intro exI [of _ ?n] exI [of _ "take (length buf) (cu_src c) @ drop (length (cu_src c)) buf"]
        exI [of _ "c\<lparr>cu_pos := cu_pos c + of_nat ?n\<rparr>"]) (auto simp: min_def)
qed

interpretation cursor_buffered: buffered cursor_read cu_inv cu_src
  by unfold_locales

subsection \<open>Writing\<close>

text \<open>Writing into a vector overwrites and appends; a gap is filled with zeros.\<close>

lemma cursor_vec_write_ok:
  assumes "unat (cu_pos c) + length buf < 2 ^ 63" "cu_inv c"
  shows "cursor_vec_write buf c = Some (Inr (Inr (length buf),
    c\<lparr>cu_inner := take (unat (cu_pos c)) (cu_inner c) @ replicate (unat (cu_pos c) - length (cu_inner c)) 0 @ buf @
        drop (unat (cu_pos c) + length buf) (cu_inner c), cu_pos := cu_pos c + of_nat (length buf)\<rparr>))"
  using assms by (auto simp: cursor_vec_write_def Let_def io_return_def cu_inv_def min_def)

text \<open>What is written is read back after seeking to where the write began.\<close>

lemma cursor_write_read:
  assumes "unat (cu_pos c) + length buf < 2 ^ 63" "cu_inv c"
  shows "\<exists>c1 c2. cursor_vec_write buf c = Some (Inr (Inr (length buf), c1)) \<and>
    cursor_seek (SeekStart (cu_pos c)) c1 = Some (Inr (Inr (cu_pos c), c2)) \<and> take (length buf) (cu_src c2) = buf"
  unfolding cursor_vec_write_ok [OF assms] by (simp add: cursor_seek_def Let_def io_return_def cu_src_def)

subsection \<open>Seeking\<close>

lemma sint_cases: "sint (w :: i64) = (if uint w < 2 ^ 63 then uint w else uint w - 2 ^ 64)"
proof -
  have u: "0 \<le> uint w" "uint w < 2 ^ 64" using uint_lt2p [of w] by simp_all
  have "sint w = (uint w + 2 ^ 63) mod 2 ^ 64 - 2 ^ 63"
    by (simp add: sint_uint signed_take_bit_eq_take_bit_shift take_bit_eq_mod)
  moreover have "(uint w + 2 ^ 63) mod 2 ^ 64 = (if uint w < 2 ^ 63 then uint w + 2 ^ 63 else uint w - 2 ^ 63)"
  proof (cases "uint w < 2 ^ 63")
    case False
    then have "(uint w + 2 ^ 63) mod 2 ^ 64 = (uint w + 2 ^ 63 - 2 ^ 64) mod 2 ^ 64" by (simp only: minus_mod_self2)
    also have "\<dots> = uint w - 2 ^ 63" using False u by simp
    finally show ?thesis using False by simp
  qed (use u in simp)
  ultimately show ?thesis by simp
qed

text \<open>Adding a signed offset to a position: the position is checked on integers.\<close>

definition seek_moved :: "u64 \<Rightarrow> i64 \<Rightarrow> u64 option" where
  "seek_moved base offset = (if 0 \<le> uint base + sint offset \<and> uint base + sint offset < 2 ^ 64 then Some (base + offset) else None)"

lemma seek_moved_eq: "(if 0 \<le> sint offset then checked_add base offset else checked_sub_u64 base (- offset)) = seek_moved base offset"
proof (cases "0 \<le> sint offset")
  case True
  then have "sint offset = uint offset" using uint_lt2p [of offset] by (auto simp: sint_cases split: if_splits)
  moreover have "unat base + unat offset < 2 ^ 64 \<longleftrightarrow> int (unat base + unat offset) < int (2 ^ 64)" by (simp only: of_nat_less_iff)
  ultimately show ?thesis using True by (simp add: seek_moved_def checked_add_def)
next
  case False
  then have s: "sint offset = uint offset - 2 ^ 64" "2 ^ 63 \<le> uint offset" by (auto simp: sint_cases split: if_splits)
  have "uint (- offset) = - uint offset mod 2 ^ 64" by (simp add: uint_word_ariths)
  also have "\<dots> = 2 ^ 64 - uint offset" using s(2) uint_lt2p [of offset] by (simp add: zmod_zminus1_eq_if)
  finally have n: "uint (- offset) = - sint offset" using s(1) by simp
  have "uint base < 2 ^ 64" using uint_lt2p [of base] by simp
  then show ?thesis using False n by (auto simp: seek_moved_def checked_sub_u64_def word_le_def)
qed

definition seek_error :: io_error where
  "seek_error = error_new InvalidInput ''invalid seek to a negative or overflowing position''"

definition seek_target :: "seek_from \<Rightarrow> cursor \<Rightarrow> u64 option" where
  "seek_target p c =
     (case p of
        SeekStart n \<Rightarrow> Some n
      | SeekEnd n \<Rightarrow> seek_moved (of_nat (length (cu_inner c))) n
      | SeekCurrent n \<Rightarrow> seek_moved (cu_pos c) n)"

lemma cursor_seek_ok:
  "cursor_seek p c =
     (case seek_target p c of
        Some n \<Rightarrow> Some (Inr (Inr n, c\<lparr>cu_pos := n\<rparr>))
      | None \<Rightarrow> Some (Inr (Inl seek_error, c)))"
  by (cases p) (simp_all add: cursor_seek_def Let_def seek_moved_eq seek_target_def seek_error_def io_return_def split: option.splits)

text \<open>A buffered cursor stands for the cursor that has not read ahead.\<close>

definition br_left :: "cursor br_state \<Rightarrow> nat" where
  "br_left s = br_cap (fst s) - br_pos (fst s)"

definition br_logical :: "cursor br_state \<Rightarrow> cursor" where
  "br_logical s = (snd s)\<lparr>cu_pos := cu_pos (snd s) - of_nat (br_left s)\<rparr>"

definition br_over :: "cursor br_state \<Rightarrow> bool" where
  "br_over s \<longleftrightarrow> br_inv cu_inv s \<and> length (br_buf (fst s)) < 2 ^ 63 \<and> br_left s \<le> unat (cu_pos (snd s)) \<and>
     drop (br_pos (fst s)) (take (br_cap (fst s)) (br_buf (fst s))) =
       take (br_left s) (drop (unat (cu_pos (snd s)) - br_left s) (cu_inner (snd s)))"

lemma u64_bound: "unat (x :: u64) < 2 ^ 64"
  using unsigned_less [of x] by simp

lemma br_logical_src:
  assumes "br_over s"
  shows "br_src cu_src s = cu_src (br_logical s)"
proof -
  obtain b c where s: "s = (b, c)" by (cases s)
  let ?r = "br_left s" and ?p = "unat (cu_pos c)"
  have le: "?r \<le> ?p" using assms by (simp add: br_over_def s)
  have "?r < 2 ^ 64" using le u64_bound [of "cu_pos c"] by simp
  then have u: "unat (of_nat ?r :: u64) = ?r" by (simp add: unat_of_nat)
  then have "unat (cu_pos c - of_nat ?r) = ?p - ?r" using le by (subst unat_sub) (simp_all add: word_le_nat_alt)
  then have "cu_src (br_logical s) = drop (?p - ?r) (cu_inner c)" by (simp add: cu_src_def br_logical_def s)
  also have "\<dots> = take ?r (drop (?p - ?r) (cu_inner c)) @ drop ?r (drop (?p - ?r) (cu_inner c))"
    by (rule append_take_drop_id [symmetric])
  also have "drop ?r (drop (?p - ?r) (cu_inner c)) = cu_src c" using le by (simp add: cu_src_def)
  finally show ?thesis using assms by (simp add: br_src_def br_over_def s)
qed

lemma br_discard_over:
  assumes "br_over (b, c)" "cu_inner c' = cu_inner c"
  shows "br_over (b\<lparr>br_pos := br_cap b\<rparr>, c')" "br_logical (b\<lparr>br_pos := br_cap b\<rparr>, c') = c'"
  using assms by (auto simp: br_over_def br_inv_def br_left_def br_logical_def cu_inv_def)

lemma sint_range:
  assumes "- (2 ^ 63) \<le> z" "z < 2 ^ 63"
  shows "sint (of_int z :: i64) = z"
proof -
  have "sint (of_int z :: i64) = (z mod 2 ^ 64 + 2 ^ 63) mod 2 ^ 64 - 2 ^ 63"
    by (simp add: sint_uint uint_word_of_int signed_take_bit_eq_take_bit_shift take_bit_eq_mod)
  also have "(z mod 2 ^ 64 + 2 ^ 63) mod 2 ^ 64 = (z + 2 ^ 63) mod 2 ^ 64" by (rule mod_add_left_eq)
  also have "\<dots> = z + 2 ^ 63" using assms by (intro mod_pos_pos_trivial) simp_all
  finally show ?thesis by simp
qed

lemma seek_moved_left:
  fixes pos :: u64 and n :: i64
  assumes "r < 2 ^ 63" "r \<le> unat pos"
  shows "seek_moved pos (- of_nat r) = Some (pos - of_nat r)"
    "checked_sub_i64 n (of_nat r) = Some offset \<Longrightarrow> seek_moved pos offset = seek_moved (pos - of_nat r) n"
proof -
  have w: "- of_nat r = (of_int (- int r) :: i64)" by simp
  have sr: "sint (- of_nat r :: i64) = - int r" unfolding w using assms(1) by (intro sint_range) auto
  have srp: "sint (of_nat r :: i64) = int r" using sint_range [of "int r"] assms(1) by simp
  have ur: "uint pos = int (unat pos)" "uint pos < 2 ^ 64" using uint_lt2p [of pos] by simp_all
  have "int r \<le> uint pos" using assms(2) by (simp only: ur(1) of_nat_le_iff)
  then show "seek_moved pos (- of_nat r) = Some (pos - of_nat r)" using ur(2) by (simp add: seek_moved_def sr)
  have "unat (of_nat r :: u64) = r" using assms(1) by (simp add: unat_of_nat)
  then have "unat (pos - of_nat r) = unat pos - r" using assms(2) by (subst unat_sub) (simp_all add: word_le_nat_alt)
  then have lp: "uint (pos - of_nat r) = uint pos - int r" using assms(2) by (simp only: uint_nat of_nat_diff)
  assume "checked_sub_i64 n (of_nat r) = Some offset"
  then have o: "- (2 ^ 63) \<le> sint n - int r" "sint n - int r < 2 ^ 63" "offset = n - of_nat r"
    by (auto simp: checked_sub_i64_def srp split: if_splits)
  have "offset = of_int (sint n - int r)" by (simp add: o(3))
  then have "sint offset = sint n - int r" using sint_range [OF o(1,2)] by simp
  then show "seek_moved pos offset = seek_moved (pos - of_nat r) n" by (simp add: seek_moved_def lp o(3) algebra_simps)
qed

text \<open>What a seek of the reader leaves, written with the seek of the cursor that has not read ahead.\<close>

lemma br_seek_moves:
  assumes "br_over (b, c)"
  shows "br_seek cursor_seek p (b, c) =
    (case seek_target p (br_logical (b, c)) of
       Some n \<Rightarrow> Some (Inr (Inr n, (b\<lparr>br_pos := br_cap b\<rparr>, c\<lparr>cu_pos := n\<rparr>)))
     | None \<Rightarrow> Some (Inr (Inl seek_error, (case p of
         SeekCurrent n \<Rightarrow> if checked_sub_i64 n (of_nat (br_left (b, c))) = None then (b\<lparr>br_pos := br_cap b\<rparr>, br_logical (b, c)) else (b, c)
       | _ \<Rightarrow> (b, c)))))"
proof -
  let ?r = "br_left (b, c)"
  have le: "br_pos b \<le> br_cap b" "?r < 2 ^ 63" "?r \<le> unat (cu_pos c)"
    using assms by (auto simp: br_over_def br_inv_def br_left_def)
  have rem: "of_nat (br_cap b) - of_nat (br_pos b) = (of_nat ?r :: i64)" using le(1) by (simp add: br_left_def of_nat_diff)
  note m = seek_moved_left [OF le(2,3)]
  have lg: "br_logical (b, c) = c\<lparr>cu_pos := cu_pos c - of_nat ?r\<rparr>" by (simp add: br_logical_def)
  show ?thesis
  proof (cases p)
    case (SeekCurrent n)
    show ?thesis
    proof (cases "checked_sub_i64 n (of_nat ?r)")
      case None
      show ?thesis unfolding SeekCurrent lg
        by (simp add: br_seek_def Let_def rem None on_inner_def io_zoom_def io_bind_def io_then_def cursor_seek_ok seek_target_def
          m(1) br_discard_def on_own_def io_state_def io_return_def own_def split: option.splits)
    next
      case (Some offset)
      show ?thesis unfolding SeekCurrent lg
        by (simp add: br_seek_def Let_def rem Some on_inner_def io_zoom_def io_bind_def io_then_def cursor_seek_ok seek_target_def
          m(2) [OF Some] br_discard_def on_own_def io_state_def io_return_def own_def split: option.splits)
    qed
  qed (simp_all add: lg br_seek_def Let_def on_inner_def io_zoom_def io_bind_def io_then_def cursor_seek_ok seek_target_def
        br_discard_def on_own_def io_state_def io_return_def split: option.splits)
qed

text \<open>C32: Seeking in a buffered cursor is seeking in the cursor that has not read ahead: the same result, error or position,
  the edge case of two seeks included, and what is read next is what that cursor reads next.\<close>

theorem buffered_seek_agrees:
  assumes "br_over s"
  shows "\<exists>r s'. br_seek cursor_seek p s = Some (Inr (r, s')) \<and>
    cursor_seek p (br_logical s) = Some (Inr (r, br_logical s')) \<and> br_over s' \<and>
    br_src cu_src s' = cu_src (br_logical s')"
proof -
  obtain b c where s: "s = (b, c)" by (cases s)
  note o = assms [unfolded s]
  have in_c: "cu_inner (br_logical (b, c)) = cu_inner c" by (simp add: br_logical_def)
  have c: "cursor_seek p (br_logical (b, c)) =
      (case seek_target p (br_logical (b, c)) of
         Some n \<Rightarrow> Some (Inr (Inr n, c\<lparr>cu_pos := n\<rparr>)) | None \<Rightarrow> Some (Inr (Inl seek_error, br_logical (b, c))))"
    by (cases "seek_target p (br_logical (b, c))") (simp_all add: cursor_seek_ok, simp add: br_logical_def)
  show ?thesis
  proof (cases "seek_target p (br_logical (b, c))")
    case (Some n)
    have "cu_inner (c\<lparr>cu_pos := n\<rparr>) = cu_inner c" by simp
    note d = br_discard_over [OF o this]
    show ?thesis using br_seek_moves [OF o, of p] c Some d br_logical_src [OF d(1)] by (simp add: s)
  next
    case None
    note d = br_discard_over [OF o in_c]
    show ?thesis using br_seek_moves [OF o, of p] c None d br_logical_src [OF d(1)] o br_logical_src [OF o]
      by (cases p) (auto simp: s)
  qed
qed

definition ex_reader :: "cursor br_state" where
  "ex_reader = (\<lparr>br_buf = [1, 2, 3], br_pos = 1, br_cap = 3\<rparr>, \<lparr>cu_inner = [1, 2, 3, 4, 5, 6], cu_pos = 3\<rparr>)"

theorem buffered_seek_agrees_witness:
  "\<exists>r s'. br_seek cursor_seek (SeekCurrent (- 1)) ex_reader = Some (Inr (r, s')) \<and>
    cursor_seek (SeekCurrent (- 1)) (br_logical ex_reader) = Some (Inr (r, br_logical s')) \<and> br_over s' \<and>
    br_src cu_src s' = cu_src (br_logical s')"
proof -
  have "br_over ex_reader" by (simp add: br_over_def ex_reader_def br_inv_def cu_inv_def br_left_def)
  then show ?thesis by (rule buffered_seek_agrees)
qed

text \<open>C33: After any successful seek, the discarded buffer is still there: \<open>seek_relative\<close> by \<open>n\<close> bytes back, for
  any \<open>n\<close> up to the size of the last fill, succeeds and the next read returns the last \<open>n\<close> bytes that were in the
  buffer before the seek, whatever the position and the data are; a cursor without a buffer goes \<open>n\<close> bytes back from
  the new position and reads from there.\<close>

theorem seek_relative_reads_stale:
  assumes "br_over s" "br_seek cursor_seek p s = Some (Inr (Inr q, s1))" "0 < n" "n \<le> br_cap (fst s)"
  shows "\<exists>s2 s3. br_seek_relative cursor_seek (- of_nat n) s1 = Some (Inr (Inr (), s2)) \<and>
    br_read cursor_read buf s2 = Some (Inr ((Inr (min (length buf) n),
      take (length buf) (drop (br_cap (fst s) - n) (take (br_cap (fst s)) (br_buf (fst s)))) @ drop n buf), s3)) \<and>
    (n \<le> unat q \<longrightarrow> (\<exists>c. cursor_seek (SeekCurrent (- of_nat n)) (br_logical s1) = Some (Inr (Inr (q - of_nat n), c)) \<and>
      cu_src c = drop (unat q - n) (cu_inner (snd s))))"
proof -
  obtain b c where s: "s = (b, c)" by (cases s)
  note o = assms(1) [unfolded s]
  have n: "n \<le> br_cap b" "br_cap b \<le> length (br_buf b)" "br_cap b < 2 ^ 63" using o assms(4) by (auto simp: s br_over_def br_inv_def)
  have s1: "s1 = (b\<lparr>br_pos := br_cap b\<rparr>, c\<lparr>cu_pos := q\<rparr>)"
    using br_seek_moves [OF o, of p] assms(2) by (auto simp: s split: option.splits)
  have u: "unat (of_nat (br_cap b) :: u64) = br_cap b" "unat (of_nat n :: u64) = n" using n by (simp_all add: unat_of_nat)
  then have le: "of_nat n \<le> (of_nat (br_cap b) :: u64)" using n(1) by (simp add: word_le_nat_alt)
  then have d: "unat (of_nat (br_cap b) - of_nat n :: u64) = br_cap b - n" using u by (simp add: unat_sub)
  have "sint (of_int (- int n) :: i64) = - int n" using n by (intro sint_range) auto
  then have neg: "sint (- of_nat n :: i64) < 0" using assms(3) by simp
  let ?s2 = "(b\<lparr>br_pos := br_cap b - n\<rparr>, c\<lparr>cu_pos := q\<rparr>)"
  have "br_seek_relative cursor_seek (- of_nat n) s1 = Some (Inr (Inr (), ?s2))"
    using neg le d by (simp add: s1 br_seek_relative_def checked_sub_u64_def io_bind_def io_then_def io_state_def io_return_def
      own_def on_own_def Let_def)
  moreover have lt: "\<not> br_cap b \<le> br_cap b - n" using n(1) assms(3) by linarith
  have old: "take (min (length buf) n) xs @ drop (min (length buf) n) buf = take (length buf) xs @ drop n buf"
    if "length xs = n" for xs :: "u8 list" using that by (auto simp: min_def)
  have "\<exists>s3. br_read cursor_read buf ?s2 =
      Some (Inr ((Inr (min (length buf) n), take (length buf) (drop (br_cap b - n) (take (br_cap b) (br_buf b))) @ drop n buf), s3))"
    using n lt by (simp add: br_read_def br_fill_buf_def br_buffered_def br_consume_def io_bind_def io_then_def io_state_def
      io_return_def own_def on_own_def Let_def old)
  moreover have "\<exists>c'. cursor_seek (SeekCurrent (- of_nat n)) (br_logical s1) = Some (Inr (Inr (q - of_nat n), c')) \<and>
      cu_src c' = drop (unat q - n) (cu_inner c)" if "n \<le> unat q"
  proof -
    have "br_logical s1 = c\<lparr>cu_pos := q\<rparr>" by (simp add: s1 br_logical_def br_left_def)
    moreover have "seek_moved q (- of_nat n) = Some (q - of_nat n)" using n that by (intro seek_moved_left(1)) simp_all
    moreover have "unat (q - of_nat n) = unat q - n" using that u(2) by (simp add: unat_sub word_le_nat_alt)
    ultimately show ?thesis by (simp add: cursor_seek_ok seek_target_def cu_src_def)
  qed
  ultimately show ?thesis by (auto simp: s)
qed

text \<open>Six bytes, the first three read ahead: after a seek to the sixth and one step back, the third is read instead of the fifth.\<close>

theorem seek_relative_reads_stale_witness:
  "\<exists>s1 s2 s3 c. br_seek cursor_seek (SeekStart 5) ex_reader = Some (Inr (Inr 5, s1)) \<and>
    br_seek_relative cursor_seek (- 1) s1 = Some (Inr (Inr (), s2)) \<and> br_read cursor_read [0] s2 = Some (Inr ((Inr 1, [3]), s3)) \<and>
    cursor_seek (SeekCurrent (- 1)) (br_logical s1) = Some (Inr (Inr 4, c)) \<and> cu_src c = [5, 6]"
proof -
  have o: "br_over ex_reader" by (simp add: br_over_def ex_reader_def br_inv_def cu_inv_def br_left_def)
  obtain s1 where s1: "br_seek cursor_seek (SeekStart 5) ex_reader = Some (Inr (Inr 5, s1))"
    using br_seek_moves [of "fst ex_reader" "snd ex_reader" "SeekStart 5"] o by (auto simp: seek_target_def)
  have "0 < (1 :: nat)" "1 \<le> br_cap (fst ex_reader)" by (simp_all add: ex_reader_def)
  from seek_relative_reads_stale [OF o s1 this, of "[0]"] s1 show ?thesis by (auto simp: ex_reader_def)
qed

end
