(* ===== verification/IoChars.thy ===== *)
theory IoChars
  imports IoSink IoString
begin

text \<open>
  The iterator over the characters of a reader and formatted output, \<open>Chars\<close> and \<open>Write::write_fmt\<close> of
  \<open>std/src/io/mod.rs\<close>. A character is its code point. What the formatting machinery of the core library asks
  a writer to do is an argument: the pieces of text it writes, in order, up to a formatting error.
\<close>

subsection \<open>Characters\<close>

datatype chars_error = CharsNotUtf8 | CharsOther io_error

text \<open>\<open>utf8_char_width\<close> and the decoding of a sequence, of the core library.\<close>

definition utf8_char_width :: "u8 \<Rightarrow> nat" where
  "utf8_char_width b =
     (if b < 0x80 then 1 else if b < 0xC2 then 0 else if b < 0xE0 then 2 else if b < 0xF0 then 3
      else if b < 0xF5 then 4 else 0)"

definition utf8_code :: "u8 list \<Rightarrow> nat" where
  "utf8_code bs =
     (let v = (\<lambda>i. unat (bs ! i)); c = (\<lambda>i. v i mod 64) in
      if v 0 < 0x80 then v 0
      else if v 0 < 0xE0 then v 0 mod 32 * 64 + c 1
      else if v 0 < 0xF0 then v 0 mod 32 * 4096 + c 1 * 64 + c 2
      else v 0 mod 8 * 262144 + c 1 * 4096 + c 2 * 64 + c 3)"

text \<open>The loop that completes a sequence of \<open>width\<close> bytes, of which \<open>start\<close> have been read.\<close>

partial_function (option) chars_loop :: "'d reader \<Rightarrow> nat \<Rightarrow> nat \<Rightarrow> u8 list \<Rightarrow> ('d, chars_error + u8 list) io" where
  "chars_loop rd width start buf d =
     (if start < width
      then io_bind (rd (drop start (take width buf))) (\<lambda>(r, part) d.
        let buf = take start buf @ part @ drop width buf in
        case r of
          Inr n \<Rightarrow> if n = 0 then io_return (Inl CharsNotUtf8) d else chars_loop rd width ((start + n) mod 2 ^ 64) buf d
        | Inl e \<Rightarrow> if kind e = Interrupted then chars_loop rd width start buf d else io_return (Inl (CharsOther e)) d) d
      else io_return (Inr buf) d)"

definition chars_next :: "'d reader \<Rightarrow> ('d, (chars_error + nat) option) io" where
  "chars_next rd = io_bind (read_one_byte rd) (\<lambda>r.
     case r of
       None \<Rightarrow> io_return None
     | Some (Inl e) \<Rightarrow> io_return (Some (Inl (CharsOther e)))
     | Some (Inr first_byte) \<Rightarrow>
         let width = utf8_char_width first_byte in
         if width = 1 then io_return (Some (Inr (unat first_byte)))
         else if width = 0 then io_return (Some (Inl CharsNotUtf8))
         else io_bind (chars_loop rd width 1 [first_byte, 0, 0, 0]) (\<lambda>r.
           case r of
             Inl e \<Rightarrow> io_return (Some (Inl e))
           | Inr buf \<Rightarrow>
               (case from_utf8 (take width buf) of
                  Some s \<Rightarrow> io_return (Some (Inr (utf8_code s)))
                | None \<Rightarrow> io_return (Some (Inl CharsNotUtf8)))))"

definition chars_error_description :: "chars_error \<Rightarrow> string outcome" where
  "chars_error_description e = (case e of CharsNotUtf8 \<Rightarrow> Inr ''invalid utf8 encoding'' | CharsOther e \<Rightarrow> description e)"

subsection \<open>Formatted output\<close>

datatype fmt_piece = FmtStr "u8 list" | FmtError

text \<open>The adaptor keeps the I/O error behind a formatting error.\<close>

fun fmt_write :: "'d writer \<Rightarrow> fmt_piece list \<Rightarrow> unit io_result \<Rightarrow> ('d, bool \<times> unit io_result) io" where
  "fmt_write wr [] err = io_return (True, err)"
| "fmt_write wr (FmtError # ps) err = io_return (False, err)"
| "fmt_write wr (FmtStr s # ps) err = io_bind (write_all wr s) (\<lambda>r.
     case r of
       Inr _ \<Rightarrow> fmt_write wr ps err
     | Inl e \<Rightarrow> io_return (False, Inl e))"

definition write_fmt :: "'d writer \<Rightarrow> fmt_piece list \<Rightarrow> ('d, unit io_result) io" where
  "write_fmt wr args = io_bind (fmt_write wr args (Inr ())) (\<lambda>(ok, err).
     if ok then io_return (Inr ())
     else case err of
       Inl e \<Rightarrow> io_return (Inl e)
     | Inr _ \<Rightarrow> io_return (Inl (error_new OtherKind ''formatter error'')))"

subsection \<open>The encoding of a character\<close>

definition is_scalar :: "nat \<Rightarrow> bool" where
  "is_scalar c \<longleftrightarrow> c < 0xD800 \<or> (0xE000 \<le> c \<and> c < 0x110000)"

definition utf8_encode :: "nat \<Rightarrow> u8 list" where
  "utf8_encode c =
     (if c < 0x80 then [of_nat c]
      else if c < 0x800 then [of_nat (0xC0 + c div 64), of_nat (0x80 + c mod 64)]
      else if c < 0x10000 then [of_nat (0xE0 + c div 4096), of_nat (0x80 + c div 64 mod 64), of_nat (0x80 + c mod 64)]
      else [of_nat (0xF0 + c div 262144), of_nat (0x80 + c div 4096 mod 64), of_nat (0x80 + c div 64 mod 64), of_nat (0x80 + c mod 64)])"

lemma unat_byte [simp]: "n < 256 \<Longrightarrow> unat (of_nat n :: u8) = n"
  by (simp add: unat_of_nat)

lemmas byte_order = word_less_nat_alt word_le_nat_alt

lemma byte_mod:
  fixes n :: nat
  shows "n < 64 \<Longrightarrow> (128 + n) mod 64 = n" "n < 32 \<Longrightarrow> (192 + n) mod 32 = n" "n < 16 \<Longrightarrow> (224 + n) mod 32 = n"
    "n < 5 \<Longrightarrow> (240 + n) mod 8 = n"
  using mod_mult_self3 [of 2 64 n] mod_mult_self3 [of 6 32 n] mod_mult_self3 [of 7 32 n] mod_mult_self3 [of 30 8 n] by simp_all

text \<open>The four shapes of an encoding, by the values of its bytes.\<close>

lemma utf8_encode_cases:
  assumes "is_scalar c"
  obtains
    (one) "c < 0x80" "utf8_encode c = [of_nat c]"
  | (two) x y where "2 \<le> x" "x < 32" "y < 64" "c = x * 64 + y" "utf8_encode c = [of_nat (0xC0 + x), of_nat (0x80 + y)]"
  | (three) x y z where "x < 16" "y < 64" "z < 64" "x = 0 \<longrightarrow> 32 \<le> y" "x = 13 \<longrightarrow> y \<le> 31" "c = x * 4096 + y * 64 + z"
      "utf8_encode c = [of_nat (0xE0 + x), of_nat (0x80 + y), of_nat (0x80 + z)]"
  | (four) x y z w where "x < 5" "y < 64" "z < 64" "w < 64" "x = 0 \<longrightarrow> 16 \<le> y" "x = 4 \<longrightarrow> y \<le> 15"
      "c = x * 262144 + y * 4096 + z * 64 + w"
      "utf8_encode c = [of_nat (0xF0 + x), of_nat (0x80 + y), of_nat (0x80 + z), of_nat (0x80 + w)]"
proof -
  define w z y x where "w = c mod 64" and "z = c div 64 mod 64" and "y = c div 4096 mod 64" and "x = c div 262144"
  have l: "w < 64" "z < 64" "y < 64" by (simp_all add: w_def z_def y_def)
  have c1: "c = c div 64 * 64 + w" by (simp add: w_def)
  have d: "c div 64 div 64 = c div 4096" "c div 4096 div 64 = x" by (simp_all add: div_mult2_eq [symmetric] x_def)
  have c2: "c = c div 4096 * 4096 + z * 64 + w"
    using c1 div_mult_mod_eq [of "c div 64" 64, unfolded d(1), folded z_def] by linarith
  have c3: "c = x * 262144 + y * 4096 + z * 64 + w"
    using c2 div_mult_mod_eq [of "c div 4096" 64, unfolded d(2), folded y_def] by linarith
  consider "c < 0x80" | "0x80 \<le> c" "c < 0x800" | "0x800 \<le> c" "c < 0x10000" | "0x10000 \<le> c" by linarith
  then show thesis
  proof cases
    case 1
    then show thesis by (intro one) (simp_all add: utf8_encode_def)
  next
    case 2
    then show thesis using l(1) c1 by (intro two [of "c div 64" w]) (simp_all add: utf8_encode_def w_def)
  next
    case 3
    show thesis
    proof (rule three [of "c div 4096" z w])
      show "utf8_encode c = [of_nat (0xE0 + c div 4096), of_nat (0x80 + z), of_nat (0x80 + w)]"
        using 3 by (simp add: utf8_encode_def z_def w_def)
      show "c div 4096 < 16" using 3 by (simp add: div_less_iff_less_mult)
      show "c div 4096 = 0 \<longrightarrow> 32 \<le> z" using 3 c2 l by linarith
      show "c div 4096 = 13 \<longrightarrow> z \<le> 31" using assms 3 c2 l unfolding is_scalar_def by linarith
    qed (use l c2 in simp_all)
  next
    case 4
    have "c < 0x110000" using 4 assms by (auto simp: is_scalar_def)
    show thesis
    proof (rule four [of x y z w])
      show "utf8_encode c = [of_nat (0xF0 + x), of_nat (0x80 + y), of_nat (0x80 + z), of_nat (0x80 + w)]"
        using 4 by (simp add: utf8_encode_def x_def y_def z_def w_def)
      show "x < 5" using \<open>c < 0x110000\<close> c3 by linarith
      show "x = 0 \<longrightarrow> 16 \<le> y" using 4 c3 l by linarith
      show "x = 4 \<longrightarrow> y \<le> 15" using \<open>c < 0x110000\<close> c3 by linarith
    qed (use l c3 in simp_all)
  qed
qed

lemma utf8_encode_width:
  assumes "is_scalar c"
  shows "utf8_char_width (hd (utf8_encode c)) = length (utf8_encode c)"
  using assms by (cases rule: utf8_encode_cases) (simp_all add: utf8_char_width_def byte_order del: of_nat_add)

lemma utf8_encode_code:
  assumes "is_scalar c"
  shows "utf8_code (utf8_encode c) = c"
  using assms by (cases rule: utf8_encode_cases) (simp_all add: utf8_code_def Let_def byte_mod numeral_2_eq_2 numeral_3_eq_3 del: of_nat_add)

lemma utf8_encode_seq:
  assumes "is_scalar c"
  shows "utf8_seq (utf8_encode c) = length (utf8_encode c)"
  using assms by (cases rule: utf8_encode_cases) (simp_all add: utf8_seq_def utf8_cont_def byte_order word_unat_eq_iff del: of_nat_add)


lemma utf8_encode_valid:
  assumes "is_scalar c"
  shows "utf8_valid (utf8_encode c)"
proof -
  have "utf8_encode c \<noteq> []" by (simp add: utf8_encode_def)
  then show ?thesis using utf8_encode_seq [OF assms] by (simp add: utf8_valid.simps [of "utf8_encode c"])
qed

subsection \<open>Reading characters\<close>

context byte_source
begin

lemma chars_loop_reads:
  "inv d \<Longrightarrow> length pre + n = width \<Longrightarrow> n \<le> length (src d) \<Longrightarrow> n \<le> length rest \<Longrightarrow> width < 2 ^ 64 \<Longrightarrow>
     \<exists>buf d'. chars_loop rd width (length pre) (pre @ rest) d = Some (Inr (Inr buf, d')) \<and>
       take width buf = pre @ take n (src d) \<and> src d' = drop n (src d) \<and> inv d'"
proof (induction n arbitrary: pre rest d rule: less_induct)
  case (less n)
  show ?case
  proof (cases "n = 0")
    case True
    then show ?thesis using less.prems by (simp add: chars_loop.simps io_return_def)
  next
    case False
    let ?buf = "take n rest"
    obtain k part d' where r: "rd ?buf d = Some (Inr ((Inr k, part), d'))" "length part = n" "k \<le> n"
      "take k part = take k (src d)" "k = 0 \<longrightarrow> src d = [] \<or> ?buf = []" "src d' = drop k (src d)" "inv d'"
      using read_law [OF less.prems(1), of ?buf] less.prems(4) by auto
    have k: "k \<noteq> 0" using r(5) False less.prems(3,4) by auto
    have lt: "length pre < width" using False less.prems(2) by simp
    let ?pre = "pre @ take k part" and ?rest = "drop k part @ drop n rest"
    have len: "length ?pre = length pre + k" using r(2,3) by simp
    have "\<exists>buf e. chars_loop rd width (length ?pre) (?pre @ ?rest) d' = Some (Inr (Inr buf, e)) \<and>
        take width buf = ?pre @ take (n - k) (src d') \<and> src e = drop (n - k) (src d') \<and> inv e"
      using k r(2,3,6,7) False less.prems(2-5) len by (intro less.IH) auto
    moreover have "chars_loop rd width (length pre) (pre @ rest) d = chars_loop rd width (length ?pre) (?pre @ ?rest) d'"
    proof -
      have "drop (length pre) (take width (pre @ rest)) = ?buf" using less.prems(2) by (simp flip: less.prems(2))
      moreover have "take (length pre) (pre @ rest) @ part @ drop width (pre @ rest) = ?pre @ ?rest"
        by (simp flip: less.prems(2))
      moreover have "(length pre + k) mod 2 ^ 64 = length pre + k" using r(3) less.prems(2,5) by simp
      ultimately show ?thesis using k lt
        by (simp add: chars_loop.simps [of rd width "length pre"] io_bind_def r(1,2) min_absorb2 [OF r(3)] Let_def)
    qed
    moreover have "take k (src d) @ take (n - k) (drop k (src d)) = take n (src d)"
      using r(3) by (metis add_diff_inverse_nat not_le take_add)
    ultimately show ?thesis using r(3,4,6) by auto
  qed
qed

lemma chars_next_reads:
  assumes "inv d" "is_scalar c" "src d = utf8_encode c @ rest"
  shows "\<exists>d'. chars_next rd d = Some (Inr (Some (Inr c), d')) \<and> src d' = rest \<and> inv d'"
proof -
  let ?w = "length (utf8_encode c)"
  obtain b bs where e: "utf8_encode c = b # bs" by (cases "utf8_encode c") (auto simp: utf8_encode_def split: if_splits)
  have w: "utf8_char_width b = ?w" using utf8_encode_width [OF assms(2)] e by simp
  have w4: "?w \<le> 4" by (simp add: utf8_encode_def)
  obtain d1 where r: "read_one_byte rd d = Some (Inr (Some (Inr b), d1))" "src d1 = bs @ rest" "inv d1"
    using read_one_byte_source [OF assms(1)] assms(3) e by auto
  show ?thesis
  proof (cases "?w = 1")
    case True
    then have "c < 0x80" "b = of_nat c" using e by (auto simp: utf8_encode_def split: if_splits)
    then have "unat b = c" by simp
    then show ?thesis using r w e True by (auto simp: chars_next_def io_bind_def io_return_def Let_def)
  next
    case False
    have n0: "?w \<noteq> 0" using e by simp
    obtain buf d2 where l: "chars_loop rd ?w (length [b]) ([b] @ [0, 0, 0]) d1 = Some (Inr (Inr buf, d2))"
      "take ?w buf = [b] @ take (length bs) (src d1)" "src d2 = drop (length bs) (src d1)" "inv d2"
      using chars_loop_reads [OF r(3), of "[b]" "length bs" ?w "[0, 0, 0]"] w4 e r(2) by auto
    have "take ?w buf = utf8_encode c" using l(2) r(2) e by simp
    then have f: "from_utf8 (take ?w buf) = Some (utf8_encode c)" using utf8_encode_valid [OF assms(2)] by (simp add: from_utf8_def)
    have "chars_next rd d = Some (Inr (Some (Inr c), d2))"
      using r(1) w False n0 l(1) f by (simp add: chars_next_def io_bind_def io_return_def Let_def utf8_encode_code [OF assms(2)])
    then show ?thesis using l(3,4) r(2) by simp
  qed
qed

lemma chars_next_end:
  assumes "inv d" "src d = []"
  shows "\<exists>d'. chars_next rd d = Some (Inr (None, d')) \<and> src d' = [] \<and> inv d'"
  using read_one_byte_source [OF assms(1)] assms(2) by (auto simp: chars_next_def io_bind_def io_return_def)

end

subsection \<open>Writing formatted text\<close>

text \<open>The text up to the first formatting error.\<close>

fun fmt_text :: "fmt_piece list \<Rightarrow> u8 list" where
  "fmt_text [] = []"
| "fmt_text (FmtError # ps) = []"
| "fmt_text (FmtStr s # ps) = s @ fmt_text ps"

context byte_sink
begin

lemma fmt_write_sends:
  "inv d \<Longrightarrow> \<exists>d'. fmt_write wr ps err d = Some (Inr ((FmtError \<notin> set ps, err), d')) \<and> out d' = out d @ fmt_text ps \<and> inv d'"
proof (induction ps arbitrary: d)
  case (Cons p ps)
  show ?case
  proof (cases p)
    case (FmtStr s)
    obtain d1 where w: "write_all wr s d = Some (Inr (Inr (), d1))" "out d1 = out d @ s" "inv d1"
      using write_all_sends [OF Cons.prems] by blast
    show ?thesis using Cons.IH [OF w(3)] w(1,2) by (auto simp: FmtStr io_bind_def)
  qed (use Cons.prems in \<open>simp add: io_return_def\<close>)
qed (simp add: io_return_def)

lemma write_fmt_sends:
  assumes "inv d"
  shows "\<exists>d'. write_fmt wr ps d =
      Some (Inr (if FmtError \<in> set ps then Inl (error_new OtherKind ''formatter error'') else Inr (), d')) \<and>
    out d' = out d @ fmt_text ps \<and> inv d'"
  using fmt_write_sends [OF assms, of ps "Inr ()"] by (auto simp: write_fmt_def io_bind_def io_return_def)

end

subsection \<open>Text written and read back\<close>

text \<open>All characters up to the end of the source, as a loop over \<open>chars()\<close> collects them.\<close>

partial_function (option) chars_collect :: "'d reader \<Rightarrow> (chars_error + nat) list \<Rightarrow> ('d, (chars_error + nat) list) io" where
  "chars_collect rd acc d = io_bind (chars_next rd) (\<lambda>r d.
     case r of None \<Rightarrow> io_return acc d | Some c \<Rightarrow> chars_collect rd (acc @ [c]) d) d"

context byte_source
begin

lemma chars_collect_reads:
  "inv d \<Longrightarrow> \<forall>c \<in> set cs. is_scalar c \<Longrightarrow> src d = concat (map utf8_encode cs) \<Longrightarrow>
     \<exists>d'. chars_collect rd acc d = Some (Inr (acc @ map Inr cs, d')) \<and> src d' = []"
proof (induction cs arbitrary: acc d)
  case Nil
  then show ?case using chars_next_end [of d] by (auto simp: chars_collect.simps [of rd acc d] io_bind_def io_return_def)
next
  case (Cons c cs)
  obtain d1 where n: "chars_next rd d = Some (Inr (Some (Inr c), d1))" "src d1 = concat (map utf8_encode cs)" "inv d1"
    using chars_next_reads [OF Cons.prems(1), of c "concat (map utf8_encode cs)"] Cons.prems(2,3) by auto
  show ?case using Cons.IH [OF n(3) _ n(2), of "acc @ [Inr c]"] Cons.prems(2) n(1)
    by (simp add: chars_collect.simps [of rd acc d] io_bind_def)
qed

end

text \<open>Formatted text in a vector is read back character by character.\<close>

lemma write_fmt_chars:
  assumes "\<forall>cs \<in> set texts. \<forall>c \<in> set cs. is_scalar c"
  shows "\<exists>text s. write_fmt vec_write (map (\<lambda>cs. FmtStr (concat (map utf8_encode cs))) texts) [] = Some (Inr (Inr (), text)) \<and>
    chars_collect slice_read [] text = Some (Inr (map Inr (concat texts), s))"
proof -
  let ?ps = "map (\<lambda>cs. FmtStr (concat (map utf8_encode cs))) texts"
  have "fmt_text ?ps = concat (map utf8_encode (concat texts))" by (induction texts) auto
  then have "write_fmt vec_write ?ps [] = Some (Inr (Inr (), concat (map utf8_encode (concat texts))))"
    using vec_sink.write_fmt_sends [where ps = ?ps and d = "[]"] by auto
  then show ?thesis
    using slice_source.chars_collect_reads [where d = "concat (map utf8_encode (concat texts))" and cs = "concat texts" and acc = "[]"] assms
    by auto
qed

end
