(* ===== verification/Order.thy ===== *)
theory Order
  imports Prelude
begin

text \<open>
  Comparison as the core library has it: \<open>cmp::Ordering\<close>, the laws of \<open>Eq\<close> and \<open>Ord\<close>, and the order of
  sequences, by which slices and iterators compare. The laws are an interface, which every ordered type of the library
  is an instance of.
\<close>

datatype ordering = Less | Equal | Greater

definition ordering_reverse :: "ordering \<Rightarrow> ordering" where
  "ordering_reverse o1 = (case o1 of Less \<Rightarrow> Greater | Equal \<Rightarrow> Equal | Greater \<Rightarrow> Less)"

definition ordering_then :: "ordering \<Rightarrow> ordering \<Rightarrow> ordering" where
  "ordering_then o1 o2 = (if o1 = Equal then o2 else o1)"

definition u8_cmp :: "u8 \<Rightarrow> u8 \<Rightarrow> ordering" where
  "u8_cmp x y = (if x < y then Less else if y < x then Greater else Equal)"

definition nat_cmp :: "nat \<Rightarrow> nat \<Rightarrow> ordering" where
  "nat_cmp x y = (if x < y then Less else if y < x then Greater else Equal)"

text \<open>\<open>Iterator::cmp\<close>: the first difference decides, then the length.\<close>

fun lex_cmp :: "('a \<Rightarrow> 'a \<Rightarrow> ordering) \<Rightarrow> 'a list \<Rightarrow> 'a list \<Rightarrow> ordering" where
  "lex_cmp c [] [] = Equal"
| "lex_cmp c [] (_ # _) = Less"
| "lex_cmp c (_ # _) [] = Greater"
| "lex_cmp c (x # xs) (y # ys) = ordering_then (c x y) (lex_cmp c xs ys)"

definition slice_cmp :: "u8 list \<Rightarrow> u8 list \<Rightarrow> ordering" where
  "slice_cmp = lex_cmp u8_cmp"

subsection \<open>The laws\<close>

locale ord_laws =
  fixes cmp :: "'a \<Rightarrow> 'a \<Rightarrow> ordering" and eq :: "'a \<Rightarrow> 'a \<Rightarrow> bool"
  assumes cmp_eq: "cmp a b = Equal \<longleftrightarrow> eq a b"
    and cmp_swap: "cmp b a = ordering_reverse (cmp a b)"
    and cmp_less_trans: "cmp a b = Less \<Longrightarrow> cmp b c = Less \<Longrightarrow> cmp a c = Less"
    and cmp_cong: "eq a b \<Longrightarrow> cmp a c = cmp b c"
begin

lemma eq_refl: "eq a a"
proof -
  have "cmp a a = Equal" using cmp_swap [of a a] by (cases "cmp a a") (simp_all add: ordering_reverse_def)
  then show ?thesis by (simp add: cmp_eq)
qed

lemma eq_sym: "eq a b \<longleftrightarrow> eq b a"
  unfolding cmp_eq [symmetric] cmp_swap [of a b] by (cases "cmp b a") (simp_all add: ordering_reverse_def)

lemma cmp_cong_right: "eq a b \<Longrightarrow> cmp c a = cmp c b"
  using cmp_cong [of a b c] cmp_swap [of c a] cmp_swap [of c b] by metis

lemma cmp_greater: "cmp a b = Greater \<longleftrightarrow> cmp b a = Less"
  using cmp_swap [of b a] by (cases "cmp a b") (simp_all add: ordering_reverse_def)

lemma lex_eq: "lex_cmp cmp xs ys = Equal \<longleftrightarrow> list_all2 eq xs ys"
proof (induction xs arbitrary: ys)
  case (Cons x xs)
  then show ?case by (cases ys) (auto simp: ordering_then_def cmp_eq)
next
  case Nil
  then show ?case by (cases ys) simp_all
qed

lemma lex_swap: "lex_cmp cmp ys xs = ordering_reverse (lex_cmp cmp xs ys)"
proof (induction xs arbitrary: ys)
  case Nil
  then show ?case by (cases ys) (simp_all add: ordering_reverse_def)
next
  case (Cons x xs)
  show ?case
  proof (cases ys)
    case (Cons y ys')
    then show ?thesis using Cons.IH [of ys'] cmp_swap [of y x]
      by (cases "cmp x y") (simp_all add: ordering_then_def ordering_reverse_def)
  qed (simp add: ordering_reverse_def)
qed

lemma lex_trans: "lex_cmp cmp xs ys = Less \<Longrightarrow> lex_cmp cmp ys zs = Less \<Longrightarrow> lex_cmp cmp xs zs = Less"
proof (induction xs arbitrary: ys zs)
  case Nil
  then show ?case by (cases ys; cases zs) simp_all
next
  case (Cons x xs)
  then obtain y ys' z zs' where l: "ys = y # ys'" "zs = z # zs'" by (cases ys; cases zs) simp_all
  show ?case
  proof (cases "cmp x y")
    case Equal
    then have "cmp x z = cmp y z" by (intro cmp_cong) (simp add: cmp_eq)
    then show ?thesis using Cons.IH [of ys' zs'] Cons.prems Equal by (auto simp: l ordering_then_def split: if_splits)
  next
    case Less
    then have "cmp x z = Less"
    proof (cases "cmp y z")
      case Equal
      then show ?thesis using cmp_cong_right [of y z x] Less by (simp add: cmp_eq)
    qed (use Cons.prems Less cmp_less_trans in \<open>auto simp: l ordering_then_def\<close>)
    then show ?thesis by (simp add: l ordering_then_def)
  qed (use Cons.prems in \<open>simp add: l ordering_then_def\<close>)
qed

lemma lex_cong: "list_all2 eq xs ys \<Longrightarrow> lex_cmp cmp xs zs = lex_cmp cmp ys zs"
proof (induction xs ys arbitrary: zs rule: list_all2_induct)
  case (Cons x xs y ys)
  then show ?case using cmp_cong [of x y] by (cases zs) (simp_all add: ordering_then_def)
qed simp

text \<open>Sequences of an ordered type are ordered.\<close>

lemma lex_laws: "ord_laws (lex_cmp cmp) (list_all2 eq)"
  using lex_eq lex_swap lex_trans lex_cong by unfold_locales

end

text \<open>A type that compares by one key, then by another.\<close>

lemma ord_laws_then:
  assumes "ord_laws c1 e1" "ord_laws c2 e2"
  shows "ord_laws (\<lambda>a b. ordering_then (c1 (f a) (f b)) (c2 (g a) (g b))) (\<lambda>a b. e1 (f a) (f b) \<and> e2 (g a) (g b))"
proof -
  note l1 = ord_laws.cmp_eq [OF assms(1)] ord_laws.cmp_swap [OF assms(1)] ord_laws.cmp_less_trans [OF assms(1)]
    ord_laws.cmp_cong [OF assms(1)] ord_laws.cmp_cong_right [OF assms(1)]
  note l2 = ord_laws.cmp_eq [OF assms(2)] ord_laws.cmp_swap [OF assms(2)] ord_laws.cmp_less_trans [OF assms(2)] ord_laws.cmp_cong [OF assms(2)]
  show ?thesis
  proof
    fix a b c
    show "ordering_then (c1 (f a) (f b)) (c2 (g a) (g b)) = Equal \<longleftrightarrow> e1 (f a) (f b) \<and> e2 (g a) (g b)"
      using l1(1) [of "f a" "f b"] l2(1) [of "g a" "g b"] by (auto simp: ordering_then_def)
    show "ordering_then (c1 (f b) (f a)) (c2 (g b) (g a)) = ordering_reverse (ordering_then (c1 (f a) (f b)) (c2 (g a) (g b)))"
      unfolding l1(2) [of "f b" "f a"] l2(2) [of "g b" "g a"] by (cases "c1 (f a) (f b)") (simp_all add: ordering_then_def ordering_reverse_def)
    show "e1 (f a) (f b) \<and> e2 (g a) (g b) \<Longrightarrow>
        ordering_then (c1 (f a) (f c)) (c2 (g a) (g c)) = ordering_then (c1 (f b) (f c)) (c2 (g b) (g c))"
      using l1(4) [of "f a" "f b" "f c"] l2(4) [of "g a" "g b" "g c"] by simp
    assume ab: "ordering_then (c1 (f a) (f b)) (c2 (g a) (g b)) = Less" and bc: "ordering_then (c1 (f b) (f c)) (c2 (g b) (g c)) = Less"
    consider "c1 (f a) (f b) = Less" "c1 (f b) (f c) = Less" | "c1 (f a) (f b) = Less" "c1 (f b) (f c) = Equal"
      | "c1 (f a) (f b) = Equal"
      using ab bc by (cases "c1 (f a) (f b)"; cases "c1 (f b) (f c)") (auto simp: ordering_then_def)
    then show "ordering_then (c1 (f a) (f c)) (c2 (g a) (g c)) = Less"
    proof cases
      case 1
      then show ?thesis using l1(3) by (auto simp: ordering_then_def)
    next
      case 2
      then show ?thesis using l1(5) [of "f b" "f c" "f a"] l1(1) [of "f b" "f c"] by (simp add: ordering_then_def)
    next
      case 3
      then have "c1 (f a) (f c) = c1 (f b) (f c)" using l1(4) l1(1) by blast
      then show ?thesis using 3 ab bc l2(3) by (auto simp: ordering_then_def split: if_splits)
    qed
  qed
qed

text \<open>Types whose equality is that of the logic.\<close>

interpretation u8_ord: ord_laws u8_cmp "(=)"
  by unfold_locales (auto simp: u8_cmp_def ordering_reverse_def split: if_splits)

interpretation nat_ord: ord_laws nat_cmp "(=)"
  by unfold_locales (auto simp: nat_cmp_def ordering_reverse_def split: if_splits)

interpretation slice_ord: ord_laws slice_cmp "(=)"
  using u8_ord.lex_laws by (simp add: slice_cmp_def list.rel_eq)

lemma slice_cmp_simps [simp]:
  "slice_cmp [] [] = Equal" "slice_cmp [] (y # ys) = Less" "slice_cmp (x # xs) [] = Greater"
  "slice_cmp (x # xs) (y # ys) = (if x < y then Less else if y < x then Greater else slice_cmp xs ys)"
  by (simp_all add: slice_cmp_def u8_cmp_def ordering_then_def)

end
