(* ===== verification/FfiCStr.thy ===== *)
theory FfiCStr
  imports IoRead Order
begin

text \<open>
  Strings that end with a zero byte, \<open>std/src/ffi/c_str.rs\<close>, with \<open>strlen\<close> of \<open>std/src/sys/ros/mod.rs\<close>.
  A \<open>CString\<close> owns a boxed slice, a \<open>CStr\<close> borrows one: both are the bytes, the final zero included. Where raw pointers
  are involved, the bytes lie in memory, and \<open>strlen\<close> is a loop that need not end.
\<close>

subsection \<open>Owned and borrowed strings\<close>

record cstring =
  cs_inner :: "u8 list"

type_synonym cstr = "u8 list"

datatype nul_error = NulError nat "u8 list"

datatype from_bytes_error = InteriorNul nat | NotNulTerminated

record into_string_error =
  is_inner :: cstring
  is_valid_up_to :: nat

text \<open>\<open>Utf8Error::valid_up_to\<close> of the core library.\<close>

function valid_up_to :: "u8 list \<Rightarrow> nat" where
  "valid_up_to bs = (if bs = [] \<or> utf8_seq bs = 0 then 0 else utf8_seq bs + valid_up_to (drop (utf8_seq bs) bs))"
  by pat_completeness auto

termination
  by (relation "measure length") simp_all

declare valid_up_to.simps [simp del]

definition from_vec_unchecked :: "u8 list \<Rightarrow> cstring" where
  "from_vec_unchecked v = \<lparr>cs_inner = v @ [0]\<rparr>"

definition cstring_new :: "u8 list \<Rightarrow> nul_error + cstring" where
  "cstring_new bytes =
     (case memchr 0 bytes of
        Some i \<Rightarrow> Inl (NulError i bytes)
      | None \<Rightarrow> Inr (from_vec_unchecked bytes))"

definition into_bytes_with_nul :: "cstring \<Rightarrow> u8 list" where
  "into_bytes_with_nul s = cs_inner s"

definition into_bytes :: "cstring \<Rightarrow> u8 list" where
  "into_bytes s = butlast (cs_inner s)"

definition as_bytes_with_nul :: "cstring \<Rightarrow> u8 list" where
  "as_bytes_with_nul s = cs_inner s"

definition as_bytes :: "cstring \<Rightarrow> u8 list outcome" where
  "as_bytes s =
     (if cs_inner s = [] then Inl (Panic ''slice index out of range'')
      else Inr (take (length (cs_inner s) - 1) (cs_inner s)))"

definition into_string :: "cstring \<Rightarrow> into_string_error + u8 list" where
  "into_string s =
     (case from_utf8 (into_bytes s) of
        Some t \<Rightarrow> Inr t
      | None \<Rightarrow> Inl \<lparr>is_inner = from_vec_unchecked (into_bytes s), is_valid_up_to = valid_up_to (into_bytes s)\<rparr>)"

definition from_bytes_with_nul :: "u8 list \<Rightarrow> from_bytes_error + cstr" where
  "from_bytes_with_nul bytes =
     (case memchr 0 bytes of
        Some nul_pos \<Rightarrow> if nul_pos + 1 \<noteq> length bytes then Inl (InteriorNul nul_pos) else Inr bytes
      | None \<Rightarrow> Inl NotNulTerminated)"

definition cstr_deref :: "cstring \<Rightarrow> cstr" where
  "cstr_deref s = as_bytes_with_nul s"

definition to_bytes :: "cstr \<Rightarrow> u8 list outcome" where
  "to_bytes c = (if c = [] then Inl (Panic ''slice index out of range'') else Inr (take (length c - 1) c))"

definition cstr_to_str :: "cstr \<Rightarrow> (u8 list) option outcome" where
  "cstr_to_str c = and_then (to_bytes c) (\<lambda>bytes. Inr (from_utf8 bytes))"

definition cstr_to_string_lossy :: "cstr \<Rightarrow> u8 list outcome" where
  "cstr_to_string_lossy c = and_then (to_bytes c) (\<lambda>bytes. Inr (utf8_lossy bytes))"

definition cstr_to_owned :: "cstr \<Rightarrow> cstring" where
  "cstr_to_owned c = \<lparr>cs_inner = c\<rparr>"

definition into_c_string :: "cstr \<Rightarrow> cstring" where
  "into_c_string c = \<lparr>cs_inner = c\<rparr>"

definition nul_position :: "nul_error \<Rightarrow> nat" where
  "nul_position e = (case e of NulError i _ \<Rightarrow> i)"

definition nul_into_vec :: "nul_error \<Rightarrow> u8 list" where
  "nul_into_vec e = (case e of NulError _ v \<Rightarrow> v)"

definition nul_error_text :: "nul_error \<Rightarrow> string" where
  "nul_error_text e = ''nul byte found in provided data at position: '' @ show_nat (nul_position e)"

definition nul_io_error :: "nul_error \<Rightarrow> io_error" where
  "nul_io_error _ = error_new InvalidInput ''data provided contains a nul byte''"

definition from_bytes_error_description :: "from_bytes_error \<Rightarrow> string" where
  "from_bytes_error_description e =
     (case e of
        InteriorNul _ \<Rightarrow> ''data provided contains an interior nul byte''
      | NotNulTerminated \<Rightarrow> ''data provided is not nul terminated'')"

definition from_bytes_error_text :: "from_bytes_error \<Rightarrow> string" where
  "from_bytes_error_text e =
     from_bytes_error_description e @ (case e of InteriorNul pos \<Rightarrow> '' at byte pos '' @ show_nat pos | _ \<Rightarrow> [])"

subsection \<open>Comparison\<close>

definition cstr_eq :: "cstr \<Rightarrow> cstr \<Rightarrow> bool outcome" where
  "cstr_eq a b = and_then (to_bytes a) (\<lambda>x. and_then (to_bytes b) (\<lambda>y. Inr (x = y)))"

definition cstr_cmp :: "cstr \<Rightarrow> cstr \<Rightarrow> ordering outcome" where
  "cstr_cmp a b = and_then (to_bytes a) (\<lambda>x. and_then (to_bytes b) (\<lambda>y. Inr (slice_cmp x y)))"

text \<open>The derived instances of \<open>CString\<close> compare the boxed slices.\<close>

definition cstring_eq :: "cstring \<Rightarrow> cstring \<Rightarrow> bool" where
  "cstring_eq a b \<longleftrightarrow> cs_inner a = cs_inner b"

definition cstring_cmp :: "cstring \<Rightarrow> cstring \<Rightarrow> ordering" where
  "cstring_cmp a b = slice_cmp (cs_inner a) (cs_inner b)"

subsection \<open>Raw pointers\<close>

type_synonym byte_memory = "usize \<Rightarrow> u8"

partial_function (option) strlen_loop :: "byte_memory \<Rightarrow> usize \<Rightarrow> usize \<Rightarrow> usize option" where
  "strlen_loop m string len = (if m (string + len) \<noteq> 0 then strlen_loop m string (len + 1) else Some len)"

definition strlen :: "byte_memory \<Rightarrow> usize \<Rightarrow> usize option" where
  "strlen m string = strlen_loop m string 0"

definition raw_bytes :: "byte_memory \<Rightarrow> usize \<Rightarrow> usize \<Rightarrow> u8 list" where
  "raw_bytes m ptr len = map (\<lambda>i. m (ptr + of_nat i)) [0..<unat len]"

text \<open>\<open>into_raw\<close> gives up the box: the bytes stay where they are, at \<open>ptr\<close>.\<close>

definition store_bytes :: "usize \<Rightarrow> u8 list \<Rightarrow> byte_memory \<Rightarrow> byte_memory" where
  "store_bytes ptr bs m = (\<lambda>a. if unat (a - ptr) < length bs then bs ! unat (a - ptr) else m a)"

definition into_raw :: "usize \<Rightarrow> cstring \<Rightarrow> byte_memory \<Rightarrow> usize \<times> byte_memory" where
  "into_raw ptr s m = (ptr, store_bytes ptr (cs_inner s) m)"

definition from_raw :: "byte_memory \<Rightarrow> usize \<Rightarrow> cstring option" where
  "from_raw m ptr = map_option (\<lambda>len. \<lparr>cs_inner = raw_bytes m ptr (len + 1)\<rparr>) (strlen m ptr)"

definition from_ptr :: "byte_memory \<Rightarrow> usize \<Rightarrow> cstr option" where
  "from_ptr m ptr = map_option (\<lambda>len. raw_bytes m ptr (len + 1)) (strlen m ptr)"

text \<open>Dropping a string first overwrites its first byte.\<close>

definition cstring_drop :: "usize \<Rightarrow> byte_memory \<Rightarrow> byte_memory" where
  "cstring_drop ptr m = m(ptr := 0)"

definition cstr_default :: "usize \<Rightarrow> byte_memory \<Rightarrow> cstr option" where
  "cstr_default ptr m = from_ptr (store_bytes ptr [0] m) ptr"

subsection \<open>Zero bytes\<close>

definition cstr_ok :: "cstr \<Rightarrow> bool" where
  "cstr_ok c \<longleftrightarrow> (\<exists>bs. c = bs @ [0] \<and> 0 \<notin> set bs)"

lemma memchr_None: "memchr x bs = None \<longleftrightarrow> x \<notin> set bs"
  by (auto simp: memchr_def position_None_iff)

lemma memchr_end: "x \<notin> set bs \<Longrightarrow> memchr x (bs @ x # r) = Some (length bs)"
  by (auto simp: memchr_def intro: position_append)

lemma memchr_Some: "memchr x bs = Some i \<Longrightarrow> \<exists>r. bs = take i bs @ x # r \<and> x \<notin> set (take i bs) \<and> i < length bs"
  unfolding memchr_def by (induction bs arbitrary: i) (auto split: if_splits)

lemma cstring_new_ok: "cstring_new bytes = Inr s \<longleftrightarrow> 0 \<notin> set bytes \<and> s = \<lparr>cs_inner = bytes @ [0]\<rparr>"
  by (auto simp: cstring_new_def from_vec_unchecked_def memchr_None split: option.splits dest!: memchr_None [THEN iffD2, rotated])

text \<open>A slice is a string exactly when its only zero is its last byte.\<close>

lemma from_bytes_with_nul_ok: "from_bytes_with_nul bytes = Inr c \<longleftrightarrow> c = bytes \<and> cstr_ok bytes"
proof (cases "memchr 0 bytes")
  case None
  then have "0 \<notin> set bytes" by (simp add: memchr_None)
  then show ?thesis using None by (auto simp: from_bytes_with_nul_def cstr_ok_def)
next
  case (Some i)
  obtain r where r: "bytes = take i bytes @ 0 # r" "0 \<notin> set (take i bytes)" "i < length bytes" using memchr_Some [OF Some] by blast
  have "cstr_ok bytes \<longleftrightarrow> i + 1 = length bytes"
  proof
    assume "cstr_ok bytes"
    then obtain bs where "bytes = bs @ [0]" "0 \<notin> set bs" by (auto simp: cstr_ok_def)
    then show "i + 1 = length bytes" using Some memchr_end [of 0 bs "[]"] by simp
  next
    assume "i + 1 = length bytes"
    moreover have "length bytes = i + Suc (length r)" by (subst r(1)) (simp add: min_absorb2 r(3) less_imp_le)
    ultimately have "r = []" by simp
    then show "cstr_ok bytes" unfolding cstr_ok_def using r(1,2) by blast
  qed
  then show ?thesis using Some by (auto simp: from_bytes_with_nul_def)
qed

subsection \<open>Bytes in memory\<close>

lemma raw_bytes_store:
  assumes "n \<le> length bs" "n < 2 ^ 64"
  shows "raw_bytes (store_bytes ptr bs m) ptr (of_nat n) = take n bs"
  using assms by (intro nth_equalityI) (auto simp: raw_bytes_def store_bytes_def unat_of_nat)

lemma strlen_store:
  assumes "0 \<notin> set bs" "length bs < 2 ^ 64"
  shows "strlen (store_bytes ptr (bs @ 0 # r) m) ptr = Some (of_nat (length bs))"
proof -
  have "i \<le> length bs \<Longrightarrow> strlen_loop (store_bytes ptr (bs @ 0 # r) m) ptr (of_nat i) = Some (of_nat (length bs))" for i
  proof (induction "length bs - i" arbitrary: i)
    case 0
    then show ?case using assms(2) by (simp add: strlen_loop.simps [of _ ptr] store_bytes_def unat_of_nat nth_append)
  next
    case (Suc k)
    then have "bs ! i \<noteq> 0" using assms(1) by (metis Suc_neq_Zero diff_is_0_eq' linorder_not_less nth_mem)
    moreover have "i < length bs" using Suc.hyps(2) by simp
    then have "store_bytes ptr (bs @ 0 # r) m (ptr + of_nat i) = bs ! i"
      using assms(2) by (simp add: store_bytes_def unat_of_nat nth_append)
    ultimately show ?case using Suc.hyps(1) [of "Suc i"] Suc.hyps(2) Suc.prems
      by (simp add: strlen_loop.simps [of _ ptr "of_nat i"] add.commute)
  qed
  from this [of 0] show ?thesis by (simp add: strlen_def)
qed

text \<open>What a pointer to stored bytes is read as: the bytes up to the first zero.\<close>

lemma from_ptr_store:
  assumes "0 \<notin> set bs" "length bs + 1 < 2 ^ 64"
  shows "from_ptr (store_bytes ptr (bs @ 0 # r) m) ptr = Some (bs @ [0])"
    "from_raw (store_bytes ptr (bs @ 0 # r) m) ptr = Some \<lparr>cs_inner = bs @ [0]\<rparr>"
  using strlen_store [OF assms(1), of ptr r m] raw_bytes_store [of "length bs + 1" "bs @ 0 # r" ptr m] assms(2)
  by (simp_all add: from_ptr_def from_raw_def add.commute)

lemma dropped_reads_empty: "from_ptr (cstring_drop ptr m) ptr = Some [0]"
  by (simp add: from_ptr_def strlen_def strlen_loop.simps cstring_drop_def raw_bytes_def)

subsection \<open>Properties\<close>

text \<open>A byte string becomes a C string exactly when it has no zero byte: then its bytes, the slice with the zero and
  the string behind the raw pointer are read back unchanged, and reading ends; otherwise the error returns the vector
  with the position of the first zero.\<close>

theorem cstring_roundtrip:
  assumes "length bytes + 1 < 2 ^ 64"
  shows "case cstring_new bytes of
      Inr s \<Rightarrow> as_bytes s = Inr bytes \<and> into_bytes s = bytes \<and>
        from_bytes_with_nul (as_bytes_with_nul s) = Inr (cstr_deref s) \<and> cstr_to_owned (cstr_deref s) = s \<and>
        (\<forall>ptr m. case into_raw ptr s m of (p, m') \<Rightarrow> from_raw m' p = Some s \<and> from_ptr m' p = Some (cstr_deref s))
    | Inl e \<Rightarrow> nul_into_vec e = bytes \<and>
        (\<exists>r. bytes = take (nul_position e) bytes @ 0 # r \<and> 0 \<notin> set (take (nul_position e) bytes))"
proof (cases "memchr 0 bytes")
  case None
  then have z: "0 \<notin> set bytes" by (simp add: memchr_None)
  have "cstr_ok (bytes @ [0])" using z by (auto simp: cstr_ok_def)
  then show ?thesis using None from_ptr_store [OF z assms]
    by (simp add: cstring_new_def from_vec_unchecked_def as_bytes_def into_bytes_def as_bytes_with_nul_def cstr_deref_def
      from_bytes_with_nul_ok into_raw_def cstr_to_owned_def)
next
  case (Some i)
  then show ?thesis using memchr_Some [OF Some] by (auto simp: cstring_new_def nul_into_vec_def nul_position_def)
qed

theorem cstring_roundtrip_witness:
  "case cstring_new [104 :: u8, 105] of
      Inr s \<Rightarrow> as_bytes s = Inr [104, 105] \<and> into_bytes s = [104, 105] \<and>
        from_bytes_with_nul (as_bytes_with_nul s) = Inr (cstr_deref s) \<and> cstr_to_owned (cstr_deref s) = s \<and>
        (\<forall>ptr m. case into_raw ptr s m of (p, m') \<Rightarrow> from_raw m' p = Some s \<and> from_ptr m' p = Some (cstr_deref s))
    | Inl e \<Rightarrow> nul_into_vec e = [104, 105] \<and>
        (\<exists>r. [104 :: u8, 105] = take (nul_position e) [104, 105] @ 0 # r \<and> 0 \<notin> set (take (nul_position e) [104 :: u8, 105]))"
  by (rule cstring_roundtrip) simp

lemma slice_cmp_end: "0 \<notin> set a \<Longrightarrow> 0 \<notin> set b \<Longrightarrow> slice_cmp (a @ [0]) (b @ [0]) = slice_cmp a b"
  proof (induction a arbitrary: b)
  case Nil
  then show ?case by (cases b) (auto simp: word_greater_zero_iff)
next
  case (Cons x a)
  then show ?case by (cases b) (auto simp: word_greater_zero_iff)
qed

text \<open>Owned strings and the borrowed strings they give compare alike, as \<open>Borrow\<close> requires, although the owned ones
  compare the final zero too.\<close>

lemma borrow_agrees:
  assumes "cstring_new a = Inr s" "cstring_new b = Inr t"
  shows "cstr_eq (cstr_deref s) (cstr_deref t) = Inr (cstring_eq s t)"
    "cstr_cmp (cstr_deref s) (cstr_deref t) = Inr (cstring_cmp s t)"
  using assms by (auto simp: cstring_new_ok cstr_eq_def cstr_cmp_def cstring_eq_def cstring_cmp_def cstr_deref_def
    as_bytes_with_nul_def to_bytes_def slice_cmp_end and_then_def)

interpretation cstring_ord: ord_laws cstring_cmp cstring_eq
proof
  fix a b c :: cstring
  show "cstring_cmp a b = Equal \<longleftrightarrow> cstring_eq a b"
    unfolding cstring_cmp_def cstring_eq_def by (rule slice_ord.cmp_eq)
  show "cstring_cmp b a = ordering_reverse (cstring_cmp a b)"
    unfolding cstring_cmp_def by (rule slice_ord.cmp_swap)
  show "cstring_cmp a b = Less \<Longrightarrow> cstring_cmp b c = Less \<Longrightarrow> cstring_cmp a c = Less"
    unfolding cstring_cmp_def by (rule slice_ord.cmp_less_trans)
  show "cstring_eq a b \<Longrightarrow> cstring_cmp a c = cstring_cmp b c"
    by (simp add: cstring_cmp_def cstring_eq_def)
qed

end
