(* ===== verification/Ascii.thy ===== *)
theory Ascii
  imports FfiCStr PathSpec
begin

unbundle bit_operations_syntax

text \<open>
  Escaped bytes, \<open>escape_default\<close> of \<open>std/src/ascii.rs\<close>, and the debug form of a C string, which is made of them.
  The escapes of a byte are an iterator with two ends over four bytes of data.
\<close>

subsection \<open>The iterator\<close>

record escape_iter =
  es_start :: nat
  es_end :: nat
  es_data :: "u8 list"

definition hexify :: "u8 \<Rightarrow> u8" where
  "hexify b = (if b \<le> 9 then 48 + b else 97 + b - 10)"

definition escape_default :: "u8 \<Rightarrow> escape_iter" where
  "escape_default c =
     (let (data, len) =
        (if c = 9 then ([92, 116, 0, 0], 2)
         else if c = 13 then ([92, 114, 0, 0], 2)
         else if c = 10 then ([92, 110, 0, 0], 2)
         else if c = 92 then ([92, 92, 0, 0], 2)
         else if c = 39 then ([92, 39, 0, 0], 2)
         else if c = 34 then ([92, 34, 0, 0], 2)
         else if 0x20 \<le> c \<and> c \<le> 0x7E then ([c, 0, 0, 0], 1)
         else ([92, 120, hexify (drop_bit 4 c), hexify (c AND 0xF)], 4))
      in \<lparr>es_start = 0, es_end = len, es_data = data\<rparr>)"

definition escape_next :: "escape_iter \<Rightarrow> u8 option \<times> escape_iter" where
  "escape_next e =
     (if es_start e < es_end e then (Some (es_data e ! es_start e), e\<lparr>es_start := es_start e + 1\<rparr>) else (None, e))"

definition escape_next_back :: "escape_iter \<Rightarrow> u8 option \<times> escape_iter" where
  "escape_next_back e =
     (if es_start e < es_end e then (Some (es_data e ! (es_end e - 1)), e\<lparr>es_end := es_end e - 1\<rparr>) else (None, e))"

definition escape_left :: "escape_iter \<Rightarrow> u8 list" where
  "escape_left e = drop (es_start e) (take (es_end e) (es_data e))"

function escape_all :: "escape_iter \<Rightarrow> u8 list" where
  "escape_all e = (case escape_next e of (None, _) \<Rightarrow> [] | (Some b, e') \<Rightarrow> b # escape_all e')"
  by pat_completeness auto

termination
  by (relation "measure (\<lambda>e. es_end e - es_start e)") (auto simp: escape_next_def split: if_splits)

declare escape_all.simps [simp del]

definition cstr_debug :: "cstr \<Rightarrow> u8 list outcome" where
  "cstr_debug c = and_then (to_bytes c) (\<lambda>bytes. Inr ([34] @ concat (map (\<lambda>b. escape_all (escape_default b)) bytes) @ [34]))"

subsection \<open>What the iterator yields\<close>

definition escape_ok :: "escape_iter \<Rightarrow> bool" where
  "escape_ok e \<longleftrightarrow> es_start e \<le> es_end e \<and> es_end e \<le> length (es_data e)"

lemma escape_default_ok: "escape_ok (escape_default c)"
  by (simp add: escape_default_def escape_ok_def Let_def)

text \<open>The iterator is a list popped at both ends, an instance of the interface that path components keep too.\<close>

lemma escape_next_left:
  assumes "escape_ok e"
  shows "case escape_next e of
      (None, e') \<Rightarrow> escape_left e = [] \<and> e' = e
    | (Some b, e') \<Rightarrow> escape_left e = b # escape_left e' \<and> escape_ok e'"
proof (cases "es_start e < es_end e")
  case True
  then have "escape_left e = es_data e ! es_start e # drop (Suc (es_start e)) (take (es_end e) (es_data e))"
    using assms by (simp add: escape_left_def escape_ok_def Cons_nth_drop_Suc [symmetric])
  then show ?thesis using True assms by (simp add: escape_next_def escape_left_def escape_ok_def)
qed (use assms in \<open>simp add: escape_next_def escape_left_def\<close>)

lemma escape_next_back_left:
  assumes "escape_ok e"
  shows "case escape_next_back e of
      (None, e') \<Rightarrow> escape_left e = [] \<and> e' = e
    | (Some b, e') \<Rightarrow> escape_left e = escape_left e' @ [b] \<and> escape_ok e'"
proof (cases "es_start e < es_end e")
  case True
  then obtain k where k: "es_end e = Suc k" by (cases "es_end e") auto
  then have "take (es_end e) (es_data e) = take k (es_data e) @ [es_data e ! k]"
    using assms by (simp add: escape_ok_def take_Suc_conv_app_nth)
  then have "escape_left e = drop (es_start e) (take k (es_data e)) @ [es_data e ! k]"
    using True assms k by (simp add: escape_left_def escape_ok_def)
  then show ?thesis using True assms k by (simp add: escape_next_back_def escape_left_def escape_ok_def)
qed (use assms in \<open>simp add: escape_next_back_def escape_left_def\<close>)

definition escape_step :: "bool \<Rightarrow> escape_iter \<Rightarrow> u8 option \<times> escape_iter" where
  "escape_step rv = (if rv then escape_next_back else escape_next)"

interpretation escape_ends: double_ended escape_ok escape_left escape_step
proof
  fix e :: escape_iter and x xs rv
  assume e: "escape_ok e"
  note laws = escape_next_left [OF e] escape_next_back_left [OF e]
  show "escape_left e = [] \<Longrightarrow>
      fst (escape_step rv e) = None \<and> escape_ok (snd (escape_step rv e)) \<and> escape_left (snd (escape_step rv e)) = []"
    using laws e by (auto simp: escape_step_def split: prod.splits option.splits)
  show "escape_left e = x # xs \<Longrightarrow> fst (escape_step False e) = Some x \<and>
      escape_ok (snd (escape_step False e)) \<and> escape_left (snd (escape_step False e)) = xs"
    using laws(1) by (auto simp: escape_step_def split: prod.splits option.splits)
  show "escape_left e = xs @ [x] \<Longrightarrow> fst (escape_step True e) = Some x \<and>
      escape_ok (snd (escape_step True e)) \<and> escape_left (snd (escape_step True e)) = xs"
    using laws(2) by (auto simp: escape_step_def split: prod.splits option.splits)
qed

lemma escape_all_left: "escape_ok e \<Longrightarrow> escape_all e = escape_left e"
proof (induction e rule: escape_all.induct)
  case (1 e)
  then show ?case using escape_next_left [OF 1(2)]
    by (auto simp: escape_all.simps [of e] split: prod.splits option.splits)
qed

subsection \<open>Escapes are unambiguous\<close>

definition unhex :: "u8 \<Rightarrow> u8" where
  "unhex b = (if b < 97 then b - 48 else b - 87)"

text \<open>The byte that a text begins with, and the rest.\<close>

definition unescape_one :: "u8 list \<Rightarrow> u8 \<times> u8 list" where
  "unescape_one t =
     (if t ! 0 \<noteq> 92 then (t ! 0, drop 1 t)
      else if t ! 1 = 120 then (16 * unhex (t ! 2) + unhex (t ! 3), drop 4 t)
      else ((if t ! 1 = 116 then 9 else if t ! 1 = 114 then 13 else if t ! 1 = 110 then 10 else t ! 1), drop 2 t))"

lemma unhex_hexify: "16 * unhex (hexify (drop_bit 4 c)) + unhex (hexify (c AND 0xF)) = c" for c :: u8
proof -
  have "list_all (\<lambda>n. let c = word_of_nat n :: u8 in 16 * unhex (hexify (drop_bit 4 c)) + unhex (hexify (c AND 0xF)) = c) [0..<256]"
    by code_simp
  moreover have "unat c \<in> set [0..<256]" using unsigned_less [of c] by simp
  ultimately have "let c = word_of_nat (unat c) :: u8 in 16 * unhex (hexify (drop_bit 4 c)) + unhex (hexify (c AND 0xF)) = c"
    unfolding list_all_iff by (rule bspec)
  then show ?thesis by (simp add: Let_def)
qed

lemma escape_all_default:
  "escape_all (escape_default c) =
     (if c = 9 then [92, 116] else if c = 13 then [92, 114] else if c = 10 then [92, 110] else if c = 92 then [92, 92]
      else if c = 39 then [92, 39] else if c = 34 then [92, 34] else if 0x20 \<le> c \<and> c \<le> 0x7E then [c]
      else [92, 120, hexify (drop_bit 4 c), hexify (c AND 0xF)])"
  unfolding escape_all_left [OF escape_default_ok] by (simp add: escape_left_def escape_default_def)

lemma unescape_escape: "unescape_one (escape_all (escape_default c) @ rest) = (c, rest)"
  unfolding escape_all_default by (simp add: unescape_one_def unhex_hexify)

lemma escape_nonempty [simp]: "escape_all (escape_default c) \<noteq> []"
  by (simp add: escape_all_default)

lemma escapes_injective:
  "concat (map (\<lambda>b. escape_all (escape_default b)) xs) = concat (map (\<lambda>b. escape_all (escape_default b)) ys) \<Longrightarrow> xs = ys"
proof (induction xs arbitrary: ys)
  case Nil
  then show ?case by (cases ys) simp_all
next
  case (Cons x xs)
  show ?case
  proof (cases ys)
    case Nil
    then show ?thesis using Cons.prems by simp
  next
    case (Cons y ys')
    then have "unescape_one (escape_all (escape_default x) @ concat (map (\<lambda>b. escape_all (escape_default b)) xs)) =
        unescape_one (escape_all (escape_default y) @ concat (map (\<lambda>b. escape_all (escape_default b)) ys'))"
      using Cons.prems by simp
    then show ?thesis using Cons.IH [of ys'] Cons by (simp add: unescape_escape)
  qed
qed

text \<open>The debug form tells C strings apart.\<close>

lemma cstr_debug_injective:
  assumes "cstr_ok a" "cstr_ok b" "cstr_debug a = cstr_debug b"
  shows "a = b"
proof -
  obtain x y where "a = x @ [0]" "b = y @ [0]" using assms(1,2) by (auto simp: cstr_ok_def)
  then show ?thesis using assms(3) escapes_injective [of x y] by (simp add: cstr_debug_def to_bytes_def and_then_def)
qed

end
