(* ===== verification/PathOrder.thy ===== *)
theory PathOrder
  imports PathSpec Order
begin

text \<open>
  Platform strings, \<open>std/src/ffi/os_str.rs\<close> over \<open>std/src/sys/ros/mod.rs\<close>, and the order and the hash of paths,
  \<open>std/src/path.rs\<close>. Paths compare and hash by the components that their iterators yield, not by their bytes: as keys of
  a collection, paths that are spelled differently have to agree in all three.
\<close>

subsection \<open>Platform strings\<close>

definition os_new :: os_str where
  "os_new = []"

definition os_push :: "os_str \<Rightarrow> os_str \<Rightarrow> os_str" where
  "os_push s buf = buf @ s"

definition os_clear :: "os_str \<Rightarrow> os_str" where
  "os_clear buf = []"

definition os_to_str :: "os_str \<Rightarrow> u8 list option" where
  "os_to_str s = from_utf8 s"

definition os_into_string :: "os_str \<Rightarrow> os_str + u8 list" where
  "os_into_string buf = (case from_utf8 buf of Some t \<Rightarrow> Inr t | None \<Rightarrow> Inl buf)"

definition os_to_string_lossy :: "os_str \<Rightarrow> u8 list" where
  "os_to_string_lossy s = utf8_lossy s"

definition os_is_empty :: "os_str \<Rightarrow> bool" where
  "os_is_empty s \<longleftrightarrow> s = []"

definition os_len :: "os_str \<Rightarrow> nat" where
  "os_len s = length s"

definition os_clone_into :: "os_str \<Rightarrow> os_str \<Rightarrow> os_str" where
  "os_clone_into s target = os_push s (os_clear target)"

definition os_eq :: "os_str \<Rightarrow> os_str \<Rightarrow> bool" where
  "os_eq s t \<longleftrightarrow> s = t"

definition os_cmp :: "os_str \<Rightarrow> os_str \<Rightarrow> ordering" where
  "os_cmp s t = slice_cmp s t"

text \<open>A \<open>Hasher\<close> is a state that values are written into; \<open>hash\<close> of a slice writes its length first.\<close>

record 'h hasher =
  hw_bytes :: "u8 list \<Rightarrow> 'h \<Rightarrow> 'h"
  hw_u8 :: "u8 \<Rightarrow> 'h \<Rightarrow> 'h"
  hw_usize :: "usize \<Rightarrow> 'h \<Rightarrow> 'h"
  hw_isize :: "i64 \<Rightarrow> 'h \<Rightarrow> 'h"

definition os_hash :: "'h hasher \<Rightarrow> os_str \<Rightarrow> 'h \<Rightarrow> 'h" where
  "os_hash H s h = hw_bytes H s (hw_usize H (of_nat (length s)) h)"

subsection \<open>The order and the hash of components\<close>

text \<open>The derived implementations: the position of the constructor, then the fields. A prefix component counts by its
  parsed prefix only.\<close>

definition prefix_num :: "prefix \<Rightarrow> nat" where
  "prefix_num p =
     (case p of
        Verbatim _ \<Rightarrow> 0 | VerbatimUNC _ _ \<Rightarrow> 1 | VerbatimDisk _ \<Rightarrow> 2 | DeviceNS _ \<Rightarrow> 3 | UNC _ _ \<Rightarrow> 4 | Disk _ \<Rightarrow> 5)"

definition prefix_cmp :: "prefix \<Rightarrow> prefix \<Rightarrow> ordering" where
  "prefix_cmp p q =
     ordering_then (nat_cmp (prefix_num p) (prefix_num q))
       (case (p, q) of
          (Verbatim a, Verbatim b) \<Rightarrow> os_cmp a b
        | (VerbatimUNC a c, VerbatimUNC b d) \<Rightarrow> ordering_then (os_cmp a b) (os_cmp c d)
        | (VerbatimDisk a, VerbatimDisk b) \<Rightarrow> u8_cmp a b
        | (DeviceNS a, DeviceNS b) \<Rightarrow> os_cmp a b
        | (UNC a c, UNC b d) \<Rightarrow> ordering_then (os_cmp a b) (os_cmp c d)
        | (Disk a, Disk b) \<Rightarrow> u8_cmp a b
        | _ \<Rightarrow> Equal)"

definition prefix_hash :: "'h hasher \<Rightarrow> prefix \<Rightarrow> 'h \<Rightarrow> 'h" where
  "prefix_hash H p h =
     (let h = hw_isize H (of_nat (prefix_num p)) h in
      case p of
        Verbatim a \<Rightarrow> os_hash H a h
      | VerbatimUNC a b \<Rightarrow> os_hash H b (os_hash H a h)
      | VerbatimDisk a \<Rightarrow> hw_u8 H a h
      | DeviceNS a \<Rightarrow> os_hash H a h
      | UNC a b \<Rightarrow> os_hash H b (os_hash H a h)
      | Disk a \<Rightarrow> hw_u8 H a h)"

definition component_num :: "component \<Rightarrow> nat" where
  "component_num c =
     (case c of PathModel.Prefix _ _ \<Rightarrow> 0 | RootDir \<Rightarrow> 1 | CurDir \<Rightarrow> 2 | ParentDir \<Rightarrow> 3 | Normal _ \<Rightarrow> 4)"

definition component_eq :: "component \<Rightarrow> component \<Rightarrow> bool" where
  "component_eq c d \<longleftrightarrow>
     (case (c, d) of
        (PathModel.Prefix _ p, PathModel.Prefix _ q) \<Rightarrow> p = q
      | (Normal a, Normal b) \<Rightarrow> os_eq a b
      | _ \<Rightarrow> component_num c = component_num d)"

definition component_cmp :: "component \<Rightarrow> component \<Rightarrow> ordering" where
  "component_cmp c d =
     ordering_then (nat_cmp (component_num c) (component_num d))
       (case (c, d) of
          (PathModel.Prefix _ p, PathModel.Prefix _ q) \<Rightarrow> prefix_cmp p q
        | (Normal a, Normal b) \<Rightarrow> os_cmp a b
        | _ \<Rightarrow> Equal)"

definition component_hash :: "'h hasher \<Rightarrow> component \<Rightarrow> 'h \<Rightarrow> 'h" where
  "component_hash H c h =
     (let h = hw_isize H (of_nat (component_num c)) h in
      case c of
        PathModel.Prefix _ p \<Rightarrow> prefix_hash H p h
      | Normal a \<Rightarrow> os_hash H a h
      | _ \<Rightarrow> h)"

subsection \<open>The order and the hash of paths\<close>

function comps_cmp :: "components \<Rightarrow> components \<Rightarrow> ordering" where
  "comps_cmp c d =
     (case (components_next c, components_next d) of
        ((None, _), (None, _)) \<Rightarrow> Equal
      | ((None, _), (Some _, _)) \<Rightarrow> Less
      | ((Some _, _), (None, _)) \<Rightarrow> Greater
      | ((Some x, c'), (Some y, d')) \<Rightarrow>
          (case component_cmp x y of Equal \<Rightarrow> comps_cmp c' d' | Less \<Rightarrow> Less | Greater \<Rightarrow> Greater))"
  by pat_completeness auto

termination
  by (relation "measure (\<lambda>(c, d). comps_weight c)") (auto dest: components_next_less [OF sym])

declare comps_cmp.simps [simp del]

definition path_cmp :: "os_str \<Rightarrow> os_str \<Rightarrow> ordering" where
  "path_cmp p q = comps_cmp (path_components p) (path_components q)"

function comps_hash :: "'h hasher \<Rightarrow> components \<Rightarrow> 'h \<Rightarrow> 'h" where
  "comps_hash H c h =
     (case components_next c of
        (None, _) \<Rightarrow> h
      | (Some x, c') \<Rightarrow> comps_hash H c' (component_hash H x h))"
  by pat_completeness auto

termination
  by (relation "measure (\<lambda>(H, c, h). comps_weight c)") (auto dest: components_next_less [OF sym])

declare comps_hash.simps [simp del]

definition path_hash :: "'h hasher \<Rightarrow> os_str \<Rightarrow> 'h \<Rightarrow> 'h" where
  "path_hash H p = comps_hash H (path_components p)"

subsection \<open>The laws\<close>

text \<open>The fields of a prefix and of a component, as a list of byte strings.\<close>

definition prefix_fields :: "prefix \<Rightarrow> u8 list list" where
  "prefix_fields p =
     (case p of
        Verbatim a \<Rightarrow> [a] | VerbatimUNC a b \<Rightarrow> [a, b] | VerbatimDisk a \<Rightarrow> [[a]] | DeviceNS a \<Rightarrow> [a] | UNC a b \<Rightarrow> [a, b] | Disk a \<Rightarrow> [[a]])"

definition component_fields :: "component \<Rightarrow> u8 list list" where
  "component_fields c =
     (case c of PathModel.Prefix _ p \<Rightarrow> [of_nat (prefix_num p)] # prefix_fields p | Normal a \<Rightarrow> [a] | _ \<Rightarrow> [])"

lemma then_Equal [simp]: "ordering_then o1 Equal = o1" "ordering_then Equal o1 = o1" "ordering_then Less o1 = Less"
  "ordering_then Greater o1 = Greater"
  by (simp_all add: ordering_then_def)

lemma u8_cmp_slice: "u8_cmp a b = slice_cmp [a] [b]"
  by (simp add: u8_cmp_def)

lemma prefix_cmp_fields:
  "prefix_cmp p q = ordering_then (nat_cmp (prefix_num p) (prefix_num q)) (lex_cmp slice_cmp (prefix_fields p) (prefix_fields q))"
  by (cases p; cases q) (simp_all add: prefix_cmp_def prefix_num_def prefix_fields_def os_cmp_def u8_cmp_slice nat_cmp_def ordering_then_def)

lemma prefix_num_cmp: "nat_cmp (prefix_num p) (prefix_num q) = slice_cmp [of_nat (prefix_num p)] [of_nat (prefix_num q)]"
  by (cases p; cases q) (simp_all add: prefix_num_def nat_cmp_def)

lemma prefix_cmp_key:
  "prefix_cmp p q = lex_cmp slice_cmp ([of_nat (prefix_num p)] # prefix_fields p) ([of_nat (prefix_num q)] # prefix_fields q)"
  by (simp only: prefix_cmp_fields prefix_num_cmp lex_cmp.simps)

lemma component_cmp_fields:
  "component_cmp c d = ordering_then (nat_cmp (component_num c) (component_num d)) (lex_cmp slice_cmp (component_fields c) (component_fields d))"
  by (cases c; cases d)
    (simp_all add: component_cmp_def component_num_def component_fields_def os_cmp_def nat_cmp_def prefix_cmp_key del: slice_cmp_simps)

lemma prefix_eq_fields: "p = q \<longleftrightarrow> prefix_num p = prefix_num q \<and> prefix_fields p = prefix_fields q"
  by (cases p; cases q) (simp_all add: prefix_num_def prefix_fields_def)

lemma prefix_num_word: "(of_nat (prefix_num p) :: u8) = of_nat (prefix_num q) \<longleftrightarrow> prefix_num p = prefix_num q"
  by (cases p; cases q) (simp_all add: prefix_num_def)

lemma component_eq_fields: "component_eq c d \<longleftrightarrow> component_num c = component_num d \<and> component_fields c = component_fields d"
  by (cases c; cases d)
    (simp_all add: component_eq_def component_num_def component_fields_def os_eq_def prefix_eq_fields prefix_num_word)

interpretation component_ord: ord_laws component_cmp component_eq
proof -
  have "ord_laws (lex_cmp slice_cmp) (=)" using slice_ord.lex_laws by (simp add: list.rel_eq)
  from ord_laws_then [OF nat_ord.ord_laws_axioms this, of component_num component_fields]
  show "ord_laws component_cmp component_eq"
    unfolding component_cmp_fields [abs_def] component_eq_fields [abs_def] .
qed

text \<open>No component of a path on this platform is a prefix, so equality of components is that of the logic.\<close>

definition plain :: "component \<Rightarrow> bool" where
  "plain c \<longleftrightarrow> component_num c \<noteq> 0"

lemma component_eq_plain: "plain c \<Longrightarrow> component_eq c d \<longleftrightarrow> c = d"
  by (cases c; cases d) (simp_all add: plain_def component_eq_def component_num_def os_eq_def)

lemma comps_cmp_remaining:
  "comps_inv c \<Longrightarrow> comps_inv d \<Longrightarrow> comps_cmp c d = lex_cmp component_cmp (remaining c) (remaining d)"
proof (induction c d rule: comps_cmp.induct)
  case (1 c d)
  obtain x c' y d' where st: "components_next c = (x, c')" "components_next d = (y, d')" by fastforce
  have pc: "pops_front c (x, c')" "pops_front d (y, d')"
    using components_next_pops 1(2,3) st by metis+
  show ?case
  proof (cases x; cases y)
    fix a b
    assume xy: "x = Some a" "y = Some b"
    then show ?thesis
      using pc 1(1)[OF refl st(1)[symmetric] xy(1) st(2)[symmetric] xy(2)]
      by (cases "component_cmp a b") (simp_all add: comps_cmp.simps [of c d] st pops_front_def ordering_then_def)
  qed (use pc in \<open>simp_all add: comps_cmp.simps [of c d] st pops_front_def\<close>)
qed

lemma comps_hash_remaining: "comps_inv c \<Longrightarrow> comps_hash H c h = fold (component_hash H) (remaining c) h"
proof (induction H c h rule: comps_hash.induct)
  case (1 H c h)
  obtain x c' where st: "components_next c = (x, c')" by fastforce
  then have pc: "pops_front c (x, c')" using components_next_pops 1(2) by metis
  show ?case
  proof (cases x)
    case (Some a)
    then show ?thesis using pc 1(1)[OF st[symmetric] Some] by (simp add: comps_hash.simps [of H c] st pops_front_def)
  qed (use pc in \<open>simp add: comps_hash.simps [of H c] st pops_front_def\<close>)
qed

lemma path_cmp_components: "path_cmp p q = lex_cmp component_cmp (comps_of p) (comps_of q)"
  by (simp add: path_cmp_def comps_cmp_remaining comps_inv_start remaining_start)

lemma path_hash_components: "path_hash H p h = fold (component_hash H) (comps_of p) h"
  by (simp add: path_hash_def comps_hash_remaining comps_inv_start remaining_start)

lemma comps_of_plain: "\<forall>c \<in> set (comps_of p). plain c"
  by (auto simp: comps_of_def lead_def body_comps_def segment_def plain_def component_num_def split: list.splits if_splits)

lemma path_eq_lists: "path_eq p q \<longleftrightarrow> list_all2 component_eq (comps_of p) (comps_of q)"
proof -
  have "list_all2 component_eq xs ys \<longleftrightarrow> xs = ys" if "\<forall>c \<in> set xs. plain c" for xs ys
    using that by (induction xs arbitrary: ys) (auto simp: list_all2_Cons1 component_eq_plain)
  then show ?thesis using comps_of_plain [of p] by (simp add: path_eq_components)
qed

interpretation path_ord: ord_laws path_cmp path_eq
proof
  note l = component_ord.lex_laws
  fix p q r
  show "path_cmp p q = Equal \<longleftrightarrow> path_eq p q"
    unfolding path_cmp_components path_eq_lists by (rule ord_laws.cmp_eq [OF l])
  show "path_cmp q p = ordering_reverse (path_cmp p q)"
    unfolding path_cmp_components by (rule ord_laws.cmp_swap [OF l])
  show "path_cmp p q = Less \<Longrightarrow> path_cmp q r = Less \<Longrightarrow> path_cmp p r = Less"
    unfolding path_cmp_components by (rule ord_laws.cmp_less_trans [OF l])
  show "path_eq p q \<Longrightarrow> path_cmp p r = path_cmp q r"
    unfolding path_cmp_components path_eq_lists by (rule ord_laws.cmp_cong [OF l])
qed

text \<open>C20: Paths are sound keys of ordered and of hashed collections, however they are spelled: the order is total,
  transitive, and says equal exactly when \<open>==\<close> does; equal paths stand at the same place of the order and write the same into any
  hasher.\<close>

theorem path_keys_agree:
  "(path_cmp p q = Equal \<longleftrightarrow> path_eq p q) \<and> (path_cmp p q = Less \<longleftrightarrow> path_cmp q p = Greater) \<and>
   (path_cmp p q = Less \<and> path_cmp q r = Less \<longrightarrow> path_cmp p r = Less) \<and>
   (path_eq p q \<longrightarrow> path_cmp p r = path_cmp q r \<and> path_hash H p h = path_hash H q h)"
  using path_ord.cmp_eq [of p q] path_ord.cmp_greater [of q p] path_ord.cmp_less_trans [of p q r] path_ord.cmp_cong [of p q r]
  by (auto simp: path_hash_components path_eq_components)

text \<open>\<open>/a//b/\<close> and \<open>/a/./b\<close> are one key, below \<open>/a/c\<close>; the hasher keeps what it is given.\<close>

definition recording_hasher :: "u8 list hasher" where
  "recording_hasher = \<lparr>hw_bytes = (\<lambda>b h. h @ b), hw_u8 = (\<lambda>b h. h @ [b]), hw_usize = (\<lambda>n h. h @ [ucast n]), hw_isize = (\<lambda>n h. h @ [ucast n])\<rparr>"

theorem path_keys_agree_witness:
  "path_eq [47, 97, 47, 47, 98, 47] [47, 97, 47, 46, 47, 98] \<and>
   path_cmp [47, 97, 47, 47, 98, 47] [47, 97, 47, 99] = path_cmp [47, 97, 47, 46, 47, 98] [47, 97, 47, 99] \<and>
   path_cmp [47, 97, 47, 46, 47, 98] [47, 97, 47, 99] = Less \<and>
   path_hash recording_hasher [47, 97, 47, 47, 98, 47] [] =
   path_hash recording_hasher [47, 97, 47, 46, 47, 98] []"
proof -
  let ?p = "[47, 97, 47, 47, 98, 47] :: u8 list" and ?q = "[47, 97, 47, 46, 47, 98] :: u8 list"
  have "comps_of ?p = [RootDir, Normal [97], Normal [98]]" "comps_of ?q = [RootDir, Normal [97], Normal [98]]"
    "comps_of [47, 97, 47, 99] = [RootDir, Normal [97], Normal [99]]"
    by (simp_all add: comps_of_def lead_def body_comps_def segment_def)
  then have "path_eq ?p ?q" "path_cmp ?q [47, 97, 47, 99] = Less"
    by (simp_all add: path_eq_components path_cmp_components component_cmp_def component_num_def os_cmp_def nat_cmp_def u8_cmp_def)
  moreover from this(1) have "path_cmp ?p [47, 97, 47, 99] = path_cmp ?q [47, 97, 47, 99] \<and> path_hash recording_hasher ?p [] = path_hash recording_hasher ?q []"
    by (rule path_keys_agree [THEN conjunct2, THEN conjunct2, THEN conjunct2, THEN mp])
  ultimately show ?thesis by (simp only: simp_thms)
qed

end
