(* ===== verification/Spec2Isabelle.thy ===== *)
theory Spec2Isabelle
  imports BumpAlloc Traps IoSink Bootloader ShellCat KernelRun IoString HashDrop IoCursor IoChars Ascii PathOrder
begin

text \<open>
  A verification development for OSymandias, an operating system kernel for the Raspberry Pi 3 written in Rust.
  Theories carry the names of the parts they model; paths below are relative to \<open>src/\<close>.

  \<^bold>\<open>The program.\<close> The boot loader (\<open>bootloader/\<close>) receives a kernel over the serial line and jumps to it. The kernel
  (\<open>kernel/\<close>) sets up its heap from the memory map that the firmware leaves in a chain of tags, mounts a FAT32 file
  system from the SD card, creates two processes and starts the scheduler; each process is a shell on the serial
  console. A timer interrupt preempts the running process, and the one system call puts it to sleep. The devices are
  driven by \<open>pi/\<close> through \<open>volatile/\<close>, and \<open>std/\<close> is the standard library cut down to this platform: paths, I/O
  traits with buffering, C strings and the hash collections are what remains of it beside re-exports.

  \<^bold>\<open>How code becomes definitions.\<close> One definition per function, in the order of the source. Machine integers are words
  of their width (\<open>Prelude\<close>); arithmetic wraps, as in the release build, and the checked, saturating and wrapping
  operations of the source are written out. A panic is the left value of the sum \<open>outcome\<close>, errors are datatypes of the
  component, and an early return is a branch. Code on devices or on other shared state is a computation of \<open>IoMonad\<close>:
  from a state to a result and a new state, to a panic, or to \<open>None\<close> when it does not return. Loops that could run
  for ever are \<open>partial_function (option)\<close>, so that returning is part of what is proved; the other loops are
  recursive functions with a measure. There is no fuel. Memory is a function from addresses: cells of 64 bits for the
  allocators, whose pointers are aligned, and bytes for tags, boot loader and C strings.

  \<^bold>\<open>Memory.\<close> \<open>AlignUtil\<close>, \<open>LinkedList\<close>, \<open>BumpAlloc\<close> and \<open>BinAlloc\<close> model \<open>kernel/src/allocator/\<close>. The bin allocator
  keeps its free list inside the free memory. \<open>BinSpec\<close> specifies it on lists of blocks, \<open>BinRefine\<close>, \<open>BinRefine2\<close>
  and \<open>BinCorrect\<close> show that the code refines the specification: every operation returns, but for the panics of a layout above \<open>2 ^ 63\<close> bytes and of freeing a block above all free
  memory, the free list stays sorted and disjoint, and live blocks are aligned, disjoint and keep their contents. \<open>HeapApi\<close> states this contract as the
  locale \<open>heap_allocator\<close>, interpreted on both allocators. \<open>Atags\<close> (\<open>pi/src/atags/\<close>), \<open>MutexModel\<close>
  (\<open>kernel/src/mutex.rs\<close>) and \<open>KernelAlloc\<close> (\<open>kernel/src/allocator/mod.rs\<close>) make the heap of the kernel from the tags.

  \<^bold>\<open>Devices.\<close> \<open>Volatile\<close>, \<open>Gpio\<close>, \<open>Timer\<close>, \<open>Interrupt\<close> and \<open>Uart\<close> model \<open>volatile/\<close> and \<open>pi/src/\<close> over a bus, an argument
  that says what a read and a write of a register do. The predicate \<open>uart_device\<close> states what the hardware manual promises
  of a serial port: input may arrive while the driver waits, and a store to the data register is sent only when the
  transmitter has space, nothing being said of other stores; \<open>free_running\<close> that the counter runs, its two halves being read one after
  the other, and \<open>wakes\<close> that an armed timer ends a wait for an interrupt after some bounded time. The witnesses have a
  concrete port and a concrete clock that satisfy them. \<open>Console\<close>
  (\<open>kernel/src/console.rs\<close>) is the port behind its lazy initialization and its mutex. \<open>Fs\<close> (\<open>kernel/src/fs/\<close>) is the SD
  driver around the C controller and the locked file system around the FAT32 crate.

  \<^bold>\<open>Processes.\<close> \<open>TrapFrame\<close>, \<open>Syndrome\<close>, \<open>Process\<close>, \<open>Scheduler\<close> and \<open>Traps\<close> model \<open>kernel/src/process/\<close> and
  \<open>kernel/src/traps/\<close>: stacks and trap frames from the heap, the queue of processes with their states, the blocking
  switch, the handlers and the system call. The theorems show that switching keeps every process with its frame,
  that the queue is served in turn, that a timer interrupt hands the processor on, and that a process that sleeps runs
  again no earlier than it asked, measured on the counter of the hardware. \<open>Multitask\<close> puts them together: the abstract system is processes with registers of
  their own (\<open>vstep\<close>), the concrete one a single register file that user code and the handlers change (\<open>kstep\<close>), and the
  interpretation of the locale \<open>simulation\<close> shows that every run of the second is one of the first; the handlers always
  come back with a process to run, torn readings of the counter included. A breakpoint runs a shell that works on the console and the devices, not on the
  scheduler.

  \<^bold>\<open>Library.\<close> \<open>PathModel\<close> and \<open>PathSpec\<close> (\<open>std/src/path.rs\<close>): the iterator over components refines the list of
  components from both ends (locale \<open>double_ended\<close>, which the escapes of \<open>Ascii\<close> keep too), and the operations on paths are stated by it. \<open>Order\<close> has the laws of comparison as the locale
  \<open>ord_laws\<close>, with the order of sequences proved from that of their elements; \<open>PathOrder\<close> (\<open>std/src/ffi/os_str.rs\<close> and the
  rest of \<open>std/src/path.rs\<close>) interprets it for components and paths and adds their hashes, \<open>FfiCStr\<close> does for C strings.
  \<open>IoError\<close>, \<open>IoRead\<close>, \<open>IoBuffered\<close>, \<open>IoCursor\<close>
  and \<open>IoChars\<close> (\<open>std/src/io/\<close>, \<open>std/src/memchr.rs\<close>) model readers, writers, buffering, cursors and characters. The
  locales \<open>byte_source\<close>, \<open>buf_source\<close> and \<open>byte_sink\<close> of \<open>IoSource\<close> and \<open>IoSink\<close> are the contracts of the traits; what the
  default methods do is proved from them once, and slices, vectors, cursors and the wrappers are shown to keep them.
  \<open>IoString\<close> shows that strings stay valid UTF-8. \<open>HashTable\<close>, \<open>HashMapModel\<close> and \<open>HashSetModel\<close>
  (\<open>std/src/collections/hash/\<close>) model Robin Hood hashing; \<open>HashInv\<close> to \<open>HashRetain\<close> show that its invariant is kept and
  what every operation does, \<open>HashRefine\<close> and \<open>HashSetSpec\<close> state the interfaces of maps and sets as locales and
  interpret them, \<open>HashPlace\<close> follows in-place insertion, and \<open>HashProps\<close> collects the results, with the exact condition under
  which a table cannot grow. \<open>HashDrop\<close> models what becomes of the elements of a table that is
  consumed, dropped or cloned: each is moved out or dropped once. \<open>FfiCStr\<close> and \<open>Ascii\<close> (\<open>std/src/ffi/c_str.rs\<close>,
  \<open>std/src/ascii.rs\<close>, \<open>strlen\<close> of \<open>std/src/sys/ros/mod.rs\<close>) model C strings and their debug form.

  \<^bold>\<open>The whole.\<close> \<open>ShellPath\<close>, \<open>Shell\<close>, \<open>ShellSpec\<close> and \<open>ShellCat\<close> (\<open>kernel/src/shell.rs\<close>) model line editing, the
  commands and the loop around them, on the console, the path library and the buffered reader of the library.
  \<open>Bootloader\<close> (\<open>bootloader/src/\<close>) models the memory functions and the main loop, \<open>Kernel\<close> (\<open>kernel/src/kmain.rs\<close>) the
  boot sequence over all components, up to the jump into the first process, and \<open>KernelRun\<close> continues it with
  \<open>Multitask\<close>, to every state that the kernel reaches after power-on.

  \<^bold>\<open>Arguments and hypotheses.\<close> Code that is not part of the repository is an argument: the FAT32 crate, \<open>StackVec\<close>,
  \<open>Xmodem::receive\<close>, the C controller of the SD card, and the hash function of a map, which is any function of the
  key. So are the hardware, the heap that a hash table asks for memory, the growth of a vector and what the formatting
  machinery writes. The heap of a hash table answers each request by its layout alone. Where a theorem relies on them its hypotheses say how, and its witness has a concrete instance.

  \<^bold>\<open>Not modelled.\<close> Assembly and linker scripts (start-up, exception vectors, context switch), single processor
  instructions, build scripts, tests, and the modules of \<open>std/\<close> whose declarations are commented out. Debug output is
  left out except where the program prints it. Drops of values that own only memory are not steps,
  but for those of hash tables, C strings and stacks. The keys of a map are compared by
  equality, and the closure of \<open>retain\<close> is a function of its arguments. The heap used by queues, vectors and boxes of the
  library is not accounted for, that of stacks and trap frames is. Interrupts arrive between the steps of the
  handlers, never inside them, since the kernel runs with interrupts masked on a single core.
\<close>

end
